(* ===== verification/Prelude.thy ===== *)
theory Prelude
  imports Main "HOL-Library.Word" "HOL-Library.Sublist"
begin

text \<open>
  Shared vocabulary of the development: byte strings, the automation collections, list
  facts used by several components, and the two interfaces that more than one component
  implements:

  \<^item> \<open>stream_consumer\<close>: a component that is fed a byte stream in chunks of whatever size
    \<open>read(2)\<close> returns and emits outputs (the frame decoder). Its provider shows that it simulates a
    specification on the whole stream; the client lemma is that the chunk boundaries are
    not observable.
  \<^item> \<open>transition_system\<close>: a component driven by a sequence of events (lock reducer, session).
    Its provider shows that one event keeps the invariant; the client lemma is that every
    run keeps it.

  Integers: \<open>u8\<close>, \<open>u16\<close> and \<open>u32\<close> values that cross the wire or index a bit pattern are words;
  \<open>usize\<close> lengths and \<open>u64\<close> identifiers and counters, which only grow by one per event,
  are \<open>nat\<close>.
\<close>

type_synonym byte = "8 word"
type_synonym bytes = "byte list"
type_synonym client_id = nat

named_theorems hyoui_defs \<open>definitions unfolded by the component proofs\<close>

subsection \<open>List facts\<close>

lemma take_length_le_append [simp]:
  "n \<le> length xs \<Longrightarrow> take n (xs @ ys) = take n xs"
  by simp

lemma drop_le_append [simp]:
  "n \<le> length xs \<Longrightarrow> drop n (xs @ ys) = drop n xs @ ys"
  by simp

lemma filter_cong_unique:
  "distinct (map f xs) \<Longrightarrow> x \<in> set xs \<Longrightarrow> y \<in> set xs \<Longrightarrow> f x = f y \<Longrightarrow> x = y"
  by (metis distinct_map inj_onD)

text \<open>The last \<open>n\<close> elements of a list, the content of every bounded ring of the program.\<close>

definition take_last :: "nat \<Rightarrow> 'a list \<Rightarrow> 'a list" where
  "take_last n xs = drop (length xs - n) xs"

lemma length_take_last [simp]: "length (take_last n xs) = min n (length xs)"
  by (simp add: take_last_def)

lemma take_last_all [simp]: "length xs \<le> n \<Longrightarrow> take_last n xs = xs"
  by (simp add: take_last_def)

lemma take_last_0 [simp]: "take_last 0 xs = []"
  by (simp add: take_last_def)

lemma take_last_Nil [simp]: "take_last n [] = []"
  by (simp add: take_last_def)

lemma take_last_append:
  "take_last n (xs @ ys) = (if n \<le> length ys then take_last n ys else take_last (n - length ys) xs @ ys)"
  by (auto simp: take_last_def)

lemma take_last_take_last_append:
  "take_last n (take_last n xs @ ys) = take_last n (xs @ ys)"
proof (cases "n \<le> length xs")
  case True
  then have "length xs + length ys - n = (length xs - n) + length ys" by simp
  with True show ?thesis
    by (auto simp: take_last_def drop_append add.commute)
next
  case False
  then show ?thesis by simp
qed

lemma take_last_suffix: "suffix (take_last n xs) xs"
  by (simp add: take_last_def suffix_drop)

subsection \<open>Decimal numbers\<close>

fun decimal :: "nat \<Rightarrow> string" where
  "decimal n = (if n < 10 then [''0123456789'' ! n]
                else decimal (n div 10) @ [''0123456789'' ! (n mod 10)])"

declare decimal.simps [simp del]

lemma decimal_inj: "decimal m = decimal n \<Longrightarrow> m = n"
proof (induction m arbitrary: n rule: less_induct)
  case (less m)
  have digit: "''0123456789'' ! (a mod 10) = ''0123456789'' ! (b mod 10) \<longleftrightarrow> a mod 10 = b mod 10"
    for a b :: nat by (subst nth_eq_iff_index_eq) auto
  have low: "decimal k = [''0123456789'' ! (k mod 10)]" if "k < 10" for k
    using that by (subst decimal.simps) simp
  have high: "decimal k = decimal (k div 10) @ [''0123456789'' ! (k mod 10)]" if "\<not> k < 10" for k
    using that by (subst decimal.simps) simp
  have ne: "decimal k \<noteq> []" for k by (subst decimal.simps) simp
  show ?case
  proof (cases "m < 10"; cases "n < 10")
    assume "m < 10" "n < 10"
    then show ?thesis using less.prems digit [of m n] low by simp
  next
    assume "\<not> m < 10" "\<not> n < 10"
    moreover from this less.prems have eq: "decimal (m div 10) = decimal (n div 10)" "m mod 10 = n mod 10"
      using digit [of m n] high [of m] high [of n] by (metis append1_eq_conv)+
    ultimately have "m div 10 = n div 10" by (intro less.IH) simp_all
    with eq(2) show ?thesis by (metis div_mult_mod_eq)
  next
    assume "m < 10" "\<not> n < 10"
    then have "length (decimal m) = 1" "length (decimal n) > 1"
      using ne [of "n div 10"] low [of m] high [of n] by simp_all
    then show ?thesis using less.prems by simp
  next
    assume "\<not> m < 10" "n < 10"
    then have "length (decimal m) > 1" "length (decimal n) = 1"
      using ne [of "m div 10"] low [of n] high [of m] by simp_all
    then show ?thesis using less.prems by simp
  qed
qed

subsection \<open>Lowercase hexadecimal (the format \<open>{byte:02x}\<close>)\<close>

definition hex_digit :: "nat \<Rightarrow> char" where
  "hex_digit n = ''0123456789abcdef'' ! (n mod 16)"

definition hex_byte :: "byte \<Rightarrow> string" where
  "hex_byte b = [hex_digit (unat b div 16), hex_digit (unat b mod 16)]"

lemma hex_digit_inj: "m < 16 \<Longrightarrow> n < 16 \<Longrightarrow> hex_digit m = hex_digit n \<Longrightarrow> m = n"
proof -
  assume "m < 16" "n < 16" and e: "hex_digit m = hex_digit n"
  have "distinct ''0123456789abcdef''" by simp
  moreover have "''0123456789abcdef'' ! m = ''0123456789abcdef'' ! n"
    using e \<open>m < 16\<close> \<open>n < 16\<close> by (simp add: hex_digit_def)
  moreover have "m < length ''0123456789abcdef''" "n < length ''0123456789abcdef''"
    using \<open>m < 16\<close> \<open>n < 16\<close> by simp_all
  ultimately show "m = n" by (meson nth_eq_iff_index_eq)
qed

lemma hex_byte_inj: "hex_byte a = hex_byte b \<Longrightarrow> a = b"
proof -
  assume e: "hex_byte a = hex_byte b"
  have lt: "unat x < 256" for x :: byte using unsigned_less [of x, where ?'a = nat] by simp
  have "unat a div 16 = unat b div 16"
    using e lt [of a] lt [of b] by (intro hex_digit_inj) (auto simp: hex_byte_def)
  moreover have "unat a mod 16 = unat b mod 16"
    using e by (intro hex_digit_inj) (auto simp: hex_byte_def)
  ultimately show "a = b" by (metis div_mult_mod_eq word_unat_eq_iff)
qed

lemma hex_bytes_inj: "concat (map hex_byte xs) = concat (map hex_byte ys) \<Longrightarrow> xs = ys"
proof (induction xs arbitrary: ys)
  case Nil
  then show ?case by (cases ys) (auto simp: hex_byte_def)
next
  case (Cons x xs)
  then obtain y ys' where ys: "ys = y # ys'" by (cases ys) (auto simp: hex_byte_def)
  have len: "length (hex_byte z) = 2" for z by (simp add: hex_byte_def)
  from Cons.prems ys have "hex_byte x @ concat (map hex_byte xs) = hex_byte y @ concat (map hex_byte ys')" by simp
  then have "hex_byte x = hex_byte y" "concat (map hex_byte xs) = concat (map hex_byte ys')"
    by (simp_all add: append_eq_append_conv len)
  with Cons.IH ys hex_byte_inj show ?case by auto
qed

subsection \<open>Consumers of a chunked stream\<close>

fun feed_chunks :: "('s \<Rightarrow> 'a list \<Rightarrow> 's \<times> 'o list) \<Rightarrow> 's \<Rightarrow> 'a list list \<Rightarrow> 's \<times> 'o list" where
  "feed_chunks feed s [] = (s, [])"
| "feed_chunks feed s (c # cs) =
     (let (s1, o1) = feed s c; (s2, o2) = feed_chunks feed s1 cs in (s2, o1 @ o2))"

locale stream_consumer =
  fixes feed :: "'s \<Rightarrow> 'a list \<Rightarrow> 's \<times> 'o list"
    and rel :: "'s \<Rightarrow> 'p \<Rightarrow> bool"
    and spec :: "'p \<Rightarrow> 'a list \<Rightarrow> 'p \<times> 'o list"
  assumes feed_rel: "rel s p \<Longrightarrow> rel (fst (feed s xs)) (fst (spec p xs))"
    and feed_out: "rel s p \<Longrightarrow> snd (feed s xs) = snd (spec p xs)"
    and spec_nil: "rel s p \<Longrightarrow> spec p [] = (p, [])"
    and spec_append: "spec p (xs @ ys) =
          (let (p1, o1) = spec p xs; (p2, o2) = spec p1 ys in (p2, o1 @ o2))"
begin

lemma chunks_refine_spec:
  assumes "rel s p"
  shows "rel (fst (feed_chunks feed s cs)) (fst (spec p (concat cs)))
       \<and> snd (feed_chunks feed s cs) = snd (spec p (concat cs))"
  using assms
proof (induction cs arbitrary: s p)
  case Nil
  then show ?case by (simp add: spec_nil)
next
  case (Cons c cs)
  obtain s1 o1 where f: "feed s c = (s1, o1)" by fastforce
  obtain p1 q1 where g: "spec p c = (p1, q1)" by fastforce
  from feed_rel [OF Cons.prems, of c] feed_out [OF Cons.prems, of c] f g
  have r1: "rel s1 p1" and o1: "o1 = q1" by auto
  from Cons.IH [OF r1] f g o1 show ?case
    by (auto simp: spec_append split: prod.splits)
qed

theorem chunks_out: "rel s p \<Longrightarrow> snd (feed_chunks feed s cs) = snd (spec p (concat cs))"
  using chunks_refine_spec by blast

theorem chunk_boundaries_invisible:
  assumes "rel s p" and "concat cs = concat ds"
  shows "snd (feed_chunks feed s cs) = snd (feed_chunks feed s ds)"
  using assms by (simp add: chunks_out)

end

subsection \<open>Runs of a deterministic machine\<close>

fun run_events :: "('s \<Rightarrow> 'e \<Rightarrow> 's) \<Rightarrow> 's \<Rightarrow> 'e list \<Rightarrow> 's" where
  "run_events step s [] = s"
| "run_events step s (e # es) = run_events step (step s e) es"

lemma run_events_append [simp]:
  "run_events step s (es @ fs) = run_events step (run_events step s es) fs"
  by (induction es arbitrary: s) auto

locale transition_system =
  fixes step :: "'s \<Rightarrow> 'e \<Rightarrow> 's"
    and init :: "'s"
    and inv :: "'s \<Rightarrow> bool"
    and ok :: "'e \<Rightarrow> bool"
  assumes inv_init: "inv init"
    and inv_step: "inv s \<Longrightarrow> ok e \<Longrightarrow> inv (step s e)"
begin

lemma inv_run: "inv s \<Longrightarrow> list_all ok es \<Longrightarrow> inv (run_events step s es)"
  by (induction es arbitrary: s) (auto intro: inv_step)

theorem inv_reachable: "list_all ok es \<Longrightarrow> inv (run_events step init es)"
  by (rule inv_run [OF inv_init])

end

end
