(* ===== verification/Frame.thy ===== *)
theory Frame
  imports Prelude
begin

text \<open>
  The wire frame layer, \<^verbatim>\<open>crates/hyoui/src/protocol/frame.rs\<close>: the frame layout
  \<open>[u32 LE size][u8 type][body]\<close>, the blocking reader \<open>decode_from\<close> and the incremental
  \<open>FrameDecoder\<close> that the serve loop uses, with its buffer compaction.

  The lemmas show that encoding and both decoders agree on every byte stream, that
  the chunking of the stream is invisible, that the decoder neither loses nor invents
  bytes, and that the capacity it retains is bounded.
\<close>

subsection \<open>Constants, errors, frames\<close>

definition MAX_FRAME_SIZE :: nat where "MAX_FRAME_SIZE = 16 * 1024 * 1024"
definition TYPE_RAW_DATA :: byte where "TYPE_RAW_DATA = 0x00"
definition TYPE_CBOR_CONTROL :: byte where "TYPE_CBOR_CONTROL = 0x01"
definition TYPE_RAW_ACK :: byte where "TYPE_RAW_ACK = 0x02"
definition SIZE_HEADER_LEN :: nat where "SIZE_HEADER_LEN = 4"
definition RETAINED_CAPACITY :: nat where "RETAINED_CAPACITY = 64 * 1024"

lemmas frame_consts [hyoui_defs] =
  TYPE_RAW_DATA_def TYPE_CBOR_CONTROL_def TYPE_RAW_ACK_def SIZE_HEADER_LEN_def

datatype protocol_error =
    FrameTooLarge "32 word"
  | FrameTooSmall "32 word"
  | UnknownType byte
  | UnexpectedEof string

datatype frame_error = FrameIo | FrameProtocol protocol_error

record frame =
  frame_ty :: byte
  frame_body :: bytes

definition raw_data :: "bytes \<Rightarrow> frame" where
  "raw_data b = \<lparr>frame_ty = TYPE_RAW_DATA, frame_body = b\<rparr>"
definition cbor_control :: "bytes \<Rightarrow> frame" where
  "cbor_control b = \<lparr>frame_ty = TYPE_CBOR_CONTROL, frame_body = b\<rparr>"
definition raw_ack :: "bytes \<Rightarrow> frame" where
  "raw_ack b = \<lparr>frame_ty = TYPE_RAW_ACK, frame_body = b\<rparr>"

text \<open>\<open>u32::to_le_bytes\<close> and \<open>u32::from_le_bytes\<close>.\<close>

definition u32_to_le_bytes :: "32 word \<Rightarrow> bytes" where
  "u32_to_le_bytes w =
     [of_nat (unat w mod 256), of_nat (unat w div 256 mod 256),
      of_nat (unat w div 65536 mod 256), of_nat (unat w div 16777216 mod 256)]"

fun u32_from_le_bytes :: "bytes \<Rightarrow> 32 word" where
  "u32_from_le_bytes [a, b, c, d] =
     of_nat (unat a + 256 * unat b + 65536 * unat c + 16777216 * unat d)"
| "u32_from_le_bytes _ = 0"

subsection \<open>Encoding\<close>

text \<open>
  \<open>encode_to\<close> builds header and body in one buffer and hands it to \<open>write_all\<close>; the result
  is that buffer. \<open>usize\<close> is 64 bits: \<open>checked_add\<close> fails only at \<open>2^64\<close>. The reported
  size of a too large frame is truncated to 32 bits, as the \<open>as u32\<close> cast does.
\<close>

definition encode_to :: "frame \<Rightarrow> protocol_error + bytes" where
  "encode_to f =
     (let sz = length (frame_body f) + 1 in
      if sz \<ge> 2 ^ 64 then Inl (FrameTooLarge (- 1))
      else if sz > MAX_FRAME_SIZE then Inl (FrameTooLarge (of_nat sz))
      else Inr (u32_to_le_bytes (of_nat sz) @ [frame_ty f] @ frame_body f))"

subsection \<open>The blocking reader\<close>

text \<open>
  A reader is the bytes it will still deliver and whether it then fails with an I/O error
  (\<open>True\<close>) or ends (\<open>False\<close>, the peer closed).
\<close>

type_synonym reader = "bytes \<times> bool"

fun read_exact_eof :: "reader \<Rightarrow> nat \<Rightarrow> string \<Rightarrow> frame_error + (bytes \<times> reader)" where
  "read_exact_eof (bs, broken) n what =
     (if n \<le> length bs then Inr (take n bs, (drop n bs, broken))
      else if broken then Inl FrameIo
      else Inl (FrameProtocol (UnexpectedEof what)))"

definition check_size :: "32 word \<Rightarrow> protocol_error option" where
  "check_size sz =
     (if unat sz > MAX_FRAME_SIZE then Some (FrameTooLarge sz)
      else if sz < 1 then Some (FrameTooSmall sz)
      else None)"

definition check_type :: "byte \<Rightarrow> protocol_error option" where
  "check_type t =
     (if t \<noteq> TYPE_RAW_DATA \<and> t \<noteq> TYPE_CBOR_CONTROL \<and> t \<noteq> TYPE_RAW_ACK
      then Some (UnknownType t) else None)"

definition decode_from :: "reader \<Rightarrow> frame_error + (frame \<times> reader)" where
  "decode_from r =
     (case read_exact_eof r 4 ''size header'' of
        Inl e \<Rightarrow> Inl e
      | Inr (size_buf, r1) \<Rightarrow>
          (let sz = u32_from_le_bytes size_buf in
           case check_size sz of
             Some e \<Rightarrow> Inl (FrameProtocol e)
           | None \<Rightarrow>
               (case read_exact_eof r1 1 ''type byte'' of
                  Inl e \<Rightarrow> Inl e
                | Inr (ty_buf, r2) \<Rightarrow>
                    (let t = hd ty_buf in
                     case check_type t of
                       Some e \<Rightarrow> Inl (FrameProtocol e)
                     | None \<Rightarrow>
                         (let body_len = unat (sz - 1) in
                          if body_len > 0 then
                            (case read_exact_eof r2 body_len ''body'' of
                               Inl e \<Rightarrow> Inl e
                             | Inr (b, r3) \<Rightarrow> Inr (\<lparr>frame_ty = t, frame_body = b\<rparr>, r3))
                          else Inr (\<lparr>frame_ty = t, frame_body = []\<rparr>, r2))))))"

subsection \<open>The incremental decoder\<close>

text \<open>
  \<open>fd_cap\<close> is the capacity of the buffer's allocation. How a \<open>Vec\<close> grows is not specified
  beyond providing room for what is appended, so \<open>push\<close> takes the growth policy as an
  argument (old capacity, needed length); it is only called when the room does not suffice.
\<close>

record frame_decoder =
  fd_buf :: bytes
  fd_pos :: nat
  fd_cap :: nat

definition fd_new :: frame_decoder where
  "fd_new = \<lparr>fd_buf = [], fd_pos = 0, fd_cap = 0\<rparr>"

definition fd_push :: "(nat \<Rightarrow> nat \<Rightarrow> nat) \<Rightarrow> frame_decoder \<Rightarrow> bytes \<Rightarrow> frame_decoder" where
  "fd_push grow d bs =
     (let buf0 = (if fd_pos d > 0 then drop (fd_pos d) (fd_buf d) else fd_buf d);
          buf1 = buf0 @ bs
      in \<lparr>fd_buf = buf1, fd_pos = 0,
          fd_cap = (if length buf1 \<le> fd_cap d then fd_cap d else grow (fd_cap d) (length buf1))\<rparr>)"

definition fd_complete_frame_len :: "frame_decoder \<Rightarrow> protocol_error + nat option" where
  "fd_complete_frame_len d =
     (let avail = drop (fd_pos d) (fd_buf d) in
      if length avail < SIZE_HEADER_LEN then Inr None
      else let sz = u32_from_le_bytes (take SIZE_HEADER_LEN avail) in
        case check_size sz of
          Some e \<Rightarrow> Inl e
        | None \<Rightarrow>
            if length avail \<le> SIZE_HEADER_LEN then Inr None
            else
              (case check_type (avail ! SIZE_HEADER_LEN) of
                 Some e \<Rightarrow> Inl e
               | None \<Rightarrow>
                   (let tot = SIZE_HEADER_LEN + unat sz in
                    if length avail \<ge> tot then Inr (Some tot) else Inr None)))"

definition fd_next_frame :: "frame_decoder \<Rightarrow> (protocol_error + frame option) \<times> frame_decoder" where
  "fd_next_frame d =
     (case fd_complete_frame_len d of
        Inl e \<Rightarrow> (Inl e, d)
      | Inr None \<Rightarrow> (Inr None, d)
      | Inr (Some tot) \<Rightarrow>
          (let start = fd_pos d;
               t = fd_buf d ! (start + SIZE_HEADER_LEN);
               b = take (tot - (SIZE_HEADER_LEN + 1)) (drop (start + SIZE_HEADER_LEN + 1) (fd_buf d));
               pos' = fd_pos d + tot;
               remaining = length (fd_buf d) - pos';
               d' = (if fd_cap d > RETAINED_CAPACITY \<and> fd_cap d div 2 \<ge> remaining
                     then \<lparr>fd_buf = drop pos' (fd_buf d), fd_pos = 0, fd_cap = remaining\<rparr>
                     else if remaining = 0
                     then \<lparr>fd_buf = [], fd_pos = 0, fd_cap = fd_cap d\<rparr>
                     else d\<lparr>fd_pos := pos'\<rparr>)
           in (Inr (Some \<lparr>frame_ty = t, frame_body = b\<rparr>), d')))"

definition fd_is_ready :: "frame_decoder \<Rightarrow> bool" where
  "fd_is_ready d \<longleftrightarrow> fd_complete_frame_len d \<noteq> Inr None"


subsection \<open>The size header\<close>

lemma length_u32_to_le_bytes [simp]: "length (u32_to_le_bytes w) = 4"
  by (simp add: u32_to_le_bytes_def)

lemma le_digits:
  assumes "n < (2 :: nat) ^ 32"
  shows "n mod 256 + 256 * (n div 256 mod 256) + 65536 * (n div 65536 mod 256)
      + 16777216 * (n div 16777216 mod 256) = n"
proof -
  have d: "n div 65536 = n div 256 div 256" "n div 16777216 = n div 256 div 256 div 256"
    by (simp_all add: div_mult2_eq [symmetric])
  have "n div 256 div 256 div 256 < 256"
    using assms by (simp add: div_mult2_eq [symmetric] less_mult_imp_div_less)
  then have "n div 256 div 256 div 256 mod 256 = n div 256 div 256 div 256" by simp
  moreover have "256 * (n div 256) + n mod 256 = n"
    "256 * (n div 256 div 256) + n div 256 mod 256 = n div 256"
    "256 * (n div 256 div 256 div 256) + n div 256 div 256 mod 256 = n div 256 div 256"
    by (simp_all add: mult_div_mod_eq)
  ultimately show ?thesis unfolding d by linarith
qed

lemma unat_of_nat_mod_byte: "unat (of_nat (m mod 256) :: byte) = m mod 256"
  by (simp add: unat_of_nat)

lemma u32_le_roundtrip [simp]: "u32_from_le_bytes (u32_to_le_bytes w) = w"
proof -
  have "unat w < 2 ^ 32" using unsigned_less [of w, where ?'a = nat] by simp
  from le_digits [OF this] show ?thesis
    by (simp only: u32_to_le_bytes_def u32_from_le_bytes.simps unat_of_nat_mod_byte of_nat_unat ucast_id)
qed

lemma check_size_None_iff:
  "check_size sz = None \<longleftrightarrow> 1 \<le> unat sz \<and> unat sz \<le> MAX_FRAME_SIZE"
  by (auto simp: check_size_def word_less_nat_alt)

lemma check_type_None_iff:
  "check_type t = None \<longleftrightarrow> t \<in> {TYPE_RAW_DATA, TYPE_CBOR_CONTROL, TYPE_RAW_ACK}"
  by (auto simp: check_type_def)

lemma check_type_constructors [simp]:
  "check_type (frame_ty (raw_data b)) = None"
  "check_type (frame_ty (cbor_control b)) = None"
  "check_type (frame_ty (raw_ack b)) = None"
  by (simp_all add: check_type_def raw_data_def cbor_control_def raw_ack_def)

subsection \<open>The reference parser\<close>

text \<open>What the bytes of a stream mean, independent of any buffer: the first frame of a
  byte string, \<open>None\<close> when more bytes are needed, or the protocol error it starts with.\<close>

definition parse_frame :: "bytes \<Rightarrow> protocol_error + (frame \<times> bytes) option" where
  "parse_frame bs =
     (if length bs < 4 then Inr None
      else let sz = u32_from_le_bytes (take 4 bs) in
        case check_size sz of
          Some e \<Rightarrow> Inl e
        | None \<Rightarrow>
            if length bs < 5 then Inr None
            else (case check_type (bs ! 4) of
                    Some e \<Rightarrow> Inl e
                  | None \<Rightarrow>
                      if length bs < 4 + unat sz then Inr None
                      else Inr (Some (\<lparr>frame_ty = bs ! 4, frame_body = take (unat sz - 1) (drop 5 bs)\<rparr>,
                                      drop (4 + unat sz) bs))))"

lemma parse_frame_shrinks:
  "parse_frame bs = Inr (Some (f, rest)) \<Longrightarrow> length rest < length bs"
  by (auto simp: parse_frame_def check_size_None_iff Let_def split: if_splits option.splits)

lemma parse_frame_append_Some:
  "parse_frame xs = Inr (Some (f, rest)) \<Longrightarrow> parse_frame (xs @ ys) = Inr (Some (f, rest @ ys))"
  by (auto simp: parse_frame_def Let_def nth_append split: if_splits option.splits)

lemma parse_frame_append_Inl:
  "parse_frame xs = Inl e \<Longrightarrow> parse_frame (xs @ ys) = Inl e"
  by (cases "ys = []")
    (auto simp: parse_frame_def Let_def nth_append neq_Nil_conv split: if_splits option.splits)

lemma parse_frame_Nil [simp]: "parse_frame [] = Inr None"
  by (simp add: parse_frame_def)

function parse_all :: "bytes \<Rightarrow> frame list \<times> bytes \<times> protocol_error option" where
  "parse_all bs =
     (case parse_frame bs of
        Inl e \<Rightarrow> ([], [], Some e)
      | Inr None \<Rightarrow> ([], bs, None)
      | Inr (Some (f, rest)) \<Rightarrow> (let (fs, r, e) = parse_all rest in (f # fs, r, e)))"
  by pat_completeness auto
termination
  by (relation "measure length") (auto dest: parse_frame_shrinks)

declare parse_all.simps [simp del]

lemma parse_all_None [simp]: "parse_frame bs = Inr None \<Longrightarrow> parse_all bs = ([], bs, None)"
  by (subst parse_all.simps) simp

lemma parse_all_Inl [simp]: "parse_frame bs = Inl e \<Longrightarrow> parse_all bs = ([], [], Some e)"
  by (subst parse_all.simps) simp

lemma parse_all_Some:
  "parse_frame bs = Inr (Some (f, rest)) \<Longrightarrow>
   parse_all bs = (let (fs, r, e) = parse_all rest in (f # fs, r, e))"
  by (subst parse_all.simps) simp

lemma parse_all_append:
  "parse_all (xs @ ys) =
     (let (fs, r, e) = parse_all xs in
      case e of Some err \<Rightarrow> (fs, [], e)
      | None \<Rightarrow> (let (gs, r', e') = parse_all (r @ ys) in (fs @ gs, r', e')))"
proof (induction xs rule: parse_all.induct)
  case (1 bs)
  show ?case
  proof (cases "parse_frame bs")
    case (Inl e)
    then show ?thesis by (simp add: parse_frame_append_Inl)
  next
    case (Inr x)
    show ?thesis
    proof (cases x)
      case None
      with Inr show ?thesis by (simp split: prod.splits)
    next
      case (Some y)
      obtain f rest where y: "y = (f, rest)" by (cases y)
      from Inr Some y have p: "parse_frame bs = Inr (Some (f, rest))" by simp
      note IH = "1" [OF Inr Some y [symmetric]]
      show ?thesis
        by (simp add: parse_all_Some [OF p] parse_all_Some [OF parse_frame_append_Some [OF p]] IH
              split: prod.splits option.splits)
    qed
  qed
qed

lemma parse_all_rest_incomplete:
  "parse_all bs = (fs, r, None) \<Longrightarrow> parse_frame r = Inr None"
proof (induction bs arbitrary: fs rule: parse_all.induct)
  case (1 bs)
  then show ?case
    by (subst (asm) (2) parse_all.simps) (auto split: sum.splits option.splits prod.splits)
qed


lemma parse_all_error_rest: "parse_all bs = (fs, r, Some e) \<Longrightarrow> r = []"
proof (induction bs arbitrary: fs rule: parse_all.induct)
  case (1 bs)
  then show ?case
    by (subst (asm) (2) parse_all.simps) (auto split: sum.splits option.splits prod.splits)
qed

subsection \<open>The decoder refines the reference parser\<close>

definition fd_pending :: "frame_decoder \<Rightarrow> bytes" where
  "fd_pending d = drop (fd_pos d) (fd_buf d)"

definition fd_inv :: "frame_decoder \<Rightarrow> bool" where
  "fd_inv d \<longleftrightarrow> fd_pos d \<le> length (fd_buf d)"

lemma fd_inv_new [simp]: "fd_inv fd_new" and fd_pending_new [simp]: "fd_pending fd_new = []"
  by (simp_all add: fd_inv_def fd_pending_def fd_new_def)

lemma fd_inv_push [simp]: "fd_inv (fd_push grow d bs)"
  by (simp add: fd_inv_def fd_push_def Let_def)

lemma fd_pending_push [simp]: "fd_pending (fd_push grow d bs) = fd_pending d @ bs"
  by (simp add: fd_pending_def fd_push_def Let_def)

text \<open>The decoder's length computation is the reference parser with the frame left in place.\<close>

lemma fd_complete_frame_len_parse:
  "fd_complete_frame_len d =
     (case parse_frame (fd_pending d) of
        Inl e \<Rightarrow> Inl e
      | Inr None \<Rightarrow> Inr None
      | Inr (Some (f, rest)) \<Rightarrow> Inr (Some (length (fd_pending d) - length rest)))"
  by (auto simp: fd_complete_frame_len_def parse_frame_def fd_pending_def SIZE_HEADER_LEN_def Let_def
      split: if_splits option.splits)

lemma fd_next_frame_refines:
  assumes "fd_inv d"
  shows "fst (fd_next_frame d) = map_sum id (map_option fst) (parse_frame (fd_pending d))"
    and "fd_inv (snd (fd_next_frame d))"
    and "fd_pending (snd (fd_next_frame d)) =
           (case parse_frame (fd_pending d) of Inr (Some (f, rest)) \<Rightarrow> rest | _ \<Rightarrow> fd_pending d)"
proof -
  have "fst (fd_next_frame d) = map_sum id (map_option fst) (parse_frame (fd_pending d))
      \<and> fd_inv (snd (fd_next_frame d))
      \<and> fd_pending (snd (fd_next_frame d)) =
           (case parse_frame (fd_pending d) of Inr (Some (f, rest)) \<Rightarrow> rest | _ \<Rightarrow> fd_pending d)"
  proof (cases "parse_frame (fd_pending d)")
    case (Inl e)
    with assms show ?thesis by (simp add: fd_next_frame_def fd_complete_frame_len_parse)
  next
    case (Inr x)
    show ?thesis
    proof (cases x)
      case None
      with Inr assms show ?thesis by (simp add: fd_next_frame_def fd_complete_frame_len_parse)
    next
      case (Some y)
      obtain f rest where y: "y = (f, rest)" by (cases y)
      define n where "n = 4 + unat (u32_from_le_bytes (take 4 (fd_pending d)))"
      from Inr Some y have p: "parse_frame (fd_pending d) = Inr (Some (f, rest))" by simp
      then have f: "f = \<lparr>frame_ty = fd_pending d ! 4, frame_body = take (n - 5) (drop 5 (fd_pending d))\<rparr>"
        and r: "rest = drop n (fd_pending d)" and n: "5 \<le> n" "n \<le> length (fd_pending d)"
        by (auto simp: parse_frame_def n_def Let_def check_size_None_iff split: if_splits option.splits)
      have len: "fd_complete_frame_len d = Inr (Some n)"
        using n by (simp add: fd_complete_frame_len_parse p r)
      have le: "fd_pos d + n \<le> length (fd_buf d)"
        using n assms by (simp add: fd_pending_def fd_inv_def)
      show ?thesis
        using le n by (auto simp: p [unfolded fd_pending_def] f r fd_next_frame_def len fd_inv_def fd_pending_def Let_def
            SIZE_HEADER_LEN_def add.commute add.left_commute)
    qed
  qed
  then show "fst (fd_next_frame d) = map_sum id (map_option fst) (parse_frame (fd_pending d))"
    and "fd_inv (snd (fd_next_frame d))"
    and "fd_pending (snd (fd_next_frame d)) =
           (case parse_frame (fd_pending d) of Inr (Some (f, rest)) \<Rightarrow> rest | _ \<Rightarrow> fd_pending d)"
    by blast+
qed

lemma fd_is_ready_iff: "fd_is_ready d \<longleftrightarrow> parse_frame (fd_pending d) \<noteq> Inr None"
  by (auto simp: fd_is_ready_def fd_complete_frame_len_parse split: sum.splits option.splits)

subsection \<open>Feeding the decoder\<close>

text \<open>
  The receiving loop: after each \<open>push\<close>, frames are taken out until none is complete or the
  stream is broken. A broken stream ends the connection, so later bytes are ignored.
  The fuel is the number of buffered bytes, one more than the frames they can hold.
\<close>

fun fd_drain :: "nat \<Rightarrow> frame_decoder \<Rightarrow> frame list \<times> frame_decoder \<times> protocol_error option" where
  "fd_drain 0 d = ([], d, None)"
| "fd_drain (Suc n) d =
     (case fd_next_frame d of
        (Inl e, d') \<Rightarrow> ([], d', Some e)
      | (Inr None, d') \<Rightarrow> ([], d', None)
      | (Inr (Some f), d') \<Rightarrow> (let (fs, d'', e) = fd_drain n d' in (f # fs, d'', e)))"

definition fd_feed ::
  "(nat \<Rightarrow> nat \<Rightarrow> nat) \<Rightarrow> frame_decoder \<times> protocol_error option \<Rightarrow> bytes
    \<Rightarrow> (frame_decoder \<times> protocol_error option) \<times> frame list" where
  "fd_feed grow = (\<lambda>(d, e) bs.
     (case e of
        Some _ \<Rightarrow> ((d, e), [])
      | None \<Rightarrow>
          (let d1 = fd_push grow d bs;
               (fs, d', e') = fd_drain (Suc (length (fd_pending d1))) d1
           in ((d', e'), fs))))"

declare fd_drain.simps(2) [simp del]

lemma fd_drain_parse_all:
  assumes "fd_inv d" and "length (fd_pending d) < n"
  shows "\<exists>d'. fd_drain n d = (fst (parse_all (fd_pending d)), d', snd (snd (parse_all (fd_pending d))))
           \<and> fd_inv d' \<and> (snd (snd (parse_all (fd_pending d))) = None \<longrightarrow>
                fd_pending d' = fst (snd (parse_all (fd_pending d))))"
  using assms
proof (induction n arbitrary: d)
  case 0
  then show ?case by simp
next
  case (Suc n)
  note ref = fd_next_frame_refines [OF Suc.prems(1)]
  obtain res d1 where nf: "fd_next_frame d = (res, d1)" by fastforce
  show ?case
  proof (cases "parse_frame (fd_pending d)")
    case (Inl e)
    with ref nf show ?thesis by (auto simp: fd_drain.simps(2))
  next
    case (Inr x)
    show ?thesis
    proof (cases x)
      case None
      with Inr ref nf show ?thesis by (auto simp: fd_drain.simps(2))
    next
      case (Some y)
      obtain f rest where y: "y = (f, rest)" by (cases y)
      from Inr Some y have p: "parse_frame (fd_pending d) = Inr (Some (f, rest))" by simp
      with ref nf have res: "res = Inr (Some f)" "fd_inv d1" "fd_pending d1 = rest" by auto
      from parse_frame_shrinks [OF p] Suc.prems res have "length (fd_pending d1) < n" by simp
      from Suc.IH [OF res(2) this] res nf p show ?thesis
        by (auto simp: fd_drain.simps(2) parse_all_Some [OF p] split: prod.splits)
    qed
  qed
qed

text \<open>The specification on the stream: everything received so far, parsed.\<close>

fun frames_spec ::
  "bytes \<times> protocol_error option \<Rightarrow> bytes \<Rightarrow> (bytes \<times> protocol_error option) \<times> frame list" where
  "frames_spec (b, Some e) xs = ((b, Some e), [])"
| "frames_spec (b, None) xs = (let (fs, r, e) = parse_all (b @ xs) in ((r, e), fs))"

definition fd_rel :: "frame_decoder \<times> protocol_error option \<Rightarrow> bytes \<times> protocol_error option \<Rightarrow> bool" where
  "fd_rel s p \<longleftrightarrow> fd_inv (fst s) \<and> snd s = snd p \<and>
     (snd p = None \<longrightarrow> fd_pending (fst s) = fst p \<and> parse_frame (fst p) = Inr None)"

interpretation frame_stream: stream_consumer "fd_feed grow" fd_rel frames_spec for grow
proof
  fix s p xs assume r: "fd_rel s p"
  obtain d e where s: "s = (d, e)" by (cases s)
  obtain b e' where p: "p = (b, e')" by (cases p)
  have both: "fd_rel (fst (fd_feed grow s xs)) (fst (frames_spec p xs))
      \<and> snd (fd_feed grow s xs) = snd (frames_spec p xs)"
  proof (cases e)
    case (Some err)
    with r s p show ?thesis by (auto simp: fd_feed_def fd_rel_def)
  next
    case None
    with r s p have b: "fd_pending d = b" "e' = None" by (auto simp: fd_rel_def)
    obtain d' where d': "fd_drain (Suc (length (fd_pending (fd_push grow d xs)))) (fd_push grow d xs)
        = (fst (parse_all (b @ xs)), d', snd (snd (parse_all (b @ xs))))" "fd_inv d'"
      "snd (snd (parse_all (b @ xs))) = None \<longrightarrow> fd_pending d' = fst (snd (parse_all (b @ xs)))"
      using fd_drain_parse_all [OF fd_inv_push lessI, of grow d xs] b by auto
    with None s p b show ?thesis
      by (auto simp: fd_feed_def fd_rel_def split: prod.splits intro: parse_all_rest_incomplete)
  qed
  then show "fd_rel (fst (fd_feed grow s xs)) (fst (frames_spec p xs))"
    and "snd (fd_feed grow s xs) = snd (frames_spec p xs)" by auto
  show "frames_spec p [] = (p, [])"
    using r p by (cases e') (auto simp: fd_rel_def)
next
  fix p xs ys
  show "frames_spec p (xs @ ys) =
      (let (p1, o1) = frames_spec p xs; (p2, o2) = frames_spec p1 ys in (p2, o1 @ o2))"
  proof (cases p)
    case (Pair b e)
    then show ?thesis
      by (cases e) (auto simp: parse_all_append [of "b @ xs" ys, simplified] dest: parse_all_error_rest
          split: prod.splits option.splits)
  qed
qed


subsection \<open>Encoding and decoding\<close>

definition frame_ok :: "frame \<Rightarrow> bool" where
  "frame_ok f \<longleftrightarrow> check_type (frame_ty f) = None \<and> length (frame_body f) < MAX_FRAME_SIZE"

lemma parse_frame_Some_bounds:
  assumes "parse_frame bs = Inr (Some (f, rest))"
  shows "frame_ok f \<and> length rest + 5 + length (frame_body f) = length bs"
proof -
  define sz where "sz = unat (u32_from_le_bytes (take 4 bs))"
  from assms have "1 \<le> sz" "sz \<le> MAX_FRAME_SIZE" "4 + sz \<le> length bs" "check_type (bs ! 4) = None"
    "f = \<lparr>frame_ty = bs ! 4, frame_body = take (sz - 1) (drop 5 bs)\<rparr>" "rest = drop (4 + sz) bs"
    by (auto simp: parse_frame_def sz_def check_size_None_iff Let_def split: if_splits option.splits)
  then show ?thesis by (simp add: frame_ok_def)
qed

lemma MAX_FRAME_SIZE_lt: "n \<le> MAX_FRAME_SIZE \<Longrightarrow> n < 2 ^ 32"
  by (simp add: MAX_FRAME_SIZE_def)

lemma unat_of_nat_frame_size:
  "n \<le> MAX_FRAME_SIZE \<Longrightarrow> unat (of_nat n :: 32 word) = n"
  using MAX_FRAME_SIZE_lt [of n] by (simp add: unat_of_nat)

lemma encode_to_Inr_iff:
  "encode_to f = Inr bs \<longleftrightarrow>
     length (frame_body f) < MAX_FRAME_SIZE
     \<and> bs = u32_to_le_bytes (of_nat (length (frame_body f) + 1)) @ frame_ty f # frame_body f"
  by (auto simp: encode_to_def Let_def MAX_FRAME_SIZE_def)

lemma parse_frame_encoded:
  assumes "encode_to f = Inr bs" and "check_type (frame_ty f) = None"
  shows "parse_frame (bs @ rest) = Inr (Some (f, rest))"
proof -
  from assms(1) have l: "length (frame_body f) + 1 \<le> MAX_FRAME_SIZE"
    and bs: "bs = u32_to_le_bytes (of_nat (length (frame_body f) + 1)) @ frame_ty f # frame_body f"
    by (auto simp: encode_to_Inr_iff)
  note u = unat_of_nat_frame_size [OF l]
  have cs: "check_size (of_nat (length (frame_body f) + 1)) = None"
    using l unfolding check_size_None_iff u by simp
  show ?thesis
    using assms(2) u cs by (simp add: bs parse_frame_def Let_def nth_append del: of_nat_add)
qed

text \<open>The blocking reader is the reference parser with the reader's end of data put in
  place of \<open>more bytes are needed\<close>.\<close>

lemma decode_from_parse:
  "decode_from (bs, broken) =
     (case parse_frame bs of
        Inl e \<Rightarrow> Inl (FrameProtocol e)
      | Inr (Some (f, rest)) \<Rightarrow> Inr (f, (rest, broken))
      | Inr None \<Rightarrow>
          Inl (if broken then FrameIo
               else FrameProtocol (UnexpectedEof
                 (if length bs < 4 then ''size header'' else if length bs = 4 then ''type byte''
                  else ''body''))))"
proof -
  define sz where "sz = u32_from_le_bytes (take 4 bs)"
  have m: "unat (sz - 1) = unat sz - 1" if "check_size sz = None"
    using that by (simp add: check_size_None_iff unat_sub word_le_nat_alt)
  consider "length bs < 4" | "length bs \<ge> 4" "check_size sz \<noteq> None"
    | "length bs = 4" "check_size sz = None"
    | "length bs > 4" "check_size sz = None" "check_type (bs ! 4) \<noteq> None"
    | "length bs > 4" "check_size sz = None" "check_type (bs ! 4) = None"
    by linarith
  then show ?thesis
  proof cases
    case 3
    then have "sz = u32_from_le_bytes bs" by (simp add: sz_def)
    with 3 show ?thesis by (simp add: decode_from_def parse_frame_def Let_def)
  next
    case 5
    from 5(2) have "1 \<le> unat sz" by (simp add: check_size_None_iff)
    with 5 show ?thesis
      by (cases "unat sz = 1")
        (auto simp: decode_from_def parse_frame_def Let_def sz_def [symmetric] m hd_drop_conv_nth)
  qed (auto simp: decode_from_def parse_frame_def Let_def sz_def [symmetric] hd_drop_conv_nth)
qed

definition encode_all :: "frame list \<Rightarrow> bytes" where
  "encode_all fs = concat (map (\<lambda>f. case encode_to f of Inr b \<Rightarrow> b | Inl _ \<Rightarrow> []) fs)"

lemma encode_to_ok: "frame_ok f \<Longrightarrow> \<exists>bs. encode_to f = Inr bs"
  by (auto simp: frame_ok_def encode_to_Inr_iff)

lemma parse_all_encode_all:
  "list_all frame_ok fs \<Longrightarrow> parse_all (encode_all fs) = (fs, [], None)"
proof (induction fs)
  case Nil
  then show ?case by (simp add: encode_all_def)
next
  case (Cons f fs)
  then obtain bs where bs: "encode_to f = Inr bs" using encode_to_ok by auto
  have "parse_frame (bs @ encode_all fs) = Inr (Some (f, encode_all fs))"
    using Cons.prems by (intro parse_frame_encoded bs) (simp add: frame_ok_def)
  from parse_all_Some [OF this] Cons show ?case by (simp add: encode_all_def bs)
qed

lemma fd_rel_new: "fd_rel (fd_new, None) ([], None)"
  by (simp add: fd_rel_def)

subsection \<open>Properties\<close>

text \<open>C28. Wire round trip: a frame of a known type that encodes is read back unchanged by the
  blocking reader, which stops exactly at the end of that frame, whatever follows it.\<close>

theorem frame_roundtrip:
  assumes "encode_to f = Inr bs" and "check_type (frame_ty f) = None"
  shows "decode_from (bs @ rest, broken) = Inr (f, (rest, broken))"
  by (simp add: decode_from_parse parse_frame_encoded [OF assms])

theorem frame_roundtrip_witness:
  "decode_from ([3, 0, 0, 0, 1, 0xA0, 0x7F] @ [9, 9], False)
     = Inr (cbor_control [0xA0, 0x7F], ([9, 9], False))"
  by (rule frame_roundtrip)
    (simp_all add: encode_to_def cbor_control_def u32_to_le_bytes_def MAX_FRAME_SIZE_def
      frame_consts check_type_def)

text \<open>C27. Chunking is invisible: whatever sequence of well-formed frames the peer encodes, and
  however the kernel splits their bytes into reads, the incremental decoder of the serve loop
  delivers exactly those frames, in order, for every growth policy of its buffer.\<close>

theorem decoder_delivers_frames:
  assumes "list_all frame_ok fs" and "concat chunks = encode_all fs"
  shows "snd (feed_chunks (fd_feed grow) (fd_new, None) chunks) = fs"
  using frame_stream.chunks_out [OF fd_rel_new, of grow chunks] assms
  by (simp add: parse_all_encode_all)

theorem decoder_delivers_frames_witness:
  "snd (feed_chunks (fd_feed (\<lambda>_ n. n)) (fd_new, None) [[2, 0], [0, 0, 0, 65, 1], [0, 0, 0, 1]])
     = [raw_data [65], cbor_control []]"
  by (rule decoder_delivers_frames)
    (simp_all add: frame_ok_def encode_all_def encode_to_def raw_data_def cbor_control_def
      u32_to_le_bytes_def MAX_FRAME_SIZE_def frame_consts check_type_def)

text \<open>The two decoders agree on every buffer: the incremental decoder returns a frame and
  leaves the rest, reports a protocol error, or waits, exactly when the blocking reader on the
  same bytes returns that frame and rest, reports that error, or runs into the end of data.\<close>

theorem decoders_agree:
  assumes "fd_inv d"
  shows "case fd_next_frame d of
      (Inr (Some f), d') \<Rightarrow> decode_from (fd_pending d, False) = Inr (f, (fd_pending d', False)) \<and> fd_inv d'
    | (Inl e, d') \<Rightarrow> decode_from (fd_pending d, False) = Inl (FrameProtocol e) \<and> d' = d
    | (Inr None, d') \<Rightarrow> (\<exists>what. decode_from (fd_pending d, False) = Inl (FrameProtocol (UnexpectedEof what)))
                       \<and> \<not> fd_is_ready d \<and> d' = d"
proof -
  have same: "snd (fd_next_frame d) = d" if "\<forall>x. parse_frame (fd_pending d) \<noteq> Inr (Some x)"
    using that by (auto simp: fd_next_frame_def fd_complete_frame_len_parse
        split: sum.splits option.splits)
  obtain r d' where nf: "fd_next_frame d = (r, d')" by fastforce
  with fd_next_frame_refines [OF assms] same show ?thesis
    by (auto simp: decode_from_parse fd_is_ready_iff split: sum.splits option.splits)
qed

definition decoder_example :: frame_decoder where
  "decoder_example = \<lparr>fd_buf = [7, 1, 0, 0, 0, 0, 5], fd_pos = 1, fd_cap = 8\<rparr>"

theorem decoders_agree_witness:
  "fd_next_frame decoder_example =
     (Inr (Some (raw_data [])), \<lparr>fd_buf = [7, 1, 0, 0, 0, 0, 5], fd_pos = 6, fd_cap = 8\<rparr>)
   \<and> decode_from ([1, 0, 0, 0, 0, 5], False) = Inr (raw_data [], ([5], False))"
proof -
  have e: "fd_next_frame decoder_example =
     (Inr (Some (raw_data [])), \<lparr>fd_buf = [7, 1, 0, 0, 0, 0, 5], fd_pos = 6, fd_cap = 8\<rparr>)"
    by (simp add: decoder_example_def fd_next_frame_def fd_complete_frame_len_def frame_consts
        check_size_def check_type_def MAX_FRAME_SIZE_def RETAINED_CAPACITY_def raw_data_def)
  have "fd_inv decoder_example" by (simp add: fd_inv_def decoder_example_def)
  from decoders_agree [OF this] e show ?thesis
    by (simp add: fd_pending_def decoder_example_def)
qed

text \<open>Resource bounds of the decoder: a frame it yields has a known type and a body below
  16 MiB, and once a frame is taken the retained capacity is at most 64 KiB or
  twice the bytes still buffered, so one huge frame does not pin memory.\<close>

theorem decoder_bounds:
  assumes "fd_inv d" and "fd_next_frame d = (Inr (Some f), d')"
  shows "frame_ok f \<and> fd_cap d' \<le> max RETAINED_CAPACITY (2 * length (fd_pending d'))
       \<and> length (fd_pending d') + 5 + length (frame_body f) = length (fd_pending d)"
proof -
  from fd_next_frame_refines [OF assms(1)] assms(2)
  obtain rest where p: "parse_frame (fd_pending d) = Inr (Some (f, rest))" "fd_pending d' = rest"
    by (auto simp: map_sum_def split: sum.splits option.splits)
  from parse_frame_Some_bounds [OF p(1)]
  have "frame_ok f \<and> length rest + 5 + length (frame_body f) = length (fd_pending d)" .
  moreover have "fd_cap d' \<le> max RETAINED_CAPACITY (2 * length (fd_pending d'))"
    using assms(2)
    by (auto simp: fd_next_frame_def fd_pending_def Let_def split: sum.splits option.splits if_splits)
  ultimately show ?thesis using p by simp
qed

theorem decoder_bounds_witness:
  "\<exists>f d'. fd_next_frame decoder_example = (Inr (Some f), d') \<and> frame_ok f
     \<and> fd_cap d' \<le> max RETAINED_CAPACITY (2 * length (fd_pending d'))"
proof -
  have "fd_inv decoder_example" by (simp add: fd_inv_def decoder_example_def)
  moreover have "fd_next_frame decoder_example =
     (Inr (Some (raw_data [])), \<lparr>fd_buf = [7, 1, 0, 0, 0, 0, 5], fd_pos = 6, fd_cap = 8\<rparr>)"
    by (simp add: decoder_example_def fd_next_frame_def fd_complete_frame_len_def frame_consts
        check_size_def check_type_def MAX_FRAME_SIZE_def RETAINED_CAPACITY_def raw_data_def)
  ultimately show ?thesis using decoder_bounds by blast
qed

end
