(* ===== verification/Messages.thy ===== *)
theory Messages
  imports Frame
begin

text \<open>
  The vocabulary of the protocol: the payloads of
  \<^verbatim>\<open>crates/hyoui/src/protocol/messages/\<close>, the tagged union \<open>ControlMessage\<close>, the structured
  \<open>ErrorCode\<close> with its wire text, \<open>RawAck\<close>, and capability negotiation
  (\<^verbatim>\<open>protocol/caps.rs\<close>).

  CBOR itself is the third-party crate \<open>ciborium\<close>: the codec is an argument of every
  definition that encodes or decodes (\<open>control_encoder\<close>, \<open>ack_encoder\<close>, \<open>control_decoder\<close>),
  returning \<open>None\<close> where the crate reports an error.
\<close>

subsection \<open>CBOR values the source builds or inspects\<close>

datatype cbor_value =
    CNull
  | CInteger int
  | CBytes bytes
  | CText string
  | CArray "cbor_value list"
  | CMap "(cbor_value \<times> cbor_value) list"
  | COther

subsection \<open>Handshake\<close>

datatype client_mode = Rw | Ro | RwNoLeader

definition MAX_CAPS_COUNT :: nat where "MAX_CAPS_COUNT = 32"
definition MAX_CAP_LEN :: nat where "MAX_CAP_LEN = 64"
definition MAX_TOKEN_LEN :: nat where "MAX_TOKEN_LEN = 256"

record handshake_request =
  hq_caps :: "string list"
  hq_mode :: client_mode
  hq_exclusive :: bool
  hq_detach_others :: bool
  hq_token :: "string option"

record handshake_response =
  hr_caps :: "string list"
  hr_session_id :: string
  hr_client_id :: client_id
  hr_leader :: bool
  hr_mode :: client_mode
  hr_child_stopped :: bool

definition redact_token :: "string option \<Rightarrow> string" where
  \<open>redact_token t = (case t of Some _ \<Rightarrow> ''Some("<redacted>")'' | None \<Rightarrow> ''None'')\<close>

subsection \<open>Errors\<close>

datatype error_code =
    ProtocolMalformed
  | ProtocolUnexpectedKind
  | UnsupportedCapability
  | HandshakeTimeout
  | AuthTokenMismatch
  | BackpressureDisconnect
  | ModeNotAllowed
  | ModeNotLeader
  | LockDenied
  | LockNotHeld
  | SignalInvalid
  | MasterWriteTimeout
  | InternalError
  | RecordPathNotAbsolute
  | RecordOutputAlreadyExists
  | RecordOutputPermissionDenied
  | RecordUnsupportedDirectionForFormat
  | RecordInvalidPromptPattern
  | RecordLimitExceeded
  | RecordNotFound
  | RecordRedactionUnimplemented
  | SetInvalidKey
  | SetInvalidValue
  | UnknownCode string

fun error_code_as_str :: "error_code \<Rightarrow> string" where
  "error_code_as_str ProtocolMalformed = ''protocol.malformed''"
| "error_code_as_str ProtocolUnexpectedKind = ''protocol.unexpected-kind''"
| "error_code_as_str UnsupportedCapability = ''unsupported-capability''"
| "error_code_as_str HandshakeTimeout = ''handshake.timeout''"
| "error_code_as_str AuthTokenMismatch = ''auth.token-mismatch''"
| "error_code_as_str BackpressureDisconnect = ''backpressure.disconnect''"
| "error_code_as_str ModeNotAllowed = ''mode.not-allowed''"
| "error_code_as_str ModeNotLeader = ''mode.not-leader''"
| "error_code_as_str LockDenied = ''lock.denied''"
| "error_code_as_str LockNotHeld = ''lock.not-held''"
| "error_code_as_str SignalInvalid = ''signal.invalid''"
| "error_code_as_str MasterWriteTimeout = ''master.write-timeout''"
| "error_code_as_str InternalError = ''internal.error''"
| "error_code_as_str RecordPathNotAbsolute = ''record.path-not-absolute''"
| "error_code_as_str RecordOutputAlreadyExists = ''record.output-already-exists''"
| "error_code_as_str RecordOutputPermissionDenied = ''record.output-permission-denied''"
| "error_code_as_str RecordUnsupportedDirectionForFormat = ''record.unsupported-direction-for-format''"
| "error_code_as_str RecordInvalidPromptPattern = ''record.invalid-prompt-pattern''"
| "error_code_as_str RecordLimitExceeded = ''record.limit-exceeded''"
| "error_code_as_str RecordNotFound = ''record.not-found''"
| "error_code_as_str RecordRedactionUnimplemented = ''record.redaction-unimplemented''"
| "error_code_as_str SetInvalidKey = ''set.invalid-key''"
| "error_code_as_str SetInvalidValue = ''set.invalid-value''"
| "error_code_as_str (UnknownCode s) = s"

definition error_code_from_wire :: "string \<Rightarrow> error_code" where
  "error_code_from_wire s =
     (if s = ''protocol.malformed'' then ProtocolMalformed
      else if s = ''protocol.unexpected-kind'' then ProtocolUnexpectedKind
      else if s = ''unsupported-capability'' then UnsupportedCapability
      else if s = ''handshake.timeout'' then HandshakeTimeout
      else if s = ''auth.token-mismatch'' then AuthTokenMismatch
      else if s = ''backpressure.disconnect'' then BackpressureDisconnect
      else if s = ''mode.not-allowed'' then ModeNotAllowed
      else if s = ''mode.not-leader'' then ModeNotLeader
      else if s = ''lock.denied'' then LockDenied
      else if s = ''lock.not-held'' then LockNotHeld
      else if s = ''signal.invalid'' then SignalInvalid
      else if s = ''master.write-timeout'' then MasterWriteTimeout
      else if s = ''internal.error'' then InternalError
      else if s = ''record.path-not-absolute'' then RecordPathNotAbsolute
      else if s = ''record.output-already-exists'' then RecordOutputAlreadyExists
      else if s = ''record.output-permission-denied'' then RecordOutputPermissionDenied
      else if s = ''record.unsupported-direction-for-format'' then RecordUnsupportedDirectionForFormat
      else if s = ''record.invalid-prompt-pattern'' then RecordInvalidPromptPattern
      else if s = ''record.limit-exceeded'' then RecordLimitExceeded
      else if s = ''record.not-found'' then RecordNotFound
      else if s = ''record.redaction-unimplemented'' then RecordRedactionUnimplemented
      else if s = ''set.invalid-key'' then SetInvalidKey
      else if s = ''set.invalid-value'' then SetInvalidValue
      else UnknownCode s)"

record error_message =
  em_code :: error_code
  em_message :: string
  em_details :: "cbor_value option"

subsection \<open>Lock, leader and mode messages\<close>

record lock_acquire =
  la_wait :: bool
  la_timeout_abs_ms :: "nat option"
  la_timeout_idle_ms :: "nat option"
  la_process_bound :: bool

datatype lock_result = LockAcquiredResult | LockQueuedResult | LockDeniedResult | LockTimeoutResult

record lock_response =
  lr_result :: lock_result
  lr_token :: "string option"
  lr_queue_position :: "nat option"

record lock_release = lrel_token :: string

record leader_notify = ln_client_id :: "client_id option"

datatype session_mode = SessionRw | SessionRo | SessionLocked

record mode_change =
  mc_session_mode :: session_mode
  mc_lock_holder :: "client_id option"
  mc_client_mode :: "client_mode option"

subsection \<open>Raw acknowledgements\<close>

datatype raw_ack_result = AckOk | AckError

record raw_ack_msg =
  ra_result :: raw_ack_result
  ra_code :: "string option"
  ra_message :: "string option"

definition RawAck_ok :: raw_ack_msg where
  "RawAck_ok = \<lparr>ra_result = AckOk, ra_code = None, ra_message = None\<rparr>"

definition RawAck_err :: "string \<Rightarrow> string \<Rightarrow> raw_ack_msg" where
  "RawAck_err code msg = \<lparr>ra_result = AckError, ra_code = Some code, ra_message = Some msg\<rparr>"

definition CODE_MASTER_WRITE_TIMEOUT :: string where "CODE_MASTER_WRITE_TIMEOUT = ''master.write-timeout''"
definition CODE_MASTER_WRITE_PARTIAL :: string where "CODE_MASTER_WRITE_PARTIAL = ''master.write-partial''"
definition CODE_MASTER_WRITE_ERROR :: string where "CODE_MASTER_WRITE_ERROR = ''master.write-error''"
definition CODE_CLIENT_LOCK_NOT_HELD :: string where "CODE_CLIENT_LOCK_NOT_HELD = ''client.lock-not-held''"
definition CODE_CLIENT_RO_REJECTED :: string where "CODE_CLIENT_RO_REJECTED = ''client.ro-rejected''"

subsection \<open>The other payloads\<close>

record resize_msg =
  rz_cols :: "16 word"
  rz_rows :: "16 word"

datatype detach_target = Myself | Others | AllClients

record kill_msg =
  kl_signal :: "string option"
  kl_wait :: bool

datatype record_direction = DirStdin | DirStdout | DirBoth
datatype record_format = FormatRaw | FormatJsonl
datatype input_secrecy = RedactAfterPrompt | RecordAll | NeverRecordStdin

record record_start_request =
  rs_direction :: record_direction
  rs_format :: record_format
  rs_output_path :: string
  rs_max_bytes :: "nat option"
  rs_max_duration_ms :: "nat option"
  rs_input_secrecy :: input_secrecy
  rs_prompt_pattern :: "string option"

record record_info =
  ri_record_id :: nat
  ri_direction :: record_direction
  ri_format :: record_format
  ri_output_path :: string
  ri_started_unix_ms :: nat
  ri_started_by_client_id :: client_id
  ri_raw_bytes_recorded :: nat
  ri_file_bytes_written :: nat
  ri_last_flushed_unix_ms :: nat

datatype screen_dump_format = DumpAnsi | DumpBinary | DumpJson | DumpCbor | DumpTextPlain
datatype screen_dump_layer = LayerVisible | LayerScrollback | LayerBoth

record dump_rect =
  dr_x :: "16 word"
  dr_y :: "16 word"
  dr_w :: "16 word"
  dr_h :: "16 word"

record screen_dump_request =
  sdq_format :: screen_dump_format
  sdq_layer :: screen_dump_layer
  sdq_rect :: "dump_rect option"
  sdq_serial :: "nat option"

record screen_dump_response =
  sdr_payload :: bytes
  sdr_serial :: "nat option"

datatype snapshot_component =
  CompCells | CompCursor | CompMode | CompScrollback | CompWindowSize | CompBuffer | CompSequenceNo

record cursor_snap =
  cu_row :: "16 word"
  cu_col :: "16 word"
  cu_visible :: bool

record mode_snap =
  ms_alternate_screen :: bool
  ms_application_keypad :: bool
  ms_application_cursor :: bool
  ms_bracketed_paste :: bool
  ms_hide_cursor :: bool

record window_size =
  ws_rows :: "16 word"
  ws_cols :: "16 word"

datatype buffer_kind = BufPrimary | BufAlternate

record state_snapshot_response =
  ss_cells :: "bytes option"
  ss_cursor :: "cursor_snap option"
  ss_mode :: "mode_snap option"
  ss_scrollback :: "bytes option"
  ss_window_size :: "window_size option"
  ss_buffer :: "buffer_kind option"
  ss_sequence_no :: "nat option"
  ss_serial :: "nat option"

datatype on_child_suspend_policy = PolicyNotify | PolicyAutoResume

fun policy_as_str :: "on_child_suspend_policy \<Rightarrow> string" where
  "policy_as_str PolicyNotify = ''notify''"
| "policy_as_str PolicyAutoResume = ''auto-resume''"

record client_info =
  ci_client_id :: client_id
  ci_mode :: client_mode
  ci_leader :: bool
  ci_connected_at_unix_ms :: nat

datatype child_live_state = ChildRunning | ChildStopped | ChildExited "int option"

fun child_state_from_legacy :: "nat option \<Rightarrow> bool \<Rightarrow> child_live_state" where
  "child_state_from_legacy None stopped = ChildExited None"
| "child_state_from_legacy (Some pid) stopped = (if stopped then ChildStopped else ChildRunning)"

record status_response =
  st_session_id :: string
  st_child_pid :: "nat option"
  st_child_pgid :: "nat option"
  st_daemon_pid :: nat
  st_child_stopped :: bool
  st_child_state :: child_live_state
  st_clients :: "client_info list"
  st_scrollback_bytes :: nat
  st_lock_holder :: "client_id option"
  st_cwd :: string
  st_argv :: "string list"
  st_on_child_suspend :: "on_child_suspend_policy option"
  st_daemon_version :: string
  st_tags :: "(string \<times> string) list"

record tail_request =
  tr_since_ms :: "nat option"
  tr_since_strict :: bool
  tr_follow :: bool
  tr_strip_ansi :: bool
  tr_last_bytes :: "nat option"

record tail_data =
  td_bytes :: bytes
  td_timestamp_ms :: int

datatype tail_end_reason = TailEof | TailBufferTruncated | TailClientCancel | TailChildExited

record session_exit_notify =
  sx_exit_status :: int
  sx_signal :: "string option"

record session_child_stopped_notify =
  sc_pid :: nat
  sc_signal :: "string option"

record set_request =
  sr_key :: string
  sr_value :: string

record set_ack =
  sa_key :: string
  sa_value :: string

subsection \<open>The tagged union\<close>

datatype control_message =
    HandshakeRequest handshake_request
  | HandshakeResponse handshake_response
  | ErrorMsg error_message
  | ResizeMsg resize_msg
  | SignalMsg string
  | LockAcquire lock_acquire
  | LockResponse lock_response
  | LockRelease lock_release
  | LeaderRequest
  | LeaderNotify leader_notify
  | ModeChange mode_change
  | StatusQuery
  | StatusResponse status_response
  | TailRequest tail_request
  | TailData tail_data
  | TailEnd tail_end_reason
  | Detach detach_target
  | DetachAck nat
  | KillMsg kill_msg
  | KillAck string
  | ScreenDumpRequest screen_dump_request
  | ScreenDumpResponse screen_dump_response
  | StateSnapshotRequest "snapshot_component list" "nat option"
  | StateSnapshotResponse state_snapshot_response
  | SessionExitNotify session_exit_notify
  | SessionChildStoppedNotify session_child_stopped_notify
  | SessionChildResumeRequest
  | RecordStartRequest record_start_request
  | RecordStartResponse nat
  | RecordStopRequest nat
  | RecordStopAllRequest
  | RecordStopResponse nat
  | RecordListRequest
  | RecordListResponse "record_info list"
  | SetRequest set_request
  | SetAck set_ack
  | UpgradeRequest "string option"
  | UpgradeAck

text \<open>The discriminator that the \<open>serde(rename = ...)\<close> attributes give each variant.\<close>

fun control_kind :: "control_message \<Rightarrow> string" where
  "control_kind (HandshakeRequest _) = ''handshake.request''"
| "control_kind (HandshakeResponse _) = ''handshake.response''"
| "control_kind (ErrorMsg _) = ''error''"
| "control_kind (ResizeMsg _) = ''resize''"
| "control_kind (SignalMsg _) = ''signal''"
| "control_kind (LockAcquire _) = ''lock.acquire''"
| "control_kind (LockResponse _) = ''lock.response''"
| "control_kind (LockRelease _) = ''lock.release''"
| "control_kind LeaderRequest = ''leader.request''"
| "control_kind (LeaderNotify _) = ''leader.notify''"
| "control_kind (ModeChange _) = ''mode.change''"
| "control_kind StatusQuery = ''status.query''"
| "control_kind (StatusResponse _) = ''status.response''"
| "control_kind (TailRequest _) = ''tail.request''"
| "control_kind (TailData _) = ''tail.data''"
| "control_kind (TailEnd _) = ''tail.end''"
| "control_kind (Detach _) = ''detach''"
| "control_kind (DetachAck _) = ''detach.ack''"
| "control_kind (KillMsg _) = ''kill''"
| "control_kind (KillAck _) = ''kill.ack''"
| "control_kind (ScreenDumpRequest _) = ''screen.dump.request''"
| "control_kind (ScreenDumpResponse _) = ''screen.dump.response''"
| "control_kind (StateSnapshotRequest _ _) = ''screen.snapshot.request''"
| "control_kind (StateSnapshotResponse _) = ''screen.snapshot.response''"
| "control_kind (SessionExitNotify _) = ''session.exit.notify''"
| "control_kind (SessionChildStoppedNotify _) = ''session.child.stopped.notify''"
| "control_kind SessionChildResumeRequest = ''session.child.resume.request''"
| "control_kind (RecordStartRequest _) = ''record.start.request''"
| "control_kind (RecordStartResponse _) = ''record.start.response''"
| "control_kind (RecordStopRequest _) = ''record.stop.request''"
| "control_kind RecordStopAllRequest = ''record.stop.all.request''"
| "control_kind (RecordStopResponse _) = ''record.stop.response''"
| "control_kind RecordListRequest = ''record.list.request''"
| "control_kind (RecordListResponse _) = ''record.list.response''"
| "control_kind (SetRequest _) = ''set.request''"
| "control_kind (SetAck _) = ''set.ack''"
| "control_kind (UpgradeRequest _) = ''upgrade.request''"
| "control_kind UpgradeAck = ''upgrade.ack''"

definition is_unsolicited_notification :: "control_message \<Rightarrow> bool" where
  "is_unsolicited_notification m =
     (case m of
        ModeChange _ \<Rightarrow> True
      | LeaderNotify _ \<Rightarrow> True
      | SessionChildStoppedNotify _ \<Rightarrow> True
      | UpgradeAck \<Rightarrow> True
      | _ \<Rightarrow> False)"

type_synonym control_encoder = "control_message \<Rightarrow> bytes option"
type_synonym control_decoder = "bytes \<Rightarrow> control_message option"
type_synonym ack_encoder = "raw_ack_msg \<Rightarrow> bytes option"

subsection \<open>Byte strings on the wire\<close>

text \<open>\<open>opt_bytes::deserialize\<close> of \<^verbatim>\<open>screen.rs\<close>: a byte string, a null, or an array whose items
  are all integers in the range of a byte.\<close>

fun opt_bytes_array :: "cbor_value list \<Rightarrow> bytes option" where
  "opt_bytes_array [] = Some []"
| "opt_bytes_array (CInteger i # vs) =
     (if 0 \<le> i \<and> i \<le> 255
      then map_option (\<lambda>bs. word_of_int i # bs) (opt_bytes_array vs) else None)"
| "opt_bytes_array (_ # vs) = None"

fun opt_bytes_deserialize :: "cbor_value option \<Rightarrow> bytes option option" where
  "opt_bytes_deserialize None = Some None"
| "opt_bytes_deserialize (Some CNull) = Some None"
| "opt_bytes_deserialize (Some (CBytes b)) = Some (Some b)"
| "opt_bytes_deserialize (Some (CArray vs)) = map_option Some (opt_bytes_array vs)"
| "opt_bytes_deserialize (Some _) = None"

definition opt_bytes_serialize :: "bytes option \<Rightarrow> cbor_value" where
  "opt_bytes_serialize v = (case v of Some b \<Rightarrow> CBytes b | None \<Rightarrow> CNull)"

subsection \<open>Capabilities\<close>

definition MVP_CAPS :: "string list" where
  "MVP_CAPS =
     [''data'', ''lock'', ''tail-v1'', ''screen-dump-v1'', ''state-snapshot-v1'',
      ''session-exit-v1'', ''child-state-v1'', ''record-v1'', ''set-v1'', ''upgrade-v1'',
      ''leader-request-v1'']"

fun intersect_caps_loop :: "string list \<Rightarrow> string set \<Rightarrow> string set \<Rightarrow> string list" where
  "intersect_caps_loop [] b_set seen = []"
| "intersect_caps_loop (c # cs) b_set seen =
     (if c \<in> b_set \<and> c \<notin> seen then c # intersect_caps_loop cs b_set (insert c seen)
      else intersect_caps_loop cs b_set seen)"

definition intersect_caps :: "string list \<Rightarrow> string list \<Rightarrow> string list" where
  "intersect_caps a b = intersect_caps_loop a (set b) {}"

definition require_cap :: "string list \<Rightarrow> string \<Rightarrow> string + unit" where
  "require_cap caps required = (if list_ex (\<lambda>c. c = required) caps then Inr () else Inl required)"

subsection \<open>Lemmas\<close>

lemma intersect_caps_loop_set: "set (intersect_caps_loop a b seen) = set a \<inter> b - seen"
  by (induction a arbitrary: seen) auto

lemma intersect_caps_loop_distinct: "distinct (intersect_caps_loop a b seen)"
  by (induction a arbitrary: seen) (auto simp: intersect_caps_loop_set)

lemma intersect_caps_loop_subseq: "subseq (intersect_caps_loop a b seen) a"
  by (induction a arbitrary: seen) (auto simp: subseq_Cons2 list_emb.intros)

lemma set_intersect_caps [simp]: "set (intersect_caps a b) = set a \<inter> set b"
  by (simp add: intersect_caps_def intersect_caps_loop_set)

lemma require_cap_iff [simp]: "require_cap caps c = Inr () \<longleftrightarrow> c \<in> set caps"
  by (auto simp: require_cap_def list_ex_iff)

definition error_code_canonical :: "error_code \<Rightarrow> bool" where
  "error_code_canonical c \<longleftrightarrow>
     (case c of UnknownCode s \<Rightarrow> error_code_from_wire s = UnknownCode s | _ \<Rightarrow> True)"

lemma as_str_from_wire: "error_code_as_str (error_code_from_wire s) = s"
  by (simp add: error_code_from_wire_def)

lemma from_wire_as_str: "error_code_canonical c \<Longrightarrow> error_code_from_wire (error_code_as_str c) = c"
  by (cases c) (simp_all add: error_code_canonical_def error_code_from_wire_def)

end
