(* ===== verification/Effects.thy ===== *)
theory Effects
  imports Messages
begin

text \<open>
  The vocabulary of the super-reducer, \<^verbatim>\<open>crates/hyoui/src/daemon/reducer/mod.rs\<close>: domains,
  effect identifiers, the effects a pure reducer asks for, the outcomes the executor feeds
  back, and the record entries of \<open>RecordEntry\<close>. The messages themselves (\<open>DaemonMsg\<close>) need the
  domains' own message types and are in the theory \<open>Reducer\<close>; \<open>domain_output\<close> is therefore
  generic in the type of the cross-domain messages.
\<close>

datatype domain = DomTty | DomChild | DomServe | DomClient | DomScreen | DomLock

datatype effect_id = EffectId (eid_domain: domain) (eid_seq: nat)

datatype broadcast_filter = FilterAll | SubscribersOnly

datatype write_error_kind = WriteErrIdleTimeout | WriteErrIoError string

datatype in_rejected_reason = RejectRoClient | RejectLockNotHeld

datatype record_entry =
    BytesIn client_id bytes
  | InWriteError client_id nat nat write_error_kind bytes
      \<comment> \<open>client, requested length, written length, error, unwritten bytes\<close>
  | InRejected client_id client_mode "client_id option" in_rejected_reason bytes

datatype effect_kind =
    TtyWrite bytes
  | TtyResize "16 word" "16 word"
  | KillEffect int nat
  | ClientReply client_id control_message
  | ClientBroadcast control_message broadcast_filter
  | ClientRawAck client_id raw_ack_msg
  | ClientDisconnect client_id
  | RecordEffect record_entry
  | SpawnChild "string list" "(string \<times> string) list" "16 word" "16 word"
  | SetTimer nat nat
  | CancelTimer nat

record effect =
  eff_id :: effect_id
  eff_kind :: effect_kind

datatype tty_write_error_kind = TtyIdleTimeout | TtyIo string

datatype effect_error_kind = WriteEagain | WriteBroken | KillEsrch | SpawnFailed int

datatype retry_advice = DoNotRetry | RetryWhenReady | RetryAfter nat

datatype effect_outcome =
    OutcomeOk
  | OutcomeTtyWrite nat nat "tty_write_error_kind option"
      \<comment> \<open>written length, requested length, error\<close>
  | OutcomeFailed effect_error_kind retry_advice

record 'm domain_output =
  out_effects :: "effect list"
  out_cross :: "'m list"

definition empty_output :: "'m domain_output" where
  "empty_output = \<lparr>out_effects = [], out_cross = []\<rparr>"

definition push_effect :: "effect_id \<Rightarrow> effect_kind \<Rightarrow> 'm domain_output \<Rightarrow> 'm domain_output" where
  "push_effect i k out = out\<lparr>out_effects := out_effects out @ [\<lparr>eff_id = i, eff_kind = k\<rparr>]\<rparr>"

lemma out_effects_simps [simp]:
  "out_effects empty_output = []" "out_cross empty_output = []"
  "out_effects (push_effect i k out) = out_effects out @ [\<lparr>eff_id = i, eff_kind = k\<rparr>]"
  "out_cross (push_effect i k out) = out_cross out"
  by (simp_all add: empty_output_def push_effect_def)

end
