(* ===== verification/Strip.thy ===== *)
theory Strip
  imports Prelude
begin

text \<open>
  ANSI escape removal and newline normalisation, \<^verbatim>\<open>crates/hyoui/src/strip.rs\<close>. The index
  loops of the source walk forward only, so the position is the remaining suffix.

  \<open>strip_ansi\<close> is the stateless stripper, \<open>carry_push\<close> the \<open>StripAnsiCarry\<close> that keeps an
  unfinished escape between chunks. The lemmas show that the output is free of \<open>ESC\<close>, that
  the carrying stripper agrees with the stateless one on the whole stream however it
  is chunked, as long as its carry limit is not hit, and where it can get stuck.
\<close>

subsection \<open>Skipping one escape sequence\<close>

definition ESC :: byte where "ESC = 0x1b"
definition BEL :: byte where "BEL = 0x07"
definition BACKSLASH :: byte where "BACKSLASH = 0x5c"

definition csi_param :: "byte \<Rightarrow> bool" where "csi_param b \<longleftrightarrow> 0x30 \<le> b \<and> b \<le> 0x3f"
definition csi_inter :: "byte \<Rightarrow> bool" where "csi_inter b \<longleftrightarrow> 0x20 \<le> b \<and> b \<le> 0x2f"
definition csi_final :: "byte \<Rightarrow> bool" where "csi_final b \<longleftrightarrow> 0x40 \<le> b \<and> b \<le> 0x7e"

definition skip_csi :: "bytes \<Rightarrow> bytes" where
  "skip_csi xs =
     (case dropWhile csi_inter (dropWhile csi_param xs) of
        [] \<Rightarrow> []
      | y # ys \<Rightarrow> if csi_final y then ys else y # ys)"

fun skip_osc :: "bytes \<Rightarrow> bytes" where
  "skip_osc [] = []"
| "skip_osc (b # xs) =
     (if b = BEL then xs
      else if b = ESC \<and> xs \<noteq> [] \<and> hd xs = BACKSLASH then tl xs
      else skip_osc xs)"

fun skip_st :: "bytes \<Rightarrow> bytes" where
  "skip_st [] = []"
| "skip_st (b # xs) =
     (if b = ESC \<and> xs \<noteq> [] \<and> hd xs = BACKSLASH then tl xs else skip_st xs)"

definition is_st_string :: "byte \<Rightarrow> bool" where
  "is_st_string c \<longleftrightarrow> c = 0x50 \<or> c = 0x58 \<or> c = 0x5e \<or> c = 0x5f"

text \<open>What follows \<open>ESC c\<close> once the sequence is skipped.\<close>

definition skip_escape :: "byte \<Rightarrow> bytes \<Rightarrow> bytes" where
  "skip_escape c xs =
     (if c = 0x5b then skip_csi xs
      else if c = 0x5d then skip_osc xs
      else if is_st_string c then skip_st xs
      else xs)"

lemma length_skip_csi: "length (skip_csi xs) \<le> length xs"
proof -
  have "length (dropWhile csi_inter (dropWhile csi_param xs)) \<le> length xs"
    using length_dropWhile_le le_trans by blast
  then show ?thesis by (auto simp: skip_csi_def split: list.splits)
qed

lemma length_skip_osc: "length (skip_osc xs) \<le> length xs"
  by (induction xs rule: skip_osc.induct) auto

lemma length_skip_st: "length (skip_st xs) \<le> length xs"
  by (induction xs rule: skip_st.induct) auto

lemma length_skip_escape: "length (skip_escape c xs) \<le> length xs"
  by (simp add: skip_escape_def length_skip_csi length_skip_osc length_skip_st)

function strip_ansi :: "bytes \<Rightarrow> bytes" where
  "strip_ansi [] = []"
| "strip_ansi (b # xs) =
     (if b \<noteq> ESC then b # strip_ansi xs
      else (case xs of [] \<Rightarrow> [] | c # ys \<Rightarrow> strip_ansi (skip_escape c ys)))"
  by pat_completeness auto
termination
  by (relation "measure length") (auto simp: le_imp_less_Suc length_skip_escape le_Suc_eq less_Suc_eq_le)

subsection \<open>The carrying stripper\<close>

definition MAX_CARRY :: nat where "MAX_CARRY = 4096"

text \<open>The scan of \<open>push\<close>: \<open>None\<close> where the source stashes the sequence and returns.\<close>

definition carry_csi :: "bytes \<Rightarrow> bytes option" where
  "carry_csi xs =
     (case dropWhile csi_inter (dropWhile csi_param xs) of
        [] \<Rightarrow> None
      | y # ys \<Rightarrow> Some (if csi_final y then ys else y # ys))"

fun carry_osc :: "bytes \<Rightarrow> bytes option" where
  "carry_osc [] = None"
| "carry_osc (b # xs) =
     (if b = BEL then Some xs
      else if b = ESC then (if xs \<noteq> [] \<and> hd xs = BACKSLASH then Some (tl xs) else None)
      else carry_osc xs)"

fun carry_st :: "bytes \<Rightarrow> bytes option" where
  "carry_st [] = None"
| "carry_st (b # xs) =
     (if b = ESC then (if xs \<noteq> [] \<and> hd xs = BACKSLASH then Some (tl xs) else None)
      else carry_st xs)"

definition carry_escape :: "byte \<Rightarrow> bytes \<Rightarrow> bytes option" where
  "carry_escape c xs =
     (if c = 0x5b then carry_csi xs
      else if c = 0x5d then carry_osc xs
      else if is_st_string c then carry_st xs
      else Some xs)"

lemma carry_csi_skip: "carry_csi xs = Some r \<Longrightarrow> r = skip_csi xs"
  by (auto simp: carry_csi_def skip_csi_def simp del: dropWhile_eq_Nil_conv split: list.splits)

lemma carry_osc_skip: "carry_osc xs = Some r \<Longrightarrow> r = skip_osc xs"
  by (induction xs rule: carry_osc.induct) (auto split: if_splits)

lemma carry_st_skip: "carry_st xs = Some r \<Longrightarrow> r = skip_st xs"
  by (induction xs rule: carry_st.induct) (auto split: if_splits)

lemma carry_escape_skip: "carry_escape c xs = Some r \<Longrightarrow> r = skip_escape c xs"
  by (auto simp: carry_escape_def skip_escape_def dest: carry_csi_skip carry_osc_skip carry_st_skip
      split: if_splits)

lemma length_carry_escape: "carry_escape c xs = Some r \<Longrightarrow> length r \<le> length xs"
  using carry_escape_skip length_skip_escape by metis

text \<open>Output of a scan and the unfinished escape it leaves.\<close>

function carry_scan :: "bytes \<Rightarrow> bytes \<times> bytes" where
  "carry_scan [] = ([], [])"
| "carry_scan (b # xs) =
     (if b \<noteq> ESC then (let (out, t) = carry_scan xs in (b # out, t))
      else (case xs of
              [] \<Rightarrow> ([], [b])
            | c # ys \<Rightarrow>
                (case carry_escape c ys of
                   None \<Rightarrow> ([], b # xs)
                 | Some r \<Rightarrow> carry_scan r)))"
  by pat_completeness auto
termination
  by (relation "measure length") (auto dest: length_carry_escape)

definition stash_carry :: "bytes \<Rightarrow> bytes" where
  "stash_carry t = (if length t > MAX_CARRY then [] else t)"

definition carry_push :: "bytes \<Rightarrow> bytes \<Rightarrow> bytes \<times> bytes" where
  "carry_push carry input =
     (let buf = (if carry = [] then input else carry @ input);
          (out, t) = carry_scan buf
      in (out, stash_carry t))"

definition carry_finish :: "bytes \<Rightarrow> bytes \<times> bytes" where
  "carry_finish carry = ([], [])"

subsection \<open>Newlines\<close>

definition CR :: byte where "CR = 0x0d"
definition LF :: byte where "LF = 0x0a"

fun normalize_lf :: "bytes \<Rightarrow> bytes" where
  "normalize_lf [] = []"
| "normalize_lf [b] = [if b = CR then LF else b]"
| "normalize_lf (b # c # xs) =
     (if b = CR then (if c = LF then LF # normalize_lf xs else LF # normalize_lf (c # xs))
      else b # normalize_lf (c # xs))"

fun normalize_crlf_loop :: "bool \<Rightarrow> bytes \<Rightarrow> bytes" where
  "normalize_crlf_loop prev_cr [] = []"
| "normalize_crlf_loop prev_cr (b # xs) =
     (if b = LF \<and> \<not> prev_cr then [CR] else []) @ b # normalize_crlf_loop (b = CR) xs"

definition normalize_crlf :: "bytes \<Rightarrow> bytes" where
  "normalize_crlf xs = normalize_crlf_loop False xs"

subsection \<open>Lemmas\<close>

lemma strip_ansi_no_ESC_id: "ESC \<notin> set xs \<Longrightarrow> strip_ansi xs = xs"
  by (induction xs) auto

lemma strip_ansi_ESC_free: "ESC \<notin> set (strip_ansi xs)"
  by (induction xs rule: strip_ansi.induct) (auto split: list.splits)

lemma suffix_skip_csi: "suffix (skip_csi xs) xs"
proof -
  have "suffix (dropWhile csi_inter (dropWhile csi_param xs)) xs"
    by (meson suffix_dropWhile suffix_order.trans)
  then show ?thesis by (auto simp: skip_csi_def intro: suffix_ConsD split: list.splits)
qed

lemma suffix_skip_osc: "suffix (skip_osc xs) xs"
  by (induction xs rule: skip_osc.induct)
    (auto intro: suffix_ConsI suffix_order.trans [OF suffix_tl] simp: suffix_Cons)

lemma suffix_skip_st: "suffix (skip_st xs) xs"
  by (induction xs rule: skip_st.induct)
    (auto intro: suffix_ConsI suffix_order.trans [OF suffix_tl] simp: suffix_Cons)

lemma suffix_skip_escape: "suffix (skip_escape c xs) xs"
  by (simp add: skip_escape_def suffix_skip_csi suffix_skip_osc suffix_skip_st)

lemma strip_ansi_subseq: "subseq (strip_ansi xs) xs"
proof (induction xs rule: strip_ansi.induct)
  case 1
  then show ?case by simp
next
  case (2 b xs)
  show ?case
  proof (cases "b \<noteq> ESC")
    case True
    with 2 show ?thesis by (simp add: subseq_Cons2)
  next
    case False
    show ?thesis
    proof (cases xs)
      case Nil
      with False show ?thesis by simp
    next
      case (Cons c ys)
      have "subseq (strip_ansi (skip_escape c ys)) (skip_escape c ys)"
        using 2(2) [of c ys] False Cons by simp
      moreover have "subseq (skip_escape c ys) ys"
        using suffix_skip_escape suffix_imp_subseq by blast
      ultimately have "subseq (strip_ansi (skip_escape c ys)) ys"
        using subseq_order.trans by blast
      with False Cons show ?thesis by (simp add: list_emb.intros)
    qed
  qed
qed

lemma dropWhile_append_nonempty:
  "dropWhile P xs \<noteq> [] \<Longrightarrow> dropWhile P (xs @ ys) = dropWhile P xs @ ys"
  by (induction xs) auto

lemma carry_csi_append: "carry_csi xs = Some r \<Longrightarrow> carry_csi (xs @ ys) = Some (r @ ys)"
proof -
  assume a: "carry_csi xs = Some r"
  define p where "p = dropWhile csi_param xs"
  from a have q: "dropWhile csi_inter p \<noteq> []"
    by (simp add: carry_csi_def p_def del: dropWhile_eq_Nil_conv split: list.splits)
  then have "p \<noteq> []" by auto
  then have "dropWhile csi_param (xs @ ys) = p @ ys"
    unfolding p_def by (rule dropWhile_append_nonempty)
  moreover have "dropWhile csi_inter (p @ ys) = dropWhile csi_inter p @ ys"
    using q by (rule dropWhile_append_nonempty)
  ultimately show ?thesis
    using a q by (auto simp: carry_csi_def p_def [symmetric] simp del: dropWhile_eq_Nil_conv split: list.splits)
qed

lemma carry_osc_append: "carry_osc xs = Some r \<Longrightarrow> carry_osc (xs @ ys) = Some (r @ ys)"
  by (induction xs rule: carry_osc.induct) (auto split: if_splits)

lemma carry_st_append: "carry_st xs = Some r \<Longrightarrow> carry_st (xs @ ys) = Some (r @ ys)"
  by (induction xs rule: carry_st.induct) (auto split: if_splits)

lemma carry_escape_append:
  "carry_escape c xs = Some r \<Longrightarrow> carry_escape c (xs @ ys) = Some (r @ ys)"
  by (auto simp: carry_escape_def dest: carry_csi_append carry_osc_append carry_st_append
      split: if_splits)

text \<open>A scan is stable under more input: what it has put out stays, and scanning
  can resume from the stash.\<close>

lemma carry_scan_strip:
  "carry_scan xs = (out, t) \<Longrightarrow> strip_ansi (xs @ ys) = out @ strip_ansi (t @ ys)"
proof (induction xs arbitrary: out rule: carry_scan.induct)
  case 1
  then show ?case by simp
next
  case (2 b xs)
  show ?case
  proof (cases "b \<noteq> ESC")
    case True
    then obtain o1 where "carry_scan xs = (o1, t)" "out = b # o1"
      using 2(3) by (auto split: prod.splits)
    with 2(1) [OF True, of o1] True show ?thesis by simp
  next
    case False
    show ?thesis
    proof (cases xs)
      case Nil
      with False 2(3) show ?thesis by simp
    next
      case (Cons c zs)
      show ?thesis
      proof (cases "carry_escape c zs")
        case None
        with False Cons 2(3) show ?thesis by simp
      next
        case (Some r)
        note e = carry_escape_skip [OF carry_escape_append [OF Some, of ys]]
        from 2(2) [of c zs r] 2(3) False Cons Some show ?thesis by (simp flip: e)
      qed
    qed
  qed
qed

lemma carry_scan_append:
  "carry_scan (xs @ ys) =
     (let (o1, t1) = carry_scan xs; (o2, t2) = carry_scan (t1 @ ys) in (o1 @ o2, t2))"
proof (induction xs rule: carry_scan.induct)
  case 1
  then show ?case by (simp split: prod.splits)
next
  case (2 b xs)
  show ?case
  proof (cases "b \<noteq> ESC")
    case True
    with 2(1) [OF True] show ?thesis by (simp split: prod.splits)
  next
    case False
    show ?thesis
    proof (cases xs)
      case Nil
      with False show ?thesis by (simp split: prod.splits)
    next
      case (Cons c zs)
      show ?thesis
      proof (cases "carry_escape c zs")
        case None
        with False Cons show ?thesis by (simp split: prod.splits)
      next
        case (Some r)
        with 2(2) [of c zs r] False Cons show ?thesis by (simp add: carry_escape_append)
      qed
    qed
  qed
qed

lemma carry_scan_tail: "carry_scan xs = (out, t) \<Longrightarrow> t = [] \<or> hd t = ESC \<and> suffix t xs"
proof (induction xs arbitrary: out rule: carry_scan.induct)
  case 1
  then show ?case by simp
next
  case (2 b xs)
  show ?case
  proof (cases "b \<noteq> ESC")
    case True
    with 2(1) 2(3) show ?thesis by (auto split: prod.splits intro: suffix_ConsI)
  next
    case False
    show ?thesis
    proof (cases xs)
      case Nil
      with False 2(3) show ?thesis by auto
    next
      case (Cons c zs)
      show ?thesis
      proof (cases "carry_escape c zs")
        case None
        with False Cons 2(3) show ?thesis by auto
      next
        case (Some r)
        from carry_escape_skip [OF Some] have "suffix r zs" by (simp add: suffix_skip_escape)
        then have "suffix t r \<Longrightarrow> suffix t (b # xs)"
          using Cons by (auto intro: suffix_ConsI suffix_order.trans)
        with 2(2) [of c zs r] 2(3) False Cons Some show ?thesis by auto
      qed
    qed
  qed
qed

lemma carry_scan_ESC_free: "ESC \<notin> set (fst (carry_scan xs))"
  using carry_scan_strip [of xs "fst (carry_scan xs)" "snd (carry_scan xs)" "[]"]
    strip_ansi_ESC_free [of xs] by simp

lemma normalize_lf_no_CR: "CR \<notin> set (normalize_lf xs)"
  by (induction xs rule: normalize_lf.induct) (auto simp: CR_def LF_def)

lemma normalize_lf_id: "CR \<notin> set xs \<Longrightarrow> normalize_lf xs = xs"
  by (induction xs rule: normalize_lf.induct) auto

lemma normalize_crlf_loop_lf:
  "normalize_lf (normalize_crlf_loop False xs) = normalize_lf xs"
  "normalize_lf (CR # normalize_crlf_loop True xs) = normalize_lf (CR # xs)"
proof (induction xs)
  case Nil
  {
    case 1
    show ?case by simp
  next
    case 2
    show ?case by simp
  }
next
  case (Cons b xs)
  have ne: "x \<noteq> CR \<Longrightarrow> normalize_lf (x # zs) = x # normalize_lf zs" for x zs
    by (cases zs) auto
  have cr: "b \<noteq> LF \<Longrightarrow> normalize_lf (CR # b # zs) = LF # normalize_lf (b # zs)" for zs
    by simp
  have d: "LF \<noteq> CR" by (simp add: LF_def CR_def)
  {
    case 1
    show ?case
      using Cons.IH d by (cases "b = CR"; cases "b = LF") (simp_all add: ne)
  next
    case 2
    show ?case
      using Cons.IH d by (cases "b = CR"; cases "b = LF") (simp_all add: ne cr)
  }
qed

subsection \<open>Properties\<close>

text \<open>Stripping removes every escape byte, only ever deletes bytes (the order of the text
  is kept), and leaves text without escapes alone; hence stripping twice is stripping once.\<close>

theorem strip_ansi_correct:
  "ESC \<notin> set (strip_ansi xs) \<and> subseq (strip_ansi xs) xs
   \<and> (strip_ansi xs = xs \<longleftrightarrow> ESC \<notin> set xs) \<and> strip_ansi (strip_ansi xs) = strip_ansi xs"
  using strip_ansi_ESC_free strip_ansi_subseq strip_ansi_no_ESC_id by metis

text \<open>The chunks of a stream for which the carry limit is never hit.\<close>

fun carry_chunks :: "bytes \<Rightarrow> bytes list \<Rightarrow> bytes \<times> bytes" where
  "carry_chunks carry [] = ([], carry)"
| "carry_chunks carry (c # cs) =
     (let (out, carry') = carry_push carry c; (out', carry'') = carry_chunks carry' cs
      in (out @ out', carry''))"

fun carry_fits :: "bytes \<Rightarrow> bytes list \<Rightarrow> bool" where
  "carry_fits carry [] = True"
| "carry_fits carry (c # cs) =
     (length (snd (carry_scan (carry @ c))) \<le> MAX_CARRY \<and> carry_fits (snd (carry_push carry c)) cs)"

lemma carry_push_fits:
  "length (snd (carry_scan (carry @ c))) \<le> MAX_CARRY \<Longrightarrow> carry_push carry c = carry_scan (carry @ c)"
  by (auto simp: carry_push_def stash_carry_def split: prod.splits)

lemma carry_chunks_strip:
  "carry_fits carry cs \<Longrightarrow>
   strip_ansi (carry @ concat cs) = fst (carry_chunks carry cs) @ strip_ansi (snd (carry_chunks carry cs))"
proof (induction cs arbitrary: carry)
  case Nil
  then show ?case by simp
next
  case (Cons c cs)
  obtain out t where p: "carry_scan (carry @ c) = (out, t)" by fastforce
  with Cons.prems have q: "carry_push carry c = (out, t)" by (simp add: carry_push_fits)
  from carry_scan_strip [OF p, of "concat cs"] Cons.IH [of t] Cons.prems q
  show ?case by (simp split: prod.splits)
qed

text \<open>The carrying stripper agrees with the stateless one on the whole stream, for every
  way the stream is cut into chunks: as long as no unfinished escape exceeds the carry limit,
  stripping the concatenation yields what was put out so far, followed by what stripping the
  carry yields; so nothing is put out that the stateless stripper would not, and when the
  carry is empty the outputs are equal.\<close>

theorem carry_stripper_agrees:
  assumes "carry_fits [] chunks"
  shows "strip_ansi (concat chunks) =
           fst (carry_chunks [] chunks) @ strip_ansi (snd (carry_chunks [] chunks))"
  using carry_chunks_strip [OF assms] by simp

theorem carry_stripper_agrees_witness:
  "carry_chunks [] [[0x61, ESC], [0x5b, 0x33], [0x31, 0x6d, 0x62]] = ([0x61, 0x62], [])
   \<and> strip_ansi [0x61, ESC, 0x5b, 0x33, 0x31, 0x6d, 0x62] = [0x61, 0x62]"
proof -
  have e: "carry_chunks [] [[0x61, ESC], [0x5b, 0x33], [0x31, 0x6d, 0x62]] = ([0x61, 0x62], [])"
    by (simp add: carry_push_def stash_carry_def MAX_CARRY_def ESC_def carry_escape_def
        carry_csi_def csi_param_def csi_inter_def csi_final_def)
  have "carry_fits [] [[0x61, ESC], [0x5b, 0x33], [0x31, 0x6d, 0x62]]"
    by (simp add: carry_push_def stash_carry_def MAX_CARRY_def ESC_def carry_escape_def
        carry_csi_def csi_param_def csi_inter_def csi_final_def)
  from carry_stripper_agrees [OF this] e show ?thesis by simp
qed

text \<open>The carry of \<open>StripAnsiCarry\<close> is bounded and either empty or a started escape, but an
  \<open>OSC\<close> string with an \<open>ESC\<close> inside that no backslash follows blocks it: once such a sequence
  is carried, every later chunk, terminator included, is swallowed until the carry limit is
  exceeded, where the stateless stripper resumes after the terminator.\<close>

theorem carry_push_bounded_and_stuck:
  "length (snd (carry_push carry c)) \<le> MAX_CARRY
   \<and> (snd (carry_push carry c) = [] \<or> hd (snd (carry_push carry c)) = ESC)
   \<and> ESC \<notin> set (fst (carry_push carry c))
   \<and> fst (carry_push [ESC, 0x5d, ESC, 0x61] c) = []
   \<and> strip_ansi ([ESC, 0x5d, ESC, 0x61, BEL] @ c) = strip_ansi c"
proof -
  have "fst (carry_push [ESC, 0x5d, ESC, 0x61] c) = []"
    by (simp add: carry_push_def carry_escape_def ESC_def BEL_def BACKSLASH_def)
  moreover have "strip_ansi ([ESC, 0x5d, ESC, 0x61, BEL] @ c) = strip_ansi c"
    by (simp add: skip_escape_def ESC_def BEL_def BACKSLASH_def)
  moreover have "snd (carry_push carry c) = [] \<or> hd (snd (carry_push carry c)) = ESC"
    using carry_scan_tail [of "carry @ c"]
    by (auto simp: carry_push_def stash_carry_def split: prod.splits)
  moreover have "ESC \<notin> set (fst (carry_push carry c))"
    using carry_scan_ESC_free [of "carry @ c"] by (auto simp: carry_push_def split: prod.splits)
  moreover have "length (snd (carry_push carry c)) \<le> MAX_CARRY"
    by (auto simp: carry_push_def stash_carry_def split: prod.splits)
  ultimately show ?thesis by blast
qed

text \<open>Newline normalisation: the LF form contains no carriage return, normalising is
  idempotent, and converting to CRLF first does not change the LF form.\<close>

theorem newline_normalisation:
  "CR \<notin> set (normalize_lf xs) \<and> normalize_lf (normalize_lf xs) = normalize_lf xs
   \<and> normalize_lf (normalize_crlf xs) = normalize_lf xs"
  by (simp add: normalize_lf_no_CR normalize_lf_id normalize_crlf_def normalize_crlf_loop_lf)

end
