(* ===== verification/Broadcast.thy ===== *)
theory Broadcast
  imports Messages Strip
begin

text \<open>
  The sending side of the daemon, \<^verbatim>\<open>crates/hyoui/src/daemon/broadcast.rs\<close>: the per-client
  send queue and its budgeted, non-blocking flush, the client handle, the
  backpressure rule, the broadcasts, and the clients that are closed once their queue drains.

  The socket is the environment: a list of answers the kernel gives to the next \<open>write(2)\<close>
  calls (an exhausted list answers \<open>EAGAIN\<close>) and the bytes the peer has been given so far.
  The CBOR encoders are arguments.
\<close>

definition MAX_CLIENTS_PER_DAEMON :: nat where "MAX_CLIENTS_PER_DAEMON = 64"
definition CLOSE_FLUSH_TIMEOUT_MS :: nat where "CLOSE_FLUSH_TIMEOUT_MS = 500"
definition MAX_CLOSING_CLIENTS :: nat where "MAX_CLOSING_CLIENTS = MAX_CLIENTS_PER_DAEMON"
definition WRITE_BUDGET_PER_PASS :: nat where "WRITE_BUDGET_PER_PASS = 64 * 1024"

subsection \<open>The socket\<close>

datatype sock_answer = Accept nat | WouldBlock | Interrupted | WriteErr

datatype write_result = WroteN nat | WErrWouldBlock | WErrInterrupted | WErrOther

record sock =
  so_answers :: "sock_answer list"
  so_out :: bytes

fun sock_write :: "sock \<Rightarrow> bytes \<Rightarrow> write_result \<times> sock" where
  "sock_write s buf =
     (case so_answers s of
        [] \<Rightarrow> (WErrWouldBlock, s)
      | Accept k # as \<Rightarrow>
          (WroteN (min k (length buf)), s\<lparr>so_answers := as, so_out := so_out s @ take k buf\<rparr>)
      | WouldBlock # as \<Rightarrow> (WErrWouldBlock, s\<lparr>so_answers := as\<rparr>)
      | Interrupted # as \<Rightarrow> (WErrInterrupted, s\<lparr>so_answers := as\<rparr>)
      | WriteErr # as \<Rightarrow> (WErrOther, s\<lparr>so_answers := as\<rparr>))"

subsection \<open>The send queue\<close>

datatype write_progress = Drained | Blocked | Paused | WriteFailed

record send_queue =
  sq_frames :: "bytes list"
  sq_head_written :: nat
  sq_queued_bytes :: nat
  sq_failed :: bool

definition sq_new :: send_queue where
  "sq_new = \<lparr>sq_frames = [], sq_head_written = 0, sq_queued_bytes = 0, sq_failed = False\<rparr>"

definition sq_is_settled :: "send_queue \<Rightarrow> bool" where
  "sq_is_settled q \<longleftrightarrow> sq_failed q \<or> sq_frames q = []"

definition sq_push :: "send_queue \<Rightarrow> bytes \<Rightarrow> send_queue" where
  "sq_push q payload =
     q\<lparr>sq_queued_bytes := sq_queued_bytes q + length payload, sq_frames := sq_frames q @ [payload]\<rparr>"

definition sq_fail :: "send_queue \<Rightarrow> send_queue" where
  "sq_fail q = \<lparr>sq_frames = [], sq_head_written = 0, sq_queued_bytes = 0, sq_failed = True\<rparr>"

text \<open>The queue after a \<open>write\<close> of \<open>n > 0\<close> bytes of its first frame.\<close>

definition sq_advance :: "send_queue \<Rightarrow> nat \<Rightarrow> send_queue" where
  "sq_advance q n =
     (let q1 = q\<lparr>sq_head_written := sq_head_written q + n, sq_queued_bytes := sq_queued_bytes q - n\<rparr>
      in if sq_head_written q1 = length (hd (sq_frames q))
         then q1\<lparr>sq_frames := tl (sq_frames q), sq_head_written := 0\<rparr> else q1)"

function sq_write_loop :: "send_queue \<Rightarrow> sock \<Rightarrow> nat \<Rightarrow> write_progress \<times> send_queue \<times> sock" where
  "sq_write_loop q s left =
     (case sq_frames q of
        [] \<Rightarrow> (Drained, q, s)
      | front # fs \<Rightarrow>
          (let rest = drop (sq_head_written q) front in
           if rest = [] then sq_write_loop (q\<lparr>sq_frames := fs, sq_head_written := 0\<rparr>) s left
           else if left = 0 then (Paused, q, s)
           else
             (case sock_write s (take (min (length rest) left) rest) of
                (WroteN n, s') \<Rightarrow>
                  if n = 0 then (WriteFailed, sq_fail q, s')
                  else sq_write_loop (sq_advance q n) s' (left - n)
              | (WErrWouldBlock, s') \<Rightarrow> (Blocked, q, s')
              | (WErrInterrupted, s') \<Rightarrow> sq_write_loop q s' left
              | (WErrOther, s') \<Rightarrow> (WriteFailed, sq_fail q, s'))))"
  by pat_completeness auto
termination
  by (relation "measure (\<lambda>(q, s, left). length (sq_frames q) + length (so_answers s))")
    (auto simp: sq_advance_def Let_def split: list.splits sock_answer.splits)

declare sq_write_loop.simps [simp del]

definition sq_write_to :: "send_queue \<Rightarrow> sock \<Rightarrow> nat \<Rightarrow> write_progress \<times> send_queue \<times> sock" where
  "sq_write_to q s budget = (if sq_failed q then (WriteFailed, q, s) else sq_write_loop q s budget)"

subsection \<open>Client handles\<close>

datatype subscription = SubRaw | SubTailFollow bool

record client_handle =
  ch_id :: client_id
  ch_mode :: client_mode
  ch_leader :: bool
  ch_subscription :: subscription
  ch_negotiated_caps :: "string list"
  ch_stream :: sock
  ch_send :: send_queue
  ch_buffer_limit :: nat
  ch_decoder :: frame_decoder
  ch_connected_at_unix_ms :: nat

definition ch_new :: "client_id \<Rightarrow> client_mode \<Rightarrow> bool \<Rightarrow> string list \<Rightarrow> sock \<Rightarrow> nat \<Rightarrow> nat \<Rightarrow> client_handle" where
  "ch_new i m leader caps stream limit now =
     \<lparr>ch_id = i, ch_mode = m, ch_leader = leader, ch_subscription = SubRaw,
      ch_negotiated_caps = caps, ch_stream = stream, ch_send = sq_new, ch_buffer_limit = limit,
      ch_decoder = fd_new, ch_connected_at_unix_ms = now\<rparr>"

definition ch_queued_bytes :: "client_handle \<Rightarrow> nat" where
  "ch_queued_bytes ch = sq_queued_bytes (ch_send ch)"

definition ch_send_settled :: "client_handle \<Rightarrow> bool" where
  "ch_send_settled ch = sq_is_settled (ch_send ch)"

definition ch_flush_send :: "client_handle \<Rightarrow> write_progress \<times> client_handle" where
  "ch_flush_send ch =
     (let (p, q, s) = sq_write_to (ch_send ch) (ch_stream ch) WRITE_BUDGET_PER_PASS
      in (p, ch\<lparr>ch_send := q, ch_stream := s\<rparr>))"

record closing_client =
  cc_stream :: sock
  cc_send :: send_queue
  cc_deadline :: nat

definition ch_into_closing :: "client_handle \<Rightarrow> nat \<Rightarrow> closing_client option" where
  "ch_into_closing ch deadline =
     (if sq_is_settled (ch_send ch) then None
      else Some \<lparr>cc_stream = ch_stream ch, cc_send = ch_send ch, cc_deadline = deadline\<rparr>)"

definition admit_closing :: "closing_client list \<Rightarrow> closing_client \<Rightarrow> closing_client list" where
  "admit_closing closing c =
     (if length closing < MAX_CLOSING_CLIENTS then closing @ [c] else closing)"

definition retire_client :: "nat \<Rightarrow> closing_client list \<Rightarrow> client_handle \<Rightarrow> closing_client list" where
  "retire_client now closing ch =
     (case ch_into_closing ch (now + CLOSE_FLUSH_TIMEOUT_MS) of
        Some c \<Rightarrow> admit_closing closing c
      | None \<Rightarrow> closing)"

subsection \<open>Enqueueing\<close>

datatype enqueue_outcome = Sent | Overflow | SendFailed

text \<open>\<open>saturating_add\<close> at 64 bits.\<close>

definition usize_saturating_add :: "nat \<Rightarrow> nat \<Rightarrow> nat" where
  "usize_saturating_add a b = min (a + b) (2 ^ 64 - 1)"

definition enqueue_for_client :: "client_handle \<Rightarrow> bytes \<Rightarrow> enqueue_outcome \<times> client_handle" where
  "enqueue_for_client ch payload =
     (let sz = length payload; q = ch_send ch in
      if sq_failed q then (SendFailed, ch)
      else let cur = sq_queued_bytes q in
        if cur > 0 \<and> usize_saturating_add cur sz > ch_buffer_limit ch then (Overflow, ch)
        else (Sent, ch\<lparr>ch_send := sq_push q payload\<rparr>))"

definition enqueue_ignoring_limit :: "client_handle \<Rightarrow> bytes \<Rightarrow> client_handle" where
  "enqueue_ignoring_limit ch payload =
     (if sq_failed (ch_send ch) then ch else ch\<lparr>ch_send := sq_push (ch_send ch) payload\<rparr>)"

text \<open>A control message or an acknowledgement as the bytes of one frame, \<open>None\<close> when the codec or the
  frame layer refuses.\<close>

definition encode_control :: "control_encoder \<Rightarrow> control_message \<Rightarrow> bytes option" where
  "encode_control enc msg =
     (case enc msg of
        None \<Rightarrow> None
      | Some b \<Rightarrow> (case encode_to (cbor_control b) of Inr fb \<Rightarrow> Some fb | Inl _ \<Rightarrow> None))"

definition encode_ack :: "ack_encoder \<Rightarrow> raw_ack_msg \<Rightarrow> bytes option" where
  "encode_ack aenc ack =
     (case aenc ack of
        None \<Rightarrow> None
      | Some b \<Rightarrow> (case encode_to (raw_ack b) of Inr fb \<Rightarrow> Some fb | Inl _ \<Rightarrow> None))"

definition backpressure_message :: "nat \<Rightarrow> nat \<Rightarrow> control_message" where
  "backpressure_message queued limit =
     ErrorMsg \<lparr>em_code = BackpressureDisconnect, em_message = ''client buffer full'',
       em_details = Some (CMap [(CText ''queued_bytes'', CInteger (int queued)),
                                (CText ''limit'', CInteger (int limit))])\<rparr>"

definition send_backpressure_error :: "control_encoder \<Rightarrow> client_handle \<Rightarrow> nat \<Rightarrow> client_handle" where
  "send_backpressure_error enc ch queued =
     (case encode_control enc (backpressure_message queued (ch_buffer_limit ch)) of
        None \<Rightarrow> ch
      | Some fb \<Rightarrow>
          if sq_failed (ch_send ch) then ch else ch\<lparr>ch_send := sq_push (ch_send ch) fb\<rparr>)"

definition handle_enqueue_outcome ::
  "control_encoder \<Rightarrow> client_handle \<Rightarrow> enqueue_outcome \<Rightarrow> client_handle \<times> client_id list" where
  "handle_enqueue_outcome enc ch oc =
     (case oc of
        Sent \<Rightarrow> (ch, [])
      | Overflow \<Rightarrow> (send_backpressure_error enc ch (ch_queued_bytes ch), [ch_id ch])
      | SendFailed \<Rightarrow> (ch, []))"

definition send_control :: "control_encoder \<Rightarrow> client_handle \<Rightarrow> control_message \<Rightarrow> bool \<times> client_handle" where
  "send_control enc ch msg =
     (case encode_control enc msg of
        None \<Rightarrow> (False, ch)
      | Some fb \<Rightarrow> (let (oc, ch') = enqueue_for_client ch fb in (oc = Sent, ch')))"

definition send_raw_ack :: "ack_encoder \<Rightarrow> client_handle \<Rightarrow> raw_ack_msg \<Rightarrow> bool \<times> client_handle" where
  "send_raw_ack aenc ch ack =
     (case encode_ack aenc ack of
        None \<Rightarrow> (False, ch)
      | Some fb \<Rightarrow> (let (oc, ch') = enqueue_for_client ch fb in (oc = Sent, ch')))"

subsection \<open>Broadcasts\<close>

text \<open>Every broadcast is one pass over the clients that gives each of them its payload, or
  none; the result is the updated clients and the ids that overflowed, in order.\<close>

definition broadcast_step ::
  "control_encoder \<Rightarrow> client_handle \<Rightarrow> bytes \<Rightarrow> client_handle \<times> client_id list" where
  "broadcast_step enc ch payload =
     (let (oc, ch') = enqueue_for_client ch payload in handle_enqueue_outcome enc ch' oc)"

fun broadcast_each ::
  "control_encoder \<Rightarrow> (client_handle \<Rightarrow> bytes option) \<Rightarrow> client_handle list
    \<Rightarrow> client_handle list \<times> client_id list" where
  "broadcast_each enc pay [] = ([], [])"
| "broadcast_each enc pay (ch # chs) =
     (let (ch', ids) = (case pay ch of None \<Rightarrow> (ch, []) | Some fb \<Rightarrow> broadcast_step enc ch fb);
          (chs', ids') = broadcast_each enc pay chs
      in (ch' # chs', ids @ ids'))"

definition broadcast_master_bytes ::
  "control_encoder \<Rightarrow> client_handle list \<Rightarrow> bytes \<Rightarrow> int \<Rightarrow> client_handle list \<times> client_id list" where
  "broadcast_master_bytes enc clients bs ts_ms =
     (let raw = (case encode_to (raw_data bs) of Inr b \<Rightarrow> Some b | Inl _ \<Rightarrow> None);
          tail_payload = (\<lambda>strip. encode_control enc
            (TailData \<lparr>td_bytes = (if strip then strip_ansi bs else bs), td_timestamp_ms = ts_ms\<rparr>))
      in broadcast_each enc
           (\<lambda>ch. case ch_subscription ch of
                    SubRaw \<Rightarrow> raw
                  | SubTailFollow strip \<Rightarrow> tail_payload strip) clients)"

definition broadcast_bytes ::
  "control_encoder \<Rightarrow> client_handle list \<Rightarrow> bytes \<Rightarrow> client_handle list \<times> client_id list" where
  "broadcast_bytes enc clients payload = broadcast_each enc (\<lambda>_. Some payload) clients"

definition broadcast_control ::
  "control_encoder \<Rightarrow> client_handle list \<Rightarrow> control_message \<Rightarrow> client_handle list \<times> client_id list" where
  "broadcast_control enc clients msg =
     (case encode_control enc msg of
        None \<Rightarrow> (clients, [])
      | Some fb \<Rightarrow> broadcast_bytes enc clients fb)"

definition broadcast_control_with_cap ::
  "control_encoder \<Rightarrow> client_handle list \<Rightarrow> control_message \<Rightarrow> string
    \<Rightarrow> client_handle list \<times> client_id list" where
  "broadcast_control_with_cap enc clients msg required_cap =
     (case encode_control enc msg of
        None \<Rightarrow> (clients, [])
      | Some fb \<Rightarrow>
          broadcast_each enc
            (\<lambda>ch. if required_cap \<in> set (ch_negotiated_caps ch) then Some fb else None) clients)"

subsection \<open>Flushing and closing\<close>

definition flush_clients :: "client_handle list \<Rightarrow> client_handle list" where
  "flush_clients = map (\<lambda>ch. if ch_send_settled ch then ch else snd (ch_flush_send ch))"

definition still_writing :: "closing_client \<Rightarrow> bool \<times> closing_client" where
  "still_writing c =
     (let (p, q, s) = sq_write_to (cc_send c) (cc_stream c) WRITE_BUDGET_PER_PASS
      in (p = Blocked \<or> p = Paused, c\<lparr>cc_send := q, cc_stream := s\<rparr>))"

definition advance_closing :: "closing_client list \<Rightarrow> nat \<Rightarrow> closing_client list" where
  "advance_closing closing now =
     map snd (filter (\<lambda>(w, c). w \<and> now < cc_deadline c) (map still_writing closing))"

definition write_closing :: "closing_client list \<Rightarrow> closing_client list" where
  "write_closing closing = map snd (filter fst (map still_writing closing))"

definition closing_deadline :: "closing_client list \<Rightarrow> nat option" where
  "closing_deadline closing =
     (case closing of
        [] \<Rightarrow> None
      | c # cs \<Rightarrow> Some (fold (\<lambda>x m. min (cc_deadline x) m) cs (cc_deadline c)))"

text \<open>The poll timeout in milliseconds for a remaining time in microseconds: rounded up, so that
  the wake-up is not before the deadline, and clipped to 16 bits.\<close>

definition poll_timeout_until :: "nat \<Rightarrow> nat" where
  "poll_timeout_until rem_us = min ((rem_us + 999) div 1000) 65535"

subsection \<open>The send queue as a byte stream\<close>

definition sq_pending :: "send_queue \<Rightarrow> bytes" where
  "sq_pending q = drop (sq_head_written q) (concat (sq_frames q))"

definition sq_inv :: "send_queue \<Rightarrow> bool" where
  "sq_inv q \<longleftrightarrow>
     sq_queued_bytes q = length (sq_pending q)
     \<and> (case sq_frames q of [] \<Rightarrow> sq_head_written q = 0 | f # _ \<Rightarrow> sq_head_written q \<le> length f)
     \<and> (sq_failed q \<longrightarrow> sq_frames q = [])"

lemma sq_inv_new [simp]: "sq_inv sq_new" and sq_pending_new [simp]: "sq_pending sq_new = []"
  by (simp_all add: sq_inv_def sq_new_def sq_pending_def)

lemma sq_inv_fail [simp]: "sq_inv (sq_fail q)" and sq_failed_fail [simp]: "sq_failed (sq_fail q)"
  by (simp_all add: sq_inv_def sq_fail_def sq_pending_def)

lemma sq_inv_queued: "sq_inv q \<Longrightarrow> sq_queued_bytes q = length (sq_pending q)"
  by (simp add: sq_inv_def)

lemma sq_inv_failed: "sq_inv q \<Longrightarrow> sq_failed q \<Longrightarrow> sq_pending q = []"
  by (simp add: sq_inv_def sq_pending_def)

lemma sq_push_spec:
  assumes "sq_inv q" and "\<not> sq_failed q"
  shows "sq_inv (sq_push q b)" and "sq_pending (sq_push q b) = sq_pending q @ b"
    and "sq_failed (sq_push q b) = sq_failed q"
  using assms by (auto simp: sq_inv_def sq_push_def sq_pending_def split: list.splits)

lemma sq_pop_empty_head:
  assumes "sq_inv q" and "sq_frames q = front # fs" and "drop (sq_head_written q) front = []"
  shows "sq_inv (q\<lparr>sq_frames := fs, sq_head_written := 0\<rparr>)"
    and "sq_pending (q\<lparr>sq_frames := fs, sq_head_written := 0\<rparr>) = sq_pending q"
  using assms by (auto simp: sq_inv_def sq_pending_def split: list.splits)

lemma sq_advance_spec:
  assumes "sq_inv q" and "sq_frames q = front # fs" and "n \<le> length front - sq_head_written q"
  shows "sq_inv (sq_advance q n)" and "sq_failed (sq_advance q n) = sq_failed q"
    and "sq_pending q = take n (drop (sq_head_written q) front) @ sq_pending (sq_advance q n)"
proof -
  have h: "sq_head_written q \<le> length front" using assms(1,2) by (simp add: sq_inv_def)
  have p: "sq_pending q = take n (drop (sq_head_written q) front) @ drop (sq_head_written q + n) (front @ concat fs)"
    using assms h by (simp add: sq_pending_def)
      (metis append.assoc append_take_drop_id drop_append drop_drop add.commute)
  have q: "sq_pending (sq_advance q n) = drop (sq_head_written q + n) (front @ concat fs)"
    using assms h by (auto simp: sq_pending_def sq_advance_def Let_def)
  show "sq_pending q = take n (drop (sq_head_written q) front) @ sq_pending (sq_advance q n)"
    using p q by simp
  show "sq_failed (sq_advance q n) = sq_failed q" by (simp add: sq_advance_def Let_def)
  have "length (sq_pending (sq_advance q n)) = sq_queued_bytes q - n"
    using assms p q by (simp add: sq_inv_def)
  then show "sq_inv (sq_advance q n)"
    using assms h by (auto simp: sq_inv_def sq_advance_def Let_def split: list.splits)
qed

text \<open>What a flush pass achieved: the bytes \<open>w\<close> it moved from the front of the queue to the
  peer.\<close>

definition moved :: "send_queue \<Rightarrow> sock \<Rightarrow> nat \<Rightarrow> write_progress \<times> send_queue \<times> sock \<Rightarrow> bytes \<Rightarrow> bool" where
  "moved q s left r w \<longleftrightarrow>
     (case r of (p, q', s') \<Rightarrow>
        so_out s' = so_out s @ w \<and> length w \<le> left \<and> sq_inv q' \<and> prefix w (sq_pending q)
        \<and> (if p = WriteFailed then sq_failed q' else \<not> sq_failed q' \<and> sq_pending q = w @ sq_pending q')
        \<and> (p = Drained \<longrightarrow> sq_frames q' = []) \<and> (p = Paused \<longrightarrow> length w = left))"

lemma movedI_stop:
  "sq_inv q' \<Longrightarrow> sq_pending q' = sq_pending q \<Longrightarrow> so_out s' = so_out s \<Longrightarrow> \<not> sq_failed q' \<Longrightarrow>
   p \<noteq> WriteFailed \<Longrightarrow> p = Drained \<longrightarrow> sq_frames q' = [] \<Longrightarrow> p = Paused \<longrightarrow> left = 0 \<Longrightarrow>
   moved q s left (p, q', s') []"
  by (simp add: moved_def)

lemma moved_fail: "so_out s' = so_out s \<Longrightarrow> moved q s left (WriteFailed, sq_fail q, s') []"
  by (simp add: moved_def)

lemma moved_step:
  assumes "moved q' s' (left - n) r w" and "so_out s' = so_out s @ v" and "length v = n" and "n \<le> left"
    and "sq_pending q = v @ sq_pending q'"
  shows "moved q s left r (v @ w)"
  using assms by (auto simp: moved_def split: prod.splits if_splits)

lemma moved_same:
  "moved q' s' left r w \<Longrightarrow> sq_pending q' = sq_pending q \<Longrightarrow> so_out s' = so_out s \<Longrightarrow> moved q s left r w"
  by (simp add: moved_def split: prod.splits if_splits)

lemma sq_write_loop_moved:
  "sq_inv q \<Longrightarrow> \<not> sq_failed q \<Longrightarrow> \<exists>w. moved q s left (sq_write_loop q s left) w"
proof (induction q s left rule: sq_write_loop.induct)
  case (1 q s left)
  show ?case
  proof (cases "sq_frames q")
    case Nil
    then show ?thesis
      using 1(4,5) by (subst sq_write_loop.simps) (auto intro!: exI movedI_stop)
  next
    case (Cons front fs)
    define rest where "rest = drop (sq_head_written q) front"
    have h: "sq_head_written q \<le> length front" using 1(4) Cons by (simp add: sq_inv_def)
    consider "rest = []" | "rest \<noteq> []" "left = 0" | "rest \<noteq> []" "left \<noteq> 0" by blast
    then show ?thesis
    proof cases
      case 1
      note pop = sq_pop_empty_head [OF "1.prems"(1) Cons 1 [unfolded rest_def]]
      have "\<exists>w. moved (q\<lparr>sq_frames := fs, sq_head_written := 0\<rparr>) s left
          (sq_write_loop (q\<lparr>sq_frames := fs, sq_head_written := 0\<rparr>) s left) w"
        using "1.IH"(1) [OF Cons rest_def 1 pop(1)] "1.prems"(2) by simp
      then obtain w where w: "moved (q\<lparr>sq_frames := fs, sq_head_written := 0\<rparr>) s left
          (sq_write_loop (q\<lparr>sq_frames := fs, sq_head_written := 0\<rparr>) s left) w" ..
      from moved_same [OF w pop(2) refl] show ?thesis
        using Cons 1 by (subst sq_write_loop.simps) (auto simp: rest_def)
    next
      case 2
      then show ?thesis
        using "1.prems" Cons by (subst sq_write_loop.simps) (auto simp: rest_def intro!: exI movedI_stop)
    next
      case 3
      obtain r s' where w: "sock_write s (take (min (length rest) left) rest) = (r, s')" by fastforce
      show ?thesis
      proof (cases r)
        case (WroteN n)
        then have n: "n \<le> length rest" "n \<le> left" and out: "so_out s' = so_out s @ take n rest"
          using w by (auto simp: min_def split: list.splits sock_answer.splits)
        show ?thesis
        proof (cases "n = 0")
          case True
          then show ?thesis
            using Cons 3 w WroteN out by (subst sq_write_loop.simps)
              (auto simp: rest_def Let_def intro!: exI moved_fail)
        next
          case False
          have le: "n \<le> length front - sq_head_written q" using n(1) by (simp add: rest_def)
          note adv = sq_advance_spec [OF "1.prems"(1) Cons le]
          obtain v where "moved (sq_advance q n) s' (left - n) (sq_write_loop (sq_advance q n) s' (left - n)) v"
            using "1.IH"(2) [OF Cons rest_def 3 w [symmetric] WroteN False adv(1)] adv(2) "1.prems"(2) by auto
          from moved_step [OF this out] have "moved q s left (sq_write_loop (sq_advance q n) s' (left - n)) (take n rest @ v)"
            using n adv(3) by (simp add: rest_def)
          then show ?thesis
            using Cons 3 w WroteN False by (subst sq_write_loop.simps) (auto simp: rest_def Let_def)
        qed
      next
        case WErrWouldBlock
        then have "so_out s' = so_out s" using w by (auto split: list.splits sock_answer.splits)
        then show ?thesis
          using Cons 3 w WErrWouldBlock "1.prems" by (subst sq_write_loop.simps)
            (auto simp: rest_def Let_def intro!: exI movedI_stop)
      next
        case WErrInterrupted
        then have out: "so_out s' = so_out s" using w by (auto split: list.splits sock_answer.splits)
        obtain v where "moved q s' left (sq_write_loop q s' left) v"
          using "1.IH"(3) [OF Cons rest_def 3 w [symmetric] WErrInterrupted] "1.prems" by auto
        then have "moved q s left (sq_write_loop q s' left) v"
          using out by (rule moved_same [OF _ refl])
        then show ?thesis
          using Cons 3 w WErrInterrupted by (subst sq_write_loop.simps) (auto simp: rest_def Let_def)
      next
        case WErrOther
        then have "so_out s' = so_out s" using w by (auto split: list.splits sock_answer.splits)
        then show ?thesis
          using Cons 3 w WErrOther by (subst sq_write_loop.simps)
            (auto simp: rest_def Let_def intro!: exI moved_fail)
      qed
    qed
  qed
qed

text \<open>One iteration of the loop per shape of the queue and answer of the kernel, for evaluation.\<close>

lemma sq_write_loop_Nil: "sq_frames q = [] \<Longrightarrow> sq_write_loop q s left = (Drained, q, s)"
  by (subst sq_write_loop.simps) simp

lemma sq_write_loop_pop:
  "sq_frames q = front # fs \<Longrightarrow> drop (sq_head_written q) front = [] \<Longrightarrow>
   sq_write_loop q s left = sq_write_loop (q\<lparr>sq_frames := fs, sq_head_written := 0\<rparr>) s left"
  by (subst sq_write_loop.simps) simp

lemma sq_write_loop_block:
  "sq_frames q = front # fs \<Longrightarrow> drop (sq_head_written q) front \<noteq> [] \<Longrightarrow> left \<noteq> 0 \<Longrightarrow>
   so_answers s = [] \<Longrightarrow> sq_write_loop q s left = (Blocked, q, s)"
  "sq_frames q = front # fs \<Longrightarrow> drop (sq_head_written q) front \<noteq> [] \<Longrightarrow> left \<noteq> 0 \<Longrightarrow>
   so_answers s = WouldBlock # as \<Longrightarrow> sq_write_loop q s left = (Blocked, q, s\<lparr>so_answers := as\<rparr>)"
  by (subst sq_write_loop.simps, simp)+

lemma sq_write_loop_accept:
  "sq_frames q = front # fs \<Longrightarrow> drop (sq_head_written q) front \<noteq> [] \<Longrightarrow> left \<noteq> 0 \<Longrightarrow>
   so_answers s = Accept k # as \<Longrightarrow> k \<noteq> 0 \<Longrightarrow>
   n = min k (min (length front - sq_head_written q) left) \<Longrightarrow>
   sq_write_loop q s left =
     sq_write_loop (sq_advance q n)
       (s\<lparr>so_answers := as, so_out := so_out s @ take n (drop (sq_head_written q) front)\<rparr>) (left - n)"
  by (subst sq_write_loop.simps) (auto simp: Let_def min.commute min.left_commute)

lemma sq_write_loop_intr:
  "sq_frames q = front # fs \<Longrightarrow> drop (sq_head_written q) front \<noteq> [] \<Longrightarrow> left \<noteq> 0 \<Longrightarrow>
   so_answers s = Interrupted # as \<Longrightarrow> sq_write_loop q s left = sq_write_loop q (s\<lparr>so_answers := as\<rparr>) left"
  by (subst sq_write_loop.simps) (simp add: Let_def)

lemmas sq_write_loop_eval =
  sq_write_loop_Nil sq_write_loop_pop sq_write_loop_block sq_write_loop_accept [OF _ _ _ _ _ refl]
  sq_write_loop_intr

lemma ch_flush_send_moved:
  assumes "sq_inv (ch_send ch)" and "\<not> sq_failed (ch_send ch)"
  shows "\<exists>w. so_out (ch_stream (snd (ch_flush_send ch))) = so_out (ch_stream ch) @ w
           \<and> length w \<le> WRITE_BUDGET_PER_PASS \<and> sq_inv (ch_send (snd (ch_flush_send ch)))
           \<and> prefix w (sq_pending (ch_send ch))
           \<and> (sq_failed (ch_send (snd (ch_flush_send ch)))
              \<or> sq_pending (ch_send ch) = w @ sq_pending (ch_send (snd (ch_flush_send ch))))"
proof -
  obtain w where "moved (ch_send ch) (ch_stream ch) WRITE_BUDGET_PER_PASS
      (sq_write_loop (ch_send ch) (ch_stream ch) WRITE_BUDGET_PER_PASS) w"
    using sq_write_loop_moved [OF assms] by blast
  then show ?thesis
    using assms(2) by (intro exI [of _ w])
      (auto simp: moved_def ch_flush_send_def sq_write_to_def split: prod.splits if_splits)
qed

lemma ch_flush_send_failed: "sq_failed (ch_send ch) \<Longrightarrow> snd (ch_flush_send ch) = ch"
  by (simp add: ch_flush_send_def sq_write_to_def)

subsection \<open>The channel to one client\<close>

text \<open>What the daemon can do to the connection of one client, in any order: a bounded enqueue, an
  enqueue that ignores the limit (handshake response, last notifications), and a flush pass
  during which the kernel gives the listed answers. The ghost log holds the accepted payloads.\<close>

datatype chan_op = OpEnqueue bytes | OpForce bytes | OpFlush "sock_answer list"

fun chan_step :: "client_handle \<times> bytes list \<Rightarrow> chan_op \<Rightarrow> client_handle \<times> bytes list" where
  "chan_step (ch, log) (OpEnqueue b) =
     (case enqueue_for_client ch b of (oc, ch') \<Rightarrow> (ch', if oc = Sent then log @ [b] else log))"
| "chan_step (ch, log) (OpForce b) =
     (enqueue_ignoring_limit ch b, if sq_failed (ch_send ch) then log else log @ [b])"
| "chan_step (ch, log) (OpFlush as) =
     (snd (ch_flush_send (ch\<lparr>ch_stream := (ch_stream ch)\<lparr>so_answers := as\<rparr>\<rparr>)), log)"

definition chan_inv :: "client_handle \<times> bytes list \<Rightarrow> bool" where
  "chan_inv x \<longleftrightarrow>
     sq_inv (ch_send (fst x)) \<and> prefix (so_out (ch_stream (fst x))) (concat (snd x))
     \<and> (\<not> sq_failed (ch_send (fst x)) \<longrightarrow>
          concat (snd x) = so_out (ch_stream (fst x)) @ sq_pending (ch_send (fst x)))"

definition fresh_chan :: "client_id \<Rightarrow> client_mode \<Rightarrow> nat \<Rightarrow> client_handle \<times> bytes list" where
  "fresh_chan i m limit = (ch_new i m False [] \<lparr>so_answers = [], so_out = []\<rparr> limit 0, [])"

lemma chan_inv_fresh: "chan_inv (fresh_chan i m limit)"
  by (simp add: chan_inv_def fresh_chan_def ch_new_def)

lemma chan_inv_step:
  assumes "chan_inv x"
  shows "chan_inv (chan_step x op)"
proof -
  obtain ch log where x: "x = (ch, log)" by (cases x)
  show ?thesis
  proof (cases op)
    case (OpEnqueue b)
    with assms x show ?thesis
      by (auto simp: chan_inv_def enqueue_for_client_def Let_def sq_push_spec intro: prefix_prefix)
  next
    case (OpForce b)
    with assms x show ?thesis
      by (auto simp: chan_inv_def enqueue_ignoring_limit_def sq_push_spec intro: prefix_prefix)
  next
    case (OpFlush as)
    let ?ch = "ch\<lparr>ch_stream := (ch_stream ch)\<lparr>so_answers := as\<rparr>\<rparr>"
    show ?thesis
    proof (cases "sq_failed (ch_send ch)")
      case True
      with assms x OpFlush show ?thesis by (simp add: chan_inv_def ch_flush_send_failed)
    next
      case False
      with assms x have i: "sq_inv (ch_send ?ch)" "\<not> sq_failed (ch_send ?ch)"
        and l: "concat log = so_out (ch_stream ch) @ sq_pending (ch_send ch)" by (auto simp: chan_inv_def)
      from ch_flush_send_moved [OF i] l show ?thesis
        by (auto simp: x OpFlush chan_inv_def prefix_def)
    qed
  qed
qed

interpretation chan: transition_system chan_step "fresh_chan i m limit" chan_inv "\<lambda>_. True"
  for i m limit
  by unfold_locales (auto intro: chan_inv_fresh chan_inv_step)

lemma chan_inv_run: "chan_inv (run_events chan_step (fresh_chan i m limit) ops)"
  by (rule chan.inv_reachable) (simp add: list_all_iff)

text \<open>The byte limit of a queue that is only filled through the bounded enqueue.\<close>

definition chan_limit_inv :: "nat \<Rightarrow> nat \<Rightarrow> client_handle \<times> bytes list \<Rightarrow> bool" where
  "chan_limit_inv limit big x \<longleftrightarrow>
     chan_inv x \<and> ch_buffer_limit (fst x) = limit \<and> ch_queued_bytes (fst x) \<le> max limit big"

definition bounded_op :: "nat \<Rightarrow> chan_op \<Rightarrow> bool" where
  "bounded_op big op \<longleftrightarrow> (case op of OpEnqueue b \<Rightarrow> length b \<le> big | OpForce _ \<Rightarrow> False | OpFlush _ \<Rightarrow> True)"

lemma sq_pending_flush_le:
  assumes "sq_inv (ch_send ch)"
  shows "ch_queued_bytes (snd (ch_flush_send ch)) \<le> ch_queued_bytes ch"
proof (cases "sq_failed (ch_send ch)")
  case True
  then show ?thesis by (simp add: ch_flush_send_failed)
next
  case False
  from ch_flush_send_moved [OF assms False] show ?thesis
    using assms by (auto simp: ch_queued_bytes_def sq_inv_queued sq_inv_failed)
qed

lemma chan_limit_inv_step:
  assumes "chan_limit_inv limit big x" and "bounded_op big op" and "limit < 2 ^ 64 - 1"
  shows "chan_limit_inv limit big (chan_step x op)"
proof -
  obtain ch log where x: "x = (ch, log)" by (cases x)
  have inv: "chan_inv (chan_step x op)" using assms(1) by (auto simp: chan_limit_inv_def intro: chan_inv_step)
  show ?thesis
  proof (cases op)
    case (OpEnqueue b)
    with assms x inv show ?thesis
      by (auto simp: chan_limit_inv_def enqueue_for_client_def Let_def ch_queued_bytes_def bounded_op_def
          usize_saturating_add_def sq_push_def)
  next
    case (OpForce b)
    with assms(2) show ?thesis by (simp add: bounded_op_def)
  next
    case (OpFlush as)
    let ?ch = "ch\<lparr>ch_stream := (ch_stream ch)\<lparr>so_answers := as\<rparr>\<rparr>"
    have "sq_inv (ch_send ?ch)" using assms(1) x by (simp add: chan_limit_inv_def chan_inv_def)
    from sq_pending_flush_le [OF this] have "ch_queued_bytes (snd (ch_flush_send ?ch)) \<le> ch_queued_bytes ch"
      by (simp add: ch_queued_bytes_def)
    moreover have "ch_buffer_limit (snd (ch_flush_send ?ch)) = ch_buffer_limit ch"
      by (simp add: ch_flush_send_def split: prod.splits)
    ultimately show ?thesis
      using assms(1) x inv OpFlush by (simp add: chan_limit_inv_def)
  qed
qed

interpretation chan_limit: transition_system chan_step "fresh_chan i m limit" "chan_limit_inv limit big"
  "\<lambda>op. bounded_op big op \<and> limit < 2 ^ 64 - 1" for i m limit big
proof
  show "chan_limit_inv limit big (fresh_chan i m limit)"
    by (simp add: chan_limit_inv_def chan_inv_fresh) (simp add: fresh_chan_def ch_new_def ch_queued_bytes_def sq_new_def)
qed (auto intro: chan_limit_inv_step)

subsection \<open>Broadcasts are pointwise\<close>

definition broadcast_one ::
  "control_encoder \<Rightarrow> (client_handle \<Rightarrow> bytes option) \<Rightarrow> client_handle \<Rightarrow> client_handle \<times> client_id list" where
  "broadcast_one enc pay ch = (case pay ch of None \<Rightarrow> (ch, []) | Some fb \<Rightarrow> broadcast_step enc ch fb)"

lemma broadcast_each_map:
  "broadcast_each enc pay chs =
     (map (\<lambda>ch. fst (broadcast_one enc pay ch)) chs, concat (map (\<lambda>ch. snd (broadcast_one enc pay ch)) chs))"
  by (induction chs) (auto simp: broadcast_one_def Let_def split: prod.splits option.splits)

text \<open>What no sending operation touches.\<close>

definition same_identity :: "client_handle \<Rightarrow> client_handle \<Rightarrow> bool" where
  "same_identity a b \<longleftrightarrow> ch_id a = ch_id b \<and> ch_mode a = ch_mode b \<and> ch_leader a = ch_leader b
     \<and> ch_subscription a = ch_subscription b \<and> ch_negotiated_caps a = ch_negotiated_caps b
     \<and> ch_buffer_limit a = ch_buffer_limit b \<and> ch_decoder a = ch_decoder b
     \<and> so_out (ch_stream a) = so_out (ch_stream b)"

lemma same_identity_refl [simp]: "same_identity a a"
  by (simp add: same_identity_def)

lemma same_identity_send [simp]: "same_identity (ch\<lparr>ch_send := q\<rparr>) ch" "same_identity ch (ch\<lparr>ch_send := q\<rparr>)"
  by (simp_all add: same_identity_def)

lemma enqueue_same_identity [simp]: "same_identity (snd (enqueue_for_client ch b)) ch"
  by (simp add: enqueue_for_client_def Let_def)

lemma send_control_same_identity [simp]: "same_identity (snd (send_control enc ch m)) ch"
  by (simp add: send_control_def case_prod_beta split: option.splits)

lemma send_raw_ack_same_identity [simp]: "same_identity (snd (send_raw_ack aenc ch a)) ch"
  by (simp add: send_raw_ack_def case_prod_beta split: option.splits)

lemma send_backpressure_same_identity [simp]: "same_identity (send_backpressure_error enc ch n) ch"
  by (simp add: send_backpressure_error_def split: option.splits)

lemma broadcast_step_cases:
  "broadcast_step enc ch fb =
     (if sq_failed (ch_send ch) then (ch, [])
      else if ch_queued_bytes ch > 0 \<and> usize_saturating_add (ch_queued_bytes ch) (length fb) > ch_buffer_limit ch
      then (send_backpressure_error enc ch (ch_queued_bytes ch), [ch_id ch])
      else (ch\<lparr>ch_send := sq_push (ch_send ch) fb\<rparr>, []))"
  by (simp add: broadcast_step_def enqueue_for_client_def handle_enqueue_outcome_def Let_def ch_queued_bytes_def)

lemma broadcast_one_same_identity [simp]: "same_identity (fst (broadcast_one enc pay ch)) ch"
  by (simp add: broadcast_one_def broadcast_step_cases split: option.splits)

lemma broadcast_one_ids: "set (snd (broadcast_one enc pay ch)) \<subseteq> {ch_id ch}"
  by (simp add: broadcast_one_def broadcast_step_cases split: option.splits)

subsection \<open>Closing clients\<close>

lemma still_writing_deadline [simp]: "cc_deadline (snd (still_writing c)) = cc_deadline c"
  by (simp add: still_writing_def split: prod.splits)

lemma closing_deadline_fold:
  "fold (\<lambda>x m. min (cc_deadline x) m) cs d \<le> d
   \<and> (\<forall>c \<in> set cs. fold (\<lambda>x m. min (cc_deadline x) m) cs d \<le> cc_deadline c)
   \<and> fold (\<lambda>x m. min (cc_deadline x) m) cs d \<in> insert d (cc_deadline ` set cs)"
proof (induction cs arbitrary: d)
  case Nil
  then show ?case by simp
next
  case (Cons c cs)
  from Cons.IH [of "min (cc_deadline c) d"] show ?case
    by (auto simp: min_def split: if_splits)
qed

lemma closing_deadline_Min:
  "closing_deadline closing = (if closing = [] then None else Some (Min (cc_deadline ` set closing)))"
proof (cases closing)
  case Nil
  then show ?thesis by (simp add: closing_deadline_def)
next
  case (Cons c cs)
  have "fold (\<lambda>x m. min (cc_deadline x) m) cs (cc_deadline c) = Min (cc_deadline ` set closing)"
    using closing_deadline_fold [of cs "cc_deadline c"] Cons
    by (intro Min_eqI [symmetric]) auto
  with Cons show ?thesis by (simp add: closing_deadline_def)
qed

subsection \<open>Properties\<close>

text \<open>C29. Reliable ordered delivery: whatever the daemon enqueues and flushes and whatever the
  kernel answers to its writes (short writes, \<open>EAGAIN\<close>, \<open>EINTR\<close>, errors), the bytes the peer
  has received are a prefix of the accepted payloads in order; while the connection has not
  failed, the accepted payloads are exactly the received bytes followed by the queue; and the
  byte counter that backpressure relies on is the length of the queue.\<close>

theorem send_queue_fifo:
  "case run_events chan_step (fresh_chan i m limit) ops of (ch, log) \<Rightarrow>
     prefix (so_out (ch_stream ch)) (concat log)
     \<and> (sq_failed (ch_send ch) \<or> concat log = so_out (ch_stream ch) @ sq_pending (ch_send ch))
     \<and> ch_queued_bytes ch = length (sq_pending (ch_send ch))"
  using chan_inv_run [of i m limit ops]
  by (auto simp: chan_inv_def ch_queued_bytes_def sq_inv_queued split: prod.splits)

text \<open>Backpressure bound: a queue filled only through \<open>enqueue_for_client\<close> never holds more
  than the buffer limit, or one payload when a single payload is larger than the limit, for
  every interleaving of enqueues and flushes.\<close>

theorem send_queue_bounded:
  assumes "list_all (bounded_op big) ops" and "limit < 2 ^ 64 - 1"
  shows "ch_queued_bytes (fst (run_events chan_step (fresh_chan i m limit) ops)) \<le> max limit big"
proof -
  have "list_all (\<lambda>op. bounded_op big op \<and> limit < 2 ^ 64 - 1) ops"
    using assms by (auto simp: list_all_iff)
  from chan_limit.inv_reachable [OF this] show ?thesis by (simp add: chan_limit_inv_def)
qed

theorem send_queue_bounded_witness:
  "ch_queued_bytes (fst (run_events chan_step (fresh_chan 1 Rw 3)
      [OpEnqueue [1, 2], OpEnqueue [3, 4], OpFlush [Accept 1, WouldBlock], OpEnqueue [5, 6]])) \<le> max 3 2"
  by (rule send_queue_bounded) (simp_all add: bounded_op_def)

text \<open>Broadcasts are isolated: a client that a broadcast does not address keeps its whole
  state, an addressed client gets exactly the payload appended or, when its own queue is
  over the limit, the backpressure error and its id in the overflow list; a client whose
  queue is empty never overflows; identity, mode, leadership and capabilities are
  untouched; and no client's outcome depends on another's.\<close>

theorem broadcast_isolated:
  assumes "k < length clients" and "broadcast_each enc pay clients = (clients', ids)"
  shows "length clients' = length clients
    \<and> same_identity (clients' ! k) (clients ! k)
    \<and> (case pay (clients ! k) of
          None \<Rightarrow> clients' ! k = clients ! k
        | Some fb \<Rightarrow>
            (if sq_failed (ch_send (clients ! k)) then clients' ! k = clients ! k
             else if ch_queued_bytes (clients ! k) > 0
               \<and> usize_saturating_add (ch_queued_bytes (clients ! k)) (length fb) > ch_buffer_limit (clients ! k)
             then clients' ! k = send_backpressure_error enc (clients ! k) (ch_queued_bytes (clients ! k))
               \<and> ch_id (clients ! k) \<in> set ids
             else clients' ! k = (clients ! k)\<lparr>ch_send := sq_push (ch_send (clients ! k)) fb\<rparr>))
    \<and> set ids \<subseteq> ch_id ` set clients"
proof -
  from assms(2) have c: "clients' = map (\<lambda>ch. fst (broadcast_one enc pay ch)) clients"
    and i: "ids = concat (map (\<lambda>ch. snd (broadcast_one enc pay ch)) clients)"
    by (simp_all add: broadcast_each_map)
  have "clients ! k \<in> set clients" using assms(1) by simp
  then have "set (snd (broadcast_one enc pay (clients ! k))) \<subseteq> set ids" by (auto simp: i)
  moreover have "set ids \<subseteq> ch_id ` set clients" using broadcast_one_ids by (fastforce simp: i)
  ultimately show ?thesis
    using assms(1) broadcast_one_same_identity [of enc pay "clients ! k"]
    by (auto simp: c broadcast_one_def broadcast_step_cases split: option.splits if_splits)
qed

theorem broadcast_isolated_witness:
  "\<exists>clients' ids. broadcast_each (\<lambda>_. None) (\<lambda>_. Some [7])
      [ch_new 1 Rw True [] \<lparr>so_answers = [], so_out = []\<rparr> 10 0] = (clients', ids)
    \<and> same_identity (clients' ! 0) (ch_new 1 Rw True [] \<lparr>so_answers = [], so_out = []\<rparr> 10 0)"
proof -
  obtain clients' ids where b: "broadcast_each (\<lambda>_. None) (\<lambda>_. Some [7])
      [ch_new 1 Rw True [] \<lparr>so_answers = [], so_out = []\<rparr> 10 0] = (clients', ids)" by fastforce
  from broadcast_isolated [OF _ b, of 0] b show ?thesis by auto
qed

text \<open>End to end over one connection: the daemon enqueues encoded frames and flushes against
  an arbitrary kernel; whatever the peer has received, split into reads in any way, its decoder
  yields a prefix of the frames that were enqueued, never a protocol error and never a frame
  out of thin air.\<close>

theorem peer_decodes_prefix:
  assumes "run_events chan_step (fresh_chan i m limit) ops = (ch, log)"
    and "concat log = encode_all fs" and "list_all frame_ok fs"
    and "concat reads = so_out (ch_stream ch)"
  shows "prefix (snd (feed_chunks (fd_feed grow) (fd_new, None) reads)) fs
       \<and> snd (fst (feed_chunks (fd_feed grow) (fd_new, None) reads)) = None"
proof -
  from chan_inv_run [of i m limit ops] assms(1)
  obtain v where v: "encode_all fs = so_out (ch_stream ch) @ v"
    by (auto simp: chan_inv_def assms(2) prefix_def)
  obtain gs r e where p: "parse_all (so_out (ch_stream ch)) = (gs, r, e)" by (metis prod_cases3)
  have all: "parse_all (so_out (ch_stream ch) @ v) = (fs, [], None)"
    using parse_all_encode_all [OF assms(3)] v by simp
  with p parse_all_append [of "so_out (ch_stream ch)" v] have e: "e = None" and g: "prefix gs fs"
    by (auto split: option.splits prod.splits)
  from frame_stream.chunks_refine_spec [OF fd_rel_new, of grow reads] p e g show ?thesis
    by (auto simp: assms(4) fd_rel_def)
qed

definition chan_example_ops :: "chan_op list" where
  "chan_example_ops = [OpEnqueue [2, 0, 0, 0, 0, 65], OpFlush [Accept 3], OpEnqueue [1, 0, 0, 0, 1],
     OpFlush [Interrupted, Accept 1, Accept 9, WouldBlock]]"

lemma chan_example_run:
  "snd (run_events chan_step (fresh_chan 1 Rw 100) chan_example_ops)
     = [[2, 0, 0, 0, 0, 65], [1, 0, 0, 0, 1]]
   \<and> so_out (ch_stream (fst (run_events chan_step (fresh_chan 1 Rw 100) chan_example_ops)))
     = [2, 0, 0, 0, 0, 65]"
  by (simp add: chan_example_ops_def fresh_chan_def ch_new_def sq_new_def enqueue_for_client_def
      usize_saturating_add_def sq_push_def ch_flush_send_def sq_write_to_def WRITE_BUDGET_PER_PASS_def
      sq_write_loop_eval sq_advance_def)

theorem peer_decodes_prefix_witness:
  "prefix (snd (feed_chunks (fd_feed (\<lambda>_ n. n)) (fd_new, None) [[2, 0], [0, 0, 0, 65]]))
     [raw_data [65], cbor_control []]"
proof -
  obtain ch log where r: "run_events chan_step (fresh_chan 1 Rw 100) chan_example_ops = (ch, log)" by fastforce
  have "concat log = encode_all [raw_data [65], cbor_control []]"
    using chan_example_run r by (simp add: encode_all_def encode_to_def raw_data_def cbor_control_def
        u32_to_le_bytes_def MAX_FRAME_SIZE_def frame_consts)
  moreover have "list_all frame_ok [raw_data [65], cbor_control []]"
    by (simp add: frame_ok_def) (simp add: raw_data_def cbor_control_def MAX_FRAME_SIZE_def)
  moreover have "concat [[2, 0], [0, 0, 0, 65]] = so_out (ch_stream ch)"
    using chan_example_run r by simp
  ultimately show ?thesis using peer_decodes_prefix [OF r] by blast
qed

text \<open>Closing clients are bounded in number and in time: retiring a client never exceeds the
  limit, at most one entry is added, after a pass at time \<open>now\<close> only clients whose deadline is in the
  future and whose queue is not drained remain, and the deadline the serve loop waits for is
  the earliest of them, so no closing client outlives its deadline.\<close>

theorem closing_clients_bounded:
  assumes "length closing \<le> MAX_CLOSING_CLIENTS"
  shows "length (retire_client now closing ch) \<le> MAX_CLOSING_CLIENTS
    \<and> (\<forall>c \<in> set (advance_closing closing now). now < cc_deadline c)
    \<and> length (advance_closing closing now) \<le> length closing
    \<and> (case closing_deadline (advance_closing closing now) of
          None \<Rightarrow> advance_closing closing now = []
        | Some d \<Rightarrow> now < d \<and> (\<forall>c \<in> set (advance_closing closing now). d \<le> cc_deadline c))"
proof -
  have a: "\<forall>c \<in> set (advance_closing closing now). now < cc_deadline c"
    by (auto simp: advance_closing_def)
  have l: "length (advance_closing closing now) \<le> length closing"
    unfolding advance_closing_def by (metis length_filter_le length_map)
  have "case closing_deadline (advance_closing closing now) of
          None \<Rightarrow> advance_closing closing now = []
        | Some d \<Rightarrow> now < d \<and> (\<forall>c \<in> set (advance_closing closing now). d \<le> cc_deadline c)"
    using a by (simp add: closing_deadline_Min)
  with a l assms show ?thesis
    by (auto simp: retire_client_def admit_closing_def split: option.splits)
qed

theorem closing_clients_bounded_witness:
  "length (retire_client 5 [] (ch_new 1 Rw True [] \<lparr>so_answers = [], so_out = []\<rparr> 10 0)) \<le> MAX_CLOSING_CLIENTS"
  using closing_clients_bounded [of "[]" 5] by simp

end
