(* ===== verification/Lock.thy ===== *)
theory Lock
  imports Effects Broadcast
begin

text \<open>
  The lock domain and the leader rules, \<^verbatim>\<open>crates/hyoui/src/daemon/lock.rs\<close>: the pure reducer
  \<open>reduce\<close>, its effect form \<open>reduce_msg\<close>, the session flags of \<open>SessionState\<close>, token
  generation, and the three functions that decide who is the resize leader.

  The lock refines an abstract lock that is either free or held by one client with one token;
  the leader functions keep the invariant that there is at most one leader and that it is
  a \<open>Rw\<close> client.
\<close>

subsection \<open>State, messages, events\<close>

record lock_state =
  lk_holder :: "client_id option"
  lk_token :: "string option"
  lk_process_bound :: bool
  lk_next_effect_seq :: nat

definition lock_default :: lock_state where
  "lock_default = \<lparr>lk_holder = None, lk_token = None, lk_process_bound = False, lk_next_effect_seq = 0\<rparr>"

definition lock_session_mode :: "lock_state \<Rightarrow> session_mode" where
  "lock_session_mode s = (if lk_holder s \<noteq> None then SessionLocked else SessionRw)"

datatype lock_msg =
    LAcquire client_id "string option"
  | LRelease client_id string
  | LClientDisconnected client_id

datatype release_reason = ExplicitRelease | ProcessBoundGc

datatype deny_reason = HeldByOther | NotHolderOrTokenMismatch

datatype lock_event =
    EvAcquired client_id "string option" bool
  | EvTokenRequired client_id
  | EvReleased client_id release_reason
  | EvDenied client_id deny_reason

subsection \<open>The pure reducer\<close>

definition lock_grant :: "lock_state \<Rightarrow> client_id \<Rightarrow> string \<Rightarrow> lock_state" where
  "lock_grant s c t = s\<lparr>lk_holder := Some c, lk_token := Some t, lk_process_bound := True\<rparr>"

definition lock_clear :: "lock_state \<Rightarrow> lock_state" where
  "lock_clear s = s\<lparr>lk_holder := None, lk_token := None, lk_process_bound := False\<rparr>"

fun lock_reduce :: "lock_state \<Rightarrow> lock_msg \<Rightarrow> lock_state \<times> lock_event list" where
  "lock_reduce s (LAcquire c tok) =
     (if lk_holder s = Some c then (s, [EvAcquired c (lk_token s) False])
      else if lk_holder s \<noteq> None then (s, [EvDenied c HeldByOther])
      else (case tok of
              Some t \<Rightarrow> (lock_grant s c t, [EvAcquired c (Some t) True])
            | None \<Rightarrow> (s, [EvTokenRequired c])))"
| "lock_reduce s (LRelease c tok) =
     (if \<not> (lk_holder s = Some c \<and> lk_token s = Some tok)
      then (s, [EvDenied c NotHolderOrTokenMismatch])
      else (lock_clear s, [EvReleased c ExplicitRelease]))"
| "lock_reduce s (LClientDisconnected c) =
     (if lk_process_bound s \<and> lk_holder s = Some c
      then (lock_clear s, [EvReleased c ProcessBoundGc])
      else (s, []))"

subsection \<open>The effect form\<close>

definition lock_next_id :: "lock_state \<Rightarrow> effect_id \<times> lock_state" where
  "lock_next_id s = (EffectId DomLock (lk_next_effect_seq s), s\<lparr>lk_next_effect_seq := lk_next_effect_seq s + 1\<rparr>)"

definition lock_emit :: "lock_state \<Rightarrow> effect_kind \<Rightarrow> 'm domain_output \<Rightarrow> lock_state \<times> 'm domain_output" where
  "lock_emit s k out = (let (i, s') = lock_next_id s in (s', push_effect i k out))"

definition mode_change_msg :: "lock_state \<Rightarrow> client_id option \<Rightarrow> effect_kind" where
  "mode_change_msg s holder =
     ClientBroadcast
       (ModeChange \<lparr>mc_session_mode = lock_session_mode s, mc_lock_holder = holder, mc_client_mode = None\<rparr>)
       SubscribersOnly"

fun lock_event_effects :: "lock_state \<Rightarrow> 'm domain_output \<Rightarrow> lock_event \<Rightarrow> lock_state \<times> 'm domain_output" where
  "lock_event_effects s out (EvAcquired c tok newly) =
     (let (s1, out1) = lock_emit s
            (ClientReply c (LockResponse
               \<lparr>lr_result = LockAcquiredResult, lr_token = tok, lr_queue_position = None\<rparr>)) out
      in if newly then lock_emit s1 (mode_change_msg s1 (Some c)) out1 else (s1, out1))"
| "lock_event_effects s out (EvTokenRequired c) = (s, out)"
| "lock_event_effects s out (EvReleased c r) = lock_emit s (mode_change_msg s None) out"
| "lock_event_effects s out (EvDenied c HeldByOther) =
     lock_emit s (ClientReply c (LockResponse
        \<lparr>lr_result = LockDeniedResult, lr_token = None, lr_queue_position = None\<rparr>)) out"
| "lock_event_effects s out (EvDenied c NotHolderOrTokenMismatch) =
     lock_emit s (ClientReply c (ErrorMsg
        \<lparr>em_code = LockNotHeld, em_message = ''lock token mismatch or not the lock holder'', em_details = None\<rparr>)) out"

definition lock_reduce_msg :: "lock_state \<Rightarrow> lock_msg \<Rightarrow> lock_state \<times> 'm domain_output \<times> lock_event list" where
  "lock_reduce_msg s m =
     (let (s1, evs) = lock_reduce s m;
          (s2, out) = fold (\<lambda>ev (s, out). lock_event_effects s out ev) evs (s1, empty_output)
      in (s2, out, evs))"

subsection \<open>Session flags\<close>

datatype child_suspend_policy = SuspendNotify | SuspendAutoResume

definition policy_to_u8 :: "child_suspend_policy \<Rightarrow> byte" where
  "policy_to_u8 p = (case p of SuspendNotify \<Rightarrow> 0 | SuspendAutoResume \<Rightarrow> 1)"

definition policy_from_u8 :: "byte \<Rightarrow> child_suspend_policy" where
  "policy_from_u8 v = (if v = 1 then SuspendAutoResume else SuspendNotify)"

record session_state =
  ss_child_stopped :: bool
  ss_child_suspend_policy :: byte
  ss_upgrade_pending :: bool
  ss_upgrade_target :: "string option"

definition session_default :: session_state where
  "session_default = \<lparr>ss_child_stopped = False, ss_child_suspend_policy = 0, ss_upgrade_pending = False,
     ss_upgrade_target = None\<rparr>"

definition set_child_stopped :: "bool \<Rightarrow> session_state \<Rightarrow> session_state" where
  "set_child_stopped b s = s\<lparr>ss_child_stopped := b\<rparr>"

definition set_child_suspend_policy :: "child_suspend_policy \<Rightarrow> session_state \<Rightarrow> session_state" where
  "set_child_suspend_policy p s = s\<lparr>ss_child_suspend_policy := policy_to_u8 p\<rparr>"

definition get_child_suspend_policy :: "session_state \<Rightarrow> child_suspend_policy" where
  "get_child_suspend_policy s = policy_from_u8 (ss_child_suspend_policy s)"

definition set_upgrade_pending :: "session_state \<Rightarrow> session_state" where
  "set_upgrade_pending s = s\<lparr>ss_upgrade_pending := True\<rparr>"

definition clear_upgrade_pending :: "session_state \<Rightarrow> session_state" where
  "clear_upgrade_pending s = s\<lparr>ss_upgrade_pending := False, ss_upgrade_target := None\<rparr>"

definition set_upgrade_target :: "string option \<Rightarrow> session_state \<Rightarrow> session_state" where
  "set_upgrade_target p s = s\<lparr>ss_upgrade_target := p\<rparr>"

definition take_upgrade_target :: "session_state \<Rightarrow> string option \<times> session_state" where
  "take_upgrade_target s = (ss_upgrade_target s, s\<lparr>ss_upgrade_target := None\<rparr>)"

subsection \<open>Tokens\<close>

text \<open>\<open>None\<close> is the error of \<open>read_exact\<close> on a reader that delivers fewer than 16 bytes.\<close>

definition generate_lock_token_from :: "bytes \<Rightarrow> string option" where
  "generate_lock_token_from rd =
     (if length rd < 16 then None else Some (concat (map hex_byte (take 16 rd))))"

subsection \<open>The leader\<close>

definition should_assign_leader :: "client_handle list \<Rightarrow> client_mode \<Rightarrow> bool" where
  "should_assign_leader clients new_mode \<longleftrightarrow> new_mode = Rw \<and> \<not> list_ex ch_leader clients"

fun elevate_first_rw :: "client_handle list \<Rightarrow> client_handle list \<times> client_id option" where
  "elevate_first_rw [] = ([], None)"
| "elevate_first_rw (c # cs) =
     (if ch_mode c = Rw then (c\<lparr>ch_leader := True\<rparr> # cs, Some (ch_id c))
      else (let (cs', r) = elevate_first_rw cs in (c # cs', r)))"

definition elevate_next_leader :: "client_handle list \<Rightarrow> client_handle list \<times> client_id option" where
  "elevate_next_leader clients =
     (if list_ex ch_leader clients then (clients, None) else elevate_first_rw clients)"

datatype leader_takeover = AlreadyLeader client_id | Taken client_id bool

text \<open>\<open>None\<close> is the panic of an index out of range.\<close>

definition take_leader :: "client_handle list \<Rightarrow> nat \<Rightarrow> (client_handle list \<times> leader_takeover) option" where
  "take_leader clients idx =
     (if idx \<ge> length clients then None
      else let rid = ch_id (clients ! idx) in
        if ch_leader (clients ! idx) then Some (clients, AlreadyLeader rid)
        else let mode_changed = (ch_mode (clients ! idx) = RwNoLeader);
                 clients1 = (if mode_changed then clients[idx := (clients ! idx)\<lparr>ch_mode := Rw\<rparr>] else clients)
             in Some (map (\<lambda>c. c\<lparr>ch_leader := (ch_id c = rid)\<rparr>) clients1, Taken rid mode_changed))"

subsection \<open>The abstract lock\<close>

text \<open>Free, or held by one client under one token.\<close>

type_synonym abstract_lock = "(client_id \<times> string) option"

fun abstract_lock_step :: "abstract_lock \<Rightarrow> lock_msg \<Rightarrow> abstract_lock" where
  "abstract_lock_step None (LAcquire c (Some t)) = Some (c, t)"
| "abstract_lock_step None m = None"
| "abstract_lock_step (Some (h, t)) (LAcquire c tok) = Some (h, t)"
| "abstract_lock_step (Some (h, t)) (LRelease c tok) = (if c = h \<and> tok = t then None else Some (h, t))"
| "abstract_lock_step (Some (h, t)) (LClientDisconnected c) = (if c = h then None else Some (h, t))"

definition lock_abs :: "lock_state \<Rightarrow> abstract_lock" where
  "lock_abs s = (case (lk_holder s, lk_token s) of (Some h, Some t) \<Rightarrow> Some (h, t) | _ \<Rightarrow> None)"

definition lock_inv :: "lock_state \<Rightarrow> bool" where
  "lock_inv s \<longleftrightarrow> (lk_holder s = None \<longleftrightarrow> lk_token s = None) \<and> (lk_process_bound s \<longleftrightarrow> lk_holder s \<noteq> None)"

lemma lock_inv_default [simp]: "lock_inv lock_default"
  by (simp add: lock_inv_def lock_default_def)

lemma lock_inv_reduce: "lock_inv s \<Longrightarrow> lock_inv (fst (lock_reduce s m))"
  by (cases m) (auto simp: lock_inv_def lock_grant_def lock_clear_def split: option.splits)

lemma lock_abs_reduce:
  assumes "lock_inv s"
  shows "lock_abs (fst (lock_reduce s m)) = abstract_lock_step (lock_abs s) m"
proof (cases m)
  case (LAcquire c tok)
  with assms show ?thesis
    by (cases tok) (auto simp: lock_abs_def lock_inv_def lock_grant_def split: option.splits)
next
  case (LRelease c tok)
  with assms show ?thesis by (auto simp: lock_abs_def lock_inv_def lock_clear_def split: option.splits)
next
  case (LClientDisconnected c)
  with assms show ?thesis by (auto simp: lock_abs_def lock_inv_def lock_clear_def split: option.splits)
qed

text \<open>The effect form changes nothing of the lock but the effect counter.\<close>

lemma lock_emit_state:
  "fst (lock_emit s k out) = s\<lparr>lk_next_effect_seq := lk_next_effect_seq s + 1\<rparr>"
  "out_cross (snd (lock_emit s k out)) = out_cross out"
  "out_effects (snd (lock_emit s k out)) =
     out_effects out @ [\<lparr>eff_id = EffectId DomLock (lk_next_effect_seq s), eff_kind = k\<rparr>]"
  by (simp_all add: lock_emit_def lock_next_id_def)

definition same_lock :: "lock_state \<Rightarrow> lock_state \<Rightarrow> bool" where
  "same_lock a b \<longleftrightarrow> lk_holder a = lk_holder b \<and> lk_token a = lk_token b \<and> lk_process_bound a = lk_process_bound b"

lemma lock_event_effects_same: "same_lock (fst (lock_event_effects s out ev)) s"
  by (cases "(s, out, ev)" rule: lock_event_effects.cases)
    (auto simp: same_lock_def lock_emit_def lock_next_id_def Let_def)

lemma lock_reduce_one_event: "length (snd (lock_reduce s m)) \<le> 1"
  by (cases m) (auto split: option.splits)

lemma lock_reduce_msg_eq:
  "snd (lock_reduce s m) = [] \<Longrightarrow> lock_reduce_msg s m = (fst (lock_reduce s m), empty_output, [])"
  "snd (lock_reduce s m) = [ev] \<Longrightarrow>
   lock_reduce_msg s m =
     (let r = lock_event_effects (fst (lock_reduce s m)) empty_output ev in (fst r, snd r, [ev]))"
  by (simp_all add: lock_reduce_msg_def case_prod_beta Let_def)

lemma lock_reduce_events_cases:
  obtains "snd (lock_reduce s m) = []" | ev where "snd (lock_reduce s m) = [ev]"
  using lock_reduce_one_event [of s m] by (cases "snd (lock_reduce s m)") auto

lemma lock_reduce_msg_same:
  "same_lock (fst (lock_reduce_msg s m)) (fst (lock_reduce s m))"
  "snd (snd (lock_reduce_msg s m)) = snd (lock_reduce s m)"
proof -
  show "same_lock (fst (lock_reduce_msg s m)) (fst (lock_reduce s m))"
    by (cases s m rule: lock_reduce_events_cases)
      (simp_all add: lock_reduce_msg_eq Let_def lock_event_effects_same, simp add: same_lock_def)
  show "snd (snd (lock_reduce_msg s m)) = snd (lock_reduce s m)"
    by (simp add: lock_reduce_msg_def split: prod.splits)
qed

lemma same_lock_abs: "same_lock a b \<Longrightarrow> lock_abs a = lock_abs b" "same_lock a b \<Longrightarrow> lock_inv a = lock_inv b"
  by (simp_all add: same_lock_def lock_abs_def lock_inv_def)

lemma lock_reduce_msg_refines:
  assumes "lock_inv s"
  shows "lock_inv (fst (lock_reduce_msg s m))"
    and "lock_abs (fst (lock_reduce_msg s m)) = abstract_lock_step (lock_abs s) m"
  using same_lock_abs [OF lock_reduce_msg_same(1) [of s m]] lock_inv_reduce [OF assms] lock_abs_reduce [OF assms]
  by simp_all

lemma lock_event_effects_cross: "out_cross (snd (lock_event_effects s out ev)) = out_cross out"
  by (cases "(s, out, ev)" rule: lock_event_effects.cases)
    (auto simp: lock_emit_def lock_next_id_def Let_def)

lemma lock_reduce_msg_no_cross [simp]: "out_cross (fst (snd (lock_reduce_msg s m))) = []"
  by (cases s m rule: lock_reduce_events_cases)
    (simp_all add: lock_reduce_msg_eq Let_def lock_event_effects_cross)

definition lock_step :: "lock_state \<Rightarrow> lock_msg \<Rightarrow> lock_state" where
  "lock_step s m = fst (lock_reduce_msg s m :: lock_state \<times> unit domain_output \<times> lock_event list)"

interpretation lock_ts: transition_system lock_step lock_default lock_inv "\<lambda>_. True"
  by unfold_locales (simp_all add: lock_step_def lock_reduce_msg_refines)

lemma lock_run_refines:
  "lock_inv s \<Longrightarrow> lock_abs (run_events lock_step s ms) = run_events abstract_lock_step (lock_abs s) ms"
proof (induction ms arbitrary: s)
  case Nil
  then show ?case by simp
next
  case (Cons m ms)
  from Cons.IH [of "lock_step s m"] Cons.prems show ?case
    by (simp add: lock_step_def lock_reduce_msg_refines)
qed

subsection \<open>The leader invariant\<close>

definition leaders :: "client_handle list \<Rightarrow> client_id list" where
  "leaders clients = map ch_id (filter ch_leader clients)"

definition leader_inv :: "client_handle list \<Rightarrow> bool" where
  "leader_inv clients \<longleftrightarrow> length (leaders clients) \<le> 1 \<and> (\<forall>c \<in> set clients. ch_leader c \<longrightarrow> ch_mode c = Rw)"

definition rw_present :: "client_handle list \<Rightarrow> bool" where
  "rw_present clients \<longleftrightarrow> list_ex (\<lambda>c. ch_mode c = Rw) clients"

lemma leaders_simps [simp]:
  "leaders [] = []"
  "leaders (c # cs) = (if ch_leader c then [ch_id c] else []) @ leaders cs"
  "leaders (xs @ ys) = leaders xs @ leaders ys"
  by (simp_all add: leaders_def)

lemma leaders_Nil_iff: "leaders cs = [] \<longleftrightarrow> \<not> list_ex ch_leader cs"
  by (induction cs) auto

lemma elevate_first_rw_spec:
  assumes "\<not> list_ex ch_leader cs"
  shows "leaders (fst (elevate_first_rw cs)) = (case snd (elevate_first_rw cs) of None \<Rightarrow> [] | Some i \<Rightarrow> [i])"
    and "snd (elevate_first_rw cs) = None \<longleftrightarrow> \<not> rw_present cs"
    and "map ch_id (fst (elevate_first_rw cs)) = map ch_id cs"
    and "map ch_mode (fst (elevate_first_rw cs)) = map ch_mode cs"
    and "\<forall>c \<in> set (fst (elevate_first_rw cs)). ch_leader c \<longrightarrow> ch_mode c = Rw"
  using assms
  by (induction cs) (auto simp: rw_present_def leaders_Nil_iff case_prod_beta list_ex_iff split: option.splits)

lemma leader_inv_elevate:
  assumes "leader_inv cs"
  shows "leader_inv (fst (elevate_next_leader cs))"
proof (cases "list_ex ch_leader cs")
  case True
  with assms show ?thesis by (simp add: elevate_next_leader_def)
next
  case False
  with elevate_first_rw_spec [OF False] show ?thesis
    by (auto simp: elevate_next_leader_def leader_inv_def split: option.splits)
qed

lemma filter_by_unique_id:
  assumes "distinct (map f xs)" and "x \<in> set xs"
  shows "filter (\<lambda>c. f c = f x) xs = [x]"
  using assms by (induction xs) (auto simp: filter_empty_conv image_iff)

lemma take_leader_defined: "idx < length cs \<Longrightarrow> take_leader cs idx \<noteq> None"
  by (simp add: take_leader_def Let_def)

lemma take_leader_spec:
  assumes "idx < length cs" and "distinct (map ch_id cs)" and "leader_inv cs" and "ch_mode (cs ! idx) \<noteq> Ro"
    and "take_leader cs idx = Some (cs', r)"
  shows "leaders cs' = [ch_id (cs ! idx)]" and "leader_inv cs'" and "map ch_id cs' = map ch_id cs"
proof -
  define rid where "rid = ch_id (cs ! idx)"
  have "leaders cs' = [rid] \<and> leader_inv cs' \<and> map ch_id cs' = map ch_id cs"
  proof (cases "ch_leader (cs ! idx)")
    case True
    with assms(1,5) have cs': "cs' = cs" by (simp add: take_leader_def Let_def)
    have "rid \<in> set (leaders cs)" using True assms(1) by (auto simp: leaders_def rid_def)
    moreover have "length (leaders cs) \<le> 1" using assms(3) by (simp add: leader_inv_def)
    ultimately have "leaders cs = [rid]" by (cases "leaders cs") auto
    with cs' assms(3) show ?thesis by simp
  next
    case False
    define c1 where "c1 = (if ch_mode (cs ! idx) = RwNoLeader then cs[idx := (cs ! idx)\<lparr>ch_mode := Rw\<rparr>] else cs)"
    have cs': "cs' = map (\<lambda>c. c\<lparr>ch_leader := (ch_id c = rid)\<rparr>) c1"
      using assms(1,5) False by (auto simp: take_leader_def Let_def c1_def rid_def split: if_splits)
    have ids1: "map ch_id c1 = map ch_id cs"
      using assms(1) by (auto simp: c1_def map_update list_update_same_conv)
    have mem: "c1 ! idx \<in> set c1" and id1: "ch_id (c1 ! idx) = rid" and mode1: "ch_mode (c1 ! idx) = Rw"
      using assms(1,4) by (auto simp: c1_def rid_def set_update_memI) (cases "ch_mode (cs ! idx)"; simp)
    have d1: "distinct (map ch_id c1)" using ids1 assms(2) by simp
    from filter_by_unique_id [OF d1 mem] id1 have f: "filter (\<lambda>c. ch_id c = rid) c1 = [c1 ! idx]" by simp
    have "leaders cs' = map ch_id (filter (\<lambda>c. ch_id c = rid) c1)"
      by (simp add: cs' leaders_def filter_map comp_def)
    then have l: "leaders cs' = [rid]" using f id1 by simp
    have "ch_mode c = Rw" if "c \<in> set c1" "ch_id c = rid" for c
    proof -
      have "c \<in> set (filter (\<lambda>c. ch_id c = rid) c1)" using that by simp
      with f mode1 show ?thesis by simp
    qed
    then have "leader_inv cs'" using l by (auto simp: leader_inv_def cs')
    moreover have "map ch_id cs' = map ch_id cs" using ids1 by (simp add: cs' comp_def)
    ultimately show ?thesis using l by simp
  qed
  then show "leaders cs' = [ch_id (cs ! idx)]" "leader_inv cs'" "map ch_id cs' = map ch_id cs"
    by (simp_all add: rid_def)
qed

subsection \<open>Properties\<close>

text \<open>C20. The lock reducer implements the abstract exclusive lock: after every sequence of
  acquire, release and disconnect messages, from the initial state and through the effect form
  the daemon uses, the holder, token and process-bound flag are consistent and are the
  state of the abstract lock after the same messages.\<close>

theorem lock_refines_abstract:
  "lock_inv (run_events lock_step lock_default ms)
   \<and> lock_abs (run_events lock_step lock_default ms) = run_events abstract_lock_step None ms"
proof -
  have "lock_abs lock_default = None" by (simp add: lock_abs_def lock_default_def)
  then show ?thesis
    using lock_ts.inv_reachable [of ms] lock_run_refines [OF lock_inv_default, of ms]
    by (simp add: list_all_iff)
qed

text \<open>Mutual exclusion of the lock: a message moves the lock from a holder only to free, and only
  when that holder releases with its own token or disconnects; it grants only a free lock, only
  to the requesting client, with the candidate token; and whoever is told \<open>acquired\<close> is the
  holder and is told the token that release will demand.\<close>

theorem lock_exclusive:
  assumes "lock_inv s" and "lock_reduce s m = (s', evs)"
  shows "((lk_holder s' = lk_holder s \<and> lk_token s' = lk_token s)
       \<or> (\<exists>h t. lk_holder s = Some h \<and> lk_token s = Some t \<and> lk_holder s' = None
            \<and> (m = LRelease h t \<or> m = LClientDisconnected h))
       \<or> (\<exists>c t. lk_holder s = None \<and> m = LAcquire c (Some t) \<and> lk_holder s' = Some c
            \<and> lk_token s' = Some t \<and> evs = [EvAcquired c (Some t) True]))
    \<and> (\<forall>c tok newly. EvAcquired c tok newly \<in> set evs \<longrightarrow>
           lk_holder s' = Some c \<and> lk_token s' = tok \<and> (newly \<longleftrightarrow> lk_holder s = None))"
  using assms
  by (cases m; auto simp: lock_inv_def lock_grant_def lock_clear_def split: option.splits if_splits)

theorem lock_exclusive_witness:
  "lk_holder (fst (lock_reduce (lock_grant lock_default 3 ''k'') (LAcquire 4 (Some ''x'')))) = Some 3"
proof -
  have "lock_inv (lock_grant lock_default 3 ''k'')"
    by (simp add: lock_inv_def lock_grant_def)
  from lock_exclusive [OF this, of "LAcquire 4 (Some ''x'')" "lock_grant lock_default 3 ''k''" "[EvDenied 4 HeldByOther]"]
  show ?thesis by (auto simp: lock_grant_def)
qed

text \<open>What the lock answers: every acquire gets exactly one reply to the requester and a
  mode change is broadcast exactly when the lock changes hands, after the reply, announcing
  the new mode; a refused release gets the \<open>lock.not-held\<close> error, a successful one only the
  broadcast, and a request for a token no effect; the effect identifiers are
  the consecutive numbers from the state's counter.\<close>

theorem lock_effects:
  assumes "lock_reduce_msg s m = (s', out, evs)"
  shows "out_cross out = []
    \<and> map eff_kind (out_effects out) =
      (case m of
         LAcquire c tok \<Rightarrow>
           (if lk_holder s = Some c
            then [ClientReply c (LockResponse \<lparr>lr_result = LockAcquiredResult, lr_token = lk_token s, lr_queue_position = None\<rparr>)]
            else if lk_holder s \<noteq> None
            then [ClientReply c (LockResponse \<lparr>lr_result = LockDeniedResult, lr_token = None, lr_queue_position = None\<rparr>)]
            else (case tok of
                    None \<Rightarrow> []
                  | Some t \<Rightarrow>
                      [ClientReply c (LockResponse \<lparr>lr_result = LockAcquiredResult, lr_token = Some t, lr_queue_position = None\<rparr>),
                       ClientBroadcast (ModeChange \<lparr>mc_session_mode = SessionLocked, mc_lock_holder = Some c, mc_client_mode = None\<rparr>)
                         SubscribersOnly]))
       | LRelease c tok \<Rightarrow>
           (if lk_holder s = Some c \<and> lk_token s = Some tok
            then [ClientBroadcast (ModeChange \<lparr>mc_session_mode = SessionRw, mc_lock_holder = None, mc_client_mode = None\<rparr>) SubscribersOnly]
            else [ClientReply c (ErrorMsg \<lparr>em_code = LockNotHeld,
                    em_message = ''lock token mismatch or not the lock holder'', em_details = None\<rparr>)])
       | LClientDisconnected c \<Rightarrow>
           (if lk_process_bound s \<and> lk_holder s = Some c
            then [ClientBroadcast (ModeChange \<lparr>mc_session_mode = SessionRw, mc_lock_holder = None, mc_client_mode = None\<rparr>) SubscribersOnly]
            else []))
    \<and> map eff_id (out_effects out) = map (EffectId DomLock) [lk_next_effect_seq s ..< lk_next_effect_seq s']"
  using assms
  by (cases m) (auto simp: lock_reduce_msg_def lock_emit_def lock_next_id_def mode_change_msg_def
      lock_session_mode_def lock_grant_def lock_clear_def Let_def split: option.splits if_splits prod.splits)

theorem lock_effects_witness:
  "map eff_kind (out_effects (fst (snd (lock_reduce_msg lock_default (LAcquire 2 (Some ''t'')) :: lock_state \<times> unit domain_output \<times> lock_event list)))) =
     [ClientReply 2 (LockResponse \<lparr>lr_result = LockAcquiredResult, lr_token = Some ''t'', lr_queue_position = None\<rparr>),
      ClientBroadcast (ModeChange \<lparr>mc_session_mode = SessionLocked, mc_lock_holder = Some 2, mc_client_mode = None\<rparr>) SubscribersOnly]"
proof -
  obtain s' and out :: "unit domain_output" and evs
    where r: "lock_reduce_msg lock_default (LAcquire 2 (Some ''t'')) = (s', out, evs)" by (metis prod_cases3)
  from lock_effects [OF r] r show ?thesis by (simp add: lock_default_def)
qed

text \<open>Lock tokens carry all 128 bits: from 16 bytes of the random source the token is 32
  hexadecimal digits, different random bytes give different tokens, and a source that
  delivers fewer bytes gives no token.\<close>

theorem lock_token_faithful:
  "(generate_lock_token_from rd = None \<longleftrightarrow> length rd < 16)
   \<and> (\<forall>t. generate_lock_token_from rd = Some t \<longrightarrow> length t = 32)
   \<and> (\<forall>rd'. generate_lock_token_from rd = generate_lock_token_from rd' \<and> 16 \<le> length rd
        \<longrightarrow> take 16 rd = take 16 rd')"
proof -
  have len: "length (concat (map hex_byte xs)) = 2 * length xs" for xs
    by (induction xs) (auto simp: hex_byte_def)
  show ?thesis
    by (auto simp: generate_lock_token_from_def len split: if_splits intro: hex_bytes_inj)
qed

theorem lock_token_faithful_witness:
  "length (the (generate_lock_token_from (replicate 16 0xAB))) = 32"
  using lock_token_faithful [of "replicate 16 0xAB"] by (auto simp: generate_lock_token_from_def)

text \<open>There is at most one resize leader and it is a \<open>Rw\<close> client: assigning leadership to a
  newcomer when \<open>should_assign_leader\<close> says so, elevating after a drop, and an explicit
  takeover by a client that is not read-only all keep this; elevation finds a leader
  whenever some \<open>Rw\<close> client is attached, and a takeover makes exactly the requester leader.\<close>

theorem leader_unique:
  assumes "leader_inv clients" and "distinct (map ch_id clients)"
  shows "leader_inv (clients @ [c\<lparr>ch_leader := should_assign_leader clients (ch_mode c)\<rparr>])
    \<and> leader_inv (fst (elevate_next_leader clients))
    \<and> (rw_present clients \<longrightarrow> length (leaders (fst (elevate_next_leader clients))) = 1)
    \<and> (\<forall>idx < length clients. ch_mode (clients ! idx) \<noteq> Ro \<longrightarrow>
         (\<exists>clients' r. take_leader clients idx = Some (clients', r) \<and> leader_inv clients'
           \<and> leaders clients' = [ch_id (clients ! idx)]))"
proof (intro conjI allI impI)
  show "leader_inv (clients @ [c\<lparr>ch_leader := should_assign_leader clients (ch_mode c)\<rparr>])"
    using assms(1) by (auto simp: leader_inv_def should_assign_leader_def leaders_Nil_iff [symmetric])
  show "leader_inv (fst (elevate_next_leader clients))"
    using assms(1) by (rule leader_inv_elevate)
next
  assume rw: "rw_present clients"
  show "length (leaders (fst (elevate_next_leader clients))) = 1"
  proof (cases "list_ex ch_leader clients")
    case True
    then have "leaders clients \<noteq> []" by (simp add: leaders_Nil_iff)
    with assms(1) True show ?thesis
      by (simp add: elevate_next_leader_def leader_inv_def le_Suc_eq)
  next
    case False
    from elevate_first_rw_spec(1,2) [OF False] rw False show ?thesis
      by (auto simp: elevate_next_leader_def split: option.splits)
  qed
next
  fix idx
  assume lt: "idx < length clients" and m: "ch_mode (clients ! idx) \<noteq> Ro"
  from take_leader_defined [OF lt] obtain clients' r where t: "take_leader clients idx = Some (clients', r)"
    by (cases "take_leader clients idx") auto
  from take_leader_spec [OF lt assms(2,1) m t] t
  show "\<exists>clients' r. take_leader clients idx = Some (clients', r) \<and> leader_inv clients'
           \<and> leaders clients' = [ch_id (clients ! idx)]" by blast
qed

theorem leader_unique_witness:
  "\<exists>clients' r. take_leader [ch_new 1 RwNoLeader False [] \<lparr>so_answers = [], so_out = []\<rparr> 10 0] 0 = Some (clients', r)
     \<and> leaders clients' = [1]"
proof -
  let ?cs = "[ch_new 1 RwNoLeader False [] \<lparr>so_answers = [], so_out = []\<rparr> 10 0]"
  have "leader_inv ?cs" "distinct (map ch_id ?cs)" by (simp_all add: leader_inv_def ch_new_def)
  from leader_unique [OF this, where c = "hd ?cs"] show ?thesis by (auto simp: ch_new_def)
qed

end
