(* ===== verification/Reducer.thy ===== *)
theory Reducer
  imports Lock
begin

text \<open>
  The super-reducer and its executor: \<^verbatim>\<open>crates/hyoui/src/daemon/reducer/\<close> (\<open>mod.rs\<close>,
  \<open>client.rs\<close>, \<open>execute.rs\<close>, \<open>translate.rs\<close>, and the domains that are still stubs) and the PTY
  write it performs, \<open>write_all_with_idle_timeout\<close> of \<^verbatim>\<open>crates/hyoui/src/sys/fd.rs\<close>.

  Loops: the cross-domain queue of \<open>drive\<close> is a \<open>partial_function (option)\<close>, proved to return for the
  real dispatcher; the feedback loop has the source's bound of eight rounds, proved not
  to be reached. The PTY is the list of answers the kernel gives to \<open>write(2)\<close> and \<open>poll(2)\<close>; a
  write that has not returned when the answers are used up is \<open>None\<close>. The unit-struct
  states of the stub domains carry nothing and are left out of the daemon state.
\<close>

subsection \<open>Messages\<close>

datatype tty_msg = Layer1Bytes bytes | ResizeRequested "16 word" "16 word"
datatype child_msg = SigchldReceived int | Reaped "int option" | HungUp
datatype shutdown_reason = ShutChildExited | ShutSignalReceived nat | ShutAllClientsDetached | ShutConfigDirective
datatype serve_msg = Booted | ShutdownInitiated shutdown_reason | ShutdownCompleted
datatype screen_msg = WriteEvent "16 word" "16 word"
datatype client_msg =
    ClientConnected client_id
  | ClientFrameReceived client_id
  | RawDataReceived client_id client_mode bytes
  | ClientDetached client_id

datatype daemon_msg =
    MsgTty tty_msg
  | MsgChild child_msg
  | MsgServe serve_msg
  | MsgClient client_msg
  | MsgScreen screen_msg
  | MsgLock lock_msg
  | EffectResult effect_id effect_outcome

text \<open>\<^verbatim>\<open>translate.rs\<close>.\<close>

definition tty_master_read :: "bytes \<Rightarrow> daemon_msg" where "tty_master_read bs = MsgTty (Layer1Bytes bs)"
definition sigchld_received :: "int \<Rightarrow> daemon_msg" where "sigchld_received pid = MsgChild (SigchldReceived pid)"
definition child_reaped :: "int option \<Rightarrow> daemon_msg" where "child_reaped st = MsgChild (Reaped st)"
definition client_frame_received :: "client_id \<Rightarrow> daemon_msg" where
  "client_frame_received c = MsgClient (ClientFrameReceived c)"
definition client_raw_data :: "client_id \<Rightarrow> client_mode \<Rightarrow> bytes \<Rightarrow> daemon_msg" where
  "client_raw_data c m bs = MsgClient (RawDataReceived c m bs)"
definition client_detached :: "client_id \<Rightarrow> daemon_msg" where
  "client_detached c = MsgClient (ClientDetached c)"

subsection \<open>The client domain\<close>

record pending_write =
  pw_seq :: nat
  pw_client_id :: client_id
  pw_bytes :: bytes

record pending_ack =
  pa_seq :: nat
  pa_client_id :: client_id

record client_registry =
  cr_pending_write :: "pending_write option"
  cr_pending_ack :: "pending_ack option"
  cr_next_effect_seq :: nat

definition cr_emit ::
  "client_registry \<Rightarrow> effect_kind \<Rightarrow> daemon_msg domain_output \<Rightarrow> client_registry \<times> daemon_msg domain_output" where
  "cr_emit s k out =
     (s\<lparr>cr_next_effect_seq := cr_next_effect_seq s + 1\<rparr>,
      push_effect (EffectId DomClient (cr_next_effect_seq s)) k out)"

text \<open>An acknowledgement whose delivery the registry waits for.\<close>

definition cr_emit_ack ::
  "client_registry \<Rightarrow> client_id \<Rightarrow> raw_ack_msg \<Rightarrow> daemon_msg domain_output
    \<Rightarrow> client_registry \<times> daemon_msg domain_output" where
  "cr_emit_ack s c ack out =
     (let (s1, out1) = cr_emit s (ClientRawAck c ack) out
      in (s1\<lparr>cr_pending_ack := Some \<lparr>pa_seq = cr_next_effect_seq s, pa_client_id = c\<rparr>\<rparr>, out1))"

definition reduce_raw_data ::
  "client_registry \<Rightarrow> lock_state \<Rightarrow> client_id \<Rightarrow> client_mode \<Rightarrow> bytes
    \<Rightarrow> client_registry \<times> daemon_msg domain_output" where
  "reduce_raw_data s lock c m bs =
     (if m = Ro then
        (let (s1, out1) = cr_emit s (RecordEffect (InRejected c m (lk_holder lock) RejectRoClient bs)) empty_output
         in cr_emit_ack s1 c (RawAck_err CODE_CLIENT_RO_REJECTED ''client is read-only; input rejected by daemon'') out1)
      else
        (case (case lk_holder lock of Some h \<Rightarrow> if h \<noteq> c then Some h else None | None \<Rightarrow> None) of
           Some holder \<Rightarrow>
             (let (s1, out1) = cr_emit s (RecordEffect (InRejected c m (Some holder) RejectLockNotHeld bs)) empty_output
              in cr_emit_ack s1 c (RawAck_err CODE_CLIENT_LOCK_NOT_HELD ''lock is held by another client; input rejected'') out1)
         | None \<Rightarrow>
             (let (s1, out1) = cr_emit s (TtyWrite bs) empty_output
              in (s1\<lparr>cr_pending_write := Some \<lparr>pw_seq = cr_next_effect_seq s, pw_client_id = c, pw_bytes = bs\<rparr>\<rparr>, out1))))"

fun client_reduce ::
  "client_registry \<Rightarrow> lock_state \<Rightarrow> client_msg \<Rightarrow> client_registry \<times> daemon_msg domain_output" where
  "client_reduce s lock (ClientDetached c) =
     (s, empty_output\<lparr>out_cross := [MsgLock (LClientDisconnected c)]\<rparr>)"
| "client_reduce s lock (RawDataReceived c m bs) = reduce_raw_data s lock c m bs"
| "client_reduce s lock (ClientConnected c) = (s, empty_output)"
| "client_reduce s lock (ClientFrameReceived c) = (s, empty_output)"

definition MASTER_WRITE_IDLE_TIMEOUT_MS :: nat where "MASTER_WRITE_IDLE_TIMEOUT_MS = 500"

text \<open>Decimal digits, as \<open>format!\<close> prints an unsigned integer.\<close>

fun nat_to_dec :: "nat \<Rightarrow> string" where
  "nat_to_dec n =
     (if n < 10 then [''0123456789'' ! n] else nat_to_dec (n div 10) @ [''0123456789'' ! (n mod 10)])"

declare nat_to_dec.simps [simp del]

definition written_of :: "nat \<Rightarrow> nat \<Rightarrow> string" where
  "written_of w r = ''(written='' @ nat_to_dec w @ ''/'' @ nat_to_dec r @ '')''"

definition no_progress_text :: "nat \<Rightarrow> nat \<Rightarrow> string" where
  "no_progress_text w r =
     ''master PTY write made no forward progress for '' @ nat_to_dec MASTER_WRITE_IDLE_TIMEOUT_MS
     @ '' ms (child is a slow reader); disconnecting client '' @ written_of w r"

definition write_failure_ack :: "nat \<Rightarrow> nat \<Rightarrow> tty_write_error_kind option \<Rightarrow> raw_ack_msg" where
  "write_failure_ack w r err =
     (case err of
        Some TtyIdleTimeout \<Rightarrow> RawAck_err CODE_MASTER_WRITE_TIMEOUT (no_progress_text w r)
      | Some (TtyIo errno) \<Rightarrow>
          RawAck_err CODE_MASTER_WRITE_ERROR
            (''master PTY write failed with I/O error '' @ errno @ '' '' @ written_of w r)
      | None \<Rightarrow>
          RawAck_err CODE_MASTER_WRITE_PARTIAL
            (''master PTY write returned partial without error '' @ written_of w r))"

text \<open>\<open>pw.bytes[..written_len]\<close> panics when \<open>written_len\<close> exceeds the length; \<open>take\<close> does not, and the
  properties show that the outcome of the write never exceeds it.\<close>

definition finish_write ::
  "client_registry \<Rightarrow> pending_write \<Rightarrow> effect_outcome \<Rightarrow> client_registry \<times> daemon_msg domain_output" where
  "finish_write s pw oc =
     (case oc of
        OutcomeTtyWrite written requested err \<Rightarrow>
          (let (s1, out1) =
                 (if written > 0
                  then cr_emit s (RecordEffect (BytesIn (pw_client_id pw) (take written (pw_bytes pw)))) empty_output
                  else (s, empty_output));
               (s2, out2) =
                 (case err of
                    Some e \<Rightarrow>
                      cr_emit s1 (RecordEffect (InWriteError (pw_client_id pw) requested written
                        (case e of TtyIdleTimeout \<Rightarrow> WriteErrIdleTimeout | TtyIo m \<Rightarrow> WriteErrIoError m)
                        (drop written (pw_bytes pw)))) out1
                  | None \<Rightarrow> (s1, out1))
           in if err = None \<and> written = requested
              then cr_emit_ack s2 (pw_client_id pw) RawAck_ok out2
              else
                (let (s3, out3) = cr_emit s2 (ClientRawAck (pw_client_id pw) (write_failure_ack written requested err)) out2;
                     (s4, out4) =
                       (if err = Some TtyIdleTimeout
                        then cr_emit s3 (ClientReply (pw_client_id pw)
                               (ErrorMsg \<lparr>em_code = MasterWriteTimeout,
                                 em_message = no_progress_text written requested, em_details = None\<rparr>)) out3
                        else (s3, out3))
                 in cr_emit s4 (ClientDisconnect (pw_client_id pw)) out4))
      | _ \<Rightarrow> cr_emit s (ClientDisconnect (pw_client_id pw)) empty_output)"

definition client_reduce_effect_result ::
  "client_registry \<Rightarrow> nat \<Rightarrow> effect_outcome \<Rightarrow> client_registry \<times> daemon_msg domain_output" where
  "client_reduce_effect_result s n oc =
     (if (case cr_pending_write s of Some pw \<Rightarrow> pw_seq pw = n | None \<Rightarrow> False)
      then finish_write (s\<lparr>cr_pending_write := None\<rparr>) (the (cr_pending_write s)) oc
      else if (case cr_pending_ack s of Some pa \<Rightarrow> pa_seq pa = n | None \<Rightarrow> False)
      then (if oc \<noteq> OutcomeOk
            then cr_emit (s\<lparr>cr_pending_ack := None\<rparr>) (ClientDisconnect (pa_client_id (the (cr_pending_ack s)))) empty_output
            else (s\<lparr>cr_pending_ack := None\<rparr>, empty_output))
      else (s, empty_output))"

subsection \<open>Dispatch\<close>

record daemon_state =
  ds_clients :: client_registry
  ds_lock :: lock_state

definition daemon_default :: daemon_state where
  "daemon_default =
     \<lparr>ds_clients = \<lparr>cr_pending_write = None, cr_pending_ack = None, cr_next_effect_seq = 0\<rparr>, ds_lock = lock_default\<rparr>"

fun route :: "daemon_msg \<Rightarrow> domain" where
  "route (MsgTty _) = DomTty"
| "route (MsgChild _) = DomChild"
| "route (MsgServe _) = DomServe"
| "route (MsgClient _) = DomClient"
| "route (MsgScreen _) = DomScreen"
| "route (MsgLock _) = DomLock"
| "route (EffectResult i _) = eid_domain i"

definition dispatch_effect_result ::
  "daemon_state \<Rightarrow> effect_id \<Rightarrow> effect_outcome \<Rightarrow> daemon_state \<times> daemon_msg domain_output" where
  "dispatch_effect_result s i oc =
     (case eid_domain i of
        DomClient \<Rightarrow>
          (let (cr, out) = client_reduce_effect_result (ds_clients s) (eid_seq i) oc
           in (s\<lparr>ds_clients := cr\<rparr>, out))
      | _ \<Rightarrow> (s, empty_output))"

fun dispatch :: "daemon_state \<Rightarrow> daemon_msg \<Rightarrow> daemon_state \<times> daemon_msg domain_output" where
  "dispatch s (MsgTty _) = (s, empty_output)"
| "dispatch s (MsgChild _) = (s, empty_output)"
| "dispatch s (MsgServe _) = (s, empty_output)"
| "dispatch s (MsgClient e) =
     (let (cr, out) = client_reduce (ds_clients s) (ds_lock s) e in (s\<lparr>ds_clients := cr\<rparr>, out))"
| "dispatch s (MsgScreen _) = (s, empty_output)"
| "dispatch s (MsgLock e) = (let (l, out, _) = lock_reduce_msg (ds_lock s) e in (s\<lparr>ds_lock := l\<rparr>, out))"
| "dispatch s (EffectResult i oc) = dispatch_effect_result s i oc"

definition MAX_CROSS_DOMAIN_DEPTH :: nat where "MAX_CROSS_DOMAIN_DEPTH = 64"
definition MAX_FEEDBACK_ROUNDS :: nat where "MAX_FEEDBACK_ROUNDS = 8"

text \<open>The result says whether the queue overflowed, where a debug build panics and a release
  build logs and drops the rest.\<close>

partial_function (option) drive ::
  "(daemon_state \<Rightarrow> daemon_msg \<Rightarrow> daemon_state \<times> daemon_msg domain_output) \<Rightarrow> daemon_state
    \<Rightarrow> daemon_msg list \<Rightarrow> effect list \<Rightarrow> (daemon_state \<times> effect list \<times> bool) option" where
  "drive disp s queue effects =
     (case queue of
        [] \<Rightarrow> Some (s, effects, False)
      | m # q \<Rightarrow>
          (let (s', out) = disp s m;
               effects' = effects @ out_effects out;
               q' = q @ out_cross out
           in if length q' > MAX_CROSS_DOMAIN_DEPTH then Some (s', effects', True)
              else drive disp s' q' effects'))"

definition handle :: "daemon_state \<Rightarrow> daemon_msg \<Rightarrow> (daemon_state \<times> effect list \<times> bool) option" where
  "handle s m = drive dispatch s [m] []"

subsection \<open>The PTY write\<close>

text \<open>The answers of the kernel: what the next \<open>write(2)\<close> calls on the master return and what
  the \<open>poll(2)\<close> calls return while the buffer is full; an errno is its printed name. \<open>tty_in\<close> is
  what the child has been given.\<close>

datatype tty_write_answer = TWrote nat | TIntr | TAgain | TErr string
datatype tty_poll_answer = PTimeout | PReady | PHangup | PIntr | PErr string

record tty_master =
  tty_writes :: "tty_write_answer list"
  tty_polls :: "tty_poll_answer list"
  tty_in :: bytes

datatype write_error = WEIdleTimeout | WEIo string

record write_outcome =
  wo_requested_len :: nat
  wo_written_len :: nat
  wo_error :: "write_error option"

text \<open>The wait after \<open>EAGAIN\<close>: \<open>Some None\<close> is writable again.\<close>

fun poll_writable_loop :: "tty_poll_answer list \<Rightarrow> (write_error option \<times> tty_poll_answer list) option" where
  "poll_writable_loop [] = None"
| "poll_writable_loop (PTimeout # ps) = Some (Some WEIdleTimeout, ps)"
| "poll_writable_loop (PReady # ps) = Some (None, ps)"
| "poll_writable_loop (PHangup # ps) = Some (Some (WEIo ''EIO''), ps)"
| "poll_writable_loop (PIntr # ps) = poll_writable_loop ps"
| "poll_writable_loop (PErr e # ps) = Some (Some (WEIo e), ps)"

text \<open>The loop from offset \<open>off\<close> on, over the remaining answers to \<open>write(2)\<close>.\<close>

fun tty_write_loop ::
  "tty_write_answer list \<Rightarrow> tty_poll_answer list \<Rightarrow> bytes \<Rightarrow> bytes \<Rightarrow> nat
    \<Rightarrow> (nat \<times> write_error option \<times> tty_master) option" where
  "tty_write_loop ws ps given data off =
     (if off \<ge> length data then Some (off, None, \<lparr>tty_writes = ws, tty_polls = ps, tty_in = given\<rparr>)
      else
        (case ws of
           [] \<Rightarrow> None
         | TWrote k # ws' \<Rightarrow>
             (let n = min k (length data - off) in
              if n = 0 then Some (off, Some (WEIo ''EIO''), \<lparr>tty_writes = ws', tty_polls = ps, tty_in = given\<rparr>)
              else tty_write_loop ws' ps (given @ take n (drop off data)) data (off + n))
         | TIntr # ws' \<Rightarrow> tty_write_loop ws' ps given data off
         | TAgain # ws' \<Rightarrow>
             (case poll_writable_loop ps of
                None \<Rightarrow> None
              | Some (Some e, ps') \<Rightarrow> Some (off, Some e, \<lparr>tty_writes = ws', tty_polls = ps', tty_in = given\<rparr>)
              | Some (None, ps') \<Rightarrow> tty_write_loop ws' ps' given data off)
         | TErr e # ws' \<Rightarrow> Some (off, Some (WEIo e), \<lparr>tty_writes = ws', tty_polls = ps, tty_in = given\<rparr>)))"

declare tty_write_loop.simps [simp del]

text \<open>\<open>Inl\<close> is the error for a timeout that \<open>poll\<close> cannot represent.\<close>

definition write_all_with_idle_timeout ::
  "tty_master \<Rightarrow> bytes \<Rightarrow> nat \<Rightarrow> ((unit + write_outcome) \<times> tty_master) option" where
  "write_all_with_idle_timeout t data idle_timeout_ms =
     (if data = [] then Some (Inr \<lparr>wo_requested_len = 0, wo_written_len = 0, wo_error = None\<rparr>, t)
      else if idle_timeout_ms > 2 ^ 31 - 1 then Some (Inl (), t)
      else map_option
             (\<lambda>(off, err, t'). (Inr \<lparr>wo_requested_len = length data, wo_written_len = off, wo_error = err\<rparr>, t'))
             (tty_write_loop (tty_writes t) (tty_polls t) (tty_in t) data 0))"

subsection \<open>The executor\<close>

text \<open>The context of \<open>execute\<close>; \<open>cx_record\<close> holds the entries pushed to the record registry, in
  order. The registry and the PTY may be absent.\<close>

record execute_ctx =
  cx_clients :: "client_handle list"
  cx_overflow_ids :: "client_id list"
  cx_pty :: "tty_master option"
  cx_record :: "record_entry list option"

text \<open>\<open>clients.iter().find(|c| c.id == id)\<close> and an operation on the client found.\<close>

fun on_client ::
  "client_id \<Rightarrow> (client_handle \<Rightarrow> bool \<times> client_handle) \<Rightarrow> client_handle list \<Rightarrow> bool \<times> client_handle list" where
  "on_client i f [] = (False, [])"
| "on_client i f (c # cs) =
     (if ch_id c = i then (let (ok, c') = f c in (ok, c' # cs))
      else (let (ok, cs') = on_client i f cs in (ok, c # cs')))"

definition reply_outcome :: "bool \<Rightarrow> effect_outcome" where
  "reply_outcome sent_ok = (if sent_ok then OutcomeOk else OutcomeFailed WriteBroken DoNotRetry)"

definition broadcast_outcome :: "client_id list \<Rightarrow> effect_outcome" where
  "broadcast_outcome failed = OutcomeOk"

definition tty_write_outcome :: "nat \<Rightarrow> nat \<Rightarrow> write_error option \<Rightarrow> effect_outcome" where
  "tty_write_outcome w r err =
     OutcomeTtyWrite w r (map_option (\<lambda>e. case e of WEIdleTimeout \<Rightarrow> TtyIdleTimeout | WEIo m \<Rightarrow> TtyIo m) err)"

text \<open>One iteration: the new context and the outcome to feed back, if any (\<open>continue\<close>).\<close>

definition execute_one ::
  "control_encoder \<Rightarrow> ack_encoder \<Rightarrow> execute_ctx \<Rightarrow> effect_kind \<Rightarrow> (execute_ctx \<times> effect_outcome option) option" where
  "execute_one enc aenc ctx k =
     (case k of
        ClientReply c msg \<Rightarrow>
          (let (ok, cs) = on_client c (\<lambda>ch. send_control enc ch msg) (cx_clients ctx)
           in Some (ctx\<lparr>cx_clients := cs\<rparr>, Some (reply_outcome ok)))
      | ClientBroadcast msg flt \<Rightarrow>
          (let (cs, failed) = broadcast_control enc (cx_clients ctx) msg
           in Some (ctx\<lparr>cx_clients := cs, cx_overflow_ids := cx_overflow_ids ctx @ failed\<rparr>,
                    Some (broadcast_outcome failed)))
      | TtyWrite bs \<Rightarrow>
          (case cx_pty ctx of
             None \<Rightarrow> Some (ctx, None)
           | Some t \<Rightarrow>
               (case write_all_with_idle_timeout t bs MASTER_WRITE_IDLE_TIMEOUT_MS of
                  None \<Rightarrow> None
                | Some (Inr o', t') \<Rightarrow>
                    Some (ctx\<lparr>cx_pty := Some t'\<rparr>,
                          Some (tty_write_outcome (wo_written_len o') (wo_requested_len o') (wo_error o')))
                | Some (Inl _, t') \<Rightarrow> Some (ctx\<lparr>cx_pty := Some t'\<rparr>, Some (OutcomeFailed WriteBroken DoNotRetry))))
      | ClientRawAck c ack \<Rightarrow>
          (let (ok, cs) = on_client c (\<lambda>ch. send_raw_ack aenc ch ack) (cx_clients ctx)
           in Some (ctx\<lparr>cx_clients := cs\<rparr>, Some (reply_outcome ok)))
      | ClientDisconnect c \<Rightarrow> Some (ctx\<lparr>cx_overflow_ids := cx_overflow_ids ctx @ [c]\<rparr>, None)
      | RecordEffect e \<Rightarrow> Some (ctx\<lparr>cx_record := map_option (\<lambda>r. r @ [e]) (cx_record ctx)\<rparr>, None)
      | _ \<Rightarrow> Some (ctx, None))"

fun execute ::
  "control_encoder \<Rightarrow> ack_encoder \<Rightarrow> effect list \<Rightarrow> execute_ctx \<Rightarrow> (execute_ctx \<times> daemon_msg list) option" where
  "execute enc aenc [] ctx = Some (ctx, [])"
| "execute enc aenc (e # es) ctx =
     (case execute_one enc aenc ctx (eff_kind e) of
        None \<Rightarrow> None
      | Some (ctx', r) \<Rightarrow>
          (case execute enc aenc es ctx' of
             None \<Rightarrow> None
           | Some (ctx'', rs) \<Rightarrow>
               Some (ctx'', (case r of Some oc \<Rightarrow> [EffectResult (eff_id e) oc] | None \<Rightarrow> []) @ rs)))"

fun handle_all :: "daemon_state \<Rightarrow> daemon_msg list \<Rightarrow> (daemon_state \<times> effect list) option" where
  "handle_all s [] = Some (s, [])"
| "handle_all s (m # ms) =
     (case handle s m of
        None \<Rightarrow> None
      | Some (s1, es, _) \<Rightarrow>
          (case handle_all s1 ms of None \<Rightarrow> None | Some (s2, es') \<Rightarrow> Some (s2, es @ es')))"

text \<open>The feedback loop with \<open>n\<close> rounds left; the last component of the result says whether effects were
  dropped because the rounds were used up.\<close>

fun feedback_loop ::
  "nat \<Rightarrow> control_encoder \<Rightarrow> ack_encoder \<Rightarrow> daemon_state \<Rightarrow> effect list \<Rightarrow> execute_ctx
    \<Rightarrow> (daemon_state \<times> execute_ctx \<times> bool) option" where
  "feedback_loop n enc aenc s [] ctx = Some (s, ctx, False)"
| "feedback_loop 0 enc aenc s (e # es) ctx = Some (s, ctx, True)"
| "feedback_loop (Suc n) enc aenc s (e # es) ctx =
     (case execute enc aenc (e # es) ctx of
        None \<Rightarrow> None
      | Some (ctx', fb) \<Rightarrow>
          (case handle_all s fb of
             None \<Rightarrow> None
           | Some (s', es') \<Rightarrow> feedback_loop n enc aenc s' es' ctx'))"

definition execute_with_feedback_ctx ::
  "control_encoder \<Rightarrow> ack_encoder \<Rightarrow> daemon_state \<Rightarrow> effect list \<Rightarrow> execute_ctx
    \<Rightarrow> (daemon_state \<times> execute_ctx \<times> bool) option" where
  "execute_with_feedback_ctx enc aenc s es ctx = feedback_loop MAX_FEEDBACK_ROUNDS enc aenc s es ctx"

definition execute_with_feedback ::
  "control_encoder \<Rightarrow> ack_encoder \<Rightarrow> daemon_state \<Rightarrow> effect list \<Rightarrow> client_handle list \<Rightarrow> client_id list
    \<Rightarrow> (daemon_state \<times> execute_ctx \<times> bool) option" where
  "execute_with_feedback enc aenc s es clients overflow_ids =
     execute_with_feedback_ctx enc aenc s es
       \<lparr>cx_clients = clients, cx_overflow_ids = overflow_ids, cx_pty = None, cx_record = None\<rparr>"

definition handle_and_execute ::
  "control_encoder \<Rightarrow> ack_encoder \<Rightarrow> daemon_state \<Rightarrow> daemon_msg \<Rightarrow> client_handle list \<Rightarrow> client_id list
    \<Rightarrow> (daemon_state \<times> execute_ctx \<times> bool) option" where
  "handle_and_execute enc aenc s m clients overflow_ids =
     (case handle s m of
        None \<Rightarrow> None
      | Some (s', es, _) \<Rightarrow> execute_with_feedback enc aenc s' es clients overflow_ids)"

subsection \<open>The dispatcher\<close>

lemma cr_emit_simps [simp]:
  "out_cross (snd (cr_emit s k out)) = out_cross out"
  "out_cross (snd (cr_emit_ack s c a out)) = out_cross out"
  by (simp_all add: cr_emit_def cr_emit_ack_def)

lemma reduce_raw_data_no_cross [simp]: "out_cross (snd (reduce_raw_data s lock c m bs)) = []"
  by (simp add: reduce_raw_data_def cr_emit_def cr_emit_ack_def split: option.splits)

lemma finish_write_no_cross [simp]: "out_cross (snd (finish_write s pw oc)) = []"
  by (simp add: finish_write_def cr_emit_def cr_emit_ack_def split: option.splits effect_outcome.splits)

lemma client_effect_result_no_cross [simp]: "out_cross (snd (client_reduce_effect_result s n oc)) = []"
  by (simp add: client_reduce_effect_result_def)

definition detach_msg :: "daemon_msg \<Rightarrow> client_id option" where
  "detach_msg m = (case m of MsgClient (ClientDetached c) \<Rightarrow> Some c | _ \<Rightarrow> None)"

lemma dispatch_cross:
  "out_cross (snd (dispatch s m)) =
     (case detach_msg m of Some c \<Rightarrow> [MsgLock (LClientDisconnected c)] | None \<Rightarrow> [])"
proof (cases m)
  case (MsgClient e)
  then show ?thesis by (cases e) (simp_all add: case_prod_beta Let_def detach_msg_def)
next
  case (MsgLock l)
  then show ?thesis
    using lock_reduce_msg_no_cross [of "ds_lock s" l, where 'a = daemon_msg]
    by (simp add: case_prod_beta Let_def detach_msg_def)
next
  case (EffectResult i oc)
  then show ?thesis
    by (simp add: dispatch_effect_result_def case_prod_beta Let_def detach_msg_def split: domain.splits)
qed (simp_all add: detach_msg_def)

lemma drive_last:
  "out_cross (snd (dispatch s m)) = [] \<Longrightarrow>
   drive dispatch s [m] es = Some (fst (dispatch s m), es @ out_effects (snd (dispatch s m)), False)"
  by (subst drive.simps) (simp add: case_prod_beta Let_def drive.simps)

text \<open>\<open>handle\<close> in closed form: at most two dispatches, and never an overflow.\<close>

lemma handle_eq:
  "handle s m =
     (case detach_msg m of
        Some c \<Rightarrow>
          Some (fst (dispatch s (MsgLock (LClientDisconnected c))),
                out_effects (snd (dispatch s (MsgLock (LClientDisconnected c)))), False)
      | None \<Rightarrow> Some (fst (dispatch s m), out_effects (snd (dispatch s m)), False))"
proof (cases "detach_msg m")
  case None
  then show ?thesis by (simp add: handle_def drive_last dispatch_cross)
next
  case (Some c)
  then have m: "m = MsgClient (ClientDetached c)"
    by (simp add: detach_msg_def split: daemon_msg.splits client_msg.splits)
  have "handle s m = drive dispatch s [MsgLock (LClientDisconnected c)] []"
    by (simp add: m handle_def) (subst drive.simps, simp add: MAX_CROSS_DOMAIN_DEPTH_def)
  then show ?thesis
    using Some by (simp add: drive_last dispatch_cross detach_msg_def del: dispatch.simps)
qed

lemma handle_raw_data:
  "handle s (client_raw_data c m bs) =
     (let r = reduce_raw_data (ds_clients s) (ds_lock s) c m bs
      in Some (s\<lparr>ds_clients := fst r\<rparr>, out_effects (snd r), False))"
  by (simp add: handle_eq client_raw_data_def detach_msg_def case_prod_beta Let_def)

lemma handle_effect_result:
  "handle s (EffectResult i oc) =
     Some (fst (dispatch_effect_result s i oc), out_effects (snd (dispatch_effect_result s i oc)), False)"
  by (simp add: handle_eq detach_msg_def)

lemma handle_returns: "\<exists>s' es. handle s m = Some (s', es, False)"
  by (simp add: handle_eq split: option.splits)

subsection \<open>The PTY write\<close>

lemma tty_write_loop_done:
  "length data \<le> off \<Longrightarrow>
   tty_write_loop ws ps given data off = Some (off, None, \<lparr>tty_writes = ws, tty_polls = ps, tty_in = given\<rparr>)"
  by (simp add: tty_write_loop.simps)

lemma tty_write_loop_step:
  assumes "\<not> length data \<le> off"
  shows "tty_write_loop [] ps given data off = None"
    and "tty_write_loop (TWrote k # ws) ps given data off =
      (let n = min k (length data - off) in
       if n = 0 then Some (off, Some (WEIo ''EIO''), \<lparr>tty_writes = ws, tty_polls = ps, tty_in = given\<rparr>)
       else tty_write_loop ws ps (given @ take n (drop off data)) data (off + n))"
    and "tty_write_loop (TIntr # ws) ps given data off = tty_write_loop ws ps given data off"
    and "tty_write_loop (TAgain # ws) ps given data off =
      (case poll_writable_loop ps of
         None \<Rightarrow> None
       | Some (Some e, ps') \<Rightarrow> Some (off, Some e, \<lparr>tty_writes = ws, tty_polls = ps', tty_in = given\<rparr>)
       | Some (None, ps') \<Rightarrow> tty_write_loop ws ps' given data off)"
    and "tty_write_loop (TErr e # ws) ps given data off =
      Some (off, Some (WEIo e), \<lparr>tty_writes = ws, tty_polls = ps, tty_in = given\<rparr>)"
  using assms by (subst tty_write_loop.simps, simp)+

lemmas tty_write_loop_eval = tty_write_loop_done tty_write_loop_step

lemma tty_write_loop_spec:
  assumes "tty_write_loop ws ps given data off = Some (off', err, t')" and "off \<le> length data"
  shows "off \<le> off' \<and> off' \<le> length data \<and> tty_in t' = given @ take (off' - off) (drop off data)
       \<and> (err = None \<longleftrightarrow> off' = length data)"
  using assms
proof (induction ws arbitrary: ps given off)
  case Nil
  then show ?case by (auto simp: tty_write_loop.simps split: if_splits)
next
  case (Cons a ws)
  show ?case
  proof (cases "off \<ge> length data")
    case True
    with Cons.prems show ?thesis by (auto simp: tty_write_loop_eval)
  next
    case False
    show ?thesis
    proof (cases a)
      case (TWrote k)
      define n where "n = min k (length data - off)"
      show ?thesis
      proof (cases "n = 0")
        case True
        with False TWrote Cons.prems show ?thesis
          by (auto simp: tty_write_loop_eval n_def [symmetric] Let_def)
      next
        case nz: False
        with False TWrote Cons.prems have
          r: "tty_write_loop ws ps (given @ take n (drop off data)) data (off + n) = Some (off', err, t')"
          by (auto simp: tty_write_loop_eval n_def [symmetric] Let_def)
        have le: "off + n \<le> length data" using False by (auto simp: n_def)
        from Cons.IH [OF r le]
        have ih: "off + n \<le> off'" "off' \<le> length data"
          "tty_in t' = given @ take n (drop off data) @ take (off' - (off + n)) (drop (off + n) data)"
          "err = None \<longleftrightarrow> off' = length data" by auto
        have "take n (drop off data) @ take (off' - (off + n)) (drop (off + n) data)
            = take (n + (off' - (off + n))) (drop off data)"
          by (simp add: take_add add.commute)
        also have "n + (off' - (off + n)) = off' - off" using ih(1) by simp
        finally show ?thesis using ih by auto
      qed
    next
      case TIntr
      with False Cons show ?thesis by (auto simp: tty_write_loop_eval)
    next
      case TAgain
      with False Cons show ?thesis
        by (fastforce simp: tty_write_loop_eval split: option.splits)
    next
      case (TErr e)
      with False Cons show ?thesis by (auto simp: tty_write_loop_eval)
    qed
  qed
qed

lemma write_all_spec:
  assumes "write_all_with_idle_timeout t data ms = Some (Inr o', t')"
  shows "wo_requested_len o' = length data \<and> wo_written_len o' \<le> length data
       \<and> tty_in t' = tty_in t @ take (wo_written_len o') data
       \<and> (wo_error o' = None \<longleftrightarrow> wo_written_len o' = length data)"
  using assms
  by (auto simp: write_all_with_idle_timeout_def split: if_splits dest!: tty_write_loop_spec)

lemma write_all_no_Inl: "write_all_with_idle_timeout t data MASTER_WRITE_IDLE_TIMEOUT_MS \<noteq> Some (Inl e, t')"
  by (auto simp: write_all_with_idle_timeout_def MASTER_WRITE_IDLE_TIMEOUT_MS_def split: if_splits)

text \<open>The write returns as soon as the kernel has given enough real answers.\<close>

definition tty_progress :: "tty_write_answer list \<Rightarrow> nat" where
  "tty_progress ws = length (filter (\<lambda>a. a \<noteq> TIntr \<and> a \<noteq> TAgain) ws)"

definition poll_progress :: "tty_poll_answer list \<Rightarrow> nat" where
  "poll_progress ps = length (filter (\<lambda>a. a \<noteq> PIntr) ps)"

lemma poll_writable_returns:
  "0 < poll_progress ps \<Longrightarrow> \<exists>r ps'. poll_writable_loop ps = Some (r, ps') \<and> poll_progress ps \<le> Suc (poll_progress ps')"
  by (induction ps rule: poll_writable_loop.induct) (auto simp: poll_progress_def)

lemma tty_write_loop_returns:
  "length data \<le> off + tty_progress ws \<Longrightarrow> count_list ws TAgain \<le> poll_progress ps \<Longrightarrow>
   \<exists>r. tty_write_loop ws ps given data off = Some r"
proof (induction ws arbitrary: ps given off)
  case Nil
  then show ?case by (simp add: tty_write_loop.simps tty_progress_def)
next
  case (Cons a ws)
  show ?case
  proof (cases "off \<ge> length data")
    case True
    then show ?thesis by (simp add: tty_write_loop.simps)
  next
    case False
    show ?thesis
    proof (cases a)
      case (TWrote k)
      with Cons False show ?thesis
        by (subst tty_write_loop.simps) (auto simp: tty_progress_def Let_def intro!: Cons.IH)
    next
      case TIntr
      with Cons False show ?thesis
        by (subst tty_write_loop.simps) (auto simp: tty_progress_def intro!: Cons.IH)
    next
      case TAgain
      with Cons.prems have "0 < poll_progress ps" by simp
      from poll_writable_returns [OF this] obtain r ps' where
        r: "poll_writable_loop ps = Some (r, ps')" "poll_progress ps \<le> Suc (poll_progress ps')" by blast
      with Cons.prems TAgain have "\<exists>x. tty_write_loop ws ps' given data off = Some x"
        by (intro Cons.IH) (auto simp: tty_progress_def)
      with r False TAgain show ?thesis by (subst tty_write_loop.simps) (auto split: option.splits)
    next
      case (TErr e)
      with False show ?thesis by (subst tty_write_loop.simps) simp
    qed
  qed
qed

subsection \<open>Input from a client, end to end\<close>

text \<open>What \<open>handle_client_frame\<close> does with a raw data frame: reduce it, then execute the effects with
  feedback.\<close>

definition raw_data_pipeline ::
  "control_encoder \<Rightarrow> ack_encoder \<Rightarrow> daemon_state \<Rightarrow> execute_ctx \<Rightarrow> client_id \<Rightarrow> client_mode \<Rightarrow> bytes
    \<Rightarrow> (daemon_state \<times> execute_ctx \<times> bool) option" where
  "raw_data_pipeline enc aenc s ctx c m bs =
     (case handle s (client_raw_data c m bs) of
        None \<Rightarrow> None
      | Some (s', es, _) \<Rightarrow> execute_with_feedback_ctx enc aenc s' es ctx)"

text \<open>The straight-line reference: no effects, no identifiers, no feedback.\<close>

definition record_push :: "record_entry \<Rightarrow> execute_ctx \<Rightarrow> execute_ctx" where
  "record_push e ctx = ctx\<lparr>cx_record := map_option (\<lambda>r. r @ [e]) (cx_record ctx)\<rparr>"

definition drop_later :: "client_id \<Rightarrow> execute_ctx \<Rightarrow> execute_ctx" where
  "drop_later c ctx = ctx\<lparr>cx_overflow_ids := cx_overflow_ids ctx @ [c]\<rparr>"

definition deliver_ack :: "ack_encoder \<Rightarrow> client_id \<Rightarrow> raw_ack_msg \<Rightarrow> execute_ctx \<Rightarrow> bool \<times> execute_ctx" where
  "deliver_ack aenc c ack ctx =
     (let r = on_client c (\<lambda>ch. send_raw_ack aenc ch ack) (cx_clients ctx) in (fst r, ctx\<lparr>cx_clients := snd r\<rparr>))"

definition deliver_control :: "control_encoder \<Rightarrow> client_id \<Rightarrow> control_message \<Rightarrow> execute_ctx \<Rightarrow> execute_ctx" where
  "deliver_control enc c msg ctx =
     ctx\<lparr>cx_clients := snd (on_client c (\<lambda>ch. send_control enc ch msg) (cx_clients ctx))\<rparr>"

definition ack_or_drop :: "ack_encoder \<Rightarrow> client_id \<Rightarrow> raw_ack_msg \<Rightarrow> execute_ctx \<Rightarrow> execute_ctx" where
  "ack_or_drop aenc c ack ctx =
     (let r = deliver_ack aenc c ack ctx in if fst r then snd r else drop_later c (snd r))"

definition input_denied :: "lock_state \<Rightarrow> client_id \<Rightarrow> client_mode \<Rightarrow> (in_rejected_reason \<times> raw_ack_msg) option" where
  "input_denied lock c m =
     (if m = Ro
      then Some (RejectRoClient, RawAck_err CODE_CLIENT_RO_REJECTED ''client is read-only; input rejected by daemon'')
      else if lk_holder lock \<noteq> None \<and> lk_holder lock \<noteq> Some c
      then Some (RejectLockNotHeld, RawAck_err CODE_CLIENT_LOCK_NOT_HELD ''lock is held by another client; input rejected'')
      else None)"

definition tty_error_kind :: "write_error \<Rightarrow> tty_write_error_kind" where
  "tty_error_kind e = (case e of WEIdleTimeout \<Rightarrow> TtyIdleTimeout | WEIo m \<Rightarrow> TtyIo m)"

definition record_error_kind :: "write_error \<Rightarrow> write_error_kind" where
  "record_error_kind e = (case e of WEIdleTimeout \<Rightarrow> WriteErrIdleTimeout | WEIo m \<Rightarrow> WriteErrIoError m)"

definition written_input ::
  "control_encoder \<Rightarrow> ack_encoder \<Rightarrow> execute_ctx \<Rightarrow> client_id \<Rightarrow> bytes \<Rightarrow> write_outcome \<Rightarrow> execute_ctx" where
  "written_input enc aenc ctx c bs o' =
     (let w = wo_written_len o';
          ctx1 = (if w > 0 then record_push (BytesIn c (take w bs)) ctx else ctx)
      in case wo_error o' of
           None \<Rightarrow> ack_or_drop aenc c RawAck_ok ctx1
         | Some e \<Rightarrow>
             (let ctx2 = record_push (InWriteError c (length bs) w (record_error_kind e) (drop w bs)) ctx1;
                  ctx3 = snd (deliver_ack aenc c (write_failure_ack w (length bs) (Some (tty_error_kind e))) ctx2);
                  ctx4 = (if e = WEIdleTimeout
                          then deliver_control enc c (ErrorMsg \<lparr>em_code = MasterWriteTimeout,
                                 em_message = no_progress_text w (length bs), em_details = None\<rparr>) ctx3
                          else ctx3)
              in drop_later c ctx4))"

definition raw_data_spec ::
  "control_encoder \<Rightarrow> ack_encoder \<Rightarrow> lock_state \<Rightarrow> tty_master \<Rightarrow> execute_ctx \<Rightarrow> client_id \<Rightarrow> client_mode \<Rightarrow> bytes
    \<Rightarrow> execute_ctx option" where
  "raw_data_spec enc aenc lock t ctx c m bs =
     (case input_denied lock c m of
        Some (reason, ack) \<Rightarrow>
          Some (ack_or_drop aenc c ack (record_push (InRejected c m (lk_holder lock) reason bs) ctx))
      | None \<Rightarrow>
          (case write_all_with_idle_timeout t bs MASTER_WRITE_IDLE_TIMEOUT_MS of
             Some (Inr o', t') \<Rightarrow> Some (written_input enc aenc (ctx\<lparr>cx_pty := Some t'\<rparr>) c bs o')
           | _ \<Rightarrow> None))"

definition cr_idle :: "client_registry \<Rightarrow> bool" where
  "cr_idle s \<longleftrightarrow> cr_pending_write s = None \<and> cr_pending_ack s = None"

lemma feedback_rounds: "MAX_FEEDBACK_ROUNDS = Suc (Suc (Suc (Suc 4)))"
  by (simp add: MAX_FEEDBACK_ROUNDS_def)

lemma execute_one_simps:
  "execute_one enc aenc ctx (RecordEffect e) = Some (record_push e ctx, None)"
  "execute_one enc aenc ctx (ClientDisconnect c) = Some (drop_later c ctx, None)"
  "execute_one enc aenc ctx (ClientRawAck c ack) =
     Some (snd (deliver_ack aenc c ack ctx), Some (reply_outcome (fst (deliver_ack aenc c ack ctx))))"
  "\<exists>ok. execute_one enc aenc ctx (ClientReply c msg) = Some (deliver_control enc c msg ctx, Some (reply_outcome ok))"
  by (simp_all add: execute_one_def record_push_def drop_later_def deliver_ack_def deliver_control_def
      case_prod_beta Let_def) blast

lemma reply_outcome_Ok [simp]: "reply_outcome ok = OutcomeOk \<longleftrightarrow> ok"
  by (simp add: reply_outcome_def)

text \<open>The last phase, shared by the rejected and the accepted input: record entries and one awaited
  acknowledgement.\<close>

lemma execute_records:
  "execute enc aenc (map (\<lambda>(i, e). \<lparr>eff_id = i, eff_kind = RecordEffect e\<rparr>) rs @ es) ctx =
     execute enc aenc es (fold record_push (map snd rs) ctx)"
proof (induction rs arbitrary: ctx)
  case Nil
  then show ?case by simp
next
  case (Cons r rs)
  then show ?case
    by (auto simp: execute_one_simps case_prod_beta split: option.splits prod.splits)
qed

lemma ack_phase:
  assumes "cr_pending_write (ds_clients s) = None"
    and "cr_pending_ack (ds_clients s) = Some \<lparr>pa_seq = n, pa_client_id = c\<rparr>"
  shows "\<exists>s'. feedback_loop (Suc (Suc k)) enc aenc s
      (map (\<lambda>(i, e). \<lparr>eff_id = i, eff_kind = RecordEffect e\<rparr>) rs
        @ [\<lparr>eff_id = EffectId DomClient n, eff_kind = ClientRawAck c ack\<rparr>]) ctx
      = Some (s', ack_or_drop aenc c ack (fold record_push (map snd rs) ctx), False)
      \<and> cr_idle (ds_clients s') \<and> ds_lock s' = ds_lock s"
proof -
  let ?es = "map (\<lambda>(i, e). \<lparr>eff_id = i, eff_kind = RecordEffect e\<rparr>) rs
        @ [\<lparr>eff_id = EffectId DomClient n, eff_kind = ClientRawAck c ack\<rparr>]"
  let ?ctx = "fold record_push (map snd rs) ctx"
  let ?r = "deliver_ack aenc c ack ?ctx"
  have ex: "execute enc aenc ?es ctx =
      Some (snd ?r, [EffectResult (EffectId DomClient n) (reply_outcome (fst ?r))])"
    by (simp add: execute_records execute_one_simps)
  obtain e es where ne: "?es = e # es" by (cases ?es) auto
  have "feedback_loop (Suc (Suc k)) enc aenc s ?es ctx =
      (case handle_all s [EffectResult (EffectId DomClient n) (reply_outcome (fst ?r))] of
         None \<Rightarrow> None | Some (s', es') \<Rightarrow> feedback_loop (Suc k) enc aenc s' es' (snd ?r))"
    using ex unfolding ne by simp
  then show ?thesis
    using assms
    by (cases "fst ?r") (auto simp: handle_effect_result dispatch_effect_result_def client_reduce_effect_result_def
        ack_or_drop_def cr_emit_def cr_idle_def execute_one_simps Let_def)
qed

lemma idle_ignores_results:
  assumes "cr_idle (ds_clients s)" and "list_all (\<lambda>m. \<exists>i oc. m = EffectResult i oc) ms"
  shows "handle_all s ms = Some (s, [])"
  using assms
proof (induction ms)
  case Nil
  then show ?case by simp
next
  case (Cons m ms)
  then obtain i oc where m: "m = EffectResult i oc" by auto
  have "dispatch_effect_result s i oc = (s, empty_output)"
    using Cons.prems(1) by (simp add: dispatch_effect_result_def client_reduce_effect_result_def cr_idle_def
        split: domain.splits)
  with Cons m show ?case by (simp add: handle_effect_result)
qed

text \<open>The last phase of a failed write: record entries, an acknowledgement and possibly an error that
  nobody waits for, and the disconnect.\<close>

lemma failure_phase:
  assumes "cr_idle (ds_clients s)"
  shows "feedback_loop (Suc k) enc aenc s
      (map (\<lambda>(i, e). \<lparr>eff_id = i, eff_kind = RecordEffect e\<rparr>) rs
        @ \<lparr>eff_id = j, eff_kind = ClientRawAck c ack\<rparr>
        # (case rep of None \<Rightarrow> [] | Some (j', msg) \<Rightarrow> [\<lparr>eff_id = j', eff_kind = ClientReply c msg\<rparr>])
        @ [\<lparr>eff_id = j'', eff_kind = ClientDisconnect c\<rparr>]) ctx
      = Some (s, drop_later c
          ((case rep of None \<Rightarrow> id | Some (j', msg) \<Rightarrow> deliver_control enc c msg)
            (snd (deliver_ack aenc c ack (fold record_push (map snd rs) ctx)))), False)"
    (is "feedback_loop _ _ _ _ ?es _ = Some (_, ?ctx, _)")
proof -
  have "\<exists>fb. execute enc aenc ?es ctx = Some (?ctx, fb) \<and> list_all (\<lambda>m. \<exists>i oc. m = EffectResult i oc) fb"
  proof (cases rep)
    case None
    then show ?thesis by (simp add: execute_records execute_one_simps)
  next
    case (Some x)
    then show ?thesis
      using execute_one_simps(4) [of enc aenc "snd (deliver_ack aenc c ack (fold record_push (map snd rs) ctx))" c "snd x"]
      by (cases x) (auto simp: execute_records execute_one_simps(1-3))
  qed
  then obtain fb where ex: "execute enc aenc ?es ctx = Some (?ctx, fb)"
    and fb: "list_all (\<lambda>m. \<exists>i oc. m = EffectResult i oc) fb" by blast
  obtain e es where ne: "?es = e # es" by (cases ?es) auto
  show ?thesis
    using ex idle_ignores_results [OF assms fb] unfolding ne by simp
qed

text \<open>The effects of a finished write, in closed form.\<close>

lemma finish_write_ok:
  assumes "written \<le> length (pw_bytes pw)"
  shows "\<exists>rs n s'. finish_write s pw (OutcomeTtyWrite written written None) = (s', \<lparr>out_effects =
        map (\<lambda>(i, e). \<lparr>eff_id = i, eff_kind = RecordEffect e\<rparr>) rs
          @ [\<lparr>eff_id = EffectId DomClient n, eff_kind = ClientRawAck (pw_client_id pw) RawAck_ok\<rparr>], out_cross = []\<rparr>)
      \<and> map snd rs = (if written > 0 then [BytesIn (pw_client_id pw) (take written (pw_bytes pw))] else [])
      \<and> cr_pending_write s' = cr_pending_write s
      \<and> cr_pending_ack s' = Some \<lparr>pa_seq = n, pa_client_id = pw_client_id pw\<rparr>"
  by (cases "written > 0")
    (auto simp: finish_write_def cr_emit_def cr_emit_ack_def empty_output_def push_effect_def Let_def
      intro: exI [of _ "[(EffectId DomClient (cr_next_effect_seq s), BytesIn (pw_client_id pw) (take written (pw_bytes pw)))]"]
        exI [of _ "[]"])

lemma finish_write_err:
  "\<exists>rs j rep j'' s'. finish_write s pw (OutcomeTtyWrite written requested (Some (tty_error_kind e))) = (s', \<lparr>out_effects =
        map (\<lambda>(i, r). \<lparr>eff_id = i, eff_kind = RecordEffect r\<rparr>) rs
          @ \<lparr>eff_id = j, eff_kind = ClientRawAck (pw_client_id pw) (write_failure_ack written requested (Some (tty_error_kind e)))\<rparr>
          # (case rep of None \<Rightarrow> [] | Some (j', msg) \<Rightarrow> [\<lparr>eff_id = j', eff_kind = ClientReply (pw_client_id pw) msg\<rparr>])
          @ [\<lparr>eff_id = j'', eff_kind = ClientDisconnect (pw_client_id pw)\<rparr>], out_cross = []\<rparr>)
      \<and> map snd rs = (if written > 0 then [BytesIn (pw_client_id pw) (take written (pw_bytes pw))] else [])
          @ [InWriteError (pw_client_id pw) requested written (record_error_kind e) (drop written (pw_bytes pw))]
      \<and> map_option snd rep = (if e = WEIdleTimeout
          then Some (ErrorMsg \<lparr>em_code = MasterWriteTimeout, em_message = no_progress_text written requested, em_details = None\<rparr>)
          else None)
      \<and> cr_pending_write s' = cr_pending_write s \<and> cr_pending_ack s' = cr_pending_ack s"
proof -
  let ?n = "cr_next_effect_seq s"
  let ?b = "BytesIn (pw_client_id pw) (take written (pw_bytes pw))"
  let ?w = "InWriteError (pw_client_id pw) requested written (record_error_kind e) (drop written (pw_bytes pw))"
  let ?k = "if written > 0 then 1 else 0 :: nat"
  let ?rs = "(if written > 0 then [(EffectId DomClient ?n, ?b)] else []) @ [(EffectId DomClient (?n + ?k), ?w)]"
  let ?rep = "if e = WEIdleTimeout then Some (EffectId DomClient (?n + ?k + 2),
      ErrorMsg \<lparr>em_code = MasterWriteTimeout, em_message = no_progress_text written requested, em_details = None\<rparr>) else None"
  show ?thesis
    by (rule exI [of _ ?rs], rule exI [of _ "EffectId DomClient (?n + ?k + 1)"], rule exI [of _ ?rep],
        rule exI [of _ "EffectId DomClient (?n + ?k + (if e = WEIdleTimeout then 3 else 2))"],
        rule exI [of _ "s\<lparr>cr_next_effect_seq := ?n + ?k + (if e = WEIdleTimeout then 4 else 3)\<rparr>"])
      (cases e; simp add: finish_write_def cr_emit_def empty_output_def push_effect_def Let_def
        tty_error_kind_def record_error_kind_def numeral_eq_Suc)
qed

lemma tty_write_outcome_kind: "tty_write_outcome w r err = OutcomeTtyWrite w r (map_option tty_error_kind err)"
  by (cases err) (simp_all add: tty_write_outcome_def tty_error_kind_def)

lemma raw_data_denied:
  assumes "cr_idle (ds_clients s)" and "input_denied (ds_lock s) c m = Some (reason, ack)"
  shows "\<exists>s'. raw_data_pipeline enc aenc s ctx c m bs =
      Some (s', ack_or_drop aenc c ack (record_push (InRejected c m (lk_holder (ds_lock s)) reason bs) ctx), False)
      \<and> cr_idle (ds_clients s') \<and> ds_lock s' = ds_lock s"
proof -
  let ?n = "cr_next_effect_seq (ds_clients s)"
  let ?rs = "[(EffectId DomClient ?n, InRejected c m (lk_holder (ds_lock s)) reason bs)]"
  let ?s = "s\<lparr>ds_clients := (ds_clients s)\<lparr>cr_next_effect_seq := ?n + 2,
      cr_pending_ack := Some \<lparr>pa_seq = ?n + 1, pa_client_id = c\<rparr>\<rparr>\<rparr>"
  have h: "handle s (client_raw_data c m bs) = Some (?s,
      map (\<lambda>(i, e). \<lparr>eff_id = i, eff_kind = RecordEffect e\<rparr>) ?rs
        @ [\<lparr>eff_id = EffectId DomClient (?n + 1), eff_kind = ClientRawAck c ack\<rparr>], False)"
    using assms(2)
    by (auto simp: handle_raw_data reduce_raw_data_def cr_emit_def cr_emit_ack_def input_denied_def Let_def
        split: if_splits option.splits)
  have "cr_pending_write (ds_clients ?s) = None" using assms(1) by (simp add: cr_idle_def)
  from ack_phase [OF this, where n = "?n + 1" and c = c and rs = ?rs and k = "Suc (Suc 4)" and ctx = ctx and ack = ack]
  show ?thesis
    by (simp add: raw_data_pipeline_def h execute_with_feedback_ctx_def feedback_rounds del: feedback_loop.simps)
qed

lemma raw_data_write_phase:
  assumes "input_denied (ds_lock s) c m = None"
  shows "handle s (client_raw_data c m bs) =
      Some (s\<lparr>ds_clients := (ds_clients s)\<lparr>cr_next_effect_seq := cr_next_effect_seq (ds_clients s) + 1,
              cr_pending_write := Some \<lparr>pw_seq = cr_next_effect_seq (ds_clients s), pw_client_id = c, pw_bytes = bs\<rparr>\<rparr>\<rparr>,
            [\<lparr>eff_id = EffectId DomClient (cr_next_effect_seq (ds_clients s)), eff_kind = TtyWrite bs\<rparr>], False)"
  using assms
  by (auto simp: handle_raw_data reduce_raw_data_def cr_emit_def input_denied_def Let_def
      split: if_splits option.splits)

lemma write_round:
  assumes "cx_pty ctx = Some t" and "cr_pending_write (ds_clients s) = Some pw" and "pw_seq pw = n"
  shows "write_all_with_idle_timeout t bs MASTER_WRITE_IDLE_TIMEOUT_MS = Some (Inr o', t') \<Longrightarrow>
      feedback_loop (Suc k) enc aenc s [\<lparr>eff_id = EffectId DomClient n, eff_kind = TtyWrite bs\<rparr>] ctx =
      (let fw = finish_write ((ds_clients s)\<lparr>cr_pending_write := None\<rparr>) pw
            (OutcomeTtyWrite (wo_written_len o') (wo_requested_len o') (map_option tty_error_kind (wo_error o')))
       in feedback_loop k enc aenc (s\<lparr>ds_clients := fst fw\<rparr>) (out_effects (snd fw)) (ctx\<lparr>cx_pty := Some t'\<rparr>))"
    and "write_all_with_idle_timeout t bs MASTER_WRITE_IDLE_TIMEOUT_MS = None \<Longrightarrow>
      feedback_loop (Suc k) enc aenc s [\<lparr>eff_id = EffectId DomClient n, eff_kind = TtyWrite bs\<rparr>] ctx = None"
  using assms
  by (simp_all add: execute_one_def tty_write_outcome_kind handle_effect_result
      dispatch_effect_result_def client_reduce_effect_result_def case_prod_beta Let_def)

lemma raw_data_accepted:
  assumes "cr_idle (ds_clients s)" and "input_denied (ds_lock s) c m = None" and "cx_pty ctx = Some t"
    and w: "write_all_with_idle_timeout t bs MASTER_WRITE_IDLE_TIMEOUT_MS = Some (Inr o', t')"
  shows "\<exists>s'. raw_data_pipeline enc aenc s ctx c m bs =
      Some (s', written_input enc aenc (ctx\<lparr>cx_pty := Some t'\<rparr>) c bs o', False)
      \<and> cr_idle (ds_clients s') \<and> ds_lock s' = ds_lock s"
proof -
  let ?n = "cr_next_effect_seq (ds_clients s)"
  let ?pw = "\<lparr>pw_seq = ?n, pw_client_id = c, pw_bytes = bs\<rparr>"
  let ?s1 = "s\<lparr>ds_clients := (ds_clients s)\<lparr>cr_next_effect_seq := ?n + 1, cr_pending_write := Some ?pw\<rparr>\<rparr>"
  let ?cr = "(ds_clients s)\<lparr>cr_next_effect_seq := ?n + 1, cr_pending_write := None\<rparr>"
  let ?ctx = "ctx\<lparr>cx_pty := Some t'\<rparr>"
  let ?oc = "OutcomeTtyWrite (wo_written_len o') (wo_requested_len o') (map_option tty_error_kind (wo_error o'))"
  let ?fw = "finish_write ?cr ?pw ?oc"
  note ws = write_all_spec [OF w]
  have "raw_data_pipeline enc aenc s ctx c m bs = feedback_loop (Suc (Suc (Suc (Suc 4)))) enc aenc ?s1
      [\<lparr>eff_id = EffectId DomClient ?n, eff_kind = TtyWrite bs\<rparr>] ctx"
    by (simp add: raw_data_pipeline_def raw_data_write_phase [OF assms(2)] execute_with_feedback_ctx_def
        feedback_rounds del: feedback_loop.simps)
  also have "\<dots> = feedback_loop (Suc (Suc (Suc 4))) enc aenc (?s1\<lparr>ds_clients := fst ?fw\<rparr>) (out_effects (snd ?fw)) ?ctx"
    by (subst write_round(1) [OF assms(3) _ _ w]) (simp_all add: Let_def)
  finally have pipe: "raw_data_pipeline enc aenc s ctx c m bs =
      feedback_loop (Suc (Suc (Suc 4))) enc aenc (?s1\<lparr>ds_clients := fst ?fw\<rparr>) (out_effects (snd ?fw)) ?ctx" .
  show ?thesis
  proof (cases "wo_error o'")
    case None
    with ws have len: "wo_written_len o' = length bs" "wo_requested_len o' = length bs" by auto
    obtain rs n' cr' where fw: "?fw = (cr', \<lparr>out_effects =
        map (\<lambda>(i, e). \<lparr>eff_id = i, eff_kind = RecordEffect e\<rparr>) rs
          @ [\<lparr>eff_id = EffectId DomClient n', eff_kind = ClientRawAck c RawAck_ok\<rparr>], out_cross = []\<rparr>)"
      and rs: "map snd rs = (if length bs > 0 then [BytesIn c (take (length bs) bs)] else [])"
      and p: "cr_pending_write cr' = None" "cr_pending_ack cr' = Some \<lparr>pa_seq = n', pa_client_id = c\<rparr>"
      using finish_write_ok [of "length bs" ?pw ?cr] None len by auto
    from ack_phase [of "?s1\<lparr>ds_clients := cr'\<rparr>" n' c "Suc 4" enc aenc rs RawAck_ok ?ctx] p pipe fw
    show ?thesis
      using None len by (auto simp: written_input_def rs Let_def)
  next
    case (Some e)
    obtain rs j rep j'' cr' where fw: "?fw = (cr', \<lparr>out_effects =
        map (\<lambda>(i, r). \<lparr>eff_id = i, eff_kind = RecordEffect r\<rparr>) rs
          @ \<lparr>eff_id = j, eff_kind = ClientRawAck c (write_failure_ack (wo_written_len o') (wo_requested_len o') (Some (tty_error_kind e)))\<rparr>
          # (case rep of None \<Rightarrow> [] | Some (j', msg) \<Rightarrow> [\<lparr>eff_id = j', eff_kind = ClientReply c msg\<rparr>])
          @ [\<lparr>eff_id = j'', eff_kind = ClientDisconnect c\<rparr>], out_cross = []\<rparr>)"
      and rs: "map snd rs = (if wo_written_len o' > 0 then [BytesIn c (take (wo_written_len o') bs)] else [])
          @ [InWriteError c (wo_requested_len o') (wo_written_len o') (record_error_kind e) (drop (wo_written_len o') bs)]"
      and rep: "map_option snd rep = (if e = WEIdleTimeout
          then Some (ErrorMsg \<lparr>em_code = MasterWriteTimeout,
            em_message = no_progress_text (wo_written_len o') (wo_requested_len o'), em_details = None\<rparr>) else None)"
      and p: "cr_pending_write cr' = cr_pending_write ?cr" "cr_pending_ack cr' = cr_pending_ack ?cr"
      using finish_write_err [of ?cr ?pw "wo_written_len o'" "wo_requested_len o'" e]
      unfolding Some option.map pending_write.simps client_registry.simps by blast
    have idle: "cr_idle (ds_clients (?s1\<lparr>ds_clients := cr'\<rparr>))" using p assms(1) by (simp add: cr_idle_def)
    from failure_phase [OF idle, of "Suc (Suc 4)" enc aenc rs j c _ rep j'' ?ctx] pipe fw
    show ?thesis
      using Some ws idle rep by (cases rep) (auto simp: written_input_def rs Let_def split: if_splits)
  qed
qed

lemma raw_data_blocked:
  assumes "input_denied (ds_lock s) c m = None" and "cx_pty ctx = Some t"
    and "write_all_with_idle_timeout t bs MASTER_WRITE_IDLE_TIMEOUT_MS = None"
  shows "raw_data_pipeline enc aenc s ctx c m bs = None"
  unfolding raw_data_pipeline_def raw_data_write_phase [OF assms(1)] execute_with_feedback_ctx_def feedback_rounds
  by (simp only: option.case prod.case) (rule write_round(2) [OF assms(2) _ _ assms(3)], simp, simp)

lemma raw_data_refines:
  assumes "cr_idle (ds_clients s)" and "cx_pty ctx = Some t"
  shows "case raw_data_spec enc aenc (ds_lock s) t ctx c m bs of
      None \<Rightarrow> raw_data_pipeline enc aenc s ctx c m bs = None
    | Some ctx' \<Rightarrow> (\<exists>s'. raw_data_pipeline enc aenc s ctx c m bs = Some (s', ctx', False)
        \<and> cr_idle (ds_clients s') \<and> ds_lock s' = ds_lock s)"
proof (cases "input_denied (ds_lock s) c m")
  case (Some x)
  then show ?thesis
    using raw_data_denied [OF assms(1), of c m "fst x" "snd x"] by (cases x) (simp add: raw_data_spec_def)
next
  case None
  show ?thesis
  proof (cases "write_all_with_idle_timeout t bs MASTER_WRITE_IDLE_TIMEOUT_MS")
    case None': None
    with raw_data_blocked [OF None assms(2)] None show ?thesis by (simp add: raw_data_spec_def)
  next
    case (Some r)
    obtain o' t' where r: "r = (Inr o', t')"
      using Some write_all_no_Inl by (cases r; cases "fst r") auto
    from raw_data_accepted [OF assms(1) None assms(2), of bs o' t' enc aenc] Some r None show ?thesis
      by (simp add: raw_data_spec_def)
  qed
qed

lemma on_client_ids: "map ch_id (snd (on_client i f cs)) = map ch_id cs"
  if "\<And>c. ch_id (snd (f c)) = ch_id c"
  using that by (induction cs) (auto simp: case_prod_beta)

lemma written_input_effects:
  "cx_pty (written_input enc aenc ctx c bs o') = cx_pty ctx"
  "cx_record (written_input enc aenc ctx c bs o') =
     map_option (\<lambda>r. r @ (if wo_written_len o' > 0 then [BytesIn c (take (wo_written_len o') bs)] else [])
       @ (case wo_error o' of None \<Rightarrow> []
          | Some e \<Rightarrow> [InWriteError c (length bs) (wo_written_len o') (record_error_kind e) (drop (wo_written_len o') bs)]))
       (cx_record ctx)"
  by (cases "cx_record ctx"; cases "wo_error o'"; simp add: written_input_def record_push_def ack_or_drop_def
      drop_later_def deliver_ack_def deliver_control_def Let_def)+

lemma ack_or_drop_effects:
  "cx_pty (ack_or_drop aenc c ack ctx) = cx_pty ctx"
  "cx_record (ack_or_drop aenc c ack ctx) = cx_record ctx"
  by (simp_all add: ack_or_drop_def drop_later_def deliver_ack_def Let_def)

lemma record_push_pty [simp]: "cx_pty (record_push e ctx) = cx_pty ctx"
  and record_push_record [simp]: "cx_record (record_push e ctx) = map_option (\<lambda>r. r @ [e]) (cx_record ctx)"
  by (simp_all add: record_push_def)

subsection \<open>Properties\<close>

text \<open>The super-reducer always settles: \<open>handle\<close> returns for every state and message after at
  most one cross-domain hop, without ever reaching the queue bound where a debug build panics
  and a release build drops messages; a detach reaches the lock domain as a disconnect.\<close>

theorem handle_settles:
  "\<exists>s' es. handle s m = Some (s', es, False)
     \<and> (\<forall>c. m = client_detached c \<longrightarrow>
          lock_abs (ds_lock s') = lock_abs (fst (lock_reduce (ds_lock s) (LClientDisconnected c)))
          \<and> ds_clients s' = ds_clients s)"
proof -
  have l: "lock_abs (fst (lock_reduce_msg (ds_lock s) x :: lock_state \<times> daemon_msg domain_output \<times> lock_event list))
      = lock_abs (fst (lock_reduce (ds_lock s) x))" for x
    using same_lock_abs(1) [OF lock_reduce_msg_same(1)] by blast
  show ?thesis
    using l by (auto simp: handle_eq client_detached_def detach_msg_def case_prod_beta Let_def
        simp del: lock_reduce.simps split: option.splits)
qed

theorem handle_settles_witness:
  "\<exists>s' es. handle (daemon_default\<lparr>ds_lock := lock_grant lock_default 3 ''k''\<rparr>) (client_detached 3) = Some (s', es, False)
     \<and> lock_abs (ds_lock s') = None"
proof -
  obtain s' es where h: "handle (daemon_default\<lparr>ds_lock := lock_grant lock_default 3 ''k''\<rparr>) (client_detached 3) = Some (s', es, False)"
    and "lock_abs (ds_lock s') = lock_abs (fst (lock_reduce (lock_grant lock_default 3 ''k'') (LClientDisconnected 3)))"
    using handle_settles [of "daemon_default\<lparr>ds_lock := lock_grant lock_default 3 ''k''\<rparr>" "client_detached 3"] by auto
  then show ?thesis by (auto simp: lock_grant_def lock_clear_def lock_abs_def)
qed

text \<open>C19. The effect machinery implements the straight-line handler: for a registry with nothing in
  flight, processing a raw data frame through effects, identifiers, execution and feedback
  gives exactly the clients, overflow list, PTY and record of the reference definition; it
  needs fewer than the allowed feedback rounds, leaves the lock alone, and leaves nothing in
  flight for the next frame.\<close>

theorem raw_data_pipeline_refines:
  assumes "cr_idle (ds_clients s)" and "cx_pty ctx = Some t"
  shows "map_option (\<lambda>(s', ctx', dropped). (ctx', dropped, cr_idle (ds_clients s'), ds_lock s'))
           (raw_data_pipeline enc aenc s ctx c m bs)
       = map_option (\<lambda>ctx'. (ctx', False, True, ds_lock s)) (raw_data_spec enc aenc (ds_lock s) t ctx c m bs)"
  using raw_data_refines [OF assms, of enc aenc c m bs]
  by (cases "raw_data_spec enc aenc (ds_lock s) t ctx c m bs") auto

definition input_example_ctx :: execute_ctx where
  "input_example_ctx = \<lparr>cx_clients = [], cx_overflow_ids = [],
     cx_pty = Some \<lparr>tty_writes = [TWrote 1, TAgain, TErr ''EIO''], tty_polls = [PReady], tty_in = []\<rparr>,
     cx_record = Some []\<rparr>"

theorem raw_data_pipeline_refines_witness:
  "map_option (\<lambda>(s', ctx', dropped). (dropped, cr_idle (ds_clients s')))
     (raw_data_pipeline (\<lambda>_. None) (\<lambda>_. None) daemon_default input_example_ctx 1 Ro [65]) = Some (False, True)"
proof -
  have "cr_idle (ds_clients daemon_default)" by (simp add: cr_idle_def daemon_default_def)
  moreover have "cx_pty input_example_ctx =
      Some \<lparr>tty_writes = [TWrote 1, TAgain, TErr ''EIO''], tty_polls = [PReady], tty_in = []\<rparr>"
    by (simp add: input_example_ctx_def)
  ultimately show ?thesis
    using raw_data_pipeline_refines [of daemon_default input_example_ctx _ "\<lambda>_. None" "\<lambda>_. None" 1 Ro "[65]"]
    by (auto simp: raw_data_spec_def input_denied_def map_option_case split: option.splits)
qed

text \<open>C1. Input authorisation: bytes of a read-only client, or of a client while another client holds
  the lock, never reach the child; the attempt is recorded with all its bytes and the reason.\<close>

theorem unauthorised_input_never_written:
  assumes "cr_idle (ds_clients s)" and "cx_pty ctx = Some t"
    and "m = Ro \<or> (\<exists>h. lk_holder (ds_lock s) = Some h \<and> h \<noteq> c)"
  shows "\<exists>s' ctx'. raw_data_pipeline enc aenc s ctx c m bs = Some (s', ctx', False)
       \<and> cx_pty ctx' = Some t
       \<and> cx_record ctx' = map_option (\<lambda>r. r @ [InRejected c m (lk_holder (ds_lock s))
            (if m = Ro then RejectRoClient else RejectLockNotHeld) bs]) (cx_record ctx)"
proof -
  obtain reason ack where d: "input_denied (ds_lock s) c m = Some (reason, ack)"
    and r: "reason = (if m = Ro then RejectRoClient else RejectLockNotHeld)"
    using assms(3) by (cases "m = Ro") (auto simp: input_denied_def)
  from raw_data_denied [OF assms(1) d] assms(2) r show ?thesis
    by (fastforce simp: ack_or_drop_effects)
qed

theorem unauthorised_input_never_written_witness:
  "\<exists>s' ctx'. raw_data_pipeline (\<lambda>_. None) (\<lambda>_. None)
      (daemon_default\<lparr>ds_lock := lock_grant lock_default 3 ''k''\<rparr>) input_example_ctx 1 Rw [65] = Some (s', ctx', False)
     \<and> cx_pty ctx' = cx_pty input_example_ctx"
proof -
  let ?s = "daemon_default\<lparr>ds_lock := lock_grant lock_default 3 ''k''\<rparr>"
  have "cr_idle (ds_clients ?s)" by (simp add: cr_idle_def daemon_default_def)
  moreover have "cx_pty input_example_ctx =
      Some \<lparr>tty_writes = [TWrote 1, TAgain, TErr ''EIO''], tty_polls = [PReady], tty_in = []\<rparr>"
    by (simp add: input_example_ctx_def)
  moreover have "Rw = Ro \<or> (\<exists>h. lk_holder (ds_lock ?s) = Some h \<and> h \<noteq> 1)"
    by (simp add: lock_grant_def)
  ultimately show ?thesis
    using unauthorised_input_never_written [of ?s input_example_ctx _ Rw 1 "\<lambda>_. None" "\<lambda>_. None" "[65]"] by fastforce
qed

text \<open>Authorised input is delivered and recorded exactly: the child receives a prefix of the
  frame's bytes, all of them unless the write failed; the record gets exactly that prefix as
  input and, on failure, exactly the rest as unwritten; the partial-write-without-error branch
  cannot occur.\<close>

theorem authorised_input_exact:
  assumes "cr_idle (ds_clients s)" and "cx_pty ctx = Some t" and "input_denied (ds_lock s) c m = None"
    and "raw_data_pipeline enc aenc s ctx c m bs = Some (s', ctx', dropped)"
  shows "\<exists>t' w err. cx_pty ctx' = Some t' \<and> w \<le> length bs \<and> tty_in t' = tty_in t @ take w bs
       \<and> (err = None \<longleftrightarrow> w = length bs)
       \<and> cx_record ctx' = map_option (\<lambda>r. r @ (if w > 0 then [BytesIn c (take w bs)] else [])
            @ (case err of None \<Rightarrow> [] | Some e \<Rightarrow> [InWriteError c (length bs) w (record_error_kind e) (drop w bs)]))
            (cx_record ctx)
       \<and> (err \<noteq> None \<longrightarrow> c \<in> set (cx_overflow_ids ctx'))"
proof -
  obtain o' t' where w: "write_all_with_idle_timeout t bs MASTER_WRITE_IDLE_TIMEOUT_MS = Some (Inr o', t')"
  proof (cases "write_all_with_idle_timeout t bs MASTER_WRITE_IDLE_TIMEOUT_MS")
    case None
    from raw_data_blocked [OF assms(3,2) None] assms(4) show ?thesis by simp
  next
    case (Some r)
    then show ?thesis using that write_all_no_Inl by (cases r; cases "fst r") auto
  qed
  from raw_data_accepted [OF assms(1,3,2) w, of enc aenc] assms(4)
  have c: "ctx' = written_input enc aenc (ctx\<lparr>cx_pty := Some t'\<rparr>) c bs o'" by auto
  have "wo_error o' \<noteq> None \<Longrightarrow> c \<in> set (cx_overflow_ids ctx')"
    by (auto simp: c written_input_def drop_later_def Let_def)
  with write_all_spec [OF w] show ?thesis
    by (intro exI [of _ t'] exI [of _ "wo_written_len o'"] exI [of _ "wo_error o'"])
      (simp add: c written_input_effects)
qed

theorem authorised_input_exact_witness:
  "\<exists>s' ctx' t'. raw_data_pipeline (\<lambda>_. None) (\<lambda>_. None) daemon_default input_example_ctx 1 Rw [65, 66] = Some (s', ctx', False)
     \<and> cx_pty ctx' = Some t' \<and> (\<exists>w \<le> 2. tty_in t' = take w [65, 66])"
proof -
  let ?t = "\<lparr>tty_writes = [TWrote 1, TAgain, TErr ''EIO''], tty_polls = [PReady], tty_in = []\<rparr>"
  have i: "cr_idle (ds_clients daemon_default)" by (simp add: cr_idle_def daemon_default_def)
  have p: "cx_pty input_example_ctx = Some ?t" by (simp add: input_example_ctx_def)
  have d: "input_denied (ds_lock daemon_default) 1 Rw = None"
    by (simp add: input_denied_def daemon_default_def lock_default_def)
  have "raw_data_spec (\<lambda>_. None) (\<lambda>_. None) (ds_lock daemon_default) ?t input_example_ctx 1 Rw [65, 66] \<noteq> None"
    using d by (simp add: raw_data_spec_def write_all_with_idle_timeout_def MASTER_WRITE_IDLE_TIMEOUT_MS_def
        tty_write_loop_eval)
  with raw_data_refines [OF i p, of "\<lambda>_. None" "\<lambda>_. None" 1 Rw "[65, 66]"] obtain s' ctx' where
    r: "raw_data_pipeline (\<lambda>_. None) (\<lambda>_. None) daemon_default input_example_ctx 1 Rw [65, 66] = Some (s', ctx', False)"
    by (auto split: option.splits)
  from authorised_input_exact [OF i p d r] obtain t' w where
    "cx_pty ctx' = Some t'" "w \<le> length [65 :: byte, 66]" "tty_in t' = tty_in ?t @ take w [65, 66]" by blast
  then have "cx_pty ctx' = Some t' \<and> (\<exists>w \<le> 2. tty_in t' = take w [65, 66])"
    by (intro conjI exI [of _ w]) simp_all
  with r show ?thesis by blast
qed

text \<open>C30. The PTY write returns: each full buffer costs one bounded wait, so once the kernel has
  given as many real answers to \<open>write(2)\<close> as there are bytes, and a real answer to each wait,
  the write has returned, whatever the mix of short writes and interruptions.\<close>

theorem tty_write_returns:
  assumes "length data \<le> tty_progress (tty_writes t)" and "count_list (tty_writes t) TAgain \<le> poll_progress (tty_polls t)"
  shows "\<exists>o' t'. write_all_with_idle_timeout t data MASTER_WRITE_IDLE_TIMEOUT_MS = Some (Inr o', t')"
  using tty_write_loop_returns [of data 0 "tty_writes t" "tty_polls t" "tty_in t"] assms
  by (auto simp: write_all_with_idle_timeout_def MASTER_WRITE_IDLE_TIMEOUT_MS_def)

theorem tty_write_returns_witness:
  "\<exists>o' t'. write_all_with_idle_timeout
      \<lparr>tty_writes = [TIntr, TWrote 1, TAgain, TWrote 5], tty_polls = [PIntr, PReady], tty_in = []\<rparr>
      [65, 66] MASTER_WRITE_IDLE_TIMEOUT_MS = Some (Inr o', t')"
  by (rule tty_write_returns) (simp_all add: tty_progress_def poll_progress_def)

end
