(* ===== verification/Scrollback.thy ===== *)
theory Scrollback
  imports Prelude
begin

text \<open>
  The scrollback ring, \<^verbatim>\<open>crates/hyoui/src/scrollback.rs\<close>: timestamped chunks of child
  output, evicted oldest first when the byte limit is exceeded, and the queries that
  \<open>tail\<close> answers from it.

  An \<open>Instant\<close> is an \<open>int\<close> (nanoseconds on the monotonic clock), a \<open>Duration\<close> a \<open>nat\<close>;
  \<open>checked_sub\<close> fails only below the range of the clock's representation.

  The lemmas relate the ring to the ghost history of everything pushed: it holds a suffix of
  the history, as long as it may be, and each query answers about the history or says that it
  cannot.
\<close>

type_synonym instant = int

record output_chunk =
  oc_ts :: instant
  oc_bytes :: bytes

record scrollback =
  sb_chunks :: "output_chunk list"
  sb_last_evicted_ts :: "instant option"
  sb_max_bytes :: nat
  sb_total_bytes :: nat

definition sb_new :: "nat \<Rightarrow> scrollback" where
  "sb_new mx = \<lparr>sb_chunks = [], sb_last_evicted_ts = None, sb_max_bytes = mx, sb_total_bytes = 0\<rparr>"

text \<open>The eviction loop of \<open>push\<close>.\<close>

fun sb_evict :: "nat \<Rightarrow> output_chunk list \<Rightarrow> instant option \<Rightarrow> nat
    \<Rightarrow> output_chunk list \<times> instant option \<times> nat" where
  "sb_evict mx [] lev tot = (if tot > mx then ([], lev, 0) else ([], lev, tot))"
| "sb_evict mx (c # cs) lev tot =
     (if tot > mx then sb_evict mx cs (Some (oc_ts c)) (tot - length (oc_bytes c))
      else (c # cs, lev, tot))"

definition sb_push :: "scrollback \<Rightarrow> instant \<Rightarrow> bytes \<Rightarrow> scrollback" where
  "sb_push s ts bs =
     (let (cs, lev, tot) =
        sb_evict (sb_max_bytes s) (sb_chunks s @ [\<lparr>oc_ts = ts, oc_bytes = bs\<rparr>])
          (sb_last_evicted_ts s) (sb_total_bytes s + length bs)
      in s\<lparr>sb_chunks := cs, sb_last_evicted_ts := lev, sb_total_bytes := tot\<rparr>)"

definition sb_oldest_ts :: "scrollback \<Rightarrow> instant option" where
  "sb_oldest_ts s = (case sb_chunks s of [] \<Rightarrow> None | c # _ \<Rightarrow> Some (oc_ts c))"

definition instant_checked_sub :: "instant \<Rightarrow> nat \<Rightarrow> instant option" where
  "instant_checked_sub now dur =
     (if now - int dur < - (2 ^ 63) * 10 ^ 9 then None else Some (now - int dur))"

definition sb_cutoff :: "instant \<Rightarrow> nat \<Rightarrow> instant" where
  "sb_cutoff now dur = (case instant_checked_sub now dur of Some t \<Rightarrow> t | None \<Rightarrow> now)"

definition sb_since :: "scrollback \<Rightarrow> instant \<Rightarrow> nat \<Rightarrow> bytes" where
  "sb_since s now dur =
     concat (map oc_bytes (filter (\<lambda>c. oc_ts c \<ge> sb_cutoff now dur) (sb_chunks s)))"

text \<open>The error carries \<open>last_evicted_ts\<close> and \<open>since_start\<close>.\<close>

definition sb_since_strict :: "scrollback \<Rightarrow> instant \<Rightarrow> nat \<Rightarrow> (instant \<times> instant) + bytes" where
  "sb_since_strict s now dur =
     (let since_start = sb_cutoff now dur in
      case sb_last_evicted_ts s of
        Some lev \<Rightarrow> if lev \<ge> since_start then Inl (lev, since_start) else Inr (sb_since s now dur)
      | None \<Rightarrow> Inr (sb_since s now dur))"

text \<open>\<open>last_n_bytes\<close> walks the chunks from the newest; \<open>out\<close> is what it has collected.\<close>

fun sb_last_n_loop :: "nat \<Rightarrow> bytes list \<Rightarrow> bytes \<Rightarrow> bytes" where
  "sb_last_n_loop n [] out = out"
| "sb_last_n_loop n (c # cs) out =
     (if length out + length c \<le> n then sb_last_n_loop n cs (c @ out)
      else drop (length c - (n - length out)) c @ out)"

definition sb_last_n_bytes :: "scrollback \<Rightarrow> nat \<Rightarrow> bytes" where
  "sb_last_n_bytes s n = sb_last_n_loop n (rev (map oc_bytes (sb_chunks s))) []"

subsection \<open>The ghost history\<close>

definition chunk_bytes :: "output_chunk list \<Rightarrow> bytes" where
  "chunk_bytes cs = concat (map oc_bytes cs)"

definition history_size :: "output_chunk list \<Rightarrow> nat" where
  "history_size cs = length (chunk_bytes cs)"

definition sb_run :: "nat \<Rightarrow> output_chunk list \<Rightarrow> scrollback" where
  "sb_run mx hist = fold (\<lambda>c s. sb_push s (oc_ts c) (oc_bytes c)) hist (sb_new mx)"

text \<open>The ring against the history \<open>hist\<close>: a suffix of it that fits, with the timestamp of the
  last chunk before it.\<close>

definition sb_inv :: "nat \<Rightarrow> output_chunk list \<Rightarrow> scrollback \<Rightarrow> bool" where
  "sb_inv mx hist s \<longleftrightarrow>
     sb_max_bytes s = mx
     \<and> sb_total_bytes s = history_size (sb_chunks s)
     \<and> sb_total_bytes s \<le> mx
     \<and> (\<exists>old. hist = old @ sb_chunks s
          \<and> sb_last_evicted_ts s = (if old = [] then None else Some (oc_ts (last old))))"

lemma chunk_bytes_simps [simp]:
  "chunk_bytes [] = []" "chunk_bytes (c # cs) = oc_bytes c @ chunk_bytes cs"
  "chunk_bytes (xs @ ys) = chunk_bytes xs @ chunk_bytes ys"
  by (simp_all add: chunk_bytes_def)

lemma history_size_simps [simp]:
  "history_size [] = 0" "history_size (c # cs) = length (oc_bytes c) + history_size cs"
  "history_size (xs @ ys) = history_size xs + history_size ys"
  by (simp_all add: history_size_def)

lemma sb_evict_spec:
  assumes "sb_evict mx cs lev (history_size cs) = (cs', lev', tot')"
  shows "\<exists>gone. cs = gone @ cs' \<and> tot' = history_size cs' \<and> tot' \<le> mx
          \<and> lev' = (if gone = [] then lev else Some (oc_ts (last gone)))
          \<and> (gone \<noteq> [] \<longrightarrow> mx < history_size (last gone # cs'))"
  using assms
proof (induction cs arbitrary: lev)
  case Nil
  then show ?case by (auto split: if_splits)
next
  case (Cons c cs)
  show ?case
  proof (cases "history_size (c # cs) > mx")
    case True
    with Cons.prems have "sb_evict mx cs (Some (oc_ts c)) (history_size cs) = (cs', lev', tot')" by simp
    from Cons.IH [OF this] obtain gone where g: "cs = gone @ cs'" "tot' = history_size cs'" "tot' \<le> mx"
      "lev' = (if gone = [] then Some (oc_ts c) else Some (oc_ts (last gone)))"
      "gone \<noteq> [] \<longrightarrow> mx < history_size (last gone # cs')" by blast
    with True show ?thesis by (intro exI [of _ "c # gone"]) auto
  next
    case False
    with Cons.prems show ?thesis by auto
  qed
qed

lemma sb_inv_push:
  assumes "sb_inv mx hist s"
  shows "sb_inv mx (hist @ [\<lparr>oc_ts = ts, oc_bytes = bs\<rparr>]) (sb_push s ts bs)"
proof -
  let ?c = "\<lparr>oc_ts = ts, oc_bytes = bs\<rparr>"
  from assms obtain old where o: "hist = old @ sb_chunks s"
    "sb_last_evicted_ts s = (if old = [] then None else Some (oc_ts (last old)))"
    and t: "sb_total_bytes s = history_size (sb_chunks s)" and m: "sb_max_bytes s = mx"
    by (auto simp: sb_inv_def)
  obtain cs lev tot where e: "sb_evict mx (sb_chunks s @ [?c]) (sb_last_evicted_ts s)
      (history_size (sb_chunks s @ [?c])) = (cs, lev, tot)" by (metis prod_cases3)
  from sb_evict_spec [OF e] obtain gone where g: "sb_chunks s @ [?c] = gone @ cs"
    "tot = history_size cs" "tot \<le> mx"
    "lev = (if gone = [] then sb_last_evicted_ts s else Some (oc_ts (last gone)))" by blast
  have "hist @ [?c] = (old @ gone) @ cs" using o(1) g(1) by simp
  moreover have "lev = (if old @ gone = [] then None else Some (oc_ts (last (old @ gone))))"
    using g(4) o(2) by auto
  ultimately show ?thesis
    using e g(2,3) t m by (auto simp: sb_inv_def sb_push_def Let_def)
qed

lemma sb_inv_new: "sb_inv mx [] (sb_new mx)"
  by (simp add: sb_inv_def sb_new_def)

lemma sb_inv_run: "sb_inv mx hist (sb_run mx hist)"
proof (induction hist rule: rev_induct)
  case Nil
  then show ?case by (simp add: sb_run_def sb_inv_new)
next
  case (snoc c hist)
  then have "sb_inv mx (hist @ [\<lparr>oc_ts = oc_ts c, oc_bytes = oc_bytes c\<rparr>])
      (sb_push (sb_run mx hist) (oc_ts c) (oc_bytes c))" by (rule sb_inv_push)
  moreover have "\<lparr>oc_ts = oc_ts c, oc_bytes = oc_bytes c\<rparr> = c" by simp
  ultimately show ?case by (simp only: sb_run_def fold_append fold.simps comp_apply id_apply)
qed

lemma sb_last_n_loop_spec:
  "length out \<le> n \<Longrightarrow> sb_last_n_loop n cs out = take_last n (concat (rev cs) @ out)"
proof (induction cs arbitrary: out)
  case Nil
  then show ?case by simp
next
  case (Cons c cs)
  show ?case
  proof (cases "length out + length c \<le> n")
    case True
    with Cons.IH [of "c @ out"] show ?thesis by simp
  next
    case False
    with Cons.prems show ?thesis
      by (auto simp: take_last_append take_last_def)
  qed
qed

lemma filter_sorted_suffix:
  assumes "sorted (map f (xs @ ys))" and "\<And>x. x \<in> set xs \<Longrightarrow> f x < k"
  shows "filter (\<lambda>c. k \<le> f c) (xs @ ys) = filter (\<lambda>c. (k :: 'a :: linorder) \<le> f c) ys"
  using assms(2) by (auto simp: filter_empty_conv not_le)

subsection \<open>Properties\<close>

text \<open>The scrollback is a bounded suffix of the child's output: after any sequence of
  pushes its byte counter is exact and within the limit, what it holds is the end of
  everything pushed, and \<open>last_n_bytes n\<close> is exactly the last \<open>n\<close> bytes of the whole output,
  or all that is held when that is less.\<close>

theorem scrollback_holds_suffix:
  "sb_total_bytes (sb_run mx hist) = length (chunk_bytes (sb_chunks (sb_run mx hist)))
   \<and> sb_total_bytes (sb_run mx hist) \<le> mx
   \<and> suffix (sb_chunks (sb_run mx hist)) hist
   \<and> sb_last_n_bytes (sb_run mx hist) n =
         take_last (min n (sb_total_bytes (sb_run mx hist))) (chunk_bytes hist)"
proof -
  from sb_inv_run [of mx hist] obtain old where
    o: "hist = old @ sb_chunks (sb_run mx hist)"
    and t: "sb_total_bytes (sb_run mx hist) = length (chunk_bytes (sb_chunks (sb_run mx hist)))"
    and m: "sb_total_bytes (sb_run mx hist) \<le> mx"
    by (auto simp: sb_inv_def history_size_def)
  have l: "sb_last_n_bytes (sb_run mx hist) n = take_last n (chunk_bytes (sb_chunks (sb_run mx hist)))"
    by (simp add: sb_last_n_bytes_def sb_last_n_loop_spec chunk_bytes_def)
  have "suffix (sb_chunks (sb_run mx hist)) hist" using o suffix_def by blast
  moreover have "take_last n (chunk_bytes (sb_chunks (sb_run mx hist))) =
      take_last (min n (sb_total_bytes (sb_run mx hist))) (chunk_bytes hist)"
    by (subst (2) o) (simp add: t take_last_append min_def)
  ultimately show ?thesis using t m l by simp
qed

text \<open>\<open>since_strict\<close> is exact: for output pushed in time order, when it answers, the
  answer is all output of the requested period of the whole history, evicted output included;
  when it refuses, a chunk of that period has really been evicted.\<close>

theorem since_strict_exact:
  assumes "sorted (map oc_ts hist)"
  shows "case sb_since_strict (sb_run mx hist) now dur of
      Inr bs \<Rightarrow> bs = chunk_bytes (filter (\<lambda>c. sb_cutoff now dur \<le> oc_ts c) hist)
    | Inl (lev, start) \<Rightarrow> start = sb_cutoff now dur \<and> start \<le> lev
        \<and> (\<exists>c \<in> set hist. oc_ts c = lev)
        \<and> length (sb_chunks (sb_run mx hist)) < length hist"
proof -
  define s where "s = sb_run mx hist"
  from sb_inv_run [of mx hist] obtain old where
    o: "hist = old @ sb_chunks s"
    and e: "sb_last_evicted_ts s = (if old = [] then None else Some (oc_ts (last old)))"
    by (auto simp: sb_inv_def s_def)
  have less: "oc_ts c < sb_cutoff now dur"
    if "oc_ts (last old) < sb_cutoff now dur" "c \<in> set old" for c
  proof -
    have "sorted (map oc_ts old)" using assms o by (simp add: sorted_append)
    with that(2) have "oc_ts c \<le> oc_ts (last old)"
      by (induction old rule: rev_induct) (auto simp: sorted_append)
    with that(1) show ?thesis by simp
  qed
  have ok: "sb_since s now dur = chunk_bytes (filter (\<lambda>c. sb_cutoff now dur \<le> oc_ts c) hist)"
    if "old = [] \<or> oc_ts (last old) < sb_cutoff now dur"
  proof -
    have "filter (\<lambda>c. sb_cutoff now dur \<le> oc_ts c) old = []"
      using that less by (auto simp: filter_empty_conv not_le)
    then show ?thesis by (subst o) (simp add: sb_since_def chunk_bytes_def)
  qed
  show ?thesis
  proof (cases "old = []")
    case True
    with ok e show ?thesis by (simp add: sb_since_strict_def s_def [symmetric])
  next
    case False
    then have "\<exists>c \<in> set hist. oc_ts c = oc_ts (last old)"
      and "length (sb_chunks s) < length hist"
      using o by (force, metis length_append length_greater_0_conv less_add_same_cancel2)
    with False ok e show ?thesis
      by (auto simp: sb_since_strict_def s_def [symmetric] not_le Let_def)
  qed
qed

definition scrollback_example :: "output_chunk list" where
  "scrollback_example = [\<lparr>oc_ts = 1, oc_bytes = [1, 2]\<rparr>, \<lparr>oc_ts = 5, oc_bytes = [3]\<rparr>,
     \<lparr>oc_ts = 9, oc_bytes = [4, 5]\<rparr>]"

theorem since_strict_exact_witness:
  "sb_since_strict (sb_run 3 scrollback_example) 10 5 = Inr [3, 4, 5]
   \<and> sb_since_strict (sb_run 3 scrollback_example) 10 9 = Inl (1, 1)
   \<and> [3, 4, 5] = chunk_bytes (filter (\<lambda>c. sb_cutoff 10 5 \<le> oc_ts c) scrollback_example)"
proof -
  have "sb_since_strict (sb_run 3 scrollback_example) 10 5 = Inr [3, 4, 5]"
    and "sb_since_strict (sb_run 3 scrollback_example) 10 9 = Inl (1, 1)"
    by (simp_all add: sb_since_strict_def sb_run_def scrollback_example_def sb_push_def sb_new_def
        sb_since_def sb_cutoff_def instant_checked_sub_def)
  moreover have "sorted (map oc_ts scrollback_example)" by (simp add: scrollback_example_def)
  from since_strict_exact [OF this, where mx = 3 and now = 10 and dur = 5] calculation(1)
  have "[3, 4, 5] = chunk_bytes (filter (\<lambda>c. sb_cutoff 10 5 \<le> oc_ts c) scrollback_example)" by simp
  ultimately show ?thesis by simp
qed

end
