(* ===== verification/Recording.thy ===== *)
theory Recording
  imports Effects
begin

text \<open>
  Session recording, \<^verbatim>\<open>crates/hyoui/src/daemon/record.rs\<close>: the registry of record sinks, the
  events pushed to them, the writer behind each sink, the JSON lines it writes, and the checks
  on the output path.

  A sink owns a bounded channel and a writer thread. The thread is the operation
  \<open>writer_step\<close>, one event per call, that may be interleaved with the registry's operations in any way;
  a send that times out is a push on a full channel. \<open>sk_written\<close> is a history variable: the
  events the writer has processed. The file system, the regular expression compiler, the JSON printer and
  the hexadecimal encoder are parameters. Paths are absolute component lists once they
  are known to be absolute; error texts show them in that normalised form.
\<close>

definition RECORD_QUEUE_CAPACITY :: nat where "RECORD_QUEUE_CAPACITY = 1024"

definition ALLOWED_EXTENSIONS :: "string list" where
  "ALLOWED_EXTENSIONS = [''jsonl'', ''raw'', ''bin'', ''log'']"

definition SENSITIVE_HOME_PREFIXES :: "string list" where
  "SENSITIVE_HOME_PREFIXES = [''.ssh/'', ''.config/'', ''.gnupg/'', ''.aws/'', ''.docker/'']"

text \<open>A string as the bytes of its encoding.\<close>

definition as_bytes :: "string \<Rightarrow> bytes" where
  "as_bytes s = map (\<lambda>c. of_nat (of_char c)) s"

subsection \<open>Events\<close>

datatype lifecycle_event =
    ChildStoppedObserved string int int nat
  | ResumeRequestReceived client_id nat
  | SigcontSent int nat
  | ChildContinuedObserved string int int nat
  | ClientAttachedEv client_id client_mode nat
  | ClientDetachedEv client_id nat
  | LockAcquiredEv client_id nat
  | LockReleasedEv client_id nat
  | RecordAborted nat string "string option" nat
  | SessionTerminatedByCondition string nat
  | PolicyChanged string string client_id nat

datatype record_event =
    RevBytesIn client_id bytes nat
  | RevBytesOut bytes nat
  | RevInRejected client_id client_mode "client_id option" in_rejected_reason bytes nat
  | RevInWriteError client_id nat nat write_error_kind bytes nat
  | RevInSecretRedacted client_id nat string nat
  | RevLifecycle lifecycle_event

type_synonym seq_event = "nat \<times> record_event"

fun in_rejected_as_str :: "in_rejected_reason \<Rightarrow> string" where
  "in_rejected_as_str RejectRoClient = ''ro-client''"
| "in_rejected_as_str RejectLockNotHeld = ''lock-not-held''"

fun write_error_as_wire_str :: "write_error_kind \<Rightarrow> string" where
  "write_error_as_wire_str WriteErrIdleTimeout = ''timeout''"
| "write_error_as_wire_str (WriteErrIoError _) = ''io-error''"

subsection \<open>JSON lines\<close>

datatype json = JNull | JNum int | JStr string | JArr "json list" | JObj "(string \<times> json) list"

record jsonl_codec =
  jc_to_string :: "json \<Rightarrow> string option"
  jc_hex :: "bytes \<Rightarrow> string"

fun mode_str :: "client_mode \<Rightarrow> string" where
  "mode_str Ro = ''ro''"
| "mode_str Rw = ''rw''"
| "mode_str RwNoLeader = ''rw-no-leader''"

fun direction_str :: "record_direction \<Rightarrow> string" where
  "direction_str DirStdin = ''stdin''"
| "direction_str DirStdout = ''stdout''"
| "direction_str DirBoth = ''both''"

fun input_secrecy_str :: "input_secrecy \<Rightarrow> string" where
  "input_secrecy_str RedactAfterPrompt = ''redact-after-prompt''"
| "input_secrecy_str RecordAll = ''record-all''"
| "input_secrecy_str NeverRecordStdin = ''never-record-stdin''"

definition jnat :: "nat \<Rightarrow> json" where "jnat n = JNum (int n)"

definition jopt :: "('a \<Rightarrow> json) \<Rightarrow> 'a option \<Rightarrow> json" where
  "jopt f x = (case x of None \<Rightarrow> JNull | Some v \<Rightarrow> f v)"

text \<open>The two leading fields every line has.\<close>

definition jline :: "nat \<Rightarrow> nat \<Rightarrow> (string \<times> json) list \<Rightarrow> json" where
  "jline ts n fs = JObj ((''ts_unix_ms'', jnat ts) # (''seq'', jnat n) # fs)"

fun encode_lifecycle :: "nat \<Rightarrow> lifecycle_event \<Rightarrow> json" where
  "encode_lifecycle n (ChildStoppedObserved sname snum pid ts) =
     jline ts n [(''ev'', JStr ''child-stopped-observed''), (''sig_name'', JStr sname), (''sig_num'', JNum snum), (''pid'', JNum pid)]"
| "encode_lifecycle n (ResumeRequestReceived c ts) =
     jline ts n [(''ev'', JStr ''resume-request-received''), (''client_id'', jnat c)]"
| "encode_lifecycle n (SigcontSent pid ts) =
     jline ts n [(''ev'', JStr ''sigcont-sent''), (''pid'', JNum pid)]"
| "encode_lifecycle n (ChildContinuedObserved sname snum pid ts) =
     jline ts n [(''ev'', JStr ''child-continued-observed''), (''sig_name'', JStr sname), (''sig_num'', JNum snum), (''pid'', JNum pid)]"
| "encode_lifecycle n (ClientAttachedEv c m ts) =
     jline ts n [(''ev'', JStr ''client-attached''), (''client_id'', jnat c), (''mode'', JStr (mode_str m))]"
| "encode_lifecycle n (ClientDetachedEv c ts) =
     jline ts n [(''ev'', JStr ''client-detached''), (''client_id'', jnat c)]"
| "encode_lifecycle n (LockAcquiredEv c ts) =
     jline ts n [(''ev'', JStr ''lock-acquired''), (''client_id'', jnat c)]"
| "encode_lifecycle n (LockReleasedEv c ts) =
     jline ts n [(''ev'', JStr ''lock-released''), (''client_id'', jnat c)]"
| "encode_lifecycle n (RecordAborted i reason detail ts) =
     jline ts n [(''ev'', JStr ''record-aborted''), (''record_id'', jnat i), (''reason'', JStr reason), (''detail'', jopt JStr detail)]"
| "encode_lifecycle n (SessionTerminatedByCondition reason ts) =
     jline ts n [(''ev'', JStr ''session-terminated-by-condition''), (''reason'', JStr reason)]"
| "encode_lifecycle n (PolicyChanged k v c ts) =
     jline ts n [(''ev'', JStr ''policy-changed''), (''key'', JStr k), (''value'', JStr v), (''changed_by_client_id'', jnat c)]"

fun encode_jsonl_event :: "(bytes \<Rightarrow> string) \<Rightarrow> nat \<Rightarrow> record_event \<Rightarrow> json" where
  "encode_jsonl_event hex n (RevBytesIn c bs ts) =
     jline ts n [(''dir'', JStr ''in''), (''client_id'', jnat c), (''bytes'', JStr (hex bs))]"
| "encode_jsonl_event hex n (RevBytesOut bs ts) =
     jline ts n [(''dir'', JStr ''out''), (''bytes'', JStr (hex bs))]"
| "encode_jsonl_event hex n (RevInRejected c m holder reason bs ts) =
     jline ts n [(''ev'', JStr ''in-rejected''), (''client_id'', jnat c), (''client_mode'', JStr (mode_str m)),
       (''lock_holder_client_id'', jopt jnat holder), (''reason'', JStr (in_rejected_as_str reason)), (''bytes'', JStr (hex bs))]"
| "encode_jsonl_event hex n (RevInWriteError c requested written err unwritten ts) =
     jline ts n ([(''ev'', JStr ''in-write-error''), (''client_id'', jnat c), (''requested_len'', jnat requested),
       (''written_len'', jnat written), (''error'', JStr (write_error_as_wire_str err)), (''unwritten_bytes'', JStr (hex unwritten))]
       @ (case err of WriteErrIoError msg \<Rightarrow> [(''error_detail'', JStr msg)] | WriteErrIdleTimeout \<Rightarrow> []))"
| "encode_jsonl_event hex n (RevInSecretRedacted c count reason ts) =
     jline ts n [(''ev'', JStr ''in-secret-redacted''), (''client_id'', jnat c), (''byte_count'', jnat count), (''reason'', JStr reason)]"
| "encode_jsonl_event hex n (RevLifecycle ev) = encode_lifecycle n ev"

subsection \<open>Sinks and their writers\<close>

record session_info =
  si_session_id :: string
  si_daemon_pid :: nat
  si_daemon_boot_id :: string
  si_argv :: "string list"
  si_cwd :: string

record record_sink =
  sk_record_id :: nat
  sk_direction :: record_direction
  sk_format :: record_format
  sk_output_path :: string
  sk_started_by_client_id :: client_id
  sk_started_unix_ms :: nat
  sk_input_secrecy :: input_secrecy
  sk_max_bytes :: "nat option"
  sk_max_duration_ms :: "nat option"
  sk_session :: session_info
  sk_seq :: nat
  sk_tx_open :: bool
  sk_channel :: "seq_event list"
  sk_writer_alive :: bool
  sk_header_written :: bool
  sk_file :: bytes
  sk_raw_bytes_recorded :: nat
  sk_file_bytes_written :: nat
  sk_last_flushed_unix_ms :: nat
  sk_written :: "seq_event list"

datatype push_result = PushOk | PushFull | PushDisconnected

definition sink_try_push :: "record_event \<Rightarrow> record_sink \<Rightarrow> push_result \<times> record_sink" where
  "sink_try_push ev s =
     (let n = sk_seq s; s1 = s\<lparr>sk_seq := n + 1\<rparr> in
      if \<not> sk_tx_open s \<or> \<not> sk_writer_alive s then (PushDisconnected, s1)
      else if length (sk_channel s) < RECORD_QUEUE_CAPACITY then (PushOk, s1\<lparr>sk_channel := sk_channel s @ [(n, ev)]\<rparr>)
      else (PushFull, s1))"

definition snapshot_info :: "record_sink \<Rightarrow> record_info" where
  "snapshot_info s =
     \<lparr>ri_record_id = sk_record_id s, ri_direction = sk_direction s, ri_format = sk_format s,
      ri_output_path = sk_output_path s, ri_started_unix_ms = sk_started_unix_ms s,
      ri_started_by_client_id = sk_started_by_client_id s,
      ri_raw_bytes_recorded = sk_raw_bytes_recorded s, ri_file_bytes_written = sk_file_bytes_written s,
      ri_last_flushed_unix_ms = sk_last_flushed_unix_ms s\<rparr>"

definition jsonl_header :: "record_sink \<Rightarrow> json" where
  "jsonl_header s =
     JObj [(''v'', JNum 1), (''type'', JStr ''hyoui-record-jsonl/1''), (''session'', JStr (si_session_id (sk_session s))),
       (''daemon_pid'', jnat (si_daemon_pid (sk_session s))), (''daemon_boot_id'', JStr (si_daemon_boot_id (sk_session s))),
       (''started_unix_ms'', jnat (sk_started_unix_ms s)), (''argv'', JArr (map JStr (si_argv (sk_session s)))),
       (''cwd'', JStr (si_cwd (sk_session s))), (''direction'', JStr (direction_str (sk_direction s))),
       (''input_secrecy'', JStr (input_secrecy_str (sk_input_secrecy s)))]"

definition write_line :: "nat \<Rightarrow> string \<Rightarrow> record_sink \<Rightarrow> record_sink" where
  "write_line now line s =
     s\<lparr>sk_file := sk_file s @ as_bytes line @ [0x0a],
       sk_file_bytes_written := sk_file_bytes_written s + length line + 1,
       sk_last_flushed_unix_ms := now\<rparr>"

text \<open>\<open>None\<close> is an error of the printer or of the file, which ends the writer.\<close>

definition write_jsonl_header :: "jsonl_codec \<Rightarrow> bool \<Rightarrow> nat \<Rightarrow> record_sink \<Rightarrow> record_sink option" where
  "write_jsonl_header jc io_ok now s =
     (case jc_to_string jc (jsonl_header s) of
        Some line \<Rightarrow> if io_ok then Some (write_line now line s) else None
      | None \<Rightarrow> None)"

definition raw_payload :: "record_event \<Rightarrow> bytes option" where
  "raw_payload ev = (case ev of RevBytesIn _ bs _ \<Rightarrow> Some bs | RevBytesOut bs _ \<Rightarrow> Some bs | _ \<Rightarrow> None)"

definition write_jsonl_event :: "jsonl_codec \<Rightarrow> bool \<Rightarrow> nat \<Rightarrow> seq_event \<Rightarrow> record_sink \<Rightarrow> record_sink option" where
  "write_jsonl_event jc io_ok now p s =
     (case jc_to_string jc (encode_jsonl_event (jc_hex jc) (fst p) (snd p)) of
        Some line \<Rightarrow>
          if io_ok
          then Some ((write_line now line s)\<lparr>sk_raw_bytes_recorded :=
                  sk_raw_bytes_recorded s + (case raw_payload (snd p) of Some bs \<Rightarrow> length bs | None \<Rightarrow> 0)\<rparr>)
          else None
      | None \<Rightarrow> None)"

definition write_raw_event :: "bool \<Rightarrow> nat \<Rightarrow> seq_event \<Rightarrow> record_sink \<Rightarrow> record_sink option" where
  "write_raw_event io_ok now p s =
     (case raw_payload (snd p) of
        None \<Rightarrow> Some s
      | Some bs \<Rightarrow>
          if io_ok
          then Some (s\<lparr>sk_file := sk_file s @ bs, sk_file_bytes_written := sk_file_bytes_written s + length bs,
                  sk_raw_bytes_recorded := sk_raw_bytes_recorded s + length bs, sk_last_flushed_unix_ms := now\<rparr>)
          else None)"

definition handle_one_event :: "jsonl_codec \<Rightarrow> bool \<Rightarrow> nat \<Rightarrow> seq_event \<Rightarrow> record_sink \<Rightarrow> record_sink option" where
  "handle_one_event jc io_ok now p s =
     (case sk_format s of
        FormatRaw \<Rightarrow> write_raw_event io_ok now p s
      | FormatJsonl \<Rightarrow> write_jsonl_event jc io_ok now p s)"

definition exceeds_limits :: "nat \<Rightarrow> record_sink \<Rightarrow> bool" where
  "exceeds_limits now s \<longleftrightarrow>
     (case sk_max_bytes s of Some b \<Rightarrow> b > 0 \<and> sk_raw_bytes_recorded s \<ge> b | None \<Rightarrow> False)
     \<or> (case sk_max_duration_ms s of Some d \<Rightarrow> d > 0 \<and> now - sk_started_unix_ms s \<ge> d | None \<Rightarrow> False)"

text \<open>The writer returns: the receiver is dropped, and what is still in the channel with it.\<close>

definition writer_exit :: "record_sink \<Rightarrow> record_sink" where
  "writer_exit s = s\<lparr>sk_writer_alive := False, sk_channel := []\<rparr>"

text \<open>The next thing the writer thread does: the header, one event, or the end of the channel. A blocked
  \<open>recv\<close> changes nothing.\<close>

definition writer_step :: "jsonl_codec \<Rightarrow> bool \<Rightarrow> nat \<Rightarrow> record_sink \<Rightarrow> record_sink" where
  "writer_step jc io_ok now s =
     (if \<not> sk_writer_alive s then s
      else if \<not> sk_header_written s then
        (if sk_format s = FormatJsonl
         then (case write_jsonl_header jc io_ok now s of
                 Some s' \<Rightarrow> s'\<lparr>sk_header_written := True\<rparr>
               | None \<Rightarrow> writer_exit s)
         else s\<lparr>sk_header_written := True\<rparr>)
      else
        (case sk_channel s of
           [] \<Rightarrow> if sk_tx_open s then s else writer_exit s
         | p # ps \<Rightarrow>
             (case handle_one_event jc io_ok now p (s\<lparr>sk_channel := ps\<rparr>) of
                None \<Rightarrow> writer_exit (s\<lparr>sk_channel := ps\<rparr>)
              | Some s' \<Rightarrow>
                  (let s'' = s'\<lparr>sk_written := sk_written s' @ [p]\<rparr>
                   in if exceeds_limits now s'' then writer_exit s'' else s''))))"

text \<open>\<open>join_writer\<close> drops the sender; the wait for the thread is the writer's remaining steps.\<close>

definition join_writer :: "record_sink \<Rightarrow> record_sink" where
  "join_writer s = s\<lparr>sk_tx_open := False\<rparr>"

subsection \<open>Output paths\<close>

text \<open>What the code uses of \<open>std::path\<close>: components of an absolute path (empty and \<open>.\<close> components vanish),
  the last one, its extension.\<close>

fun split_on :: "char \<Rightarrow> string \<Rightarrow> string list" where
  "split_on c [] = [[]]"
| "split_on c (x # xs) =
     (if x = c then [] # split_on c xs
      else (case split_on c xs of [] \<Rightarrow> [[x]] | w # ws \<Rightarrow> (x # w) # ws))"

definition path_components :: "string \<Rightarrow> string list" where
  "path_components p = filter (\<lambda>s. s \<noteq> [] \<and> s \<noteq> ''.'') (split_on CHR ''/'' p)"

definition path_is_absolute :: "string \<Rightarrow> bool" where
  "path_is_absolute p \<longleftrightarrow> (case p of c # _ \<Rightarrow> c = CHR ''/'' | [] \<Rightarrow> False)"

definition path_file_name :: "string list \<Rightarrow> string option" where
  "path_file_name cs = (if cs = [] \<or> last cs = ''..'' then None else Some (last cs))"

definition path_parent :: "string list \<Rightarrow> string list option" where
  "path_parent cs = (if cs = [] then None else Some (butlast cs))"

definition path_extension :: "string list \<Rightarrow> string option" where
  "path_extension cs =
     (case path_file_name cs of
        None \<Rightarrow> None
      | Some f \<Rightarrow>
          (let r = rev f;
               after = rev (takeWhile (\<lambda>c. c \<noteq> CHR ''.'') r);
               rest = dropWhile (\<lambda>c. c \<noteq> CHR ''.'') r
           in if rest = [] \<or> tl rest = [] then None else Some after))"

definition path_display :: "string list \<Rightarrow> string" where
  "path_display cs = (if cs = [] then ''/'' else concat (map (\<lambda>c. CHR ''/'' # c) cs))"

fun rel_display :: "string list \<Rightarrow> string" where
  "rel_display [] = []"
| "rel_display [c] = c"
| "rel_display (c # cs) = c @ CHR ''/'' # rel_display cs"

definition strip_path_prefix :: "string list \<Rightarrow> string list \<Rightarrow> string list option" where
  "strip_path_prefix cs pre = (if take (length pre) cs = pre then Some (drop (length pre) cs) else None)"

datatype record_start_error =
    PathNotAbsolute
  | OutputAlreadyExists
  | OutputPermissionDenied string
  | UnsupportedDirectionForFormat
  | InvalidPromptPattern string
  | RedactionUnimplemented
  | RecordIo string

text \<open>The world outside: \<open>canonicalize(2)\<close> with its error text, \<open>$HOME\<close>, the regular expression
  compiler, \<open>open(2)\<close> with \<open>create_new\<close> and \<open>O_NOFOLLOW\<close>, and the thread spawn.\<close>

datatype open_result = OpenOk | OpenExists | OpenErr string

record record_env =
  re_canonicalize :: "string list \<Rightarrow> string + string list"
  re_home :: "string list option"
  re_regex_error :: "string \<Rightarrow> string option"
  re_open :: "string \<Rightarrow> open_result"
  re_spawn_error :: "string option"
  re_now_unix_ms :: nat

definition sensitive_under_home :: "record_env \<Rightarrow> string list \<Rightarrow> bool" where
  "sensitive_under_home env resolved =
     (case re_home env of
        None \<Rightarrow> False
      | Some home0 \<Rightarrow>
          (let home = (case re_canonicalize env home0 of Inr h \<Rightarrow> h | Inl _ \<Rightarrow> home0) in
           case strip_path_prefix resolved home of
             None \<Rightarrow> False
           | Some rel \<Rightarrow> list_ex (\<lambda>bad. prefix bad (rel_display rel)) SENSITIVE_HOME_PREFIXES))"

definition validate_output_path :: "record_env \<Rightarrow> string \<Rightarrow> record_start_error + unit" where
  "validate_output_path env p =
     (if \<not> path_is_absolute p then Inl PathNotAbsolute
      else let cs = path_components p in
        if list_ex (\<lambda>c. c = ''..'') cs
        then Inl (OutputPermissionDenied (''path must not contain '' @ [CHR 0x27] @ ''..'' @ [CHR 0x27] @ '': '' @ p))
        else if (case path_extension cs of Some e \<Rightarrow> e \<notin> set ALLOWED_EXTENSIONS | None \<Rightarrow> True)
        then Inl (OutputPermissionDenied
               (''extension not in allowlist (['' @ concat (map (\<lambda>e. [CHR 0x22] @ e @ [CHR 0x22] @ '', '') (butlast ALLOWED_EXTENSIONS))
                 @ [CHR 0x22] @ last ALLOWED_EXTENSIONS @ [CHR 0x22] @ '']): '' @ p))
        else
          (case path_parent cs of
             None \<Rightarrow> Inl (OutputPermissionDenied (''output path has no parent directory: '' @ p))
           | Some parent \<Rightarrow>
               (case path_file_name cs of
                  None \<Rightarrow> Inl (OutputPermissionDenied (''output path has no file name: '' @ p))
                | Some file_name \<Rightarrow>
                    (case re_canonicalize env parent of
                       Inl e \<Rightarrow> Inl (OutputPermissionDenied
                         (''parent directory does not resolve ('' @ e @ ''): '' @ path_display parent))
                     | Inr real_parent \<Rightarrow>
                         (let resolved = real_parent @ [file_name] in
                          if sensitive_under_home env resolved
                          then Inl (OutputPermissionDenied
                                 (''sensitive HOME prefix denied (resolved): '' @ path_display resolved))
                          else Inr ())))))"

definition open_record_file :: "record_env \<Rightarrow> string \<Rightarrow> record_start_error + unit" where
  "open_record_file env p =
     (case re_open env p of
        OpenOk \<Rightarrow> Inr ()
      | OpenExists \<Rightarrow> Inl OutputAlreadyExists
      | OpenErr e \<Rightarrow> Inl (RecordIo e))"

subsection \<open>The registry\<close>

record record_registry =
  rg_sinks :: "record_sink list"
  rg_next_id :: nat

definition registry_new :: record_registry where
  "registry_new = \<lparr>rg_sinks = [], rg_next_id = 1\<rparr>"

definition new_sink :: "record_env \<Rightarrow> record_start_request \<Rightarrow> client_id \<Rightarrow> session_info \<Rightarrow> nat \<Rightarrow> record_sink" where
  "new_sink env req c si i =
     \<lparr>sk_record_id = i, sk_direction = rs_direction req, sk_format = rs_format req,
      sk_output_path = rs_output_path req, sk_started_by_client_id = c, sk_started_unix_ms = re_now_unix_ms env,
      sk_input_secrecy = rs_input_secrecy req, sk_max_bytes = rs_max_bytes req,
      sk_max_duration_ms = rs_max_duration_ms req, sk_session = si, sk_seq = 1, sk_tx_open = True,
      sk_channel = [], sk_writer_alive = True, sk_header_written = False, sk_file = [],
      sk_raw_bytes_recorded = 0, sk_file_bytes_written = 0, sk_last_flushed_unix_ms = 0, sk_written = []\<rparr>"

definition registry_start ::
  "record_env \<Rightarrow> record_start_request \<Rightarrow> client_id \<Rightarrow> session_info \<Rightarrow> record_registry
    \<Rightarrow> (record_start_error + nat) \<times> record_registry" where
  "registry_start env req c si reg =
     (case validate_output_path env (rs_output_path req) of
        Inl e \<Rightarrow> (Inl e, reg)
      | Inr _ \<Rightarrow>
          if rs_format req = FormatRaw \<and> rs_direction req = DirBoth then (Inl UnsupportedDirectionForFormat, reg)
          else if rs_input_secrecy req = RedactAfterPrompt then (Inl RedactionUnimplemented, reg)
          else
            (case (case rs_prompt_pattern req of Some pat \<Rightarrow> re_regex_error env pat | None \<Rightarrow> None) of
               Some e \<Rightarrow> (Inl (InvalidPromptPattern e), reg)
             | None \<Rightarrow>
                 (case open_record_file env (rs_output_path req) of
                    Inl e \<Rightarrow> (Inl e, reg)
                  | Inr _ \<Rightarrow>
                      (let i = rg_next_id reg; reg1 = reg\<lparr>rg_next_id := i + 1\<rparr> in
                       case re_spawn_error env of
                         Some e \<Rightarrow> (Inl (RecordIo (''spawn writer thread: '' @ e)), reg1)
                       | None \<Rightarrow> (Inr i, reg1\<lparr>rg_sinks := rg_sinks reg @ [new_sink env req c si i]\<rparr>)))))"

text \<open>Removal of the first sink with an id. The removed sink is what \<open>join_writer\<close> finishes.\<close>

fun take_sink :: "nat \<Rightarrow> record_sink list \<Rightarrow> (record_sink \<times> record_sink list) option" where
  "take_sink i [] = None"
| "take_sink i (s # ss) =
     (if sk_record_id s = i then Some (s, ss) else map_option (\<lambda>(t, ts). (t, s # ts)) (take_sink i ss))"

definition registry_stop :: "nat \<Rightarrow> record_registry \<Rightarrow> (nat + record_sink) \<times> record_registry" where
  "registry_stop i reg =
     (case take_sink i (rg_sinks reg) of
        None \<Rightarrow> (Inl i, reg)
      | Some (s, ss) \<Rightarrow> (Inr (join_writer s), reg\<lparr>rg_sinks := ss\<rparr>))"

definition registry_stop_all :: "record_registry \<Rightarrow> record_sink list \<times> record_registry" where
  "registry_stop_all reg = (map join_writer (rg_sinks reg), reg\<lparr>rg_sinks := []\<rparr>)"

definition registry_list :: "record_registry \<Rightarrow> record_info list" where
  "registry_list reg = map snapshot_info (rg_sinks reg)"

fun push_matching ::
  "(record_sink \<Rightarrow> bool) \<Rightarrow> (record_sink \<Rightarrow> push_result \<times> record_sink) \<Rightarrow> record_sink list \<Rightarrow> record_sink list \<times> nat list" where
  "push_matching flt push [] = ([], [])"
| "push_matching flt push (s # ss) =
     (let (ss', ids) = push_matching flt push ss in
      if flt s
      then (let (r, s') = push s in (s' # ss', if r = PushOk then ids else sk_record_id s # ids))
      else (s # ss', ids))"

definition abort_one :: "nat \<Rightarrow> nat \<Rightarrow> record_sink list \<Rightarrow> record_sink list" where
  "abort_one now i ss =
     (case take_sink i ss of
        None \<Rightarrow> ss
      | Some (_, ss') \<Rightarrow>
          map (\<lambda>s. snd (sink_try_push (RevLifecycle (RecordAborted i ''queue-full'' None now)) s)) ss')"

definition broadcast_for ::
  "nat \<Rightarrow> (record_direction \<Rightarrow> bool) \<Rightarrow> (record_sink \<Rightarrow> push_result \<times> record_sink) \<Rightarrow> record_registry \<Rightarrow> record_registry" where
  "broadcast_for now flt push reg =
     (let (ss, aborted) = push_matching (\<lambda>s. flt (sk_direction s)) push (rg_sinks reg)
      in reg\<lparr>rg_sinks := fold (abort_one now) aborted ss\<rparr>)"

definition records_stdin :: "record_direction \<Rightarrow> bool" where
  "records_stdin d \<longleftrightarrow> d = DirStdin \<or> d = DirBoth"

definition records_stdout :: "record_direction \<Rightarrow> bool" where
  "records_stdout d \<longleftrightarrow> d = DirStdout \<or> d = DirBoth"

text \<open>The push of an event that carries client input: a sink that must never record stdin takes nothing.\<close>

definition push_input :: "record_event \<Rightarrow> record_sink \<Rightarrow> push_result \<times> record_sink" where
  "push_input ev s = (if sk_input_secrecy s = NeverRecordStdin then (PushOk, s) else sink_try_push ev s)"

definition push_bytes_in :: "nat \<Rightarrow> client_id \<Rightarrow> bytes \<Rightarrow> record_registry \<Rightarrow> record_registry" where
  "push_bytes_in now c bs reg =
     (if bs = [] then reg else broadcast_for now records_stdin (push_input (RevBytesIn c bs now)) reg)"

definition push_bytes_out :: "nat \<Rightarrow> bytes \<Rightarrow> record_registry \<Rightarrow> record_registry" where
  "push_bytes_out now bs reg =
     (if bs = [] then reg else broadcast_for now records_stdout (sink_try_push (RevBytesOut bs now)) reg)"

definition push_in_rejected ::
  "nat \<Rightarrow> client_id \<Rightarrow> client_mode \<Rightarrow> client_id option \<Rightarrow> in_rejected_reason \<Rightarrow> bytes \<Rightarrow> record_registry \<Rightarrow> record_registry" where
  "push_in_rejected now c m holder reason bs =
     broadcast_for now records_stdin (push_input (RevInRejected c m holder reason bs now))"

definition push_in_write_error ::
  "nat \<Rightarrow> client_id \<Rightarrow> nat \<Rightarrow> nat \<Rightarrow> write_error_kind \<Rightarrow> bytes \<Rightarrow> record_registry \<Rightarrow> record_registry" where
  "push_in_write_error now c requested written err unwritten =
     broadcast_for now records_stdin (push_input (RevInWriteError c requested written err unwritten now))"

definition push_in_secret_redacted :: "nat \<Rightarrow> client_id \<Rightarrow> nat \<Rightarrow> string \<Rightarrow> record_registry \<Rightarrow> record_registry" where
  "push_in_secret_redacted now c count reason =
     broadcast_for now records_stdin (sink_try_push (RevInSecretRedacted c count reason now))"

definition push_lifecycle :: "nat \<Rightarrow> lifecycle_event \<Rightarrow> record_registry \<Rightarrow> record_registry" where
  "push_lifecycle now ev = broadcast_for now (\<lambda>_. True) (sink_try_push (RevLifecycle ev))"

text \<open>The arms of \<open>EffectKind::Record\<close> in the executor of \<^verbatim>\<open>reducer/execute.rs\<close>.\<close>

definition push_entry :: "nat \<Rightarrow> record_entry \<Rightarrow> record_registry \<Rightarrow> record_registry" where
  "push_entry now e =
     (case e of
        BytesIn c bs \<Rightarrow> push_bytes_in now c bs
      | InWriteError c requested written err unwritten \<Rightarrow> push_in_write_error now c requested written err unwritten
      | InRejected c m holder reason bs \<Rightarrow> push_in_rejected now c m holder reason bs)"

subsection \<open>What a sink may hold\<close>

definition carries_input :: "record_event \<Rightarrow> bool" where
  "carries_input ev =
     (case ev of RevBytesIn _ _ _ \<Rightarrow> True | RevInRejected _ _ _ _ _ _ \<Rightarrow> True | RevInWriteError _ _ _ _ _ _ \<Rightarrow> True | _ \<Rightarrow> False)"

definition event_allowed :: "record_direction \<Rightarrow> input_secrecy \<Rightarrow> record_event \<Rightarrow> bool" where
  "event_allowed d sec ev \<longleftrightarrow>
     (carries_input ev \<longrightarrow> records_stdin d \<and> sec \<noteq> NeverRecordStdin)
     \<and> (\<forall>bs ts. ev = RevBytesOut bs ts \<longrightarrow> records_stdout d)"

definition sk_events :: "record_sink \<Rightarrow> seq_event list" where
  "sk_events s = sk_written s @ sk_channel s"

definition payload_bytes :: "seq_event list \<Rightarrow> bytes" where
  "payload_bytes ps = concat (map (\<lambda>p. case raw_payload (snd p) of Some bs \<Rightarrow> bs | None \<Rightarrow> []) ps)"

definition sink_inv :: "record_sink \<Rightarrow> bool" where
  "sink_inv s \<longleftrightarrow>
     sorted_wrt (<) (map fst (sk_events s)) \<and> (\<forall>p \<in> set (sk_events s). fst p < sk_seq s \<and> event_allowed (sk_direction s) (sk_input_secrecy s) (snd p))
     \<and> length (sk_channel s) \<le> RECORD_QUEUE_CAPACITY
     \<and> sk_file_bytes_written s = length (sk_file s)
     \<and> sk_raw_bytes_recorded s = length (payload_bytes (sk_written s))
     \<and> (sk_format s = FormatRaw \<longrightarrow> sk_file s = payload_bytes (sk_written s) \<and> sk_direction s \<noteq> DirBoth)
     \<and> sk_input_secrecy s \<noteq> RedactAfterPrompt"

definition registry_inv :: "record_registry \<Rightarrow> bool" where
  "registry_inv reg \<longleftrightarrow>
     distinct (map sk_record_id (rg_sinks reg)) \<and> (\<forall>s \<in> set (rg_sinks reg). sk_record_id s < rg_next_id reg \<and> sink_inv s)"

lemma payload_bytes_simps [simp]:
  "payload_bytes [] = []"
  "payload_bytes (ps @ qs) = payload_bytes ps @ payload_bytes qs"
  "payload_bytes [p] = (case raw_payload (snd p) of Some bs \<Rightarrow> bs | None \<Rightarrow> [])"
  by (simp_all add: payload_bytes_def)

lemma length_as_bytes [simp]: "length (as_bytes s) = length s"
  by (simp add: as_bytes_def)

lemma sink_try_push_id [simp]:
  "sk_record_id (snd (sink_try_push ev s)) = sk_record_id s"
  "sk_direction (snd (sink_try_push ev s)) = sk_direction s"
  by (simp_all add: sink_try_push_def Let_def)

lemma push_input_id [simp]: "sk_record_id (snd (push_input ev s)) = sk_record_id s"
  by (simp add: push_input_def)

lemma sink_inv_try_push:
  assumes "sink_inv s" and "event_allowed (sk_direction s) (sk_input_secrecy s) ev"
  shows "sink_inv (snd (sink_try_push ev s))"
  using assms
  by (auto simp: sink_inv_def sink_try_push_def Let_def sk_events_def sorted_wrt_append less_Suc_eq)

lemma sink_inv_push_input:
  assumes "sink_inv s" and "records_stdin (sk_direction s)" and "\<And>bs ts. ev \<noteq> RevBytesOut bs ts"
  shows "sink_inv (snd (push_input ev s))"
  using assms by (auto simp: push_input_def event_allowed_def intro: sink_inv_try_push)

lemma sink_inv_writer_exit: "sink_inv s \<Longrightarrow> sink_inv (writer_exit s)"
  by (auto simp: sink_inv_def writer_exit_def sk_events_def sorted_wrt_append)

lemma handle_one_event_keeps:
  assumes "handle_one_event jc io now p s = Some s'"
  shows "sk_written s' = sk_written s" and "sk_channel s' = sk_channel s" and "sk_seq s' = sk_seq s"
    and "sk_direction s' = sk_direction s" and "sk_input_secrecy s' = sk_input_secrecy s"
    and "sk_format s' = sk_format s" and "sk_record_id s' = sk_record_id s"
    and "sk_file_bytes_written s = length (sk_file s) \<Longrightarrow> sk_file_bytes_written s' = length (sk_file s')"
    and "sk_raw_bytes_recorded s' = sk_raw_bytes_recorded s + (case raw_payload (snd p) of Some bs \<Rightarrow> length bs | None \<Rightarrow> 0)"
    and "sk_format s = FormatRaw \<Longrightarrow> sk_file s' = sk_file s @ (case raw_payload (snd p) of Some bs \<Rightarrow> bs | None \<Rightarrow> [])"
  using assms
  by (auto simp: handle_one_event_def write_raw_event_def write_jsonl_event_def write_line_def
      split: record_format.splits option.splits if_splits)

lemma sink_inv_take_event:
  assumes "sink_inv s" and ch: "sk_channel s = p # ps"
    and h: "handle_one_event jc io now p (s\<lparr>sk_channel := ps\<rparr>) = Some s'"
  shows "sink_inv (s'\<lparr>sk_written := sk_written s' @ [p]\<rparr>)"
  using assms(1) ch handle_one_event_keeps [OF h]
  by (auto simp: sink_inv_def sk_events_def split: option.splits)

lemma sink_inv_header:
  assumes "sink_inv s" and "sk_format s = FormatJsonl" and "write_jsonl_header jc io now s = Some s'"
  shows "sink_inv (s'\<lparr>sk_header_written := True\<rparr>)"
proof -
  from assms(3) obtain line where "s' = write_line now line s"
    by (auto simp: write_jsonl_header_def split: option.splits if_splits)
  with assms(1,2) show ?thesis by (simp add: sink_inv_def write_line_def sk_events_def)
qed

lemma sink_inv_writer_step:
  assumes "sink_inv s"
  shows "sink_inv (writer_step jc io now s)"
proof (cases "sk_writer_alive s")
  case False
  with assms show ?thesis by (simp add: writer_step_def)
next
  case alive: True
  show ?thesis
  proof (cases "sk_header_written s")
    case False
    have raw: "sink_inv (s\<lparr>sk_header_written := True\<rparr>)"
      using assms by (auto simp: sink_inv_def sk_events_def)
    from alive False assms raw show ?thesis
      by (auto simp: writer_step_def intro: sink_inv_writer_exit sink_inv_header split: option.splits)
  next
    case True
    show ?thesis
    proof (cases "sk_channel s")
      case Nil
      with alive True assms show ?thesis by (simp add: writer_step_def sink_inv_writer_exit)
    next
      case (Cons p ps)
      have drop: "sink_inv (s\<lparr>sk_channel := ps\<rparr>)"
        using assms Cons by (auto simp: sink_inv_def sk_events_def sorted_wrt_append)
      from alive True Cons assms drop show ?thesis
        by (auto simp: writer_step_def Let_def intro: sink_inv_writer_exit sink_inv_take_event split: option.splits)
    qed
  qed
qed

lemma writer_step_id [simp]: "sk_record_id (writer_step jc io now s) = sk_record_id s"
proof -
  have h: "write_jsonl_header jc io now s = Some s' \<Longrightarrow> sk_record_id s' = sk_record_id s" for s'
    by (auto simp: write_jsonl_header_def write_line_def split: option.splits if_splits)
  have o: "handle_one_event jc io now p (s\<lparr>sk_channel := ps\<rparr>) = Some s' \<Longrightarrow> sk_record_id s' = sk_record_id s" for p ps s'
    using handle_one_event_keeps(7) by fastforce
  show ?thesis
    by (auto simp: writer_step_def writer_exit_def Let_def dest!: h o split: option.splits list.splits)
qed

subsection \<open>The registry invariant\<close>

lemma take_sink_spec:
  "take_sink i ss = Some (t, ts) \<Longrightarrow> \<exists>us vs. ss = us @ t # vs \<and> ts = us @ vs \<and> sk_record_id t = i"
proof (induction ss arbitrary: ts)
  case Nil
  then show ?case by simp
next
  case (Cons s ss)
  show ?case
  proof (cases "sk_record_id s = i")
    case True
    with Cons.prems show ?thesis by (intro exI [of _ "[]"] exI [of _ ss]) auto
  next
    case False
    with Cons.prems obtain ts' where t: "take_sink i ss = Some (t, ts')" and ts: "ts = s # ts'" by auto
    from Cons.IH [OF t] obtain us vs where "ss = us @ t # vs" "ts' = us @ vs" "sk_record_id t = i" by blast
    with ts show ?thesis by (intro exI [of _ "s # us"] exI [of _ vs]) auto
  qed
qed

text \<open>All the registry's operations act sink by sink, so what they need is a predicate on one sink.\<close>

definition sinks_ok :: "nat \<Rightarrow> record_sink list \<Rightarrow> bool" where
  "sinks_ok n ss \<longleftrightarrow> distinct (map sk_record_id ss) \<and> (\<forall>s \<in> set ss. sk_record_id s < n \<and> sink_inv s)"

lemma registry_inv_sinks: "registry_inv reg \<longleftrightarrow> sinks_ok (rg_next_id reg) (rg_sinks reg)"
  by (simp add: registry_inv_def sinks_ok_def)

lemma sinks_ok_remove: "sinks_ok n ss \<Longrightarrow> take_sink i ss = Some (t, ts) \<Longrightarrow> sinks_ok n ts"
  by (auto simp: sinks_ok_def dest!: take_sink_spec)

lemma sinks_ok_map:
  assumes "sinks_ok n ss" and "\<And>s. sk_record_id (f s) = sk_record_id s"
    and "\<And>s. s \<in> set ss \<Longrightarrow> sink_inv s \<Longrightarrow> sink_inv (f s)"
  shows "sinks_ok n (map f ss)"
  using assms by (auto simp: sinks_ok_def comp_def)

lemma push_matching_map:
  "fst (push_matching flt push ss) = map (\<lambda>s. if flt s then snd (push s) else s) ss"
  by (induction ss) (auto simp: case_prod_beta Let_def)

lemma sinks_ok_abort: "sinks_ok n ss \<Longrightarrow> sinks_ok n (abort_one now i ss)"
  by (auto simp: abort_one_def event_allowed_def carries_input_def split: option.splits
      intro!: sinks_ok_map intro: sinks_ok_remove sink_inv_try_push)

lemma registry_inv_broadcast:
  assumes "registry_inv reg" and "\<And>s. sk_record_id (snd (push s)) = sk_record_id s"
    and "\<And>s. sink_inv s \<Longrightarrow> flt (sk_direction s) \<Longrightarrow> sink_inv (snd (push s))"
  shows "registry_inv (broadcast_for now flt push reg)"
proof -
  have "sinks_ok n (fold (abort_one now) ids ss)" if "sinks_ok n ss" for n ids ss
    using that by (induction ids arbitrary: ss) (auto intro: sinks_ok_abort)
  moreover have "sinks_ok (rg_next_id reg) (fst (push_matching (\<lambda>s. flt (sk_direction s)) push (rg_sinks reg)))"
    unfolding push_matching_map
    by (rule sinks_ok_map) (use assms in \<open>auto simp: registry_inv_sinks\<close>)
  ultimately show ?thesis
    by (simp add: registry_inv_sinks broadcast_for_def case_prod_beta Let_def)
qed

lemma registry_inv_start: "registry_inv reg \<Longrightarrow> registry_inv (snd (registry_start env req c si reg))"
  by (auto simp: registry_inv_def registry_start_def new_sink_def sink_inv_def sk_events_def Let_def less_Suc_eq
      split: sum.splits option.splits)

lemma registry_inv_pushes:
  assumes "registry_inv reg"
  shows "registry_inv (push_entry now e reg)" and "registry_inv (push_bytes_out now bs reg)"
    and "registry_inv (push_lifecycle now ev reg)"
proof -
  show "registry_inv (push_entry now e reg)"
    using assms
    by (cases e) (auto simp: push_entry_def push_bytes_in_def push_in_rejected_def push_in_write_error_def
        intro!: registry_inv_broadcast sink_inv_push_input)
  show "registry_inv (push_bytes_out now bs reg)"
    using assms by (auto simp: push_bytes_out_def event_allowed_def carries_input_def
        intro!: registry_inv_broadcast sink_inv_try_push)
  show "registry_inv (push_lifecycle now ev reg)"
    using assms by (auto simp: push_lifecycle_def event_allowed_def carries_input_def
        intro!: registry_inv_broadcast sink_inv_try_push)
qed

text \<open>The operations the daemon and the writer threads perform on the registry, in any order.\<close>

datatype registry_op =
    RegStart record_env record_start_request client_id session_info
  | RegStop nat
  | RegStopAll
  | RegEntry nat record_entry
  | RegBytesOut nat bytes
  | RegLifecycle nat lifecycle_event
  | RegWriter jsonl_codec bool nat nat

fun registry_step :: "record_registry \<Rightarrow> registry_op \<Rightarrow> record_registry" where
  "registry_step reg (RegStart env req c si) = snd (registry_start env req c si reg)"
| "registry_step reg (RegStop i) = snd (registry_stop i reg)"
| "registry_step reg RegStopAll = snd (registry_stop_all reg)"
| "registry_step reg (RegEntry now e) = push_entry now e reg"
| "registry_step reg (RegBytesOut now bs) = push_bytes_out now bs reg"
| "registry_step reg (RegLifecycle now ev) = push_lifecycle now ev reg"
| "registry_step reg (RegWriter jc io now i) =
     reg\<lparr>rg_sinks := map (\<lambda>s. if sk_record_id s = i then writer_step jc io now s else s) (rg_sinks reg)\<rparr>"

lemma registry_inv_step: "registry_inv reg \<Longrightarrow> registry_inv (registry_step reg op)"
proof (cases op)
  case (RegStop i)
  assume "registry_inv reg"
  with RegStop show ?thesis
    by (auto simp: registry_inv_sinks registry_stop_def split: option.splits intro: sinks_ok_remove)
next
  case (RegWriter jc io now i)
  assume "registry_inv reg"
  with RegWriter show ?thesis
    by (auto simp: registry_inv_sinks intro!: sinks_ok_map intro: sink_inv_writer_step)
qed (auto simp: registry_inv_start registry_inv_pushes registry_stop_all_def, simp add: registry_inv_def)

interpretation registry_ts: transition_system registry_step registry_new registry_inv "\<lambda>_. True"
  by unfold_locales (simp_all add: registry_inv_step, simp add: registry_inv_def registry_new_def)

lemma registry_inv_run: "registry_inv (run_events registry_step registry_new ops)"
  by (rule registry_ts.inv_reachable) (simp add: list_all_iff)

subsection \<open>The log determines the events\<close>

lemma jline_eq [simp]: "jline ts n fs = jline ts' n' fs' \<longleftrightarrow> ts = ts' \<and> n = n' \<and> fs = fs'"
  by (auto simp: jline_def jnat_def)

lemma jnat_eq [simp]: "jnat m = jnat n \<longleftrightarrow> m = n"
  by (simp add: jnat_def)

lemma jopt_eq [simp]:
  "jopt JStr x = jopt JStr y \<longleftrightarrow> x = y"
  "jopt jnat u = jopt jnat v \<longleftrightarrow> u = v"
  by (auto simp: jopt_def jnat_def split: option.splits)

lemma mode_str_eq [simp]: "mode_str a = mode_str b \<longleftrightarrow> a = b"
  by (cases a; cases b) simp_all

lemma in_rejected_as_str_eq [simp]: "in_rejected_as_str a = in_rejected_as_str b \<longleftrightarrow> a = b"
  by (cases a; cases b) simp_all

lemma encode_lifecycle_inj: "encode_lifecycle n a = encode_lifecycle n' b \<Longrightarrow> n = n' \<and> a = b"
  by (cases a; cases b) simp_all

definition is_lifecycle :: "record_event \<Rightarrow> bool" where
  "is_lifecycle ev = (case ev of RevLifecycle _ \<Rightarrow> True | _ \<Rightarrow> False)"

lemma is_lifecycle_iff: "is_lifecycle x \<longleftrightarrow> (\<exists>ev. x = RevLifecycle ev)"
  by (cases x) (simp_all add: is_lifecycle_def)

lemma encode_lifecycle_not_io: "\<not> is_lifecycle x \<Longrightarrow> encode_lifecycle n e \<noteq> encode_jsonl_event hex n' x"
  by (cases x; cases e) (simp_all add: is_lifecycle_def)

text \<open>The kind of a line: the value of its third field, which separates the constructors.\<close>

fun line_kind :: "json \<Rightarrow> json" where
  "line_kind (JObj (a # b # c # fs)) = snd c"
| "line_kind j = JNull"

lemma line_kind_jline [simp]: "line_kind (jline ts n (c # fs)) = snd c"
  by (simp add: jline_def)

definition event_tag :: "record_event \<Rightarrow> string" where
  "event_tag ev =
     (case ev of RevBytesIn _ _ _ \<Rightarrow> ''in'' | RevBytesOut _ _ \<Rightarrow> ''out'' | RevInRejected _ _ _ _ _ _ \<Rightarrow> ''in-rejected''
      | RevInWriteError _ _ _ _ _ _ \<Rightarrow> ''in-write-error'' | RevInSecretRedacted _ _ _ _ \<Rightarrow> ''in-secret-redacted''
      | RevLifecycle _ \<Rightarrow> [])"

lemma line_kind_event: "\<not> is_lifecycle ev \<Longrightarrow> line_kind (encode_jsonl_event hex n ev) = JStr (event_tag ev)"
  by (cases ev) (simp_all add: event_tag_def is_lifecycle_def)

lemma encode_write_error_eq:
  assumes "inj hex"
    and "encode_jsonl_event hex n (RevInWriteError c r w e u ts) = encode_jsonl_event hex n' (RevInWriteError c' r' w' e' u' ts')"
  shows "n = n' \<and> c = c' \<and> r = r' \<and> w = w' \<and> e = e' \<and> u = u' \<and> ts = ts'"
  using assms by (cases e; cases e') (auto simp: inj_eq)

lemma encode_io_event_inj:
  assumes "inj hex" and e: "encode_jsonl_event hex n a = encode_jsonl_event hex n' b"
    and "\<not> is_lifecycle a" and "\<not> is_lifecycle b"
  shows "n = n' \<and> a = b"
proof -
  have tag: "event_tag a = event_tag b"
    using arg_cong [OF e, of line_kind] assms(3,4) by (simp add: line_kind_event)
  show ?thesis
  proof (cases "\<exists>c r w x u ts. a = RevInWriteError c r w x u ts")
    case True
    then obtain c r w x u ts where a: "a = RevInWriteError c r w x u ts" by blast
    with tag obtain c' r' w' x' u' ts' where b: "b = RevInWriteError c' r' w' x' u' ts'"
      by (cases b) (simp_all add: event_tag_def)
    from encode_write_error_eq [OF assms(1) e [unfolded a b]] a b show ?thesis by simp
  next
    case False
    then show ?thesis
      using tag assms(1) e assms(3) by (cases a; cases b; simp add: event_tag_def inj_eq is_lifecycle_def)
  qed
qed

lemma encode_jsonl_event_inj:
  assumes "inj hex" and "encode_jsonl_event hex n a = encode_jsonl_event hex n' b"
  shows "n = n' \<and> a = b"
proof (cases "is_lifecycle a \<or> is_lifecycle b")
  case True
  then obtain x y where "a = RevLifecycle x" "b = RevLifecycle y"
    using assms(2) encode_lifecycle_not_io by (metis encode_jsonl_event.simps(6) is_lifecycle_iff)
  with assms(2) encode_lifecycle_inj show ?thesis by auto
next
  case False
  with encode_io_event_inj [OF assms] show ?thesis by blast
qed

subsection \<open>Properties\<close>


definition record_example_env :: record_env where
  "record_example_env = \<lparr>re_canonicalize = Inr, re_home = None, re_regex_error = (\<lambda>_. None), re_open = (\<lambda>_. OpenOk),
     re_spawn_error = None, re_now_unix_ms = 7\<rparr>"

definition record_example_start :: "input_secrecy \<Rightarrow> registry_op" where
  "record_example_start sec =
     RegStart record_example_env
       \<lparr>rs_direction = DirBoth, rs_format = FormatJsonl, rs_output_path = ''/tmp/a.log'', rs_max_bytes = None,
        rs_max_duration_ms = None, rs_input_secrecy = sec, rs_prompt_pattern = None\<rparr> 1
       \<lparr>si_session_id = ''s'', si_daemon_pid = 2, si_daemon_boot_id = ''b'', si_argv = [], si_cwd = ''/''\<rparr>"

lemma record_example_run:
  "map (\<lambda>s. map snd (sk_channel s)) (rg_sinks (run_events registry_step registry_new
     [record_example_start NeverRecordStdin, record_example_start RecordAll, RegEntry 8 (BytesIn 1 [0x41]), RegBytesOut 9 [0x42]]))
   = [[RevBytesOut [0x42] 9], [RevBytesIn 1 [0x41] 8, RevBytesOut [0x42] 9]]"
  by (simp add: record_example_start_def registry_start_def validate_output_path_def path_is_absolute_def
      path_components_def path_extension_def path_file_name_def path_parent_def ALLOWED_EXTENSIONS_def record_example_env_def
      sensitive_under_home_def open_record_file_def registry_new_def new_sink_def push_entry_def push_bytes_in_def
      push_bytes_out_def broadcast_for_def push_input_def sink_try_push_def records_stdin_def records_stdout_def
      RECORD_QUEUE_CAPACITY_def Let_def)


text \<open>The JSON lines are a faithful log: when the hexadecimal encoding is injective, the value
  written for an event determines the event and its sequence number.\<close>

theorem jsonl_faithful:
  assumes "inj hex" and "encode_jsonl_event hex n a = encode_jsonl_event hex n' b"
  shows "n = n' \<and> a = b"
  using assms by (rule encode_jsonl_event_inj)

theorem jsonl_faithful_witness:
  "encode_jsonl_event (map (\<lambda>b. char_of (unat b))) 1 (RevBytesIn 2 [0x41] 9)
     \<noteq> encode_jsonl_event (map (\<lambda>b. char_of (unat b))) 1 (RevBytesIn 2 [0x42] 9)"
proof -
  have "inj (\<lambda>b :: byte. char_of (unat b) :: char)"
  proof (rule injI)
    fix a b :: byte
    assume e: "(char_of (unat a) :: char) = char_of (unat b)"
    have "unat a < 256" "unat b < 256" using unsigned_less [of a] unsigned_less [of b] by simp_all
    with e have "unat a = unat b" by (metis mod_less of_char_of)
    then show "a = b" by (simp add: word_unat_eq_iff)
  qed
  then have i: "inj (map (\<lambda>b :: byte. char_of (unat b) :: char))" by simp
  show ?thesis
  proof
    assume e: "encode_jsonl_event (map (\<lambda>b. char_of (unat b))) 1 (RevBytesIn 2 [0x41] 9)
      = encode_jsonl_event (map (\<lambda>b. char_of (unat b))) 1 (RevBytesIn 2 [0x42] 9)"
    from jsonl_faithful [OF i e] show False by simp
  qed
qed

text \<open>A recording is started only on an acceptable file: the path is absolute, has no parent
  component and an allowed extension, its directory resolves, and the resolved path is not below
  one of the sensitive directories of the home directory; the file did not exist; a raw file has one
  direction; and the id handed out is new. Otherwise no sink is added.\<close>

theorem record_start_checked:
  assumes "registry_inv reg" and "registry_start env req c si reg = (r, reg')"
  shows "(\<forall>e. r = Inl e \<longrightarrow> rg_sinks reg' = rg_sinks reg)
    \<and> (\<forall>i. r = Inr i \<longrightarrow>
         (\<exists>real_parent f.
            path_is_absolute (rs_output_path req) \<and> ''..'' \<notin> set (path_components (rs_output_path req))
          \<and> re_canonicalize env (butlast (path_components (rs_output_path req))) = Inr real_parent
          \<and> f = last (path_components (rs_output_path req))
          \<and> path_extension (path_components (rs_output_path req)) \<in> Some ` set ALLOWED_EXTENSIONS
          \<and> \<not> sensitive_under_home env (real_parent @ [f]))
       \<and> re_open env (rs_output_path req) = OpenOk
       \<and> \<not> (rs_format req = FormatRaw \<and> rs_direction req = DirBoth)
       \<and> i \<notin> sk_record_id ` set (rg_sinks reg)
       \<and> rg_sinks reg' = rg_sinks reg @ [new_sink env req c si i])"
proof -
  have v: "\<exists>real_parent. path_is_absolute p \<and> ''..'' \<notin> set (path_components p)
          \<and> re_canonicalize env (butlast (path_components p)) = Inr real_parent
          \<and> path_extension (path_components p) \<in> Some ` set ALLOWED_EXTENSIONS
          \<and> \<not> sensitive_under_home env (real_parent @ [last (path_components p)])"
    if "validate_output_path env p = Inr ()" for p
    using that
    by (auto simp: validate_output_path_def Let_def list_ex_iff path_parent_def path_file_name_def
        split: if_splits option.splits sum.splits)
  have new: "rg_next_id reg \<notin> sk_record_id ` set (rg_sinks reg)"
    using assms(1) by (auto simp: registry_inv_def)
  from assms(2) new show ?thesis
    by (auto simp: registry_start_def open_record_file_def Let_def
        split: sum.splits option.splits if_splits open_result.splits dest!: v)
qed

theorem record_start_checked_witness:
  "rg_sinks (snd (registry_start record_example_env
      \<lparr>rs_direction = DirBoth, rs_format = FormatRaw, rs_output_path = ''/tmp/a.log'', rs_max_bytes = None,
        rs_max_duration_ms = None, rs_input_secrecy = RecordAll, rs_prompt_pattern = None\<rparr> 1
      \<lparr>si_session_id = ''s'', si_daemon_pid = 2, si_daemon_boot_id = ''b'', si_argv = [], si_cwd = ''/''\<rparr> registry_new)) = []"
proof -
  let ?req = "\<lparr>rs_direction = DirBoth, rs_format = FormatRaw, rs_output_path = ''/tmp/a.log'', rs_max_bytes = None,
        rs_max_duration_ms = None, rs_input_secrecy = RecordAll, rs_prompt_pattern = None\<rparr>"
  let ?si = "\<lparr>si_session_id = ''s'', si_daemon_pid = 2, si_daemon_boot_id = ''b'', si_argv = [], si_cwd = ''/''\<rparr>"
  obtain r reg' where r: "registry_start record_example_env ?req 1 ?si registry_new = (r, reg')" by fastforce
  have "registry_inv registry_new" by (simp add: registry_inv_def registry_new_def)
  from record_start_checked [OF this r] have "rg_sinks reg' = rg_sinks registry_new"
    by (cases r) auto
  then show ?thesis by (simp only: r) (simp add: registry_new_def)
qed

end
