(* ===== verification/World.thy ===== *)
theory World
  imports Reducer Scrollback Recording
begin

text \<open>
  The state the serve loop of \<^verbatim>\<open>crates/hyoui/src/daemon/session.rs\<close> owns and passes to the
  accept path, the frame handlers and the drop path, with the
  configuration of \<^verbatim>\<open>daemon/config.rs\<close>, and the environment: the CBOR codec, the terminal
  emulator behind \<open>ScreenState\<close>, the signal-name parser of \<open>nix\<close>, the random source and the
  clocks are parameters, collected in one record. A handler reads each clock once.

  Also here: the two ways a client leaves. \<open>drop_clients\<close> is the regular cascade (lock
  release through the reducer, close queue, leader election); \<open>drop_on_timeout\<close> is the variant
  the serve loop uses after a poll timeout.
\<close>

subsection \<open>Configuration\<close>

definition SIZE_MIN :: "16 word" where "SIZE_MIN = 1"
definition SIZE_MAX :: "16 word" where "SIZE_MAX = 4096"

definition u16_clamp :: "16 word \<Rightarrow> 16 word \<Rightarrow> 16 word \<Rightarrow> 16 word" where
  "u16_clamp lo hi v = (if v < lo then lo else if v > hi then hi else v)"

definition normalize_size :: "16 word \<Rightarrow> 16 word \<Rightarrow> 16 word \<times> 16 word" where
  "normalize_size cols rows = (u16_clamp SIZE_MIN SIZE_MAX cols, u16_clamp SIZE_MIN SIZE_MAX rows)"

fun suspend_policy_as_str :: "child_suspend_policy \<Rightarrow> string" where
  "suspend_policy_as_str SuspendNotify = ''notify''"
| "suspend_policy_as_str SuspendAutoResume = ''auto-resume''"

definition suspend_policy_from_wire :: "string \<Rightarrow> child_suspend_policy option" where
  "suspend_policy_from_wire s =
     (if s = ''notify'' then Some SuspendNotify
      else if s = ''auto-resume'' then Some SuspendAutoResume
      else None)"

text \<open>The fields of \<open>DaemonConfig\<close> that the serve loop and the handlers read.\<close>

record daemon_config =
  dc_session_id :: string
  dc_cmd :: "string list"
  dc_client_buffer_bytes :: nat
  dc_expected_token :: "string option"
  dc_until :: "string option"
  dc_cwd :: "string option"
  dc_daemon_boot_id :: string
  dc_timeout_ms :: "nat option"
  dc_idle_timeout_ms :: "nat option"
  dc_tags :: "(string \<times> string) list"

subsection \<open>Signals sent to the child\<close>

datatype kill_target = ToChild | ToGroup

definition SIGINT :: nat where "SIGINT = 2"
definition SIGHUP :: nat where "SIGHUP = 1"
definition SIGQUIT :: nat where "SIGQUIT = 3"
definition SIGABRT :: nat where "SIGABRT = 6"
definition SIGKILL :: nat where "SIGKILL = 9"
definition SIGUSR1 :: nat where "SIGUSR1 = 10"
definition SIGTERM :: nat where "SIGTERM = 15"
definition SIGCONT :: nat where "SIGCONT = 18"
definition SIGTSTP :: nat where "SIGTSTP = 20"

subsection \<open>Pending handshakes\<close>

datatype pending_result =
    StageOk sock handshake_request "string list"
  | StageErr
  | StageEmpty
  | StageDisconnected

record pending_handshake =
  ph_result :: pending_result
  ph_started_at :: nat

subsection \<open>The world and its environment\<close>

datatype relay_outcome =
    RelayChildExited "int option"
  | RelayClientDetachedOrKilled
  | RelayError string
  | RelayUpgradeRequested

record 'scr world =
  w_clients :: "client_handle list"
  w_closing :: "closing_client list"
  w_next_client_id :: client_id
  w_pending :: "pending_handshake list"
  w_pending_redraws :: "client_id list"
  w_overflow :: "client_id list"
  w_state :: session_state
  w_daemon :: daemon_state
  w_scrollback :: scrollback
  w_screen :: 'scr
  w_pty :: tty_master
  w_winsize :: "16 word \<times> 16 word"
  w_kills :: "(kill_target \<times> nat) list"
  w_registry :: record_registry

datatype screen_dump_error = FormatNotImplemented | EncodeFailed

record file_meta =
  fm_is_file :: bool
  fm_mode :: "32 word"
  fm_uid :: nat

record 'scr env =
  en_enc :: control_encoder
  en_aenc :: ack_encoder
  en_dec :: control_decoder
  en_config :: daemon_config
  en_child_pid :: int
  en_now_ms :: nat
  en_unix_ms :: nat
  en_now :: instant
  en_epoch_ms :: int
  en_parse_signal :: "string \<Rightarrow> (nat \<times> string) option"
  en_urandom :: "string + bytes"
  en_child_alive :: bool
  en_child_pgid :: "nat option"
  en_daemon_pid :: nat
  en_daemon_version :: string
  en_stat :: "string \<Rightarrow> string + file_meta"
  en_exe_override :: "string option"
  en_current_exe :: "string + string"
  en_euid :: nat
  en_sync_in_progress :: "'scr \<Rightarrow> bool"
  en_attach_redraw :: "'scr \<Rightarrow> bytes"
  en_screen_resize :: "'scr \<Rightarrow> 16 word \<Rightarrow> 16 word \<Rightarrow> 'scr"
  en_screen_process :: "'scr \<Rightarrow> bytes \<Rightarrow> 'scr"
  en_screen_dump :: "'scr \<Rightarrow> screen_dump_format \<Rightarrow> screen_dump_layer \<Rightarrow> screen_dump_error + bytes"
  en_screen_cells :: "'scr \<Rightarrow> bytes option"
  en_screen_mode :: "'scr \<Rightarrow> mode_snap"
  en_screen_cursor :: "'scr \<Rightarrow> cursor_snap"
  en_screen_size :: "'scr \<Rightarrow> 16 word \<times> 16 word"
  en_screen_seqno :: "'scr \<Rightarrow> nat"
  en_record :: record_env

definition log_lifecycle :: "'scr env \<Rightarrow> lifecycle_event \<Rightarrow> 'scr world \<Rightarrow> 'scr world" where
  "log_lifecycle e ev w = w\<lparr>w_registry := push_lifecycle (en_unix_ms e) ev (w_registry w)\<rparr>"

definition send_kill :: "kill_target \<Rightarrow> nat \<Rightarrow> 'scr world \<Rightarrow> 'scr world" where
  "send_kill t s w = w\<lparr>w_kills := w_kills w @ [(t, s)]\<rparr>"

subsection \<open>The reducer on the world\<close>

text \<open>\<open>handle\<close> and the execution without a PTY always return (\<open>handle_returns\<close> and
  \<open>execute_with_feedback_returns\<close>).\<close>

definition reduce_world :: "daemon_msg \<Rightarrow> 'scr world \<Rightarrow> 'scr world \<times> effect list" where
  "reduce_world m w = (let (s', es, _) = the (handle (w_daemon w) m) in (w\<lparr>w_daemon := s'\<rparr>, es))"

definition execute_world :: "'scr env \<Rightarrow> effect list \<Rightarrow> 'scr world \<Rightarrow> 'scr world" where
  "execute_world e es w =
     (let (s', ctx, _) = the (execute_with_feedback (en_enc e) (en_aenc e) (w_daemon w) es (w_clients w) (w_overflow w))
      in w\<lparr>w_daemon := s', w_clients := cx_clients ctx, w_overflow := cx_overflow_ids ctx\<rparr>)"

text \<open>The same with the overflow ids thrown away (\<open>&mut Vec::new()\<close>).\<close>

definition execute_world_ignore :: "'scr env \<Rightarrow> effect list \<Rightarrow> 'scr world \<Rightarrow> 'scr world" where
  "execute_world_ignore e es w =
     (let (s', ctx, _) = the (execute_with_feedback (en_enc e) (en_aenc e) (w_daemon w) es (w_clients w) [])
      in w\<lparr>w_daemon := s', w_clients := cx_clients ctx\<rparr>)"

definition broadcast_world :: "'scr env \<Rightarrow> control_message \<Rightarrow> 'scr world \<Rightarrow> 'scr world \<times> client_id list" where
  "broadcast_world e msg w =
     (let (cs, ids) = broadcast_control (en_enc e) (w_clients w) msg in (w\<lparr>w_clients := cs\<rparr>, ids))"

subsection \<open>Dropping clients\<close>

text \<open>What happens to one client that leaves, after its removal from the table: the reducer, the close
  queue, the record. The accumulated effects run after the leader election.\<close>

definition retire_one :: "'scr env \<Rightarrow> client_handle \<Rightarrow> 'scr world \<times> effect list \<Rightarrow> 'scr world \<times> effect list" where
  "retire_one e ch x =
     (let (w, es) = x;
          (w1, es1) = reduce_world (client_detached (ch_id ch)) w;
          w2 = w1\<lparr>w_closing := retire_client (en_now_ms e) (w_closing w1) ch\<rparr>
      in (log_lifecycle e (ClientDetachedEv (ch_id ch) (en_unix_ms e)) w2, es @ es1))"

text \<open>\<open>sort_unstable\<close> and \<open>dedup\<close>, then removal from the highest index down. \<open>Vec::remove\<close> panics out
  of range; the indices come from the table itself.\<close>

definition remove_nth :: "nat \<Rightarrow> 'a list \<Rightarrow> 'a list" where
  "remove_nth i xs = take i xs @ drop (Suc i) xs"

fun drop_indices ::
  "'scr env \<Rightarrow> nat list \<Rightarrow> 'scr world \<times> effect list \<times> bool \<Rightarrow> 'scr world \<times> effect list \<times> bool" where
  "drop_indices e [] x = x"
| "drop_indices e (i # is) (w, es, lead) =
     (let ch = w_clients w ! i;
          w1 = w\<lparr>w_clients := remove_nth i (w_clients w)\<rparr>;
          (w2, es2) = retire_one e ch (w1, es)
      in drop_indices e is (w2, es2, lead \<or> ch_leader ch))"

definition elect_after_drop :: "'scr env \<Rightarrow> 'scr world \<Rightarrow> 'scr world \<times> client_id list" where
  "elect_after_drop e w =
     (let (cs, new_leader) = elevate_next_leader (w_clients w)
      in broadcast_world e (LeaderNotify \<lparr>ln_client_id = new_leader\<rparr>) (w\<lparr>w_clients := cs\<rparr>))"

definition drop_order :: "nat list \<Rightarrow> nat list" where
  "drop_order is = rev (sorted_list_of_set (set is))"

definition drop_clients :: "'scr env \<Rightarrow> nat list \<Rightarrow> 'scr world \<Rightarrow> 'scr world" where
  "drop_clients e is w =
     (let (w1, es, lead) = drop_indices e (drop_order is) (w, [], False);
          w2 = (if lead then fst (elect_after_drop e w1) else w1)
      in execute_world e es w2)"

text \<open>\<open>clients.iter().position(|c| c.id == id)\<close> for each collected id.\<close>

definition index_of :: "client_id \<Rightarrow> client_handle list \<Rightarrow> nat option" where
  "index_of i cs = (case filter (\<lambda>k. ch_id (cs ! k) = i) [0..<length cs] of [] \<Rightarrow> None | k # _ \<Rightarrow> Some k)"

definition indices_of :: "client_id list \<Rightarrow> client_handle list \<Rightarrow> nat list" where
  "indices_of ids cs = List.map_filter (\<lambda>i. index_of i cs) ids"

text \<open>The poll-timeout path: the client is removed, recorded and retired, and that is all.\<close>

fun drop_indices_plain :: "'scr env \<Rightarrow> nat list \<Rightarrow> 'scr world \<Rightarrow> 'scr world" where
  "drop_indices_plain e [] w = w"
| "drop_indices_plain e (i # is) w =
     (let ch = w_clients w ! i;
          w1 = log_lifecycle e (ClientDetachedEv (ch_id ch) (en_unix_ms e)) (w\<lparr>w_clients := remove_nth i (w_clients w)\<rparr>)
      in drop_indices_plain e is (w1\<lparr>w_closing := retire_client (en_now_ms e) (w_closing w1) ch\<rparr>))"

definition drop_on_timeout :: "'scr env \<Rightarrow> 'scr world \<Rightarrow> 'scr world" where
  "drop_on_timeout e w =
     drop_indices_plain e (drop_order (indices_of (w_overflow w) (w_clients w))) (w\<lparr>w_overflow := []\<rparr>)"

subsection \<open>What sending leaves alone\<close>

text \<open>The part of the client table that the session rules are about.\<close>

definition roster :: "client_handle list \<Rightarrow> (client_id \<times> client_mode \<times> bool) list" where
  "roster cs = map (\<lambda>c. (ch_id c, ch_mode c, ch_leader c)) cs"

lemma same_identity_entry:
  "same_identity a b \<Longrightarrow> (ch_id a, ch_mode a, ch_leader a) = (ch_id b, ch_mode b, ch_leader b)"
  by (simp add: same_identity_def)

lemma roster_simps [simp]: "roster [] = []" "roster (c # cs) = (ch_id c, ch_mode c, ch_leader c) # roster cs"
  "roster (cs @ ds) = roster cs @ roster ds" "length (roster cs) = length cs"
  by (simp_all add: roster_def)

lemma roster_map_same: "(\<And>c. c \<in> set cs \<Longrightarrow> same_identity (f c) c) \<Longrightarrow> roster (map f cs) = roster cs"
  by (simp add: roster_def same_identity_def)

lemma roster_on_client: "(\<And>c. same_identity (snd (f c)) c) \<Longrightarrow> roster (snd (on_client i f cs)) = roster cs"
  by (induction cs) (auto simp: case_prod_beta dest!: same_identity_entry)

lemma roster_broadcast_control [simp]: "roster (fst (broadcast_control enc cs m)) = roster cs"
  by (simp add: broadcast_control_def broadcast_bytes_def broadcast_each_map split: option.splits)
    (intro allI impI roster_map_same broadcast_one_same_identity)

lemma roster_broadcast_cap [simp]: "roster (fst (broadcast_control_with_cap enc cs m cap)) = roster cs"
  by (simp add: broadcast_control_with_cap_def broadcast_each_map split: option.splits)
    (intro allI impI roster_map_same broadcast_one_same_identity)

lemma roster_update: "same_identity c (cs ! i) \<Longrightarrow> roster (cs[i := c]) = roster cs"
proof (cases "i < length cs")
  case True
  assume "same_identity c (cs ! i)"
  from same_identity_entry [OF this] True show ?thesis
    by (simp add: roster_def map_update list_update_same_conv)
qed (simp add: list_update_beyond)

lemma roster_ids: "map ch_id cs = map fst (roster cs)"
  and roster_leaders: "leaders cs = map fst (filter (snd \<circ> snd) (roster cs))"
  and roster_rw: "rw_present cs \<longleftrightarrow> (\<exists>r \<in> set (roster cs). fst (snd r) = Rw)"
  and roster_leader_inv: "leader_inv cs \<longleftrightarrow> length (leaders cs) \<le> 1 \<and> (\<forall>r \<in> set (roster cs). snd (snd r) \<longrightarrow> fst (snd r) = Rw)"
  by (auto simp: roster_def leaders_def rw_present_def leader_inv_def list_ex_iff filter_map comp_def)

subsection \<open>Execution without a PTY returns\<close>

lemma execute_one_no_pty:
  assumes "cx_pty ctx = None"
  shows "\<exists>ctx' r. execute_one enc aenc ctx k = Some (ctx', r) \<and> cx_pty ctx' = None
    \<and> roster (cx_clients ctx') = roster (cx_clients ctx)"
  using assms
  by (cases k) (auto simp: execute_one_def case_prod_beta Let_def roster_on_client)

lemma execute_no_pty:
  assumes "cx_pty ctx = None"
  shows "\<exists>ctx' fb. execute enc aenc es ctx = Some (ctx', fb)
    \<and> roster (cx_clients ctx') = roster (cx_clients ctx) \<and> list_all (\<lambda>m. \<exists>i oc. m = EffectResult i oc) fb"
  using assms
proof (induction es arbitrary: ctx)
  case Nil
  then show ?case by simp
next
  case (Cons e es)
  from execute_one_no_pty [OF Cons.prems, of enc aenc "eff_kind e"] obtain ctx1 r where
    e1: "execute_one enc aenc ctx (eff_kind e) = Some (ctx1, r)" "cx_pty ctx1 = None"
    "roster (cx_clients ctx1) = roster (cx_clients ctx)" by blast
  from Cons.IH [OF e1(2)] obtain ctx2 fb where
    "execute enc aenc es ctx1 = Some (ctx2, fb)" "roster (cx_clients ctx2) = roster (cx_clients ctx1)"
    "list_all (\<lambda>m. \<exists>i oc. m = EffectResult i oc) fb" by blast
  with e1 show ?case by (auto split: option.splits)
qed

lemma feedback_one_round:
  assumes "cr_idle (ds_clients s)" and "execute enc aenc (e # es) ctx = Some (ctx', fb)"
    and "list_all (\<lambda>m. \<exists>i oc. m = EffectResult i oc) fb"
  shows "feedback_loop (Suc n) enc aenc s (e # es) ctx = Some (s, ctx', False)"
  using assms(2) idle_ignores_results [OF assms(1,3)] by (simp del: execute.simps)

lemma execute_with_feedback_returns:
  assumes "cr_idle (ds_clients s)"
  shows "\<exists>ctx. execute_with_feedback enc aenc s es cs ov = Some (s, ctx, False)
    \<and> roster (cx_clients ctx) = roster cs"
proof (cases es)
  case Nil
  then show ?thesis by (simp add: execute_with_feedback_def execute_with_feedback_ctx_def)
next
  case (Cons e es')
  let ?ctx = "\<lparr>cx_clients = cs, cx_overflow_ids = ov, cx_pty = None, cx_record = None\<rparr>"
  from execute_no_pty [of ?ctx enc aenc es] obtain ctx fb where
    "execute enc aenc es ?ctx = Some (ctx, fb)" "roster (cx_clients ctx) = roster cs"
    "list_all (\<lambda>m. \<exists>i oc. m = EffectResult i oc) fb" by auto
  moreover from this have "feedback_loop (Suc 7) enc aenc s es ?ctx = Some (s, ctx, False)"
    unfolding Cons by (intro feedback_one_round [OF assms])
  moreover have "MAX_FEEDBACK_ROUNDS = Suc 7" by (simp add: MAX_FEEDBACK_ROUNDS_def)
  ultimately show ?thesis
    by (simp only: execute_with_feedback_def execute_with_feedback_ctx_def) blast
qed

lemma execute_world_keeps:
  assumes "cr_idle (ds_clients (w_daemon w))"
  shows "\<exists>cs ov. execute_world e es w = w\<lparr>w_clients := cs, w_overflow := ov\<rparr> \<and> roster cs = roster (w_clients w)"
proof -
  from execute_with_feedback_returns [OF assms, of "en_enc e" "en_aenc e" es "w_clients w" "w_overflow w"]
  obtain ctx where "execute_with_feedback (en_enc e) (en_aenc e) (w_daemon w) es (w_clients w) (w_overflow w) = Some (w_daemon w, ctx, False)"
    and "roster (cx_clients ctx) = roster (w_clients w)" by blast
  then have "execute_world e es w = w\<lparr>w_clients := cx_clients ctx, w_overflow := cx_overflow_ids ctx\<rparr>
    \<and> roster (cx_clients ctx) = roster (w_clients w)" by (simp add: execute_world_def)
  then show ?thesis by blast
qed

lemma execute_world_ignore_keeps:
  assumes "cr_idle (ds_clients (w_daemon w))"
  shows "\<exists>cs. execute_world_ignore e es w = w\<lparr>w_clients := cs\<rparr> \<and> roster cs = roster (w_clients w)"
  using execute_with_feedback_returns [OF assms, of "en_enc e" "en_aenc e" es "w_clients w" "[]"]
  by (auto simp: execute_world_ignore_def)

subsection \<open>The session invariant\<close>

definition holder_ok :: "lock_state \<Rightarrow> client_handle list \<Rightarrow> bool" where
  "holder_ok l cs \<longleftrightarrow> (\<forall>h. lk_holder l = Some h \<longrightarrow> (\<exists>c \<in> set cs. ch_id c = h \<and> ch_mode c \<noteq> Ro))"

definition leader_complete :: "client_handle list \<Rightarrow> bool" where
  "leader_complete cs \<longleftrightarrow> (rw_present cs \<longrightarrow> leaders cs \<noteq> [])"

text \<open>Everything but the leader: ids are unique and below the counter, the lock is consistent and held by an attached
  writer or by nobody, nothing is in flight in the reducer, the close queue and the registry are within
  their own invariants.\<close>

definition base_inv :: "'scr world \<Rightarrow> bool" where
  "base_inv w \<longleftrightarrow>
     distinct (map ch_id (w_clients w)) \<and> (\<forall>c \<in> set (w_clients w). ch_id c < w_next_client_id w)
     \<and> lock_inv (ds_lock (w_daemon w)) \<and> holder_ok (ds_lock (w_daemon w)) (w_clients w)
     \<and> cr_idle (ds_clients (w_daemon w))
     \<and> length (w_closing w) \<le> MAX_CLOSING_CLIENTS \<and> registry_inv (w_registry w)"

definition session_inv :: "'scr world \<Rightarrow> bool" where
  "session_inv w \<longleftrightarrow> base_inv w \<and> leader_inv (w_clients w) \<and> leader_complete (w_clients w)"

lemma roster_holder_ok: "holder_ok l cs \<longleftrightarrow> (\<forall>h. lk_holder l = Some h \<longrightarrow> (\<exists>r \<in> set (roster cs). fst r = h \<and> fst (snd r) \<noteq> Ro))"
  by (auto simp: holder_ok_def roster_def)

text \<open>The invariants see the roster only.\<close>

lemma table_cong:
  assumes "roster cs = roster ds"
  shows "map ch_id cs = map ch_id ds" and "leader_inv cs \<longleftrightarrow> leader_inv ds" and "leader_complete cs \<longleftrightarrow> leader_complete ds"
    and "holder_ok l cs \<longleftrightarrow> holder_ok l ds" and "leaders cs = leaders ds" and "rw_present cs \<longleftrightarrow> rw_present ds"
  using assms
  by (simp_all add: roster_ids roster_leader_inv roster_leaders leader_complete_def roster_rw roster_holder_ok)

lemma ids_bound_roster: "(\<forall>c \<in> set cs. ch_id c < n) \<longleftrightarrow> (\<forall>r \<in> set (roster cs). fst r < n)"
  by (auto simp: roster_def)

lemma base_inv_cong:
  assumes "roster (w_clients w') = roster (w_clients w)" and "w_next_client_id w' = w_next_client_id w"
    and "w_daemon w' = w_daemon w" and "w_closing w' = w_closing w" and "registry_inv (w_registry w) \<Longrightarrow> registry_inv (w_registry w')"
  shows "base_inv w \<Longrightarrow> base_inv w'"
  using assms(2-) table_cong [OF assms(1)] assms(1) by (simp add: base_inv_def ids_bound_roster)

lemma session_inv_cong:
  assumes "session_inv w" and "roster (w_clients w') = roster (w_clients w)" and "w_next_client_id w' = w_next_client_id w"
    and "w_daemon w' = w_daemon w" and "w_closing w' = w_closing w" and "registry_inv (w_registry w) \<Longrightarrow> registry_inv (w_registry w')"
  shows "session_inv w'"
  using assms(1) base_inv_cong [OF assms(2-6)] table_cong [OF assms(2)] by (simp add: session_inv_def)

lemma session_inv_registry: "session_inv w \<Longrightarrow> registry_inv (w_registry w)"
  and session_inv_idle: "session_inv w \<Longrightarrow> cr_idle (ds_clients (w_daemon w))"
  and base_inv_idle: "base_inv w \<Longrightarrow> cr_idle (ds_clients (w_daemon w))"
  and base_inv_registry: "base_inv w \<Longrightarrow> registry_inv (w_registry w)"
  by (simp_all add: session_inv_def base_inv_def)

lemma session_inv_holder:
  "session_inv w \<Longrightarrow> lk_holder (ds_lock (w_daemon w)) = Some h \<Longrightarrow> h \<in> set (map ch_id (w_clients w))"
  by (auto simp: session_inv_def base_inv_def holder_ok_def)

lemma log_lifecycle_simps [simp]:
  "w_clients (log_lifecycle e ev w) = w_clients w" "w_daemon (log_lifecycle e ev w) = w_daemon w"
  "w_closing (log_lifecycle e ev w) = w_closing w" "w_next_client_id (log_lifecycle e ev w) = w_next_client_id w"
  "w_state (log_lifecycle e ev w) = w_state w" "w_winsize (log_lifecycle e ev w) = w_winsize w"
  "w_kills (log_lifecycle e ev w) = w_kills w" "w_pty (log_lifecycle e ev w) = w_pty w"
  "w_screen (log_lifecycle e ev w) = w_screen w" "w_scrollback (log_lifecycle e ev w) = w_scrollback w"
  "w_overflow (log_lifecycle e ev w) = w_overflow w" "w_pending (log_lifecycle e ev w) = w_pending w"
  "w_pending_redraws (log_lifecycle e ev w) = w_pending_redraws w"
  "registry_inv (w_registry w) \<Longrightarrow> registry_inv (w_registry (log_lifecycle e ev w))"
  by (simp_all add: log_lifecycle_def registry_inv_pushes)

lemma session_inv_log: "session_inv w \<Longrightarrow> session_inv (log_lifecycle e ev w)"
  by (erule session_inv_cong) simp_all

lemma broadcast_world_keeps:
  "\<exists>cs. fst (broadcast_world e m w) = w\<lparr>w_clients := cs\<rparr> \<and> roster cs = roster (w_clients w)"
  using roster_broadcast_control [of "en_enc e" "w_clients w" m]
  by (cases "broadcast_control (en_enc e) (w_clients w) m") (auto simp: broadcast_world_def)

lemma session_inv_clients:
  "session_inv w \<Longrightarrow> roster cs = roster (w_clients w) \<Longrightarrow> session_inv (w\<lparr>w_clients := cs\<rparr>)"
  by (erule session_inv_cong) simp_all

lemma session_inv_broadcast: "session_inv w \<Longrightarrow> session_inv (fst (broadcast_world e m w))"
  using broadcast_world_keeps [of e m w] session_inv_clients by force

lemma session_inv_execute: "session_inv w \<Longrightarrow> session_inv (execute_world e es w)"
  using execute_world_keeps [OF session_inv_idle, of w e es]
  by (auto elim!: session_inv_cong)

lemma session_inv_execute_ignore: "session_inv w \<Longrightarrow> session_inv (execute_world_ignore e es w)"
  using execute_world_ignore_keeps [OF session_inv_idle, of w e es]
  by (auto elim!: session_inv_cong)

subsection \<open>Removing clients\<close>

lemma length_admit: "length cl \<le> MAX_CLOSING_CLIENTS \<Longrightarrow> length (admit_closing cl c) \<le> MAX_CLOSING_CLIENTS"
  and length_retire: "length cl \<le> MAX_CLOSING_CLIENTS \<Longrightarrow> length (retire_client now cl ch) \<le> MAX_CLOSING_CLIENTS"
  by (auto simp: retire_client_def admit_closing_def split: option.splits)

lemma nths_agree:
  assumes "\<And>j. j < length xs \<Longrightarrow> j \<in> A \<longleftrightarrow> j \<in> B"
  shows "nths xs A = nths xs B"
proof -
  have "filter (\<lambda>p. snd p \<in> A) (zip xs [0..<length xs]) = filter (\<lambda>p. snd p \<in> B) (zip xs [0..<length xs])"
    using assms by (intro filter_cong) (auto simp: set_zip)
  then show ?thesis by (simp add: nths_def)
qed

lemma nths_full: "(\<And>j. j < length xs \<Longrightarrow> j \<in> A) \<Longrightarrow> nths xs A = xs"
  using nths_agree [of xs A UNIV] by (simp add: nths_all)

lemma nths_remove_nth:
  assumes "i < length xs" and "\<forall>j \<in> J. j < i"
  shows "nths (remove_nth i xs) (- J) = nths xs (- insert i J)"
proof -
  have sh: "nths ys {j. j + i \<in> - J} = ys" for ys :: "'a list"
    using assms(2) by (intro nths_full) fastforce
  have sh': "nths ys {j. Suc (j + i) \<in> - insert i J} = ys" for ys :: "'a list"
    using assms(2) by (intro nths_full) fastforce
  have tk: "nths (take i xs) (- J) = nths (take i xs) (- insert i J)"
    using assms(1) by (intro nths_agree) auto
  have "nths xs (- insert i J) = nths (take i xs @ xs ! i # drop (Suc i) xs) (- insert i J)"
    using assms(1) id_take_nth_drop by metis
  also have "\<dots> = nths (take i xs) (- insert i J) @ drop (Suc i) xs"
    using assms(1) sh' [of "drop (Suc i) xs"] by (simp add: nths_append nths_Cons min_absorb2)
  also have "\<dots> = nths (remove_nth i xs) (- J)"
    using assms(1) sh [of "drop (Suc i) xs"] tk by (simp add: remove_nth_def nths_append min_absorb2)
  finally show ?thesis by simp
qed

lemma remove_nth_members:
  assumes "i < length xs"
  shows "set (remove_nth i xs) \<subseteq> set xs" and "x \<in> set xs \<Longrightarrow> x \<noteq> xs ! i \<Longrightarrow> x \<in> set (remove_nth i xs)"
    and "distinct (map f xs) \<Longrightarrow> distinct (map f (remove_nth i xs))"
    and "j < i \<Longrightarrow> remove_nth i xs ! j = xs ! j" and "length (remove_nth i xs) = length xs - 1"
proof -
  have xs: "xs = take i xs @ xs ! i # drop (Suc i) xs" using assms by (rule id_take_nth_drop)
  show "set (remove_nth i xs) \<subseteq> set xs" by (auto simp: remove_nth_def dest: in_set_takeD in_set_dropD)
  show "x \<in> set xs \<Longrightarrow> x \<noteq> xs ! i \<Longrightarrow> x \<in> set (remove_nth i xs)"
    unfolding remove_nth_def by (subst (asm) xs) auto
  show "distinct (map f xs) \<Longrightarrow> distinct (map f (remove_nth i xs))"
    unfolding remove_nth_def by (subst (asm) xs) auto
  show "j < i \<Longrightarrow> remove_nth i xs ! j = xs ! j" using assms by (simp add: remove_nth_def nth_append)
  show "length (remove_nth i xs) = length xs - 1" using assms by (simp add: remove_nth_def)
qed

lemma holder_after_disconnect:
  assumes "lock_inv l"
  shows "lk_holder (fst (lock_reduce l (LClientDisconnected c))) = (if lk_holder l = Some c then None else lk_holder l)"
  using assms by (auto simp: lock_inv_def lock_clear_def)

lemma reduce_world_detach:
  assumes "lock_inv (ds_lock (w_daemon w))"
  shows "\<exists>l es. reduce_world (client_detached c) w = (w\<lparr>w_daemon := (w_daemon w)\<lparr>ds_lock := l\<rparr>\<rparr>, es) \<and> lock_inv l
    \<and> lk_holder l = (if lk_holder (ds_lock (w_daemon w)) = Some c then None else lk_holder (ds_lock (w_daemon w)))"
proof -
  let ?r = "lock_reduce_msg (ds_lock (w_daemon w)) (LClientDisconnected c) :: lock_state \<times> daemon_msg domain_output \<times> lock_event list"
  have "reduce_world (client_detached c) w = (w\<lparr>w_daemon := (w_daemon w)\<lparr>ds_lock := fst ?r\<rparr>\<rparr>, out_effects (fst (snd ?r)))"
    by (simp add: reduce_world_def handle_eq detach_msg_def client_detached_def case_prod_beta Let_def)
  moreover have "lock_inv (fst ?r)" by (rule lock_reduce_msg_refines(1) [OF assms])
  moreover have "lk_holder (fst ?r) = lk_holder (fst (lock_reduce (ds_lock (w_daemon w)) (LClientDisconnected c)))"
    using lock_reduce_msg_same(1) [of "ds_lock (w_daemon w)" "LClientDisconnected c", where 'a = daemon_msg]
    by (simp add: same_lock_def)
  ultimately show ?thesis using holder_after_disconnect [OF assms, of c] by (intro exI conjI) auto
qed

text \<open>One client leaves: what \<open>retire_one\<close> changes, and that the base invariant survives when the client is out of
  the table.\<close>

lemma retire_one_keeps:
  assumes "lock_inv (ds_lock (w_daemon w))" and "retire_one e ch (w, es) = (w', es')"
  shows "w_clients w' = w_clients w" and "w_next_client_id w' = w_next_client_id w"
    and "ds_clients (w_daemon w') = ds_clients (w_daemon w)" and "lock_inv (ds_lock (w_daemon w'))"
    and "lk_holder (ds_lock (w_daemon w')) =
      (if lk_holder (ds_lock (w_daemon w)) = Some (ch_id ch) then None else lk_holder (ds_lock (w_daemon w)))"
    and "w_closing w' = retire_client (en_now_ms e) (w_closing w) ch"
    and "registry_inv (w_registry w) \<Longrightarrow> registry_inv (w_registry w')"
  using reduce_world_detach [OF assms(1), of "ch_id ch"] assms(2) by (auto simp: retire_one_def)

lemma base_inv_retire:
  assumes inv: "base_inv w" and i: "i < length (w_clients w)"
    and r: "retire_one e (w_clients w ! i) (w\<lparr>w_clients := remove_nth i (w_clients w)\<rparr>, es) = (w', es')"
  shows "base_inv w'" and "w_clients w' = remove_nth i (w_clients w)"
proof -
  let ?c = "w_clients w ! i"
  have l: "lock_inv (ds_lock (w_daemon (w\<lparr>w_clients := remove_nth i (w_clients w)\<rparr>)))"
    using inv by (simp add: base_inv_def)
  note k = retire_one_keeps [OF l r]
  note m = remove_nth_members [OF i]
  show "w_clients w' = remove_nth i (w_clients w)" using k(1) by simp
  have "holder_ok (ds_lock (w_daemon w')) (w_clients w')"
    unfolding holder_ok_def
  proof (intro allI impI)
    fix h
    assume "lk_holder (ds_lock (w_daemon w')) = Some h"
    then have h: "lk_holder (ds_lock (w_daemon w)) = Some h" "h \<noteq> ch_id ?c" using k(5) by (auto split: if_splits)
    then obtain c where "c \<in> set (w_clients w)" "ch_id c = h" "ch_mode c \<noteq> Ro"
      using inv by (auto simp: base_inv_def holder_ok_def)
    with h m(2) k(1) show "\<exists>c \<in> set (w_clients w'). ch_id c = h \<and> ch_mode c \<noteq> Ro" by auto
  qed
  then show "base_inv w'"
    using inv k m by (auto simp: base_inv_def length_retire)
qed

lemma drop_indices_spec:
  assumes "base_inv w" and "sorted_wrt (>) is" and "\<forall>i \<in> set is. i < length (w_clients w)"
    and "drop_indices e is (w, es, lead) = (w', es', lead')"
  shows "base_inv w' \<and> w_clients w' = nths (w_clients w) (- set is)
    \<and> lead' = (lead \<or> (\<exists>i \<in> set is. ch_leader (w_clients w ! i)))"
  using assms
proof (induction "is" arbitrary: w es lead)
  case Nil
  then show ?case by (auto simp: nths_all)
next
  case (Cons i "is")
  obtain w1 es1 where r: "retire_one e (w_clients w ! i) (w\<lparr>w_clients := remove_nth i (w_clients w)\<rparr>, es) = (w1, es1)"
    by fastforce
  have i: "i < length (w_clients w)" and lt: "\<forall>j \<in> set is. j < i" using Cons.prems by auto
  note b = base_inv_retire [OF Cons.prems(1) i r]
  note m = remove_nth_members [OF i]
  have d: "drop_indices e is (w1, es1, lead \<or> ch_leader (w_clients w ! i)) = (w', es', lead')"
    using Cons.prems(4) r by (simp add: Let_def)
  have lens: "\<forall>j \<in> set is. j < length (w_clients w1)" using lt i b(2) m(5) by fastforce
  from Cons.IH [OF b(1) _ lens d] Cons.prems(2)
  have ih: "base_inv w'" "w_clients w' = nths (remove_nth i (w_clients w)) (- set is)"
    "lead' = (lead \<or> ch_leader (w_clients w ! i) \<or> (\<exists>j \<in> set is. ch_leader (remove_nth i (w_clients w) ! j)))"
    using b(2) by auto
  have "(\<exists>j \<in> set is. ch_leader (remove_nth i (w_clients w) ! j)) = (\<exists>j \<in> set is. ch_leader (w_clients w ! j))"
    using lt m(4) by auto
  with ih nths_remove_nth [OF i, of "set is"] lt show ?case by auto
qed

lemma drop_order_sorted: "sorted_wrt (>) (drop_order is)" and set_drop_order [simp]: "set (drop_order is) = set is"
  by (simp_all add: drop_order_def sorted_wrt_rev)

lemma leader_inv_nths: "leader_inv cs \<Longrightarrow> leader_inv (nths cs A)"
proof -
  assume l: "leader_inv cs"
  have "length (filter ch_leader (nths cs A)) \<le> length (filter ch_leader cs)"
  proof (induction cs arbitrary: A)
    case (Cons c cs)
    have "length (filter ch_leader (nths cs {j. Suc j \<in> A})) \<le> length (filter ch_leader cs)" by (rule Cons.IH)
    then show ?case by (simp add: nths_Cons)
  qed simp
  with l show ?thesis by (auto simp: leader_inv_def leaders_def dest: notin_set_nthsI in_set_nthsD)
qed

text \<open>If no leader left, whoever led still does, so nobody has to be elected.\<close>

lemma leader_complete_nths:
  assumes "leader_complete cs" and "\<forall>i \<in> J. \<not> (i < length cs \<and> ch_leader (cs ! i))"
  shows "leader_complete (nths cs (- J))"
  unfolding leader_complete_def
proof
  assume "rw_present (nths cs (- J))"
  then have "rw_present cs" by (auto simp: rw_present_def list_ex_iff dest: in_set_nthsD)
  with assms(1) obtain i where i: "i < length cs" "ch_leader (cs ! i)"
    by (auto simp: leader_complete_def leaders_Nil_iff list_ex_iff in_set_conv_nth)
  with assms(2) have "cs ! i \<in> set (nths cs (- J))" by (auto simp: set_nths)
  with i show "leaders (nths cs (- J)) \<noteq> []" by (auto simp: leaders_Nil_iff list_ex_iff)
qed

lemma elevate_spec:
  assumes "leader_inv cs"
  shows "leader_inv (fst (elevate_next_leader cs))" and "leader_complete (fst (elevate_next_leader cs))"
    and "map ch_id (fst (elevate_next_leader cs)) = map ch_id cs"
    and "map ch_mode (fst (elevate_next_leader cs)) = map ch_mode cs"
proof -
  show "leader_inv (fst (elevate_next_leader cs))" by (rule leader_inv_elevate [OF assms])
  have c: "\<not> list_ex ch_leader cs \<Longrightarrow> leader_complete (fst (elevate_first_rw cs))"
  proof -
    assume n: "\<not> list_ex ch_leader cs"
    have "rw_present (fst (elevate_first_rw cs)) = rw_present cs"
      using elevate_first_rw_spec(4) [OF n] unfolding rw_present_def list_ex_iff
      by (metis (no_types, lifting) image_iff list.set_map)
    then show ?thesis using elevate_first_rw_spec(1,2) [OF n] by (auto simp: leader_complete_def split: option.splits)
  qed
  then show "leader_complete (fst (elevate_next_leader cs))"
    by (auto simp: elevate_next_leader_def leader_complete_def leaders_Nil_iff)
  show "map ch_id (fst (elevate_next_leader cs)) = map ch_id cs"
    "map ch_mode (fst (elevate_next_leader cs)) = map ch_mode cs"
    using elevate_first_rw_spec(3,4) by (auto simp: elevate_next_leader_def)
qed

lemma holder_ok_ids_modes:
  assumes "map ch_id cs = map ch_id ds" and "map (\<lambda>c. ch_mode c = Ro) cs = map (\<lambda>c. ch_mode c = Ro) ds"
  shows "holder_ok l cs \<longleftrightarrow> holder_ok l ds"
proof -
  have h: "holder_ok l xs \<longleftrightarrow> (\<forall>h. lk_holder l = Some h \<longrightarrow>
      (\<exists>p \<in> set (zip (map ch_id xs) (map (\<lambda>c. ch_mode c = Ro) xs)). fst p = h \<and> \<not> snd p))"
    for xs by (auto simp: holder_ok_def zip_map_map zip_same_conv_map)
  show ?thesis by (simp only: h assms)
qed

lemma base_inv_ids_modes:
  assumes "base_inv w" and "map ch_id cs = map ch_id (w_clients w)"
    and "map (\<lambda>c. ch_mode c = Ro) cs = map (\<lambda>c. ch_mode c = Ro) (w_clients w)"
  shows "base_inv (w\<lparr>w_clients := cs\<rparr>)"
proof -
  have "(\<forall>c \<in> set cs. ch_id c < n) \<longleftrightarrow> (\<forall>c \<in> set (w_clients w). ch_id c < n)" for n
    using arg_cong [OF assms(2), of "\<lambda>xs. \<forall>i \<in> set xs. i < n"] by simp
  with assms holder_ok_ids_modes [OF assms(2,3)] show ?thesis by (simp add: base_inv_def)
qed

lemma elect_after_drop_spec:
  assumes "base_inv w" and "leader_inv (w_clients w)"
  shows "session_inv (fst (elect_after_drop e w))"
    and "map ch_id (w_clients (fst (elect_after_drop e w))) = map ch_id (w_clients w)"
proof -
  obtain cs nl where el: "elevate_next_leader (w_clients w) = (cs, nl)" by fastforce
  note sp = elevate_spec [OF assms(2), unfolded el fst_conv]
  have "map (\<lambda>c. ch_mode c = Ro) cs = map (\<lambda>c. ch_mode c = Ro) (w_clients w)"
    using arg_cong [OF sp(4), of "map (\<lambda>m. m = Ro)"] by (simp add: comp_def)
  from base_inv_ids_modes [OF assms(1) sp(3) this] have "session_inv (w\<lparr>w_clients := cs\<rparr>)"
    using sp by (simp add: session_inv_def)
  with session_inv_broadcast show "session_inv (fst (elect_after_drop e w))"
    by (simp add: elect_after_drop_def el)
  from broadcast_world_keeps [of e "LeaderNotify \<lparr>ln_client_id = nl\<rparr>" "w\<lparr>w_clients := cs\<rparr>"] sp(3)
  show "map ch_id (w_clients (fst (elect_after_drop e w))) = map ch_id (w_clients w)"
    by (auto simp: elect_after_drop_def el dest: table_cong(1))
qed

text \<open>What the three callers of the cascade share: some clients are out of the table and retired; the election
  runs if a leader was among them; then the effects run.\<close>

lemma cascade_tail:
  assumes "base_inv w" and "leader_inv (w_clients w)" and "\<not> lead \<Longrightarrow> leader_complete (w_clients w)"
  shows "session_inv (execute_world e es (if lead then fst (elect_after_drop e w) else w))"
    and "map ch_id (w_clients (execute_world e es (if lead then fst (elect_after_drop e w) else w))) = map ch_id (w_clients w)"
proof -
  let ?w = "if lead then fst (elect_after_drop e w) else w"
  have inv: "session_inv ?w" using assms elect_after_drop_spec(1) [OF assms(1,2)] by (auto simp: session_inv_def)
  then show "session_inv (execute_world e es ?w)" by (rule session_inv_execute)
  from execute_world_keeps [OF session_inv_idle [OF inv], of e es] elect_after_drop_spec(2) [OF assms(1,2)]
  show "map ch_id (w_clients (execute_world e es ?w)) = map ch_id (w_clients w)"
    by (auto simp: roster_ids)
qed

lemma drop_clients_spec:
  assumes "session_inv w" and "\<forall>i \<in> set is. i < length (w_clients w)"
  shows "session_inv (drop_clients e is w)"
    and "map ch_id (w_clients (drop_clients e is w)) = map ch_id (nths (w_clients w) (- set is))"
proof -
  obtain w1 es lead where d: "drop_indices e (drop_order is) (w, [], False) = (w1, es, lead)" by (metis prod_cases3)
  from assms drop_indices_spec [OF _ drop_order_sorted _ d]
  have s: "base_inv w1" "w_clients w1 = nths (w_clients w) (- set is)"
    "lead \<longleftrightarrow> (\<exists>i \<in> set is. ch_leader (w_clients w ! i))" by (auto simp: session_inv_def)
  have l: "leader_inv (w_clients w1)" using assms(1) s(2) by (simp add: session_inv_def leader_inv_nths)
  have c: "\<not> lead \<Longrightarrow> leader_complete (w_clients w1)"
    using assms(1) s(2,3) leader_complete_nths [of "w_clients w" "set is"] by (auto simp: session_inv_def)
  from cascade_tail [OF s(1) l c, where e = e and es = es] d s(2)
  show "session_inv (drop_clients e is w)"
    and "map ch_id (w_clients (drop_clients e is w)) = map ch_id (nths (w_clients w) (- set is))"
    by (simp_all add: drop_clients_def)
qed

subsection \<open>The poll-timeout path\<close>

lemma index_of_spec:
  "(case index_of i cs of Some k \<Rightarrow> k < length cs \<and> ch_id (cs ! k) = i | None \<Rightarrow> i \<notin> ch_id ` set cs)"
proof (cases "filter (\<lambda>k. ch_id (cs ! k) = i) [0..<length cs]")
  case Nil
  then show ?thesis by (fastforce simp: index_of_def filter_empty_conv in_set_conv_nth)
next
  case (Cons k ks)
  then have "k \<in> set (filter (\<lambda>k. ch_id (cs ! k) = i) [0..<length cs])" by (simp only: list.set_intros)
  then have "k < length cs" "ch_id (cs ! k) = i" by auto
  with Cons show ?thesis by (simp add: index_of_def)
qed

lemma set_indices_of:
  "set (indices_of ids cs) = {k. \<exists>i \<in> set ids. index_of i cs = Some k}"
  by (force simp: indices_of_def map_filter_def)

lemma indices_of_valid: "\<forall>k \<in> set (indices_of ids cs). k < length cs"
  using index_of_spec by (fastforce simp: set_indices_of split: option.splits)

lemma indices_of_removes:
  assumes "distinct (map ch_id cs)" and "i \<in> set ids"
  shows "i \<notin> ch_id ` set (nths cs (- set (indices_of ids cs)))"
proof
  assume "i \<in> ch_id ` set (nths cs (- set (indices_of ids cs)))"
  then obtain k where k: "k < length cs" "ch_id (cs ! k) = i" "k \<notin> set (indices_of ids cs)"
    by (auto simp: set_nths)
  with index_of_spec [of i cs] obtain j where j: "index_of i cs = Some j" "j < length cs" "ch_id (cs ! j) = i"
    by (cases "index_of i cs") auto
  with assms(1) k have "j = k" by (metis length_map nth_eq_iff_index_eq nth_map)
  with j k assms(2) show False by (auto simp: set_indices_of)
qed

lemma drop_indices_plain_spec:
  assumes "sorted_wrt (>) is" and "\<forall>i \<in> set is. i < length (w_clients w)"
  shows "w_clients (drop_indices_plain e is w) = nths (w_clients w) (- set is)
    \<and> w_daemon (drop_indices_plain e is w) = w_daemon w"
  using assms
proof (induction "is" arbitrary: w)
  case Nil
  then show ?case by (simp add: nths_all)
next
  case (Cons i "is")
  have i: "i < length (w_clients w)" and lt: "\<forall>j \<in> set is. j < i" using Cons.prems by auto
  note m = remove_nth_members [OF i]
  define w1 where "w1 = log_lifecycle e (ClientDetachedEv (ch_id (w_clients w ! i)) (en_unix_ms e))
    (w\<lparr>w_clients := remove_nth i (w_clients w)\<rparr>)"
  define w2 where "w2 = w1\<lparr>w_closing := retire_client (en_now_ms e) (w_closing w1) (w_clients w ! i)\<rparr>"
  have "\<forall>j \<in> set is. j < length (w_clients w2)" using lt i m(5) by (fastforce simp: w2_def w1_def)
  with Cons.IH [of w2] Cons.prems(1) have
    "w_clients (drop_indices_plain e is w2) = nths (w_clients w2) (- set is)"
    "w_daemon (drop_indices_plain e is w2) = w_daemon w2" by auto
  then show ?case
    using nths_remove_nth [OF i, of "set is"] lt by (simp add: w2_def w1_def Let_def)
qed

subsection \<open>A small session\<close>

definition example_client :: "client_id \<Rightarrow> client_mode \<Rightarrow> bool \<Rightarrow> client_handle" where
  "example_client i m lead = ch_new i m lead [] \<lparr>so_answers = [], so_out = []\<rparr> 10 0"

definition example_world :: "unit world" where
  "example_world =
     \<lparr>w_clients = [example_client 1 Rw True, example_client 2 Rw False], w_closing = [], w_next_client_id = 3, w_pending = [],
      w_pending_redraws = [], w_overflow = [1], w_state = session_default,
      w_daemon = daemon_default\<lparr>ds_lock := lock_grant lock_default 1 ''k''\<rparr>, w_scrollback = sb_new 10, w_screen = (),
      w_pty = \<lparr>tty_writes = [], tty_polls = [], tty_in = []\<rparr>, w_winsize = (80, 24), w_kills = [], w_registry = registry_new\<rparr>"

definition example_env :: "unit env" where
  "example_env =
     \<lparr>en_enc = (\<lambda>m. Some (as_bytes (control_kind m))), en_aenc = (\<lambda>_. Some [0]), en_dec = (\<lambda>_. None),
      en_config = \<lparr>dc_session_id = ''s'', dc_cmd = [''sh''], dc_client_buffer_bytes = 1000, dc_expected_token = None,
        dc_until = None, dc_cwd = None, dc_daemon_boot_id = ''b'', dc_timeout_ms = None, dc_idle_timeout_ms = None, dc_tags = []\<rparr>,
      en_child_pid = 42, en_now_ms = 100, en_unix_ms = 200, en_now = 300, en_epoch_ms = 400,
      en_parse_signal = (\<lambda>s. if s = ''SIGKILL'' then Some (SIGKILL, s) else None), en_urandom = Inr (replicate 16 7),
      en_child_alive = True, en_child_pgid = Some 42, en_daemon_pid = 41, en_daemon_version = ''1'',
      en_stat = (\<lambda>_. Inl ''ENOENT''), en_exe_override = None, en_current_exe = Inr ''/bin/hyoui'', en_euid = 0,
      en_sync_in_progress = (\<lambda>_. False), en_attach_redraw = (\<lambda>_. [0x1b]), en_screen_resize = (\<lambda>s _ _. s),
      en_screen_process = (\<lambda>s _. s), en_screen_dump = (\<lambda>_ _ _. Inl EncodeFailed), en_screen_cells = (\<lambda>_. None),
      en_screen_mode = (\<lambda>_. \<lparr>ms_alternate_screen = False, ms_application_keypad = False, ms_application_cursor = False,
        ms_bracketed_paste = False, ms_hide_cursor = False\<rparr>),
      en_screen_cursor = (\<lambda>_. \<lparr>cu_row = 0, cu_col = 0, cu_visible = True\<rparr>), en_screen_size = (\<lambda>_. (24, 80)),
      en_screen_seqno = (\<lambda>_. 0), en_record = record_example_env\<rparr>"

lemma session_inv_example: "session_inv example_world"
  by (simp add: session_inv_def base_inv_def example_world_def example_client_def ch_new_def lock_inv_def lock_grant_def
      holder_ok_def cr_idle_def daemon_default_def registry_inv_def registry_new_def leader_inv_def leader_complete_def
      MAX_CLOSING_CLIENTS_def MAX_CLIENTS_PER_DAEMON_def)

subsection \<open>Properties\<close>

text \<open>The regular way a client leaves keeps the session consistent: after dropping any clients of the
  table the others are attached as before, ids are unique, the lock is free or held by an attached
  writer, there is at most one leader, it is a \<open>Rw\<close> client, and there is one whenever a
  \<open>Rw\<close> client is left; every dropped client's lock is released.\<close>

theorem drop_keeps_session:
  assumes "session_inv w" and "\<forall>i \<in> set is. i < length (w_clients w)"
  shows "session_inv (drop_clients e is w)
    \<and> map ch_id (w_clients (drop_clients e is w)) = map ch_id (nths (w_clients w) (- set is))
    \<and> (\<forall>i \<in> set is. lk_holder (ds_lock (w_daemon (drop_clients e is w))) \<noteq> Some (ch_id (w_clients w ! i)))"
proof -
  note sp = drop_clients_spec [OF assms, of e]
  have "lk_holder (ds_lock (w_daemon (drop_clients e is w))) \<noteq> Some (ch_id (w_clients w ! i))" if "i \<in> set is" for i
  proof
    assume "lk_holder (ds_lock (w_daemon (drop_clients e is w))) = Some (ch_id (w_clients w ! i))"
    with session_inv_holder [OF sp(1)]
    have "ch_id (w_clients w ! i) \<in> set (map ch_id (w_clients (drop_clients e is w)))" by blast
    then obtain k where "k < length (w_clients w)" "k \<notin> set is" "ch_id (w_clients w ! k) = ch_id (w_clients w ! i)"
      unfolding sp(2) by (auto simp: set_nths)
    moreover have "distinct (map ch_id (w_clients w))" using assms(1) by (simp add: session_inv_def base_inv_def)
    ultimately show False using that assms(2) by (metis length_map nth_eq_iff_index_eq nth_map)
  qed
  with sp show ?thesis by blast
qed

theorem drop_keeps_session_witness:
  "session_inv (drop_clients example_env [0] example_world) \<and> map ch_id (w_clients (drop_clients example_env [0] example_world)) = [2]"
proof -
  have "\<forall>i \<in> set [0]. i < length (w_clients example_world)" by (simp add: example_world_def)
  from drop_keeps_session [OF session_inv_example this, of example_env]
  show ?thesis by (simp add: example_world_def example_client_def ch_new_def nths_Cons)
qed

text \<open>The poll-timeout path does not: when the lock holder is among the clients it drops, the lock
  stays held by a client that is no longer attached and that nobody can release for, where the regular
  path frees it.\<close>

theorem timeout_drop_leaks_lock:
  assumes "session_inv w" and "lk_holder (ds_lock (w_daemon w)) = Some h" and "h \<in> set (w_overflow w)"
  shows "lk_holder (ds_lock (w_daemon (drop_on_timeout e w))) = Some h
    \<and> h \<notin> ch_id ` set (w_clients (drop_on_timeout e w))
    \<and> \<not> session_inv (drop_on_timeout e w)
    \<and> lk_holder (ds_lock (w_daemon (drop_clients e (indices_of (w_overflow w) (w_clients w)) w))) \<noteq> Some h"
proof -
  let ?is = "indices_of (w_overflow w) (w_clients w)"
  have d: "distinct (map ch_id (w_clients w))" using assms(1) by (simp add: session_inv_def base_inv_def)
  note gone = indices_of_removes [OF d assms(3)]
  have t: "w_clients (drop_on_timeout e w) = nths (w_clients w) (- set ?is)" "w_daemon (drop_on_timeout e w) = w_daemon w"
    using drop_indices_plain_spec [OF drop_order_sorted, of ?is "w\<lparr>w_overflow := []\<rparr>" e] indices_of_valid
    by (simp_all add: drop_on_timeout_def)
  have n: "\<not> session_inv (drop_on_timeout e w)"
    using t gone assms(2) by (auto simp: session_inv_def base_inv_def holder_ok_def)
  note sp = drop_clients_spec [OF assms(1) indices_of_valid [of "w_overflow w" "w_clients w"], of e]
  have "lk_holder (ds_lock (w_daemon (drop_clients e ?is w))) \<noteq> Some h"
  proof
    assume "lk_holder (ds_lock (w_daemon (drop_clients e ?is w))) = Some h"
    with session_inv_holder [OF sp(1)] have "h \<in> set (map ch_id (w_clients (drop_clients e ?is w)))" by blast
    with gone show False unfolding sp(2) by simp
  qed
  with t gone assms(2) n show ?thesis by simp
qed

theorem timeout_drop_leaks_lock_witness:
  "lk_holder (ds_lock (w_daemon (drop_on_timeout example_env example_world))) = Some 1
   \<and> 1 \<notin> ch_id ` set (w_clients (drop_on_timeout example_env example_world))"
proof -
  have "lk_holder (ds_lock (w_daemon example_world)) = Some 1" "1 \<in> set (w_overflow example_world)"
    by (simp_all add: example_world_def lock_grant_def)
  from timeout_drop_leaks_lock [OF session_inv_example this, of example_env] show ?thesis by blast
qed

end
