(* ===== verification/Accept.thy ===== *)
theory Accept
  imports World
begin

text \<open>
  Admission of clients, \<^verbatim>\<open>crates/hyoui/src/daemon/accept.rs\<close>: the handshake stage that runs in a
  worker thread, the finalisation that needs the session state, and the sweep over the
  pending handshakes, with \<open>--exclusive\<close> and \<open>--detach-others\<close>. The channel from a worker is the
  field \<open>ph_result\<close>: what \<open>try_recv\<close> finds in this sweep.
\<close>

definition HANDSHAKE_TIMEOUT_MS :: nat where "HANDSHAKE_TIMEOUT_MS = 5000"
definition MAX_PENDING_HANDSHAKES :: nat where "MAX_PENDING_HANDSHAKES = 16"

unbundle bit_operations_syntax

definition constant_time_eq :: "bytes \<Rightarrow> bytes \<Rightarrow> bool" where
  "constant_time_eq a b =
     (if length a \<noteq> length b then False
      else fold (\<lambda>i diff. diff OR ((a ! i) XOR (b ! i))) [0..<length a] 0 = 0)"

definition validate_handshake_lengths :: "handshake_request \<Rightarrow> string + unit" where
  "validate_handshake_lengths req =
     (if length (hq_caps req) > MAX_CAPS_COUNT then Inl ''handshake.request.caps exceeds MAX_CAPS_COUNT''
      else if list_ex (\<lambda>cap. length cap > MAX_CAP_LEN) (hq_caps req)
      then Inl ''handshake.request.caps[*] exceeds MAX_CAP_LEN''
      else (case hq_token req of
              Some tok \<Rightarrow> if length tok > MAX_TOKEN_LEN then Inl ''handshake.request.token exceeds MAX_TOKEN_LEN'' else Inr ()
            | None \<Rightarrow> Inr ()))"

text \<open>The result is the error or the request with the negotiated capabilities, and the frames written to the peer
  before the verdict.\<close>

definition do_handshake_stage ::
  "control_encoder \<Rightarrow> control_decoder \<Rightarrow> reader \<Rightarrow> string option
    \<Rightarrow> (string + handshake_request \<times> string list) \<times> bytes" where
  "do_handshake_stage enc dec stream expected_token =
     (case decode_from stream of
        Inl _ \<Rightarrow> (Inl ''failed to decode handshake frame'', [])
      | Inr (frame, _) \<Rightarrow>
          if frame_ty frame \<noteq> TYPE_CBOR_CONTROL then (Inl ''handshake frame must be CBOR control'', [])
          else
            (case dec (frame_body frame) of
               None \<Rightarrow> (Inl ''handshake CBOR decode failed'', [])
             | Some (HandshakeRequest req) \<Rightarrow>
                 (case validate_handshake_lengths req of
                    Inl msg \<Rightarrow>
                      (case enc (ErrorMsg \<lparr>em_code = ProtocolMalformed, em_message = msg, em_details = None\<rparr>) of
                         None \<Rightarrow> (Inl ''handshake length error encode failed'', [])
                       | Some b \<Rightarrow> (Inl ''handshake field length exceeds limit'',
                                    case encode_to (cbor_control b) of Inr fb \<Rightarrow> fb | Inl _ \<Rightarrow> []))
                  | Inr _ \<Rightarrow>
                      if (case expected_token of
                            None \<Rightarrow> True
                          | Some expected \<Rightarrow>
                              (case hq_token req of
                                 Some provided \<Rightarrow> constant_time_eq (as_bytes expected) (as_bytes provided)
                               | None \<Rightarrow> False))
                      then (Inr (req, intersect_caps (hq_caps req) MVP_CAPS), [])
                      else
                        (case enc (ErrorMsg \<lparr>em_code = AuthTokenMismatch,
                               em_message = ''handshake token does not match daemon configuration'', em_details = None\<rparr>) of
                           None \<Rightarrow> (Inl ''auth error encode failed'', [])
                         | Some b \<Rightarrow> (Inl ''handshake token mismatch'',
                                      case encode_to (cbor_control b) of Inr fb \<Rightarrow> fb | Inl _ \<Rightarrow> [])))
             | Some _ \<Rightarrow> (Inl ''first message must be handshake.request'', [])))"

record accepted_client =
  ac_handle :: client_handle
  ac_became_leader :: bool
  ac_detach_others :: bool

text \<open>\<open>Inl\<close> is a rejection, with the client that still has to be told when its queue is not empty.
  \<open>ClientHandle::new\<close> fails only when the socket cannot be made non-blocking, which the socket
  model does not do. The two texts are the ASCII part of the messages.\<close>

definition reject_client :: "'scr env \<Rightarrow> client_handle \<Rightarrow> string \<Rightarrow> closing_client option" where
  "reject_client e h msg =
     ch_into_closing (snd (send_control (en_enc e) h
        (ErrorMsg \<lparr>em_code = ModeNotAllowed, em_message = msg, em_details = None\<rparr>)))
       (en_now_ms e + CLOSE_FLUSH_TIMEOUT_MS)"

definition finalize_accepted_client ::
  "'scr env \<Rightarrow> sock \<Rightarrow> handshake_request \<Rightarrow> string list \<Rightarrow> client_id \<Rightarrow> client_handle list \<Rightarrow> nat \<Rightarrow> bool
    \<Rightarrow> closing_client option + accepted_client" where
  "finalize_accepted_client e stream req caps cid clients other_pending child_stopped =
     (let h0 = ch_new cid (hq_mode req) False caps stream (dc_client_buffer_bytes (en_config e)) (en_unix_ms e) in
      if hq_detach_others req \<and> hq_mode req = Ro
      then Inl (reject_client e h0 ''attach --detach-others denied'')
      else if hq_exclusive req \<and> \<not> hq_detach_others req
          \<and> (list_ex (\<lambda>c. ch_mode c = Rw \<or> ch_mode c = RwNoLeader) clients \<or> other_pending > 0)
      then Inl (reject_client e h0 ''attach --exclusive denied'')
      else
        let became_leader = should_assign_leader clients (hq_mode req);
            h1 = h0\<lparr>ch_leader := became_leader\<rparr>;
            (sent, h2) = send_control (en_enc e) h1
              (HandshakeResponse \<lparr>hr_caps = caps, hr_session_id = dc_session_id (en_config e), hr_client_id = cid,
                 hr_leader = became_leader, hr_mode = hq_mode req, hr_child_stopped = child_stopped\<rparr>)
        in if \<not> sent then Inl None
           else Inr \<lparr>ac_handle = h2, ac_became_leader = became_leader, ac_detach_others = hq_detach_others req\<rparr>)"

subsection \<open>Redraws\<close>

definition attach_redraw_frame :: "'scr env \<Rightarrow> 'scr \<Rightarrow> bytes option" where
  "attach_redraw_frame e scr =
     (case encode_to (raw_data (en_attach_redraw e scr)) of Inr fb \<Rightarrow> Some fb | Inl _ \<Rightarrow> None)"

definition send_attach_redraw :: "'scr env \<Rightarrow> client_handle \<Rightarrow> 'scr \<Rightarrow> client_handle \<times> client_id list" where
  "send_attach_redraw e ch scr =
     (case attach_redraw_frame e scr of
        None \<Rightarrow> (ch, [])
      | Some fb \<Rightarrow> (let (oc, ch') = enqueue_for_client ch fb in (ch', if oc = Overflow then [ch_id ch] else [])))"

definition send_initial_attach_redraw :: "'scr env \<Rightarrow> client_handle \<Rightarrow> 'scr \<Rightarrow> client_handle" where
  "send_initial_attach_redraw e ch scr =
     (case attach_redraw_frame e scr of None \<Rightarrow> ch | Some fb \<Rightarrow> enqueue_ignoring_limit ch fb)"

text \<open>\<open>flush_pending_redraws_if_sync_over\<close> of \<^verbatim>\<open>session.rs\<close>.\<close>

definition flush_pending_redraws_if_sync_over :: "'scr env \<Rightarrow> 'scr world \<Rightarrow> 'scr world" where
  "flush_pending_redraws_if_sync_over e w =
     (if en_sync_in_progress e (w_screen w) \<or> w_pending_redraws w = [] then w
      else w\<lparr>w_pending_redraws := [],
             w_clients := fold (\<lambda>i cs. snd (on_client i (\<lambda>ch. (True, send_initial_attach_redraw e ch (w_screen w))) cs))
               (w_pending_redraws w) (w_clients w)\<rparr>)"

subsection \<open>Integration of an accepted client\<close>

text \<open>\<open>--detach-others\<close>: every other client is removed from the last to the first, then the leader is
  elected again if one of them was it, then the effects run.\<close>

definition detach_others_of :: "'scr env \<Rightarrow> client_id \<Rightarrow> 'scr world \<Rightarrow> 'scr world" where
  "detach_others_of e new_id w =
     (let gone = filter (\<lambda>c. ch_id c \<noteq> new_id) (w_clients w);
          w0 = w\<lparr>w_pending := [], w_clients := filter (\<lambda>c. ch_id c = new_id) (w_clients w)\<rparr>;
          (w1, es) = fold (retire_one e) (rev gone) (w0, []);
          w2 = (if list_ex ch_leader gone
                then (let (w', ids) = elect_after_drop e w1 in w'\<lparr>w_overflow := w_overflow w' @ ids\<rparr>)
                else w1)
      in execute_world e es w2)"

definition integrate_client :: "'scr env \<Rightarrow> accepted_client \<Rightarrow> 'scr world \<Rightarrow> 'scr world" where
  "integrate_client e ac w =
     (let new_id = ch_id (ac_handle ac);
          h1 = (case lk_holder (ds_lock (w_daemon w)) of
                  Some holder \<Rightarrow> snd (send_control (en_enc e) (ac_handle ac)
                    (ModeChange \<lparr>mc_session_mode = SessionLocked, mc_lock_holder = Some holder, mc_client_mode = None\<rparr>))
                | None \<Rightarrow> ac_handle ac);
          sync = en_sync_in_progress e (w_screen w);
          h2 = (if sync then h1 else send_initial_attach_redraw e h1 (w_screen w));
          w1 = w\<lparr>w_next_client_id := w_next_client_id w + 1,
                 w_pending_redraws := (if sync then w_pending_redraws w @ [new_id] else w_pending_redraws w),
                 w_clients := w_clients w @ [h2]\<rparr>;
          w2 = log_lifecycle e (ClientAttachedEv new_id (ch_mode (ac_handle ac)) (en_unix_ms e)) w1;
          w3 = (if ac_became_leader ac
                then (let (w', ids) = broadcast_world e (LeaderNotify \<lparr>ln_client_id = Some new_id\<rparr>) w2
                      in w'\<lparr>w_overflow := w_overflow w' @ ids\<rparr>)
                else w2)
      in if ac_detach_others ac then detach_others_of e new_id w3 else w3)"

text \<open>The sweep: \<open>kept\<close> are the entries before the index \<open>i\<close> of the source's loop.\<close>

fun sweep_pending ::
  "'scr env \<Rightarrow> pending_handshake list \<Rightarrow> pending_handshake list \<Rightarrow> 'scr world \<Rightarrow> 'scr world" where
  "sweep_pending e kept [] w = w\<lparr>w_pending := kept\<rparr>"
| "sweep_pending e kept (p # ps) w =
     (case ph_result p of
        StageOk stream req caps \<Rightarrow>
          (case finalize_accepted_client e stream req caps (w_next_client_id w) (w_clients w)
                  (length kept + length ps) (ss_child_stopped (w_state w)) of
             Inr ac \<Rightarrow>
               (let w' = integrate_client e ac w in
                if ac_detach_others ac then w'\<lparr>w_pending := []\<rparr> else sweep_pending e kept ps w')
           | Inl (Some c) \<Rightarrow> sweep_pending e kept ps (w\<lparr>w_closing := admit_closing (w_closing w) c\<rparr>)
           | Inl None \<Rightarrow> sweep_pending e kept ps w)
      | StageErr \<Rightarrow> sweep_pending e kept ps w
      | StageEmpty \<Rightarrow>
          if en_now_ms e - ph_started_at p \<ge> HANDSHAKE_TIMEOUT_MS then sweep_pending e kept ps w
          else sweep_pending e (kept @ [p]) ps w
      | StageDisconnected \<Rightarrow> sweep_pending e kept ps w)"

definition process_pending_handshakes :: "'scr env \<Rightarrow> 'scr world \<Rightarrow> 'scr world" where
  "process_pending_handshakes e w = sweep_pending e [] (w_pending w) w"

subsection \<open>The token comparison\<close>

lemma fold_or_zero:
  "fold (\<lambda>i diff. diff OR f i) is d = (0 :: byte) \<longleftrightarrow> d = 0 \<and> (\<forall>i \<in> set is. f i = 0)"
  by (induction "is" arbitrary: d) (auto simp: or_eq_0_iff)

lemma byte_xor_0: "(x :: byte) XOR y = 0 \<longleftrightarrow> x = y"
  by (auto simp: bit_eq_iff bit_xor_iff)

lemma constant_time_eq_iff: "constant_time_eq a b \<longleftrightarrow> a = b"
proof (cases "length a = length b")
  case True
  then have "constant_time_eq a b \<longleftrightarrow> (\<forall>i < length a. (a ! i) XOR (b ! i) = 0)"
    by (auto simp: constant_time_eq_def fold_or_zero)
  also have "\<dots> \<longleftrightarrow> a = b" using True by (simp add: byte_xor_0 list_eq_iff_nth_eq)
  finally show ?thesis .
next
  case False
  then show ?thesis by (auto simp: constant_time_eq_def)
qed

lemma as_bytes_inj: "as_bytes a = as_bytes b \<longleftrightarrow> a = b"
proof -
  have "inj (\<lambda>c :: char. of_nat (of_char c) :: byte)"
  proof (rule injI)
    fix c d :: char
    assume "(of_nat (of_char c) :: byte) = of_nat (of_char d)"
    then have "unat (of_nat (of_char c) :: byte) = unat (of_nat (of_char d) :: byte)" by simp
    then have "of_char c mod 256 = (of_char d mod 256 :: nat)" by (simp add: unat_of_nat)
    then show "c = d" by simp
  qed
  then show ?thesis by (simp add: as_bytes_def inj_map_eq_map)
qed

subsection \<open>Admission\<close>

lemma finalize_Inr:
  assumes "finalize_accepted_client e stream req caps cid clients other stopped = Inr ac"
  shows "\<not> (hq_detach_others req \<and> hq_mode req = Ro)"
    and "\<not> (hq_exclusive req \<and> \<not> hq_detach_others req
        \<and> (list_ex (\<lambda>c. ch_mode c = Rw \<or> ch_mode c = RwNoLeader) clients \<or> other > 0))"
    and "\<exists>msg. ac = \<lparr>ac_handle = snd (send_control (en_enc e)
            ((ch_new cid (hq_mode req) False caps stream (dc_client_buffer_bytes (en_config e)) (en_unix_ms e))
              \<lparr>ch_leader := should_assign_leader clients (hq_mode req)\<rparr>) msg),
          ac_became_leader = should_assign_leader clients (hq_mode req), ac_detach_others = hq_detach_others req\<rparr>"
  using assms unfolding finalize_accepted_client_def Let_def case_prod_beta
  by (simp_all only: split: if_splits) (auto simp only: sum.simps)

lemma finalize_accepted:
  assumes "finalize_accepted_client e stream req caps cid clients other stopped = Inr ac"
  shows "ch_id (ac_handle ac) = cid" and "ch_mode (ac_handle ac) = hq_mode req"
    and "ch_leader (ac_handle ac) = should_assign_leader clients (hq_mode req)"
    and "ac_became_leader ac = should_assign_leader clients (hq_mode req)"
    and "ac_detach_others ac = hq_detach_others req"
    and "hq_exclusive req \<Longrightarrow> \<not> hq_detach_others req \<Longrightarrow> (\<forall>c \<in> set clients. ch_mode c = Ro) \<and> other = 0"
proof -
  note f = finalize_Inr [OF assms]
  define h where "h = (ch_new cid (hq_mode req) False caps stream (dc_client_buffer_bytes (en_config e)) (en_unix_ms e))
    \<lparr>ch_leader := should_assign_leader clients (hq_mode req)\<rparr>"
  have h: "ch_id h = cid" "ch_mode h = hq_mode req" "ch_leader h = should_assign_leader clients (hq_mode req)"
    by (simp_all add: h_def ch_new_def)
  from f(3) obtain msg where ac: "ac = \<lparr>ac_handle = snd (send_control (en_enc e) h msg),
      ac_became_leader = should_assign_leader clients (hq_mode req), ac_detach_others = hq_detach_others req\<rparr>"
    unfolding h_def by blast
  from same_identity_entry [OF send_control_same_identity, of "en_enc e" h msg] h ac
  show "ch_id (ac_handle ac) = cid" "ch_mode (ac_handle ac) = hq_mode req"
    "ch_leader (ac_handle ac) = should_assign_leader clients (hq_mode req)"
    "ac_became_leader ac = should_assign_leader clients (hq_mode req)"
    "ac_detach_others ac = hq_detach_others req" by simp_all
  have "ch_mode c = Ro \<longleftrightarrow> \<not> (ch_mode c = Rw \<or> ch_mode c = RwNoLeader)" for c by (cases "ch_mode c") simp_all
  with f(2) show "hq_exclusive req \<Longrightarrow> \<not> hq_detach_others req \<Longrightarrow> (\<forall>c \<in> set clients. ch_mode c = Ro) \<and> other = 0"
    by (auto simp: list_ex_iff)
qed

lemma fold_retire_spec:
  assumes "lock_inv (ds_lock (w_daemon w))" and "fold (retire_one e) chs (w, es) = (w', es')"
    and "length (w_closing w) \<le> MAX_CLOSING_CLIENTS" and "registry_inv (w_registry w)"
  shows "w_clients w' = w_clients w \<and> w_next_client_id w' = w_next_client_id w
    \<and> ds_clients (w_daemon w') = ds_clients (w_daemon w) \<and> lock_inv (ds_lock (w_daemon w'))
    \<and> lk_holder (ds_lock (w_daemon w')) =
        (if lk_holder (ds_lock (w_daemon w)) \<in> Some ` ch_id ` set chs then None else lk_holder (ds_lock (w_daemon w)))
    \<and> length (w_closing w') \<le> MAX_CLOSING_CLIENTS \<and> registry_inv (w_registry w')"
  using assms
proof (induction chs arbitrary: w es)
  case Nil
  then show ?case by auto
next
  case (Cons ch chs)
  obtain w1 es1 where r: "retire_one e ch (w, es) = (w1, es1)" by fastforce
  note k = retire_one_keeps [OF Cons.prems(1) r]
  from Cons.IH [OF k(4), of es1] Cons.prems r k length_retire [OF Cons.prems(3)]
  show ?case by auto
qed

lemma base_inv_append:
  assumes "base_inv w" and "ch_id h = w_next_client_id w"
  shows "base_inv (w\<lparr>w_next_client_id := w_next_client_id w + 1, w_clients := w_clients w @ [h]\<rparr>)"
  using assms by (fastforce simp: base_inv_def holder_ok_def)

lemma session_inv_append:
  assumes "session_inv w" and "ch_id h = w_next_client_id w" and "ch_leader h = should_assign_leader (w_clients w) (ch_mode h)"
  shows "session_inv (w\<lparr>w_next_client_id := w_next_client_id w + 1, w_clients := w_clients w @ [h]\<rparr>)"
proof -
  let ?cs = "w_clients w @ [h]"
  have "leader_inv ?cs"
    using assms(1,3) by (auto simp: session_inv_def leader_inv_def should_assign_leader_def leaders_Nil_iff [symmetric])
  moreover have "leader_complete ?cs"
    using assms(1,3) by (auto simp: session_inv_def leader_complete_def should_assign_leader_def leaders_Nil_iff [symmetric]
        rw_present_def)
  ultimately show ?thesis using base_inv_append [OF _ assms(2)] assms(1) by (simp add: session_inv_def)
qed

text \<open>The remaining client table of \<open>--detach-others\<close> is the newcomer.\<close>

lemma session_inv_detach_others:
  assumes "session_inv w" and "c \<in> set (w_clients w)" and "ch_id c = i"
  shows "session_inv (detach_others_of e i w)" and "map ch_id (w_clients (detach_others_of e i w)) = [i]"
    and "w_next_client_id (detach_others_of e i w) = w_next_client_id w"
proof -
  let ?gone = "filter (\<lambda>c. ch_id c \<noteq> i) (w_clients w)"
  let ?w0 = "w\<lparr>w_pending := [], w_clients := filter (\<lambda>c. ch_id c = i) (w_clients w)\<rparr>"
  obtain w1 es where f: "fold (retire_one e) (rev ?gone) (?w0, []) = (w1, es)" by fastforce
  have inv: "base_inv w" "leader_inv (w_clients w)" "leader_complete (w_clients w)"
    using assms(1) by (simp_all add: session_inv_def)
  have "lock_inv (ds_lock (w_daemon ?w0))" "length (w_closing ?w0) \<le> MAX_CLOSING_CLIENTS" "registry_inv (w_registry ?w0)"
    using inv(1) by (simp_all add: base_inv_def)
  from fold_retire_spec [OF this(1) f this(2,3)]
  have k: "w_clients w1 = filter (\<lambda>c. ch_id c = i) (w_clients w)" "w_next_client_id w1 = w_next_client_id w"
    "ds_clients (w_daemon w1) = ds_clients (w_daemon w)" "lock_inv (ds_lock (w_daemon w1))"
    "lk_holder (ds_lock (w_daemon w1)) = (if lk_holder (ds_lock (w_daemon w)) \<in> Some ` ch_id ` set ?gone then None
       else lk_holder (ds_lock (w_daemon w)))"
    "length (w_closing w1) \<le> MAX_CLOSING_CLIENTS" "registry_inv (w_registry w1)" by auto
  have d: "distinct (map ch_id (w_clients w))" using inv(1) by (simp add: base_inv_def)
  have only: "filter (\<lambda>c. ch_id c = i) (w_clients w) = [c]"
    using filter_by_unique_id [OF d assms(2)] assms(3) by simp
  have "holder_ok (ds_lock (w_daemon w1)) (w_clients w1)"
    unfolding holder_ok_def
  proof (intro allI impI)
    fix h
    assume "lk_holder (ds_lock (w_daemon w1)) = Some h"
    then have h: "lk_holder (ds_lock (w_daemon w)) = Some h" "h \<notin> ch_id ` set ?gone" using k(5) by (auto split: if_splits)
    with inv(1) obtain c' where "c' \<in> set (w_clients w)" "ch_id c' = h" "ch_mode c' \<noteq> Ro"
      by (auto simp: base_inv_def holder_ok_def)
    with h(2) k(1) show "\<exists>c \<in> set (w_clients w1). ch_id c = h \<and> ch_mode c \<noteq> Ro" by auto
  qed
  then have b: "base_inv w1" using inv(1) k by (auto simp: base_inv_def distinct_map_filter)
  have l: "leader_inv (w_clients w1)"
    using inv(2) assms(2) k(1) only by (auto simp: leader_inv_def leaders_def)
  have cmp: "leader_complete (w_clients w1)" if "\<not> list_ex ch_leader ?gone"
  proof -
    have "leaders (w_clients w) = leaders (filter (\<lambda>c. ch_id c = i) (w_clients w))"
      using that by (auto simp: leaders_def list_ex_iff intro!: arg_cong [of _ _ "map ch_id"] filter_cong)
    moreover have "rw_present (w_clients w1) \<Longrightarrow> rw_present (w_clients w)"
      using k(1) by (auto simp: rw_present_def list_ex_iff)
    ultimately show ?thesis using inv(3) k(1) by (auto simp: leader_complete_def)
  qed
  obtain w' ids where el: "elect_after_drop e w1 = (w', ids)" by fastforce
  let ?w2 = "if list_ex ch_leader ?gone then w'\<lparr>w_overflow := w_overflow w' @ ids\<rparr> else w1"
  have e': "session_inv w'" "map ch_id (w_clients w') = map ch_id (w_clients w1)"
    using elect_after_drop_spec [OF b l, of e] el by simp_all
  have inv2: "session_inv ?w2"
    using e'(1) b l cmp by (auto elim!: session_inv_cong simp: session_inv_def [of w1])
  have ids2: "map ch_id (w_clients ?w2) = [i]" using e'(2) k(1) only assms(3) by auto
  have eq: "detach_others_of e i w = execute_world e es ?w2"
    using f el by (simp add: detach_others_of_def Let_def)
  show "session_inv (detach_others_of e i w)" unfolding eq by (rule session_inv_execute [OF inv2])
  have "w_next_client_id w' = w_next_client_id w1"
    using broadcast_world_keeps [of e] el by (auto simp: elect_after_drop_def case_prod_beta Let_def)
      (metis (no_types, lifting) fst_conv world.select_convs(3) world.surjective world.update_convs(1))
  then have next2: "w_next_client_id ?w2 = w_next_client_id w" using k(2) by simp
  from execute_world_keeps [OF session_inv_idle [OF inv2], of e es] ids2 next2
  show "map ch_id (w_clients (detach_others_of e i w)) = [i]"
    "w_next_client_id (detach_others_of e i w) = w_next_client_id w" unfolding eq by (auto simp: roster_ids)
qed

lemma attach_redraw_same_identity [simp]:
  "same_identity (send_initial_attach_redraw e ch scr) ch"
  "same_identity (fst (send_attach_redraw e ch scr)) ch"
proof -
  show "same_identity (send_initial_attach_redraw e ch scr) ch"
    by (simp add: send_initial_attach_redraw_def enqueue_ignoring_limit_def split: option.splits)
  show "same_identity (fst (send_attach_redraw e ch scr)) ch"
    using enqueue_same_identity by (auto simp: send_attach_redraw_def case_prod_beta Let_def split: option.splits)
qed

lemma same_identity_trans: "same_identity a b \<Longrightarrow> same_identity b c \<Longrightarrow> same_identity a c"
  by (simp add: same_identity_def)

text \<open>The newcomer as it enters the table, and the table right after.\<close>

lemma integrate_client_spec:
  assumes "session_inv w" and "ch_id (ac_handle ac) = w_next_client_id w"
    and "ch_leader (ac_handle ac) = should_assign_leader (w_clients w) (ch_mode (ac_handle ac))"
  shows "session_inv (integrate_client e ac w)
    \<and> w_next_client_id (integrate_client e ac w) = w_next_client_id w + 1
    \<and> map ch_id (w_clients (integrate_client e ac w)) =
      (if ac_detach_others ac then [w_next_client_id w] else map ch_id (w_clients w) @ [w_next_client_id w])"
proof -
  let ?n = "w_next_client_id w"
  define h1 where "h1 = (case lk_holder (ds_lock (w_daemon w)) of
      Some holder \<Rightarrow> snd (send_control (en_enc e) (ac_handle ac)
        (ModeChange \<lparr>mc_session_mode = SessionLocked, mc_lock_holder = Some holder, mc_client_mode = None\<rparr>))
    | None \<Rightarrow> ac_handle ac)"
  define h2 where "h2 = (if en_sync_in_progress e (w_screen w) then h1 else send_initial_attach_redraw e h1 (w_screen w))"
  have "same_identity h1 (ac_handle ac)" by (simp add: h1_def split: option.splits)
  then have "same_identity h2 (ac_handle ac)"
    by (auto simp: h2_def intro: same_identity_trans [OF attach_redraw_same_identity(1)])
  from same_identity_entry [OF this] assms(2,3)
  have h2: "ch_id h2 = ?n" "ch_leader h2 = should_assign_leader (w_clients w) (ch_mode h2)" by simp_all
  define w1 where "w1 = w\<lparr>w_next_client_id := ?n + 1,
      w_pending_redraws := (if en_sync_in_progress e (w_screen w) then w_pending_redraws w @ [?n] else w_pending_redraws w),
      w_clients := w_clients w @ [h2]\<rparr>"
  have inv1: "session_inv w1"
    by (rule session_inv_cong [OF session_inv_append [OF assms(1) h2]]) (simp_all add: w1_def)
  define w2 where "w2 = log_lifecycle e (ClientAttachedEv ?n (ch_mode (ac_handle ac)) (en_unix_ms e)) w1"
  have inv2: "session_inv w2" using session_inv_log [OF inv1] by (simp add: w2_def)
  obtain w' ids where bc: "broadcast_world e (LeaderNotify \<lparr>ln_client_id = Some ?n\<rparr>) w2 = (w', ids)" by fastforce
  from broadcast_world_keeps [of e "LeaderNotify \<lparr>ln_client_id = Some ?n\<rparr>" w2] bc obtain cs where
    w': "w' = w2\<lparr>w_clients := cs\<rparr>" "roster cs = roster (w_clients w2)" by auto
  define w3 where "w3 = (if ac_became_leader ac then w'\<lparr>w_overflow := w_overflow w' @ ids\<rparr> else w2)"
  have r3: "roster (w_clients w3) = roster (w_clients w @ [h2])" "w_next_client_id w3 = ?n + 1"
    using w' by (simp_all add: w3_def w2_def w1_def)
  have inv3: "session_inv w3"
    using inv2 session_inv_cong [OF session_inv_broadcast [OF inv2, of e "LeaderNotify \<lparr>ln_client_id = Some ?n\<rparr>"], of w3] bc
    by (auto simp: w3_def)
  have ids3: "map ch_id (w_clients w3) = map ch_id (w_clients w) @ [?n]" using r3(1) h2(1) by (simp add: roster_ids)
  have eq: "integrate_client e ac w = (if ac_detach_others ac then detach_others_of e ?n w3 else w3)"
    using assms(2) bc by (simp add: integrate_client_def Let_def h1_def [symmetric] h2_def [symmetric] w1_def w2_def w3_def)
  show ?thesis
  proof (cases "ac_detach_others ac")
    case True
    from ids3 obtain c where c: "c \<in> set (w_clients w3)" "ch_id c = ?n"
      by (metis (no_types, lifting) image_iff in_set_conv_decomp list.set_map)
    from session_inv_detach_others [OF inv3 c, of e] eq True r3(2) show ?thesis by simp
  next
    case False
    with inv3 ids3 r3(2) eq show ?thesis by simp
  qed
qed

lemma sweep_pending_inv: "session_inv w \<Longrightarrow> session_inv (sweep_pending e kept ps w)"
proof (induction ps arbitrary: kept w)
  case Nil
  then show ?case by (auto elim!: session_inv_cong)
next
  case (Cons p ps)
  show ?case
  proof (cases "ph_result p")
    case (StageOk stream req caps)
    let ?f = "finalize_accepted_client e stream req caps (w_next_client_id w) (w_clients w) (length kept + length ps)
      (ss_child_stopped (w_state w))"
    show ?thesis
    proof (cases ?f)
      case (Inr ac)
      have "session_inv (integrate_client e ac w)"
        using integrate_client_spec [OF Cons.prems, of ac e] finalize_accepted [OF Inr] by simp
      with Cons.IH StageOk Inr show ?thesis by (auto simp: Let_def elim!: session_inv_cong)
    next
      case (Inl oc)
      have "session_inv (w\<lparr>w_closing := admit_closing (w_closing w) c\<rparr>)" for c
        using Cons.prems by (auto simp: session_inv_def base_inv_def length_admit)
      with Cons StageOk Inl show ?thesis by (cases oc) auto
    qed
  qed (use Cons in auto)
qed

lemma process_pending_inv: "session_inv w \<Longrightarrow> session_inv (process_pending_handshakes e w)"
  by (simp add: process_pending_handshakes_def sweep_pending_inv)

lemma flush_redraws_inv: "session_inv w \<Longrightarrow> session_inv (flush_pending_redraws_if_sync_over e w)"
proof -
  assume inv: "session_inv w"
  have "roster (fold (\<lambda>i cs. snd (on_client i (\<lambda>ch. (True, send_initial_attach_redraw e ch (w_screen w))) cs)) is cs) = roster cs"
    for "is" cs by (induction "is" arbitrary: cs) (simp_all add: roster_on_client)
  with inv show ?thesis by (auto simp: flush_pending_redraws_if_sync_over_def elim!: session_inv_cong)
qed

subsection \<open>Properties\<close>

text \<open>C18. The handshake is a gate: a worker accepts a connection only when its first frame is a
  well-formed handshake request within the length limits and, if the daemon has a token, the
  presented token is equal to it; the capabilities granted are those both sides have, without
  repetition and in the client's order, and on acceptance nothing has been written to the peer.\<close>

theorem handshake_gate:
  assumes "do_handshake_stage enc dec stream expected = (Inr (req, caps), out)"
  shows "(\<exists>fr rest. decode_from stream = Inr (fr, rest) \<and> frame_ty fr = TYPE_CBOR_CONTROL
            \<and> dec (frame_body fr) = Some (HandshakeRequest req))
    \<and> length (hq_caps req) \<le> MAX_CAPS_COUNT \<and> (\<forall>c \<in> set (hq_caps req). length c \<le> MAX_CAP_LEN)
    \<and> (\<forall>t. hq_token req = Some t \<longrightarrow> length t \<le> MAX_TOKEN_LEN)
    \<and> (\<forall>t. expected = Some t \<longrightarrow> hq_token req = Some t)
    \<and> set caps = set (hq_caps req) \<inter> set MVP_CAPS \<and> distinct caps \<and> subseq caps (hq_caps req)
    \<and> out = []"
proof -
  from assms obtain fr rest where fr: "decode_from stream = Inr (fr, rest)" "frame_ty fr = TYPE_CBOR_CONTROL"
    "dec (frame_body fr) = Some (HandshakeRequest req)"
    and v: "validate_handshake_lengths req = Inr ()"
    and t: "\<And>t. expected = Some t \<Longrightarrow> hq_token req = Some t"
    and c: "caps = intersect_caps (hq_caps req) MVP_CAPS" and out: "out = []"
    by (auto simp: do_handshake_stage_def constant_time_eq_iff as_bytes_inj
        split: sum.splits if_splits option.splits control_message.splits)
  from v have "length (hq_caps req) \<le> MAX_CAPS_COUNT \<and> (\<forall>c \<in> set (hq_caps req). length c \<le> MAX_CAP_LEN)
      \<and> (\<forall>t. hq_token req = Some t \<longrightarrow> length t \<le> MAX_TOKEN_LEN)"
    by (auto simp: validate_handshake_lengths_def list_ex_iff split: if_splits option.splits)
  with fr t out c show ?thesis
    by (simp add: intersect_caps_def intersect_caps_loop_set intersect_caps_loop_distinct intersect_caps_loop_subseq)
qed

definition handshake_example_request :: handshake_request where
  "handshake_example_request = \<lparr>hq_caps = [''lock'', ''x'', ''lock''], hq_mode = Rw, hq_exclusive = False, hq_detach_others = False,
     hq_token = Some ''t''\<rparr>"

theorem handshake_gate_witness:
  "set (snd (projr (fst (do_handshake_stage (\<lambda>_. None) (\<lambda>_. Some (HandshakeRequest handshake_example_request))
      ([2, 0, 0, 0, 1, 7], False) (Some ''t''))))) = {''lock''}"
proof -
  have d: "decode_from ([2, 0, 0, 0, 1, 7], False) = Inr (\<lparr>frame_ty = TYPE_CBOR_CONTROL, frame_body = [7]\<rparr>, [], False)"
    by (simp add: decode_from_def check_size_def check_type_def MAX_FRAME_SIZE_def frame_consts Let_def)
  obtain caps out where r: "do_handshake_stage (\<lambda>_. None) (\<lambda>_. Some (HandshakeRequest handshake_example_request))
      ([2, 0, 0, 0, 1, 7], False) (Some ''t'') = (Inr (handshake_example_request, caps), out)"
    by (simp add: do_handshake_stage_def d validate_handshake_lengths_def handshake_example_request_def
        MAX_CAPS_COUNT_def MAX_CAP_LEN_def MAX_TOKEN_LEN_def constant_time_eq_iff)
  from handshake_gate [OF r] have "set caps = set (hq_caps handshake_example_request) \<inter> set MVP_CAPS" by blast
  then have "set caps = {''lock''}" by (simp add: handshake_example_request_def MVP_CAPS_def)
  then show ?thesis by (simp only: r fst_conv snd_conv sum.sel)
qed

text \<open>Admission keeps the session consistent and its flags mean what they say: a client is given a
  fresh id, becomes leader exactly when it is a \<open>Rw\<close> client and there is none, \<open>--exclusive\<close> admits it
  only when every attached client is read-only and no other handshake is pending, and after
  \<open>--detach-others\<close> it is the only client.\<close>

theorem admission_keeps_session:
  assumes "session_inv w"
    and "finalize_accepted_client e stream req caps (w_next_client_id w) (w_clients w) other (ss_child_stopped (w_state w)) = Inr ac"
  shows "session_inv (integrate_client e ac w)
    \<and> (ac_became_leader ac \<longleftrightarrow> hq_mode req = Rw \<and> leaders (w_clients w) = [])
    \<and> (hq_exclusive req \<and> \<not> hq_detach_others req \<longrightarrow> (\<forall>c \<in> set (w_clients w). ch_mode c = Ro) \<and> other = 0)
    \<and> (hq_detach_others req \<longrightarrow> hq_mode req \<noteq> Ro)
    \<and> map ch_id (w_clients (integrate_client e ac w)) =
        (if hq_detach_others req then [w_next_client_id w] else map ch_id (w_clients w) @ [w_next_client_id w])
    \<and> w_next_client_id w \<notin> ch_id ` set (w_clients w)"
proof -
  note f = finalize_accepted [OF assms(2)]
  have "w_next_client_id w \<notin> ch_id ` set (w_clients w)"
    using assms(1) by (auto simp: session_inv_def base_inv_def)
  with f finalize_Inr(1) [OF assms(2)] integrate_client_spec [OF assms(1), of ac e] show ?thesis
    by (auto simp: should_assign_leader_def leaders_Nil_iff)
qed

theorem admission_keeps_session_witness:
  "\<exists>ac. finalize_accepted_client example_env \<lparr>so_answers = [], so_out = []\<rparr>
       (handshake_example_request\<lparr>hq_detach_others := True\<rparr>) [] (w_next_client_id example_world) (w_clients example_world) 0
       (ss_child_stopped (w_state example_world)) = Inr ac
     \<and> map ch_id (w_clients (integrate_client example_env ac example_world)) = [3]"
proof -
  let ?req = "handshake_example_request\<lparr>hq_detach_others := True\<rparr>"
  have "\<exists>ac. finalize_accepted_client example_env \<lparr>so_answers = [], so_out = []\<rparr> ?req [] (w_next_client_id example_world)
      (w_clients example_world) 0 (ss_child_stopped (w_state example_world)) = Inr ac"
    by (simp add: finalize_accepted_client_def handshake_example_request_def send_control_def example_env_def
        encode_control_def encode_to_def cbor_control_def MAX_FRAME_SIZE_def enqueue_for_client_def ch_new_def sq_new_def
        ch_queued_bytes_def Let_def case_prod_beta)
  then obtain ac where ac: "finalize_accepted_client example_env \<lparr>so_answers = [], so_out = []\<rparr> ?req [] (w_next_client_id example_world)
      (w_clients example_world) 0 (ss_child_stopped (w_state example_world)) = Inr ac" by blast
  from admission_keeps_session [OF session_inv_example ac] ac show ?thesis
    by (simp add: handshake_example_request_def) (simp add: example_world_def)
qed

end
