(* ===== verification/Control.thy ===== *)
theory Control
  imports Accept
begin

text \<open>
  The frame handlers, \<^verbatim>\<open>crates/hyoui/src/daemon/control.rs\<close> and \<^verbatim>\<open>daemon/tail.rs\<close>, with the upgrade
  pre-check of \<^verbatim>\<open>daemon/upgrade.rs\<close> they call. Every handler takes the index of the
  requesting client, like the source, and returns the outcome with the new world.
  The index comes from the serve loop's iteration over the table.
\<close>

datatype client_frame_outcome =
    ContinueClient
  | DropClient
  | DropClients "nat list" bool
  | TerminateSession relay_outcome

subsection \<open>Replies and guards\<close>

definition reply :: "'scr env \<Rightarrow> nat \<Rightarrow> control_message \<Rightarrow> 'scr world \<Rightarrow> 'scr world" where
  "reply e idx msg w =
     w\<lparr>w_clients := (w_clients w)[idx := snd (send_control (en_enc e) (w_clients w ! idx) msg)]\<rparr>"

definition reply_error :: "'scr env \<Rightarrow> nat \<Rightarrow> error_code \<Rightarrow> string \<Rightarrow> 'scr world \<Rightarrow> 'scr world" where
  "reply_error e idx code text = reply e idx (ErrorMsg \<lparr>em_code = code, em_message = text, em_details = None\<rparr>)"

text \<open>\<open>Inl\<close> is \<open>Err\<close>, with the error already sent.\<close>

definition ensure_cap :: "'scr env \<Rightarrow> nat \<Rightarrow> string \<Rightarrow> string \<Rightarrow> 'scr world \<Rightarrow> 'scr world + unit" where
  "ensure_cap e idx cap text w =
     (if list_ex (\<lambda>c. c = cap) (ch_negotiated_caps (w_clients w ! idx)) then Inr ()
      else Inl (reply_error e idx UnsupportedCapability text w))"

definition ensure_rw_mode :: "'scr env \<Rightarrow> nat \<Rightarrow> string \<Rightarrow> 'scr world \<Rightarrow> 'scr world + unit" where
  "ensure_rw_mode e idx text w =
     (if ch_mode (w_clients w ! idx) = Rw then Inr () else Inl (reply_error e idx ModeNotAllowed text w))"

definition ensure_not_ro :: "'scr env \<Rightarrow> nat \<Rightarrow> string \<Rightarrow> 'scr world \<Rightarrow> 'scr world + unit" where
  "ensure_not_ro e idx text w =
     (if ch_mode (w_clients w ! idx) = Ro then Inl (reply_error e idx ModeNotAllowed text w) else Inr ())"

definition ensure_leader :: "'scr env \<Rightarrow> nat \<Rightarrow> string \<Rightarrow> 'scr world \<Rightarrow> 'scr world + unit" where
  "ensure_leader e idx text w =
     (if ch_leader (w_clients w ! idx) then Inr () else Inl (reply_error e idx ModeNotLeader text w))"

text \<open>The pattern \<open>if ensure_x(..).is_err() { return Continue }\<close>.\<close>

definition guarded ::
  "'scr world + unit \<Rightarrow> client_frame_outcome \<times> 'scr world \<Rightarrow> client_frame_outcome \<times> 'scr world" where
  "guarded g r = (case g of Inl w \<Rightarrow> (ContinueClient, w) | Inr _ \<Rightarrow> r)"

subsection \<open>Child control\<close>

definition handle_session_child_resume_request ::
  "'scr env \<Rightarrow> nat \<Rightarrow> 'scr world \<Rightarrow> client_frame_outcome \<times> 'scr world" where
  "handle_session_child_resume_request e idx w =
     guarded (ensure_cap e idx ''child-state-v1'' ''session.child.resume.request requires `child-state-v1`'' w)
       (let cid = ch_id (w_clients w ! idx);
            w1 = log_lifecycle e (ResumeRequestReceived cid (en_unix_ms e)) w;
            (ch, overflow) = send_attach_redraw e (w_clients w1 ! idx) (w_screen w1);
            w2 = w1\<lparr>w_clients := (w_clients w1)[idx := ch]\<rparr>
        in if overflow \<noteq> [] then (DropClient, w2)
           else (ContinueClient,
                 log_lifecycle e (SigcontSent (en_child_pid e) (en_unix_ms e)) (send_kill ToGroup SIGCONT w2)))"

definition signal_should_cont_first :: "nat \<Rightarrow> bool" where
  "signal_should_cont_first sig \<longleftrightarrow> sig = SIGTERM \<or> sig = SIGINT \<or> sig = SIGHUP \<or> sig = SIGQUIT \<or> sig = SIGABRT"

text \<open>\<open>name.parse::<Signal>()\<close>: the number and the canonical name.\<close>

definition signal_name_to_nix_signal :: "'scr env \<Rightarrow> string \<Rightarrow> (nat \<times> string) option" where
  "signal_name_to_nix_signal e s = en_parse_signal e s"

definition handle_kill :: "'scr env \<Rightarrow> nat \<Rightarrow> kill_msg \<Rightarrow> 'scr world \<Rightarrow> client_frame_outcome \<times> 'scr world" where
  "handle_kill e idx k w =
     guarded (ensure_rw_mode e idx ''kill requires rw mode (= leader-eligible)'' w)
       (case (case kl_signal k of
                None \<Rightarrow> Inr (SIGTERM, ''SIGTERM'')
              | Some s \<Rightarrow> (case signal_name_to_nix_signal e s of Some r \<Rightarrow> Inr r | None \<Rightarrow> Inl s)) of
          Inl s \<Rightarrow> (ContinueClient, reply_error e idx SignalInvalid (''invalid signal name: '' @ s) w)
        | Inr (sig, sname) \<Rightarrow>
            (let w1 = (if signal_should_cont_first sig then send_kill ToChild SIGCONT w else w);
                 w2 = send_kill ToChild sig w1
             in if kl_wait k then (TerminateSession RelayClientDetachedOrKilled, w2)
                else (ContinueClient, reply e idx (KillAck sname) w2)))"

definition handle_signal :: "'scr env \<Rightarrow> nat \<Rightarrow> string \<Rightarrow> 'scr world \<Rightarrow> client_frame_outcome \<times> 'scr world" where
  "handle_signal e idx s w =
     guarded (ensure_not_ro e idx ''signal requires rw mode'' w)
       (case signal_name_to_nix_signal e s of
          None \<Rightarrow> (ContinueClient, reply_error e idx SignalInvalid (''invalid signal name: '' @ s) w)
        | Some (sig, _) \<Rightarrow> (ContinueClient, send_kill ToChild sig w))"

definition handle_resize :: "'scr env \<Rightarrow> nat \<Rightarrow> resize_msg \<Rightarrow> 'scr world \<Rightarrow> client_frame_outcome \<times> 'scr world" where
  "handle_resize e idx r w =
     guarded (ensure_leader e idx ''resize requires leader role'' w)
       (let (cols, rows) = normalize_size (rz_cols r) (rz_rows r)
        in (ContinueClient,
            w\<lparr>w_winsize := (cols, rows), w_screen := en_screen_resize e (w_screen w) rows cols\<rparr>))"

subsection \<open>Detach\<close>

definition handle_detach_target ::
  "'scr env \<Rightarrow> nat \<Rightarrow> detach_target \<Rightarrow> 'scr world \<Rightarrow> client_frame_outcome \<times> 'scr world" where
  "handle_detach_target e idx target w =
     guarded
       (if target \<noteq> Myself
        then ensure_not_ro e idx
               ''detach target=others/all requires rw mode (= read-only client cannot detach other clients)'' w
        else Inr ())
       (case target of
          Myself \<Rightarrow> (DropClient, w)
        | Others \<Rightarrow>
            (let others = filter (\<lambda>i. i \<noteq> idx) [0..<length (w_clients w)]
             in (DropClients others True, reply e idx (DetachAck (length others)) w))
        | AllClients \<Rightarrow>
            (DropClients [0..<length (w_clients w)] True, reply e idx (DetachAck (length (w_clients w))) w))"

subsection \<open>Leader and lock\<close>

definition handle_leader_request :: "'scr env \<Rightarrow> nat \<Rightarrow> 'scr world \<Rightarrow> client_frame_outcome \<times> 'scr world" where
  "handle_leader_request e idx w =
     guarded (ensure_cap e idx ''leader-request-v1'' ''leader.request requires `leader-request-v1` cap'' w)
       (guarded (ensure_not_ro e idx ''leader.request requires a writable mode (= rw / rw-no-leader)'' w)
          (case take_leader (w_clients w) idx of
             None \<Rightarrow> (ContinueClient, w)
           | Some (cs, AlreadyLeader cid) \<Rightarrow>
               (ContinueClient, reply e idx (LeaderNotify \<lparr>ln_client_id = Some cid\<rparr>) (w\<lparr>w_clients := cs\<rparr>))
           | Some (cs, Taken cid mode_changed) \<Rightarrow>
               (let w1 = w\<lparr>w_clients := cs\<rparr>;
                    w2 = (if mode_changed
                          then reply e idx (ModeChange \<lparr>mc_session_mode = lock_session_mode (ds_lock (w_daemon w)),
                                 mc_lock_holder = lk_holder (ds_lock (w_daemon w)), mc_client_mode = Some Rw\<rparr>) w1
                          else w1)
                in (ContinueClient, fst (broadcast_world e (LeaderNotify \<lparr>ln_client_id = Some cid\<rparr>) w2)))))"

text \<open>The direct call of the lock reducer, which is not routed through \<open>handle\<close>.\<close>

definition lock_world :: "lock_msg \<Rightarrow> 'scr world \<Rightarrow> lock_event list \<times> effect list \<times> 'scr world" where
  "lock_world m w =
     (let (l, out, evs) = lock_reduce_msg (ds_lock (w_daemon w)) m :: lock_state \<times> daemon_msg domain_output \<times> lock_event list
      in (evs, out_effects out, w\<lparr>w_daemon := (w_daemon w)\<lparr>ds_lock := l\<rparr>\<rparr>))"

definition is_token_required :: "lock_event \<Rightarrow> bool" where
  "is_token_required ev = (case ev of EvTokenRequired _ \<Rightarrow> True | _ \<Rightarrow> False)"

definition is_newly_acquired :: "lock_event \<Rightarrow> bool" where
  "is_newly_acquired ev = (case ev of EvAcquired _ _ newly \<Rightarrow> newly | _ \<Rightarrow> False)"

definition is_released :: "lock_event \<Rightarrow> bool" where
  "is_released ev = (case ev of EvReleased _ _ \<Rightarrow> True | _ \<Rightarrow> False)"

text \<open>\<open>generate_lock_token\<close>: the random device opened, or its error, and 16 bytes of it.\<close>

definition generate_lock_token :: "'scr env \<Rightarrow> string + string" where
  "generate_lock_token e =
     (case en_urandom e of
        Inl err \<Rightarrow> Inl err
      | Inr rd \<Rightarrow> (case generate_lock_token_from rd of Some t \<Rightarrow> Inr t | None \<Rightarrow> Inl ''failed to fill whole buffer''))"

definition handle_lock_acquire :: "'scr env \<Rightarrow> nat \<Rightarrow> lock_acquire \<Rightarrow> 'scr world \<Rightarrow> client_frame_outcome \<times> 'scr world" where
  "handle_lock_acquire e idx req w =
     (let cid = ch_id (w_clients w ! idx) in
      guarded (ensure_cap e idx ''lock'' ''lock.acquire requires `lock` cap'' w)
       (if ch_mode (w_clients w ! idx) = Ro
        then (ContinueClient, reply_error e idx ModeNotAllowed ''lock.acquire requires rw mode (= Ro cannot hold lock)'' w)
        else
          (let (evs, es, w1) = lock_world (LAcquire cid None) w in
           if list_ex is_token_required evs then
             (case generate_lock_token e of
                Inl err \<Rightarrow>
                  (ContinueClient,
                   reply_error e idx InternalError
                     (''lock token generation failed (urandom unavailable): '' @ err @ ''; retry later'')
                     (reply e idx (LockResponse \<lparr>lr_result = LockDeniedResult, lr_token = None, lr_queue_position = None\<rparr>) w1))
              | Inr tok \<Rightarrow>
                  (let (evs2, es2, w2) = lock_world (LAcquire cid (Some tok)) w1;
                       w3 = (if list_ex is_newly_acquired evs2
                             then log_lifecycle e (LockAcquiredEv cid (en_unix_ms e)) w2 else w2)
                   in (ContinueClient, execute_world_ignore e es2 w3)))
           else (ContinueClient, execute_world_ignore e es w1))))"

definition handle_lock_release :: "'scr env \<Rightarrow> nat \<Rightarrow> string \<Rightarrow> 'scr world \<Rightarrow> client_frame_outcome \<times> 'scr world" where
  "handle_lock_release e idx tok w =
     (let cid = ch_id (w_clients w ! idx);
          (evs, es, w1) = lock_world (LRelease cid tok) w;
          w2 = (if list_ex is_released evs then log_lifecycle e (LockReleasedEv cid (en_unix_ms e)) w1 else w1)
      in (ContinueClient, execute_world_ignore e es w2))"

subsection \<open>Recording\<close>

fun record_start_error_to_protocol :: "record_start_error \<Rightarrow> error_code \<times> string" where
  "record_start_error_to_protocol PathNotAbsolute = (RecordPathNotAbsolute, ''record output path must be absolute'')"
| "record_start_error_to_protocol OutputAlreadyExists = (RecordOutputAlreadyExists, ''record output file already exists'')"
| "record_start_error_to_protocol (OutputPermissionDenied msg) =
     (RecordOutputPermissionDenied, ''record output denied: '' @ msg)"
| "record_start_error_to_protocol UnsupportedDirectionForFormat =
     (RecordUnsupportedDirectionForFormat, ''record raw format requires single direction (stdin or stdout, not both)'')"
| "record_start_error_to_protocol (InvalidPromptPattern msg) =
     (RecordInvalidPromptPattern, ''invalid prompt pattern regex: '' @ msg)"
| "record_start_error_to_protocol RedactionUnimplemented =
     (RecordRedactionUnimplemented,
      ''record input-secrecy=redact-after-prompt is not yet implemented (Phase 5); use record-all or never-record-stdin'')"
| "record_start_error_to_protocol (RecordIo err) = (InternalError, ''record io error: '' @ err)"

definition session_info_of :: "'scr env \<Rightarrow> session_info" where
  "session_info_of e =
     \<lparr>si_session_id = dc_session_id (en_config e), si_daemon_pid = en_daemon_pid e,
      si_daemon_boot_id = dc_daemon_boot_id (en_config e), si_argv = dc_cmd (en_config e),
      si_cwd = (case dc_cwd (en_config e) of Some p \<Rightarrow> p | None \<Rightarrow> ''/'')\<rparr>"

definition handle_record_start_request ::
  "'scr env \<Rightarrow> nat \<Rightarrow> record_start_request \<Rightarrow> 'scr world \<Rightarrow> client_frame_outcome \<times> 'scr world" where
  "handle_record_start_request e idx req w =
     guarded (ensure_cap e idx ''record-v1'' ''record.start.request requires `record-v1` cap'' w)
       (let (r, reg) = registry_start (en_record e) req (ch_id (w_clients w ! idx)) (session_info_of e) (w_registry w);
            w1 = w\<lparr>w_registry := reg\<rparr>
        in case r of
             Inr i \<Rightarrow> (ContinueClient, reply e idx (RecordStartResponse i) w1)
           | Inl err \<Rightarrow> (let (code, text) = record_start_error_to_protocol err
                        in (ContinueClient, reply_error e idx code text w1)))"

definition handle_record_stop_request :: "'scr env \<Rightarrow> nat \<Rightarrow> nat \<Rightarrow> 'scr world \<Rightarrow> client_frame_outcome \<times> 'scr world" where
  "handle_record_stop_request e idx i w =
     guarded (ensure_cap e idx ''record-v1'' ''record.stop.request requires `record-v1` cap'' w)
       (let (r, reg) = registry_stop i (w_registry w); w1 = w\<lparr>w_registry := reg\<rparr>
        in case r of
             Inr _ \<Rightarrow> (ContinueClient, reply e idx (RecordStopResponse 1) w1)
           | Inl j \<Rightarrow> (ContinueClient, reply_error e idx RecordNotFound (''record not found: id='' @ nat_to_dec j) w1))"

definition handle_record_stop_all_request :: "'scr env \<Rightarrow> nat \<Rightarrow> 'scr world \<Rightarrow> client_frame_outcome \<times> 'scr world" where
  "handle_record_stop_all_request e idx w =
     guarded (ensure_cap e idx ''record-v1'' ''record.stop.all.request requires `record-v1` cap'' w)
       (let (stopped, reg) = registry_stop_all (w_registry w)
        in (ContinueClient, reply e idx (RecordStopResponse (length stopped)) (w\<lparr>w_registry := reg\<rparr>)))"

definition handle_record_list_request :: "'scr env \<Rightarrow> nat \<Rightarrow> 'scr world \<Rightarrow> client_frame_outcome \<times> 'scr world" where
  "handle_record_list_request e idx w =
     guarded (ensure_cap e idx ''record-v1'' ''record.list.request requires `record-v1` cap'' w)
       (ContinueClient, reply e idx (RecordListResponse (registry_list (w_registry w))) w)"

subsection \<open>Tail\<close>

text \<open>The snapshot of \<open>handle_tail_request\<close>; \<open>None\<close> is the strict request that the buffer cannot serve.\<close>

definition tail_snapshot :: "instant \<Rightarrow> tail_request \<Rightarrow> scrollback \<Rightarrow> bytes option" where
  "tail_snapshot now req sb =
     map_option
       (\<lambda>bs.
          let bs1 = (case tr_last_bytes req of
                       Some lb \<Rightarrow> if length bs > lb then drop (length bs - lb) bs else bs
                     | None \<Rightarrow> bs)
          in if tr_strip_ansi req then strip_ansi bs1 else bs1)
       (case tr_since_ms req of
          Some ms \<Rightarrow>
            if tr_since_strict req
            then (case sb_since_strict sb now ms of Inr b \<Rightarrow> Some b | Inl _ \<Rightarrow> None)
            else Some (sb_since sb now ms)
        | None \<Rightarrow>
            (case tr_last_bytes req of
               Some lb \<Rightarrow> Some (sb_last_n_bytes sb lb)
             | None \<Rightarrow> Some (sb_last_n_bytes sb (sb_total_bytes sb))))"

definition handle_tail_request :: "'scr env \<Rightarrow> nat \<Rightarrow> tail_request \<Rightarrow> 'scr world \<Rightarrow> 'scr world" where
  "handle_tail_request e idx req w =
     (case tail_snapshot (en_now e) req (w_scrollback w) of
        None \<Rightarrow> reply e idx (TailEnd TailBufferTruncated) w
      | Some snapshot \<Rightarrow>
          (let w1 = (if snapshot \<noteq> []
                     then reply e idx (TailData \<lparr>td_bytes = snapshot, td_timestamp_ms = en_epoch_ms e\<rparr>) w else w)
           in if tr_follow req
              then w1\<lparr>w_clients := (w_clients w1)[idx := (w_clients w1 ! idx)\<lparr>ch_subscription := SubTailFollow (tr_strip_ansi req)\<rparr>]\<rparr>
              else reply e idx (TailEnd TailEof) w1))"

definition handle_tail_request_dispatch ::
  "'scr env \<Rightarrow> nat \<Rightarrow> tail_request \<Rightarrow> 'scr world \<Rightarrow> client_frame_outcome \<times> 'scr world" where
  "handle_tail_request_dispatch e idx req w =
     guarded (ensure_cap e idx ''tail-v1'' ''tail.request requires `tail-v1` cap, but it was not negotiated at handshake'' w)
       (ContinueClient, handle_tail_request e idx req w)"

fun tail_end_reason_from_outcome :: "relay_outcome \<Rightarrow> tail_end_reason option" where
  "tail_end_reason_from_outcome (RelayChildExited _) = Some TailChildExited"
| "tail_end_reason_from_outcome RelayClientDetachedOrKilled = Some TailClientCancel"
| "tail_end_reason_from_outcome (RelayError _) = None"
| "tail_end_reason_from_outcome RelayUpgradeRequested = None"

definition is_tail_follow :: "client_handle \<Rightarrow> bool" where
  "is_tail_follow ch = (case ch_subscription ch of SubTailFollow _ \<Rightarrow> True | SubRaw \<Rightarrow> False)"

definition broadcast_tail_end_to_followers :: "'scr env \<Rightarrow> tail_end_reason \<Rightarrow> 'scr world \<Rightarrow> 'scr world" where
  "broadcast_tail_end_to_followers e reason w =
     w\<lparr>w_clients := map (\<lambda>ch. if is_tail_follow ch then snd (send_control (en_enc e) ch (TailEnd reason)) else ch) (w_clients w)\<rparr>"

subsection \<open>Status and settings\<close>

definition handle_status_query :: "'scr env \<Rightarrow> nat \<Rightarrow> 'scr world \<Rightarrow> client_frame_outcome \<times> 'scr world" where
  "handle_status_query e idx w =
     (let child_pid = (if en_child_alive e then Some (nat (en_child_pid e)) else None);
          child_stopped = (child_pid \<noteq> None \<and> ss_child_stopped (w_state w));
          resp = \<lparr>st_session_id = dc_session_id (en_config e), st_child_pid = child_pid,
                  st_child_pgid = (if child_pid \<noteq> None then en_child_pgid e else None),
                  st_daemon_pid = en_daemon_pid e, st_child_stopped = child_stopped,
                  st_child_state = child_state_from_legacy child_pid child_stopped,
                  st_clients = map (\<lambda>c. \<lparr>ci_client_id = ch_id c, ci_mode = ch_mode c, ci_leader = ch_leader c,
                      ci_connected_at_unix_ms = ch_connected_at_unix_ms c\<rparr>) (w_clients w),
                  st_scrollback_bytes = sb_total_bytes (w_scrollback w),
                  st_lock_holder = lk_holder (ds_lock (w_daemon w)),
                  st_cwd = (case dc_cwd (en_config e) of Some p \<Rightarrow> p | None \<Rightarrow> ''/''),
                  st_argv = dc_cmd (en_config e),
                  st_on_child_suspend = Some (case get_child_suspend_policy (w_state w) of
                      SuspendNotify \<Rightarrow> PolicyNotify | SuspendAutoResume \<Rightarrow> PolicyAutoResume),
                  st_daemon_version = en_daemon_version e, st_tags = dc_tags (en_config e)\<rparr>
      in (ContinueClient, reply e idx (StatusResponse resp) w))"

definition handle_set_request :: "'scr env \<Rightarrow> nat \<Rightarrow> set_request \<Rightarrow> 'scr world \<Rightarrow> client_frame_outcome \<times> 'scr world" where
  "handle_set_request e idx req w =
     guarded (ensure_cap e idx ''set-v1'' ''set.request requires `set-v1` cap'' w)
       (guarded (ensure_not_ro e idx ''set requires a writable mode (= rw / rw-no-leader)'' w)
          (if sr_key req = ''on-child-suspend'' then
             (case suspend_policy_from_wire (sr_value req) of
                None \<Rightarrow>
                  (ContinueClient, reply_error e idx SetInvalidValue
                     (''invalid value for on-child-suspend: '' @ sr_value req @ '' (expected notify|auto-resume)'') w)
              | Some policy \<Rightarrow>
                  (let w1 = w\<lparr>w_state := set_child_suspend_policy policy (w_state w)\<rparr>;
                       w2 = log_lifecycle e (PolicyChanged ''on-child-suspend'' (suspend_policy_as_str policy)
                              (ch_id (w_clients w ! idx)) (en_unix_ms e)) w1
                   in (ContinueClient, reply e idx (SetAck \<lparr>sa_key = ''on-child-suspend'',
                         sa_value = suspend_policy_as_str policy\<rparr>) w2)))
           else (ContinueClient, reply_error e idx SetInvalidKey (''unknown set key: '' @ sr_key req) w)))"

subsection \<open>Upgrade\<close>

fun nat_to_oct :: "nat \<Rightarrow> string" where
  "nat_to_oct n = (if n < 8 then [''01234567'' ! n] else nat_to_oct (n div 8) @ [''01234567'' ! (n mod 8)])"

declare nat_to_oct.simps [simp del]

definition precheck_path :: "'scr env \<Rightarrow> string \<Rightarrow> string + unit" where
  "precheck_path e path =
     (case en_stat e path of
        Inl err \<Rightarrow> Inl (''upgrade target `'' @ path @ ''` stat failed: '' @ err)
      | Inr meta \<Rightarrow>
          if \<not> fm_is_file meta then Inl (''upgrade target `'' @ path @ ''` is not a regular file'')
          else if fm_mode meta AND 0x49 = 0
          then Inl (''upgrade target `'' @ path @ ''` is not executable (mode=''
                 @ nat_to_oct (unat (fm_mode meta AND 0x1FF)) @ '')'')
          else if fm_uid meta \<noteq> en_euid e
          then Inl (''upgrade target `'' @ path @ ''` uid='' @ nat_to_dec (fm_uid meta) @ '' != current euid ''
                 @ nat_to_dec (en_euid e))
          else Inr ())"

definition precheck_upgrade_target :: "'scr env \<Rightarrow> string + string" where
  "precheck_upgrade_target e =
     (case (case en_exe_override e of
              Some p \<Rightarrow> Inr p
            | None \<Rightarrow> (case en_current_exe e of Inr p \<Rightarrow> Inr p | Inl err \<Rightarrow> Inl (''current_exe failed: '' @ err))) of
        Inl err \<Rightarrow> Inl err
      | Inr p \<Rightarrow> (case precheck_path e p of Inl err \<Rightarrow> Inl err | Inr _ \<Rightarrow> Inr p))"

definition upgrade_precheck :: "'scr env \<Rightarrow> string option \<Rightarrow> string + unit" where
  "upgrade_precheck e target =
     (case target of
        Some p \<Rightarrow> precheck_path e p
      | None \<Rightarrow> (case precheck_upgrade_target e of Inl err \<Rightarrow> Inl err | Inr _ \<Rightarrow> Inr ()))"

definition handle_upgrade_request ::
  "'scr env \<Rightarrow> nat \<Rightarrow> string option \<Rightarrow> 'scr world \<Rightarrow> client_frame_outcome \<times> 'scr world" where
  "handle_upgrade_request e idx target w =
     guarded (ensure_cap e idx ''upgrade-v1'' ''upgrade.request requires `upgrade-v1` cap'' w)
       (guarded (ensure_not_ro e idx ''upgrade requires a writable mode (= rw / rw-no-leader)'' w)
          (case upgrade_precheck e target of
             Inl msg \<Rightarrow> (ContinueClient, reply_error e idx (UnknownCode ''upgrade.precheck-failed'') msg w)
           | Inr _ \<Rightarrow>
               (let w1 = w\<lparr>w_state := set_upgrade_pending (set_upgrade_target target (w_state w))\<rparr>;
                    w2 = w1\<lparr>w_clients := fst (broadcast_control_with_cap (en_enc e) (w_clients w1) UpgradeAck ''upgrade-v1'')\<rparr>
                in (ContinueClient,
                    log_lifecycle e (SessionTerminatedByCondition ''upgrade-request-accepted'' (en_unix_ms e)) w2))))"

subsection \<open>The screen\<close>

definition handle_screen_dump_request ::
  "'scr env \<Rightarrow> nat \<Rightarrow> screen_dump_request \<Rightarrow> 'scr world \<Rightarrow> client_frame_outcome \<times> 'scr world" where
  "handle_screen_dump_request e idx req w =
     guarded (ensure_cap e idx ''screen-dump-v1'' ''screen.dump.request requires `screen-dump-v1` cap'' w)
       (case en_screen_dump e (w_screen w) (sdq_format req) (sdq_layer req) of
          Inr payload \<Rightarrow>
            (ContinueClient, reply e idx (ScreenDumpResponse \<lparr>sdr_payload = payload, sdr_serial = sdq_serial req\<rparr>) w)
        | Inl FormatNotImplemented \<Rightarrow>
            (ContinueClient, reply_error e idx ProtocolMalformed ''screen.dump format not implemented in MVP (json)'' w)
        | Inl EncodeFailed \<Rightarrow>
            (ContinueClient, reply_error e idx InternalError ''screen.dump cbor encode failed'' w))"

definition snapshot_response ::
  "'scr env \<Rightarrow> 'scr \<Rightarrow> snapshot_component list \<Rightarrow> nat option \<Rightarrow> bytes option \<Rightarrow> state_snapshot_response" where
  "snapshot_response e scr incl serial cells =
     (let want = (\<lambda>c. c \<in> set incl); (rows, cols) = en_screen_size e scr; md = en_screen_mode e scr in
      \<lparr>ss_cells = cells,
       ss_cursor = (if want CompCursor then Some (en_screen_cursor e scr) else None),
       ss_mode = (if want CompMode then Some md else None),
       ss_scrollback = None,
       ss_window_size = (if want CompWindowSize then Some \<lparr>ws_rows = rows, ws_cols = cols\<rparr> else None),
       ss_buffer = (if want CompBuffer then Some (if ms_alternate_screen md then BufAlternate else BufPrimary) else None),
       ss_sequence_no = (if want CompSequenceNo then Some (en_screen_seqno e scr) else None),
       ss_serial = serial\<rparr>)"

definition handle_state_snapshot_request ::
  "'scr env \<Rightarrow> nat \<Rightarrow> snapshot_component list \<Rightarrow> nat option \<Rightarrow> 'scr world \<Rightarrow> client_frame_outcome \<times> 'scr world" where
  "handle_state_snapshot_request e idx incl serial w =
     guarded (ensure_cap e idx ''state-snapshot-v1'' ''screen.snapshot.request requires `state-snapshot-v1` cap'' w)
       (if incl = []
        then (ContinueClient, reply_error e idx ProtocolMalformed
                ''screen.snapshot.request requires at least one include component'' w)
        else
          (case (if CompCells \<in> set incl then map_option Some (en_screen_cells e (w_screen w)) else Some None) of
             None \<Rightarrow> (ContinueClient, reply_error e idx InternalError ''snapshot cells cbor encode failed'' w)
           | Some cells \<Rightarrow>
               if CompScrollback \<in> set incl
               then (ContinueClient, reply_error e idx ProtocolMalformed
                       ''snapshot component `scrollback` not implemented in MVP'' w)
               else (ContinueClient, reply e idx (StateSnapshotResponse (snapshot_response e (w_screen w) incl serial cells)) w)))"

subsection \<open>Dispatch\<close>

definition reject_unexpected_kind :: "'scr env \<Rightarrow> nat \<Rightarrow> 'scr world \<Rightarrow> client_frame_outcome \<times> 'scr world" where
  "reject_unexpected_kind e idx w =
     (ContinueClient, reply_error e idx ProtocolUnexpectedKind
        (''this kind is daemon'' @ [CHR 0xE2, CHR 0x86, CHR 0x92] @ ''client only or not accepted in this direction'') w)"

definition handle_control_message ::
  "'scr env \<Rightarrow> nat \<Rightarrow> control_message \<Rightarrow> 'scr world \<Rightarrow> client_frame_outcome \<times> 'scr world" where
  "handle_control_message e idx msg w =
     (case msg of
        Detach d \<Rightarrow> handle_detach_target e idx d w
      | KillMsg k \<Rightarrow> handle_kill e idx k w
      | SignalMsg s \<Rightarrow> handle_signal e idx s w
      | ResizeMsg r \<Rightarrow> handle_resize e idx r w
      | LeaderRequest \<Rightarrow> handle_leader_request e idx w
      | LockAcquire req \<Rightarrow> handle_lock_acquire e idx req w
      | LockRelease rel \<Rightarrow> handle_lock_release e idx (lrel_token rel) w
      | TailRequest req \<Rightarrow> handle_tail_request_dispatch e idx req w
      | StatusQuery \<Rightarrow> handle_status_query e idx w
      | ScreenDumpRequest req \<Rightarrow> handle_screen_dump_request e idx req w
      | StateSnapshotRequest incl serial \<Rightarrow> handle_state_snapshot_request e idx incl serial w
      | SessionChildResumeRequest \<Rightarrow> handle_session_child_resume_request e idx w
      | RecordStartRequest req \<Rightarrow> handle_record_start_request e idx req w
      | RecordStopRequest i \<Rightarrow> handle_record_stop_request e idx i w
      | RecordStopAllRequest \<Rightarrow> handle_record_stop_all_request e idx w
      | RecordListRequest \<Rightarrow> handle_record_list_request e idx w
      | SetRequest req \<Rightarrow> handle_set_request e idx req w
      | UpgradeRequest target \<Rightarrow> handle_upgrade_request e idx target w
      | _ \<Rightarrow> reject_unexpected_kind e idx w)"

text \<open>\<open>None\<close>: the PTY write has not returned within the answers of the PTY. The record entries reach
  the registry in the order the executor meets them; nothing else reads the registry in between.\<close>

definition handle_raw_data :: "'scr env \<Rightarrow> nat \<Rightarrow> bytes \<Rightarrow> 'scr world \<Rightarrow> (client_frame_outcome \<times> 'scr world) option" where
  "handle_raw_data e idx body w =
     (let cid = ch_id (w_clients w ! idx) in
      case raw_data_pipeline (en_enc e) (en_aenc e) (w_daemon w)
             \<lparr>cx_clients = w_clients w, cx_overflow_ids = [], cx_pty = Some (w_pty w), cx_record = Some []\<rparr>
             cid (ch_mode (w_clients w ! idx)) body of
        None \<Rightarrow> None
      | Some (s', ctx, _) \<Rightarrow>
          Some (if cid \<in> set (cx_overflow_ids ctx) then DropClient else ContinueClient,
                w\<lparr>w_daemon := s', w_clients := cx_clients ctx,
                  w_pty := (case cx_pty ctx of Some t \<Rightarrow> t | None \<Rightarrow> w_pty w),
                  w_registry := fold (push_entry (en_unix_ms e)) (case cx_record ctx of Some r \<Rightarrow> r | None \<Rightarrow> []) (w_registry w)\<rparr>))"

definition handle_client_frame ::
  "'scr env \<Rightarrow> nat \<Rightarrow> frame \<Rightarrow> 'scr world \<Rightarrow> (client_frame_outcome \<times> 'scr world) option" where
  "handle_client_frame e idx fr w =
     (if frame_ty fr = TYPE_RAW_DATA then
        (if ss_upgrade_pending (w_state w)
         then Some (ContinueClient, reply_error e idx (UnknownCode ''upgrade.rejected'')
                ''raw_data rejected: upgrade in progress (drain awaiting exec)'' w)
         else handle_raw_data e idx (frame_body fr) w)
      else if frame_ty fr = TYPE_CBOR_CONTROL then
        (case en_dec e (frame_body fr) of
           None \<Rightarrow> Some (ContinueClient, w)
         | Some msg \<Rightarrow> Some (handle_control_message e idx msg w))
      else Some (DropClient, w))"

subsection \<open>The handlers keep the session invariant\<close>

lemma roster_reply [simp]: "roster (w_clients (reply e idx m w)) = roster (w_clients w)"
  by (simp add: reply_def roster_update)

lemma reply_frame [simp]:
  "w_next_client_id (reply e idx m w) = w_next_client_id w" "w_daemon (reply e idx m w) = w_daemon w"
  "w_closing (reply e idx m w) = w_closing w" "w_registry (reply e idx m w) = w_registry w"
  "w_state (reply e idx m w) = w_state w" "w_winsize (reply e idx m w) = w_winsize w"
  "w_kills (reply e idx m w) = w_kills w" "w_pty (reply e idx m w) = w_pty w"
  "w_screen (reply e idx m w) = w_screen w" "w_scrollback (reply e idx m w) = w_scrollback w"
  "w_overflow (reply e idx m w) = w_overflow w" "w_pending (reply e idx m w) = w_pending w"
  "w_pending_redraws (reply e idx m w) = w_pending_redraws w"
  by (simp_all add: reply_def)

lemma session_inv_reply: "session_inv w \<Longrightarrow> session_inv (reply e idx m w)"
  by (erule session_inv_cong) simp_all

lemma session_inv_reply_error: "session_inv w \<Longrightarrow> session_inv (reply_error e idx c t w)"
  by (simp add: reply_error_def session_inv_reply)

lemmas session_intros =
  session_inv_reply session_inv_reply_error session_inv_log session_inv_broadcast
  session_inv_execute session_inv_execute_ignore

text \<open>A guard refuses with an error reply, or lets the rest run.\<close>

lemma guarded_cases:
  "guarded (ensure_cap e idx cap t w) r =
     (if cap \<in> set (ch_negotiated_caps (w_clients w ! idx)) then r else (ContinueClient, reply_error e idx UnsupportedCapability t w))"
  "guarded (ensure_rw_mode e idx t w) r =
     (if ch_mode (w_clients w ! idx) = Rw then r else (ContinueClient, reply_error e idx ModeNotAllowed t w))"
  "guarded (ensure_not_ro e idx t w) r =
     (if ch_mode (w_clients w ! idx) \<noteq> Ro then r else (ContinueClient, reply_error e idx ModeNotAllowed t w))"
  "guarded (ensure_leader e idx t w) r =
     (if ch_leader (w_clients w ! idx) then r else (ContinueClient, reply_error e idx ModeNotLeader t w))"
  "guarded (Inr ()) r = r"
  by (auto simp: guarded_def ensure_cap_def ensure_rw_mode_def ensure_not_ro_def ensure_leader_def list_ex_iff)

lemma session_inv_kill: "session_inv w \<Longrightarrow> session_inv (send_kill t s w)"
  by (erule session_inv_cong) (simp_all add: send_kill_def)

lemma session_inv_state: "session_inv w \<Longrightarrow> session_inv (w\<lparr>w_state := s\<rparr>)"
  by (erule session_inv_cong) simp_all

lemma session_inv_registry_update: "session_inv w \<Longrightarrow> registry_inv reg \<Longrightarrow> session_inv (w\<lparr>w_registry := reg\<rparr>)"
  by (erule session_inv_cong) simp_all

lemma resume_inv: "session_inv w \<Longrightarrow> session_inv (snd (handle_session_child_resume_request e idx w))"
proof -
  assume inv: "session_inv w"
  let ?w1 = "log_lifecycle e (ResumeRequestReceived (ch_id (w_clients w ! idx)) (en_unix_ms e)) w"
  let ?ch = "fst (send_attach_redraw e (w_clients ?w1 ! idx) (w_screen ?w1))"
  have "session_inv (?w1\<lparr>w_clients := (w_clients ?w1)[idx := ?ch]\<rparr>)"
    by (rule session_inv_clients) (use inv in \<open>auto intro!: session_intros roster_update\<close>)
  with inv show ?thesis
    by (auto simp: handle_session_child_resume_request_def guarded_cases case_prod_beta Let_def
        intro!: session_intros session_inv_kill)
qed

lemma kill_inv: "session_inv w \<Longrightarrow> session_inv (snd (handle_kill e idx k w))"
  by (auto simp: handle_kill_def guarded_cases Let_def intro!: session_intros session_inv_kill split: sum.splits)

lemma signal_inv: "session_inv w \<Longrightarrow> session_inv (snd (handle_signal e idx s w))"
  by (auto simp: handle_signal_def guarded_cases intro!: session_intros session_inv_kill split: option.splits)

lemma resize_inv: "session_inv w \<Longrightarrow> session_inv (snd (handle_resize e idx r w))"
  by (auto simp: handle_resize_def guarded_cases case_prod_beta Let_def intro!: session_intros elim!: session_inv_cong)

lemma detach_inv: "session_inv w \<Longrightarrow> session_inv (snd (handle_detach_target e idx t w))"
  by (cases t) (auto simp: handle_detach_target_def guarded_cases Let_def intro!: session_intros)

lemma take_leader_modes:
  "take_leader cs idx = Some (cs', r) \<Longrightarrow> map (\<lambda>c. ch_mode c = Ro) cs' = map (\<lambda>c. ch_mode c = Ro) cs"
  by (auto simp: take_leader_def Let_def map_update list_update_same_conv comp_def split: if_splits)

lemma leader_request_inv:
  assumes "session_inv w" and "idx < length (w_clients w)"
  shows "session_inv (snd (handle_leader_request e idx w))"
proof (cases "take_leader (w_clients w) idx")
  case None
  with assms take_leader_defined show ?thesis by blast
next
  case (Some x)
  obtain cs r where x: "x = (cs, r)" by fastforce
  have t: "session_inv (w\<lparr>w_clients := cs\<rparr>)" if m: "ch_mode (w_clients w ! idx) \<noteq> Ro"
  proof -
    have d: "distinct (map ch_id (w_clients w))" and l: "leader_inv (w_clients w)"
      using assms(1) by (simp_all add: session_inv_def base_inv_def)
    note sp = take_leader_spec [OF assms(2) d l m Some [unfolded x]]
    have "leader_complete cs" using sp(1) by (simp add: leader_complete_def)
    with sp base_inv_ids_modes [OF _ sp(3) take_leader_modes [OF Some [unfolded x]]] assms(1) show ?thesis
      by (simp add: session_inv_def)
  qed
  with assms(1) Some x show ?thesis
    by (cases r) (auto simp: handle_leader_request_def guarded_cases Let_def intro!: session_intros)
qed

lemma lock_world_inv:
  assumes "session_inv w" and "lock_world m w = (evs, es, w')"
    and "\<And>c t. m = LAcquire c t \<Longrightarrow> \<exists>ch \<in> set (w_clients w). ch_id ch = c \<and> ch_mode ch \<noteq> Ro"
  shows "session_inv w'" and "\<exists>l. w' = w\<lparr>w_daemon := (w_daemon w)\<lparr>ds_lock := l\<rparr>\<rparr>"
    and "evs = snd (lock_reduce (ds_lock (w_daemon w)) m)"
proof -
  let ?l = "ds_lock (w_daemon w)"
  let ?r = "lock_reduce_msg ?l m :: lock_state \<times> daemon_msg domain_output \<times> lock_event list"
  have w': "w' = w\<lparr>w_daemon := (w_daemon w)\<lparr>ds_lock := fst ?r\<rparr>\<rparr>" and ev: "evs = snd (snd ?r)"
    using assms(2) by (auto simp: lock_world_def case_prod_beta Let_def)
  then show "\<exists>l. w' = w\<lparr>w_daemon := (w_daemon w)\<lparr>ds_lock := l\<rparr>\<rparr>" by blast
  show "evs = snd (lock_reduce ?l m)" using ev lock_reduce_msg_same(2) by simp
  have inv: "lock_inv ?l" "holder_ok ?l (w_clients w)" using assms(1) by (simp_all add: session_inv_def base_inv_def)
  have h: "lk_holder (fst ?r) = lk_holder (fst (lock_reduce ?l m))"
    using lock_reduce_msg_same(1) [of ?l m, where 'a = daemon_msg] by (simp add: same_lock_def)
  have "holder_ok (fst (lock_reduce ?l m)) (w_clients w)"
    using inv(2) assms(3) by (cases m) (auto simp: holder_ok_def lock_grant_def lock_clear_def split: option.splits)
  with h have "holder_ok (fst ?r) (w_clients w)" by (simp add: holder_ok_def)
  with assms(1) lock_reduce_msg_refines(1) [OF inv(1), of m, where 'a = daemon_msg] w' show "session_inv w'"
    by (simp add: session_inv_def base_inv_def)
qed

lemma lock_acquire_inv:
  assumes "session_inv w" and "idx < length (w_clients w)"
  shows "session_inv (snd (handle_lock_acquire e idx req w))"
proof (cases "ch_mode (w_clients w ! idx) = Ro")
  case True
  with assms(1) show ?thesis by (auto simp: handle_lock_acquire_def guarded_cases Let_def intro!: session_intros)
next
  case False
  let ?c = "ch_id (w_clients w ! idx)"
  have att: "\<exists>ch \<in> set (w_clients w). ch_id ch = ?c \<and> ch_mode ch \<noteq> Ro" using False assms(2) by (auto intro: nth_mem)
  obtain evs es w1 where l1: "lock_world (LAcquire ?c None) w = (evs, es, w1)" by (metis prod_cases3)
  from lock_world_inv(1,2) [OF assms(1) l1] att
  have i1: "session_inv w1" and c1: "w_clients w1 = w_clients w" by auto
  have step: "session_inv w2" if "lock_world (LAcquire ?c (Some tok)) w1 = (evs2, es2, w2)" for tok evs2 es2 w2
    using lock_world_inv(1) [OF i1 that] att c1 by auto
  show ?thesis
    using assms(1) False l1 i1 step
    by (auto simp: handle_lock_acquire_def guarded_cases Let_def split: sum.splits prod.splits intro!: session_intros)
qed

lemma lock_release_inv: "session_inv w \<Longrightarrow> session_inv (snd (handle_lock_release e idx tok w))"
proof -
  assume inv: "session_inv w"
  obtain evs es w1 where l1: "lock_world (LRelease (ch_id (w_clients w ! idx)) tok) w = (evs, es, w1)" by (metis prod_cases3)
  from lock_world_inv(1) [OF inv l1] l1 show ?thesis
    by (auto simp: handle_lock_release_def Let_def intro!: session_intros)
qed

lemma record_inv:
  assumes "session_inv w"
  shows "session_inv (snd (handle_record_start_request e idx req w))"
    and "session_inv (snd (handle_record_stop_request e idx i w))"
    and "session_inv (snd (handle_record_stop_all_request e idx w))"
    and "session_inv (snd (handle_record_list_request e idx w))"
proof -
  note reg = session_inv_registry [OF assms]
  have r1: "registry_inv (snd (registry_start env req c si (w_registry w)))" for env req c si
    using registry_inv_start [OF reg] .
  have r2: "registry_inv (snd (registry_stop i (w_registry w)))" "registry_inv (snd (registry_stop_all (w_registry w)))"
    using registry_inv_step [OF reg, of "RegStop i"] registry_inv_step [OF reg, of RegStopAll] by simp_all
  show "session_inv (snd (handle_record_start_request e idx req w))"
    using assms r1 by (auto simp: handle_record_start_request_def guarded_cases case_prod_beta Let_def
        intro!: session_intros session_inv_registry_update split: sum.splits)
  show "session_inv (snd (handle_record_stop_request e idx i w))"
    using assms r2 by (auto simp: handle_record_stop_request_def guarded_cases case_prod_beta Let_def
        intro!: session_intros session_inv_registry_update split: sum.splits)
  show "session_inv (snd (handle_record_stop_all_request e idx w))"
    using assms r2 by (auto simp: handle_record_stop_all_request_def guarded_cases case_prod_beta Let_def
        intro!: session_intros session_inv_registry_update)
  show "session_inv (snd (handle_record_list_request e idx w))"
    using assms by (auto simp: handle_record_list_request_def guarded_cases intro!: session_intros)
qed

lemma tail_inv: "session_inv w \<Longrightarrow> session_inv (snd (handle_tail_request_dispatch e idx req w))"
proof -
  assume inv: "session_inv w"
  have sub: "session_inv (w'\<lparr>w_clients := (w_clients w')[idx := (w_clients w' ! idx)\<lparr>ch_subscription := s\<rparr>]\<rparr>)"
    if "session_inv w'" for w' :: "'a world" and s
  proof (rule session_inv_clients [OF that])
    show "roster ((w_clients w')[idx := (w_clients w' ! idx)\<lparr>ch_subscription := s\<rparr>]) = roster (w_clients w')"
      by (cases "idx < length (w_clients w')") (simp_all add: roster_def map_update list_update_same_conv list_update_beyond)
  qed
  from inv show ?thesis
    by (auto simp: handle_tail_request_dispatch_def guarded_cases handle_tail_request_def Let_def
        intro!: session_intros sub split: option.splits)
qed

lemma misc_inv:
  assumes "session_inv w"
  shows "session_inv (snd (handle_status_query e idx w))"
    and "session_inv (snd (handle_set_request e idx sreq w))"
    and "session_inv (snd (handle_upgrade_request e idx target w))"
    and "session_inv (snd (handle_screen_dump_request e idx dreq w))"
    and "session_inv (snd (handle_state_snapshot_request e idx incl serial w))"
    and "session_inv (snd (reject_unexpected_kind e idx w))"
proof -
  show "session_inv (snd (handle_status_query e idx w))"
    using assms by (simp add: handle_status_query_def Let_def session_inv_reply)
  show "session_inv (snd (handle_set_request e idx sreq w))"
    using assms by (auto simp: handle_set_request_def guarded_cases Let_def intro!: session_intros session_inv_state split: option.splits)
  have up: "session_inv (w'\<lparr>w_clients := fst (broadcast_control_with_cap enc (w_clients w') m cap)\<rparr>)"
    if "session_inv w'" for w' :: "'a world" and enc m cap
    by (rule session_inv_clients [OF that]) simp
  show "session_inv (snd (handle_upgrade_request e idx target w))"
    using assms up [OF session_inv_state [OF assms]]
    by (auto simp: handle_upgrade_request_def guarded_cases Let_def intro!: session_intros split: sum.splits)
  show "session_inv (snd (handle_screen_dump_request e idx dreq w))"
    using assms by (auto simp: handle_screen_dump_request_def guarded_cases intro!: session_intros
        split: sum.splits screen_dump_error.splits)
  show "session_inv (snd (handle_state_snapshot_request e idx incl serial w))"
    using assms by (auto simp: handle_state_snapshot_request_def guarded_cases intro!: session_intros split: option.splits)
  show "session_inv (snd (reject_unexpected_kind e idx w))"
    using assms by (simp add: reject_unexpected_kind_def session_inv_reply_error)
qed

lemmas handler_inv = resume_inv kill_inv signal_inv resize_inv detach_inv leader_request_inv lock_acquire_inv
  lock_release_inv record_inv tail_inv misc_inv

lemma control_message_inv:
  assumes "session_inv w" and "idx < length (w_clients w)"
  shows "session_inv (snd (handle_control_message e idx msg w))"
  using assms by (cases msg) (simp_all add: handle_control_message_def handler_inv)

subsection \<open>Raw input\<close>

lemma roster_deliver: "roster (cx_clients (snd (deliver_ack aenc c ack ctx))) = roster (cx_clients ctx)"
  "roster (cx_clients (deliver_control enc c msg ctx)) = roster (cx_clients ctx)"
  "roster (cx_clients (drop_later c ctx)) = roster (cx_clients ctx)"
  "roster (cx_clients (record_push en ctx)) = roster (cx_clients ctx)"
  by (simp_all add: deliver_ack_def deliver_control_def drop_later_def record_push_def Let_def roster_on_client)

lemma roster_ack_or_drop: "roster (cx_clients (ack_or_drop aenc c ack ctx)) = roster (cx_clients ctx)"
  by (simp add: ack_or_drop_def Let_def roster_deliver)

lemma roster_written_input: "roster (cx_clients (written_input enc aenc ctx c bs o')) = roster (cx_clients ctx)"
  by (simp add: written_input_def Let_def roster_deliver roster_ack_or_drop split: option.splits)

lemma raw_data_spec_roster:
  "raw_data_spec enc aenc lock t ctx c m bs = Some ctx' \<Longrightarrow> roster (cx_clients ctx') = roster (cx_clients ctx)"
  by (auto simp: raw_data_spec_def roster_ack_or_drop roster_written_input roster_deliver
      split: option.splits sum.splits)

lemma registry_inv_entries: "registry_inv reg \<Longrightarrow> registry_inv (fold (push_entry now) es reg)"
  by (induction es arbitrary: reg) (simp_all add: registry_inv_pushes)

lemma raw_data_inv:
  assumes "session_inv w" and "handle_raw_data e idx body w = Some (oc, w')"
  shows "session_inv w'" and "ds_lock (w_daemon w') = ds_lock (w_daemon w)" and "roster (w_clients w') = roster (w_clients w)"
proof -
  let ?ctx = "\<lparr>cx_clients = w_clients w, cx_overflow_ids = [], cx_pty = Some (w_pty w), cx_record = Some []\<rparr>"
  let ?c = "ch_id (w_clients w ! idx)" and ?m = "ch_mode (w_clients w ! idx)"
  have p: "cx_pty ?ctx = Some (w_pty w)" by simp
  from assms(2) raw_data_refines [OF session_inv_idle [OF assms(1)] p, of "en_enc e" "en_aenc e" ?c ?m body]
  obtain s' ctx where sp: "raw_data_spec (en_enc e) (en_aenc e) (ds_lock (w_daemon w)) (w_pty w) ?ctx ?c ?m body = Some ctx"
    and s': "cr_idle (ds_clients s')" "ds_lock s' = ds_lock (w_daemon w)"
    and w': "w' = w\<lparr>w_daemon := s', w_clients := cx_clients ctx,
                  w_pty := (case cx_pty ctx of Some t \<Rightarrow> t | None \<Rightarrow> w_pty w),
                  w_registry := fold (push_entry (en_unix_ms e)) (case cx_record ctx of Some r \<Rightarrow> r | None \<Rightarrow> []) (w_registry w)\<rparr>"
    by (auto simp: handle_raw_data_def Let_def split: option.splits)
  have r: "roster (cx_clients ctx) = roster (w_clients w)" using raw_data_spec_roster [OF sp] by simp
  then show "roster (w_clients w') = roster (w_clients w)" "ds_lock (w_daemon w') = ds_lock (w_daemon w)"
    using s' w' by simp_all
  from assms(1) table_cong [OF r] ids_bound_roster r s' w' show "session_inv w'"
    by (simp add: session_inv_def base_inv_def registry_inv_entries)
qed

lemma raw_data_read_only:
  assumes "session_inv w" and "ch_mode (w_clients w ! idx) = Ro"
  shows "\<exists>oc w'. handle_raw_data e idx body w = Some (oc, w') \<and> w_pty w' = w_pty w \<and> w_kills w' = w_kills w
    \<and> w_winsize w' = w_winsize w \<and> w_state w' = w_state w \<and> (oc = ContinueClient \<or> oc = DropClient)"
proof -
  let ?ctx = "\<lparr>cx_clients = w_clients w, cx_overflow_ids = [], cx_pty = Some (w_pty w), cx_record = Some []\<rparr>"
  let ?c = "ch_id (w_clients w ! idx)"
  have d: "input_denied (ds_lock (w_daemon w)) ?c (ch_mode (w_clients w ! idx)) =
      Some (RejectRoClient, RawAck_err CODE_CLIENT_RO_REJECTED ''client is read-only; input rejected by daemon'')"
    using assms(2) by (simp add: input_denied_def)
  from raw_data_denied [OF session_inv_idle [OF assms(1)] d, of "en_enc e" "en_aenc e" ?ctx body]
  obtain s' ctx where r: "raw_data_pipeline (en_enc e) (en_aenc e) (w_daemon w) ?ctx ?c (ch_mode (w_clients w ! idx)) body
      = Some (s', ctx, False)" and p: "cx_pty ctx = Some (w_pty w)"
    by (fastforce simp: ack_or_drop_effects)
  then show ?thesis by (simp add: handle_raw_data_def Let_def)
qed

lemma client_frame_inv:
  assumes "session_inv w" and "idx < length (w_clients w)" and "handle_client_frame e idx fr w = Some (oc, w')"
  shows "session_inv w'"
  using assms control_message_inv [OF assms(1,2)] raw_data_inv(1) [OF assms(1)]
  by (auto simp: handle_client_frame_def intro: session_inv_reply_error split: if_splits option.splits)
    (metis snd_conv)

subsection \<open>What each request may touch\<close>

lemma execute_ignore_frame [simp]:
  "w_state (execute_world_ignore e es w) = w_state w" "w_winsize (execute_world_ignore e es w) = w_winsize w"
  "w_kills (execute_world_ignore e es w) = w_kills w" "w_screen (execute_world_ignore e es w) = w_screen w"
  "w_pty (execute_world_ignore e es w) = w_pty w"
  by (simp_all add: execute_world_ignore_def case_prod_beta Let_def)

lemma broadcast_world_frame [simp]:
  "w_state (fst (broadcast_world e m w)) = w_state w" "w_winsize (fst (broadcast_world e m w)) = w_winsize w"
  "w_kills (fst (broadcast_world e m w)) = w_kills w" "w_screen (fst (broadcast_world e m w)) = w_screen w"
  "w_pty (fst (broadcast_world e m w)) = w_pty w" "w_daemon (fst (broadcast_world e m w)) = w_daemon w"
  "roster (w_clients (fst (broadcast_world e m w))) = roster (w_clients w)"
  by (simp_all add: broadcast_world_def case_prod_beta Let_def)

lemma lock_world_frame [simp]:
  "w_state (snd (snd (lock_world m w))) = w_state w" "w_winsize (snd (snd (lock_world m w))) = w_winsize w"
  "w_kills (snd (snd (lock_world m w))) = w_kills w" "w_screen (snd (snd (lock_world m w))) = w_screen w"
  "w_pty (snd (snd (lock_world m w))) = w_pty w" "w_clients (snd (snd (lock_world m w))) = w_clients w"
  by (simp_all add: lock_world_def case_prod_beta Let_def)

lemma send_kill_frame [simp]:
  "w_state (send_kill t s w) = w_state w" "w_winsize (send_kill t s w) = w_winsize w"
  "w_kills (send_kill t s w) = w_kills w @ [(t, s)]" "w_screen (send_kill t s w) = w_screen w"
  "w_pty (send_kill t s w) = w_pty w" "w_daemon (send_kill t s w) = w_daemon w" "w_clients (send_kill t s w) = w_clients w"
  by (simp_all add: send_kill_def)

lemma reply_error_frame [simp]:
  "w_daemon (reply_error e idx c t w) = w_daemon w" "w_state (reply_error e idx c t w) = w_state w"
  "w_winsize (reply_error e idx c t w) = w_winsize w" "w_kills (reply_error e idx c t w) = w_kills w"
  "w_pty (reply_error e idx c t w) = w_pty w" "w_screen (reply_error e idx c t w) = w_screen w"
  "roster (w_clients (reply_error e idx c t w)) = roster (w_clients w)"
  by (simp_all add: reply_error_def)

text \<open>The parts of the world that a request needs an authority for; the queues, the record registry and the
  subscription of the requester are not among them.\<close>

definition view ::
  "'scr world \<Rightarrow> (kill_target \<times> nat) list \<times> (16 word \<times> 16 word) \<times> session_state \<times> tty_master \<times> daemon_state
     \<times> (client_id \<times> client_mode \<times> bool) list" where
  "view w = (w_kills w, w_winsize w, w_state w, w_pty w, w_daemon w, roster (w_clients w))"

lemma view_simps [simp]:
  "view (reply e idx m w) = view w" "view (reply_error e idx c t w) = view w" "view (log_lifecycle e ev w) = view w"
  "view (w\<lparr>w_registry := r\<rparr>) = view w" "view (fst (broadcast_world e m w)) = view w"
  by (simp_all add: view_def)

lemma view_send_kill: "view (send_kill t s w) = (w_kills w @ [(t, s)], snd (view w))"
  by (simp add: view_def)

lemma view_subscription:
  "view (w\<lparr>w_clients := (w_clients w)[idx := (w_clients w ! idx)\<lparr>ch_subscription := s\<rparr>]\<rparr>) = view w"
  by (cases "idx < length (w_clients w)")
    (simp_all add: view_def roster_def map_update list_update_same_conv list_update_beyond)

lemma view_tail: "view (snd (handle_tail_request_dispatch e idx req w)) = view w"
  by (simp add: handle_tail_request_dispatch_def handle_tail_request_def guarded_cases Let_def view_subscription
      split: option.splits)

lemma view_records:
  "view (snd (handle_record_start_request e idx req w)) = view w"
  "view (snd (handle_record_stop_request e idx i w)) = view w"
  "view (snd (handle_record_stop_all_request e idx w)) = view w"
  "view (snd (handle_record_list_request e idx w)) = view w"
  by (simp_all add: handle_record_start_request_def handle_record_stop_request_def handle_record_stop_all_request_def
      handle_record_list_request_def guarded_cases case_prod_beta Let_def split: sum.splits)

lemma view_screen:
  "view (snd (handle_screen_dump_request e idx dreq w)) = view w"
  "view (snd (handle_state_snapshot_request e idx incl serial w)) = view w"
  by (simp_all add: handle_screen_dump_request_def handle_state_snapshot_request_def guarded_cases
      split: sum.splits screen_dump_error.splits option.splits)

lemma view_quiet:
  "view (snd (handle_status_query e idx w)) = view w"
  "view (snd (reject_unexpected_kind e idx w)) = view w"
  "view (snd (handle_detach_target e idx t w)) = view w"
  by (simp_all add: handle_status_query_def reject_unexpected_kind_def Let_def)
    (cases t; simp add: handle_detach_target_def guarded_cases Let_def)

definition resolve_signal :: "'scr env \<Rightarrow> string option \<Rightarrow> nat option" where
  "resolve_signal e s = (case s of None \<Rightarrow> Some SIGTERM | Some x \<Rightarrow> map_option fst (en_parse_signal e x))"

text \<open>The authority of a request, given the client that makes it: the signals it sends, the window size and the session
  settings it leads to.\<close>

definition signals_for :: "'scr env \<Rightarrow> client_handle \<Rightarrow> bool \<Rightarrow> control_message \<Rightarrow> (kill_target \<times> nat) list" where
  "signals_for e ch redraw_fits msg =
     (case msg of
        KillMsg k \<Rightarrow>
          if ch_mode ch = Rw
          then (case resolve_signal e (kl_signal k) of
                  Some sig \<Rightarrow> (if signal_should_cont_first sig then [(ToChild, SIGCONT)] else []) @ [(ToChild, sig)]
                | None \<Rightarrow> [])
          else []
      | SignalMsg s \<Rightarrow>
          if ch_mode ch \<noteq> Ro then (case resolve_signal e (Some s) of Some sig \<Rightarrow> [(ToChild, sig)] | None \<Rightarrow> []) else []
      | SessionChildResumeRequest \<Rightarrow>
          if ''child-state-v1'' \<in> set (ch_negotiated_caps ch) \<and> redraw_fits then [(ToGroup, SIGCONT)] else []
      | _ \<Rightarrow> [])"

definition winsize_for :: "client_handle \<Rightarrow> 16 word \<times> 16 word \<Rightarrow> control_message \<Rightarrow> 16 word \<times> 16 word" where
  "winsize_for ch old msg =
     (case msg of ResizeMsg r \<Rightarrow> if ch_leader ch then normalize_size (rz_cols r) (rz_rows r) else old | _ \<Rightarrow> old)"

definition state_for :: "'scr env \<Rightarrow> client_handle \<Rightarrow> session_state \<Rightarrow> control_message \<Rightarrow> session_state" where
  "state_for e ch old msg =
     (case msg of
        SetRequest r \<Rightarrow>
          if ''set-v1'' \<in> set (ch_negotiated_caps ch) \<and> ch_mode ch \<noteq> Ro \<and> sr_key r = ''on-child-suspend''
          then (case suspend_policy_from_wire (sr_value r) of
                  Some p \<Rightarrow> old\<lparr>ss_child_suspend_policy := policy_to_u8 p\<rparr> | None \<Rightarrow> old)
          else old
      | UpgradeRequest target \<Rightarrow>
          if ''upgrade-v1'' \<in> set (ch_negotiated_caps ch) \<and> ch_mode ch \<noteq> Ro \<and> upgrade_precheck e target = Inr ()
          then old\<lparr>ss_upgrade_pending := True, ss_upgrade_target := target\<rparr> else old
      | _ \<Rightarrow> old)"

lemma view_kill:
  "view (snd (handle_kill e idx k w)) = (w_kills w @ signals_for e (w_clients w ! idx) b (KillMsg k), snd (view w))"
  by (auto simp: handle_kill_def guarded_cases signals_for_def resolve_signal_def signal_name_to_nix_signal_def Let_def
      view_send_kill view_def split: option.splits)

lemma view_signal:
  "view (snd (handle_signal e idx s w)) = (w_kills w @ signals_for e (w_clients w ! idx) b (SignalMsg s), snd (view w))"
  by (auto simp: handle_signal_def guarded_cases signals_for_def resolve_signal_def signal_name_to_nix_signal_def
      view_send_kill view_def split: option.splits)

lemma view_resume:
  "view (snd (handle_session_child_resume_request e idx w)) =
     (w_kills w @ signals_for e (w_clients w ! idx) (snd (send_attach_redraw e (w_clients w ! idx) (w_screen w)) = [])
        SessionChildResumeRequest, snd (view w))"
  by (auto simp: handle_session_child_resume_request_def guarded_cases signals_for_def case_prod_beta Let_def
      view_send_kill view_def roster_update)

lemma view_resize:
  "view (snd (handle_resize e idx r w)) =
     (w_kills w, winsize_for (w_clients w ! idx) (w_winsize w) (ResizeMsg r), snd (snd (view w)))"
  by (auto simp: handle_resize_def guarded_cases winsize_for_def case_prod_beta Let_def view_def)

lemma view_set:
  "view (snd (handle_set_request e idx r w)) =
     (w_kills w, w_winsize w, state_for e (w_clients w ! idx) (w_state w) (SetRequest r), snd (snd (snd (view w))))"
  by (auto simp: handle_set_request_def guarded_cases state_for_def Let_def view_def set_child_suspend_policy_def
      split: option.splits)

lemma view_upgrade:
  "view (snd (handle_upgrade_request e idx target w)) =
     (w_kills w, w_winsize w, state_for e (w_clients w ! idx) (w_state w) (UpgradeRequest target), snd (snd (snd (view w))))"
proof (cases "upgrade_precheck e target")
  case (Inl msg)
  then show ?thesis by (auto simp: handle_upgrade_request_def guarded_cases state_for_def view_def)
next
  case (Inr u)
  then show ?thesis
    by (auto simp: handle_upgrade_request_def guarded_cases state_for_def Let_def view_def set_upgrade_pending_def
        set_upgrade_target_def)
qed

lemma view_leader:
  "\<exists>r. view (snd (handle_leader_request e idx w)) = (w_kills w, w_winsize w, w_state w, w_pty w, w_daemon w, r)"
  by (auto simp: handle_leader_request_def guarded_cases Let_def view_def split: option.splits leader_takeover.splits)

lemma execute_ignore_view: "\<exists>d r. view (execute_world_ignore e es w) = (w_kills w, w_winsize w, w_state w, w_pty w, d, r)"
  by (simp add: view_def)

lemma view_lock_acquire:
  "\<exists>d r. view (snd (handle_lock_acquire e idx req w)) = (w_kills w, w_winsize w, w_state w, w_pty w, d, r)"
  by (simp add: handle_lock_acquire_def guarded_cases case_prod_beta Let_def view_def split: sum.splits)

lemma view_lock_release:
  "\<exists>d r. view (snd (handle_lock_release e idx tok w)) = (w_kills w, w_winsize w, w_state w, w_pty w, d, r)"
  by (simp add: handle_lock_release_def case_prod_beta Let_def view_def)

lemmas view_handlers = view_tail view_records view_screen view_quiet view_kill [where b = True] view_signal [where b = True]
  view_resume view_resize view_set view_upgrade

text \<open>Signals, window size and session settings after any control message.\<close>

lemma view_control:
  "\<exists>d r. view (snd (handle_control_message e idx msg w)) =
     (w_kills w @ signals_for e (w_clients w ! idx) (snd (send_attach_redraw e (w_clients w ! idx) (w_screen w)) = []) msg,
      winsize_for (w_clients w ! idx) (w_winsize w) msg, state_for e (w_clients w ! idx) (w_state w) msg, w_pty w, d, r)"
  using view_leader [of e idx w] view_lock_acquire [of e idx _ w] view_lock_release [of e idx _ w]
  by (cases msg) (simp_all add: handle_control_message_def view_handlers signals_for_def winsize_for_def state_for_def,
    simp_all add: view_def)

lemma view_other:
  assumes "\<forall>r. msg \<noteq> LockAcquire r" and "\<forall>r. msg \<noteq> LockRelease r" and "msg \<noteq> LeaderRequest"
  shows "w_daemon (snd (handle_control_message e idx msg w)) = w_daemon w"
    and "roster (w_clients (snd (handle_control_message e idx msg w))) = roster (w_clients w)"
proof -
  have "snd (snd (snd (snd (view (snd (handle_control_message e idx msg w)))))) = snd (snd (snd (snd (view w))))"
    using assms by (cases msg) (simp_all add: handle_control_message_def view_handlers)
  then show "w_daemon (snd (handle_control_message e idx msg w)) = w_daemon w"
    "roster (w_clients (snd (handle_control_message e idx msg w))) = roster (w_clients w)"
    by (simp_all add: view_def)
qed

subsection \<open>Lock and leader requests\<close>

definition lock_for :: "'scr env \<Rightarrow> client_handle \<Rightarrow> abstract_lock \<Rightarrow> control_message \<Rightarrow> abstract_lock" where
  "lock_for e ch old msg =
     (case msg of
        LockAcquire _ \<Rightarrow>
          if ''lock'' \<in> set (ch_negotiated_caps ch) \<and> ch_mode ch \<noteq> Ro \<and> old = None
          then (case generate_lock_token e of Inr t \<Rightarrow> Some (ch_id ch, t) | Inl _ \<Rightarrow> None)
          else old
      | LockRelease rel \<Rightarrow> if old = Some (ch_id ch, lrel_token rel) then None else old
      | _ \<Rightarrow> old)"

definition world_lock :: "'scr world \<Rightarrow> abstract_lock" where
  "world_lock w = lock_abs (ds_lock (w_daemon w))"

lemma world_lock_execute: "cr_idle (ds_clients (w_daemon w)) \<Longrightarrow> world_lock (execute_world_ignore e es w) = world_lock w
    \<and> roster (w_clients (execute_world_ignore e es w)) = roster (w_clients w)"
  using execute_world_ignore_keeps [of w e es] by (auto simp: world_lock_def)

lemma world_lock_simps [simp]:
  "world_lock (reply e idx m w) = world_lock w" "world_lock (reply_error e idx c t w) = world_lock w"
  "world_lock (log_lifecycle e ev w) = world_lock w"
  by (simp_all add: world_lock_def)

lemma world_lock_step:
  assumes "lock_inv (ds_lock (w_daemon w))" and "lock_world m w = (evs, es, w')"
  shows "world_lock w' = abstract_lock_step (world_lock w) m" and "ds_clients (w_daemon w') = ds_clients (w_daemon w)"
    and "lock_inv (ds_lock (w_daemon w'))" and "w_clients w' = w_clients w"
    and "evs = snd (lock_reduce (ds_lock (w_daemon w)) m)"
proof -
  let ?l = "ds_lock (w_daemon w)"
  let ?r = "lock_reduce_msg ?l m :: lock_state \<times> daemon_msg domain_output \<times> lock_event list"
  have "lock_inv (fst ?r)" "lock_abs (fst ?r) = abstract_lock_step (lock_abs ?l) m" "snd (snd ?r) = snd (lock_reduce ?l m)"
    by (rule lock_reduce_msg_refines [OF assms(1)] lock_reduce_msg_same(2))+
  then show "world_lock w' = abstract_lock_step (world_lock w) m" "ds_clients (w_daemon w') = ds_clients (w_daemon w)"
    "lock_inv (ds_lock (w_daemon w'))" "w_clients w' = w_clients w" "evs = snd (lock_reduce ?l m)"
    using assms(2) by (auto simp: lock_world_def case_prod_beta Let_def world_lock_def)
qed

lemma token_required_iff:
  "lock_inv l \<Longrightarrow> list_ex is_token_required (snd (lock_reduce l (LAcquire c None))) \<longleftrightarrow> lock_abs l = None"
  by (auto simp: is_token_required_def lock_inv_def lock_abs_def split: option.splits)

lemma acquire_no_token: "abstract_lock_step l (LAcquire c None) = l"
  by (cases l) auto

lemma acquire_lock:
  assumes "session_inv w"
  shows "world_lock (snd (handle_lock_acquire e idx req w)) = lock_for e (w_clients w ! idx) (world_lock w) (LockAcquire req)
    \<and> roster (w_clients (snd (handle_lock_acquire e idx req w))) = roster (w_clients w)"
proof (cases "''lock'' \<in> set (ch_negotiated_caps (w_clients w ! idx)) \<and> ch_mode (w_clients w ! idx) \<noteq> Ro")
  case False
  then show ?thesis by (auto simp: handle_lock_acquire_def guarded_cases lock_for_def Let_def)
next
  case True
  let ?c = "ch_id (w_clients w ! idx)"
  have li: "lock_inv (ds_lock (w_daemon w))" and idle: "cr_idle (ds_clients (w_daemon w))"
    using assms by (simp_all add: session_inv_def base_inv_def)
  obtain evs es w1 where l1: "lock_world (LAcquire ?c None) w = (evs, es, w1)" by (metis prod_cases3)
  note s1 = world_lock_step [OF li l1, unfolded acquire_no_token]
  have tr: "list_ex is_token_required evs \<longleftrightarrow> world_lock w = None"
    using s1(5) token_required_iff [OF li] by (simp add: world_lock_def)
  have ex: "world_lock (execute_world_ignore e es' w') = world_lock w' \<and> roster (w_clients (execute_world_ignore e es' w')) = roster (w_clients w')"
    if "ds_clients (w_daemon w') = ds_clients (w_daemon w)" for es' and w' :: "'a world"
    using world_lock_execute [of w' e es'] idle that by simp
  show ?thesis
  proof (cases "world_lock w = None")
    case free: True
    show ?thesis
    proof (cases "generate_lock_token e")
      case (Inl err)
      with True free tr l1 s1(1-4) show ?thesis by (simp add: handle_lock_acquire_def guarded_cases lock_for_def Let_def)
    next
      case (Inr tok)
      obtain evs2 es2 w2 where l2: "lock_world (LAcquire ?c (Some tok)) w1 = (evs2, es2, w2)" by (metis prod_cases3)
      note s2 = world_lock_step [OF s1(3) l2]
      have "world_lock w2 = Some (?c, tok)" using s2(1) s1(1) free by simp
      with True free tr l1 l2 s1(1-4) s2(1-4) Inr ex [of w2] ex [of "log_lifecycle e (LockAcquiredEv ?c (en_unix_ms e)) w2"] show ?thesis
        by (simp add: handle_lock_acquire_def guarded_cases lock_for_def Let_def)
    qed
  next
    case held: False
    then obtain h where "world_lock w = Some h" by blast
    with True tr l1 s1(1-4) ex [of w1] show ?thesis
      by (simp add: handle_lock_acquire_def guarded_cases lock_for_def Let_def)
  qed
qed

lemma release_step: "abstract_lock_step l (LRelease c t) = (if l = Some (c, t) then None else l)"
  by (cases l) (auto split: if_splits)

lemma release_lock:
  assumes "session_inv w"
  shows "world_lock (snd (handle_lock_release e idx (lrel_token rel) w)) = lock_for e (w_clients w ! idx) (world_lock w) (LockRelease rel)
    \<and> roster (w_clients (snd (handle_lock_release e idx (lrel_token rel) w))) = roster (w_clients w)"
proof -
  let ?c = "ch_id (w_clients w ! idx)"
  have li: "lock_inv (ds_lock (w_daemon w))" and idle: "cr_idle (ds_clients (w_daemon w))"
    using assms by (simp_all add: session_inv_def base_inv_def)
  obtain evs es w1 where l1: "lock_world (LRelease ?c (lrel_token rel)) w = (evs, es, w1)" by (metis prod_cases3)
  note s1 = world_lock_step [OF li l1, unfolded release_step]
  from s1(1-4) idle world_lock_execute [of w1 e es] world_lock_execute [of "log_lifecycle e (LockReleasedEv ?c (en_unix_ms e)) w1" e es] l1
  show ?thesis by (simp add: handle_lock_release_def lock_for_def Let_def)
qed

lemma lock_control:
  assumes "session_inv w"
  shows "world_lock (snd (handle_control_message e idx msg w)) = lock_for e (w_clients w ! idx) (world_lock w) msg"
proof (cases "(\<exists>r. msg = LockAcquire r) \<or> (\<exists>r. msg = LockRelease r) \<or> msg = LeaderRequest")
  case True
  then consider r where "msg = LockAcquire r" | r where "msg = LockRelease r" | "msg = LeaderRequest" by blast
  then show ?thesis
  proof cases
    case 3
    from view_leader [of e idx w] show ?thesis by (auto simp: 3 handle_control_message_def lock_for_def world_lock_def view_def)
  qed (use acquire_lock [OF assms] release_lock [OF assms] in \<open>simp_all add: handle_control_message_def\<close>)
next
  case False
  with view_other(1) [of msg e idx w] have "world_lock (snd (handle_control_message e idx msg w)) = world_lock w"
    by (simp add: world_lock_def)
  with False show ?thesis by (cases msg) (simp_all add: lock_for_def)
qed

definition leaders_for :: "client_handle \<Rightarrow> client_id list \<Rightarrow> control_message \<Rightarrow> client_id list" where
  "leaders_for ch old msg =
     (if msg = LeaderRequest \<and> ''leader-request-v1'' \<in> set (ch_negotiated_caps ch) \<and> ch_mode ch \<noteq> Ro
      then [ch_id ch] else old)"

lemma roster_control:
  assumes "session_inv w" and "msg \<noteq> LeaderRequest"
  shows "roster (w_clients (snd (handle_control_message e idx msg w))) = roster (w_clients w)"
  using view_other(2) [of msg e idx w] acquire_lock [OF assms(1)] release_lock [OF assms(1)] assms(2)
  by (cases msg) (simp_all add: handle_control_message_def)

lemma leader_control:
  assumes "session_inv w" and "idx < length (w_clients w)"
  shows "leaders (w_clients (snd (handle_control_message e idx msg w))) = leaders_for (w_clients w ! idx) (leaders (w_clients w)) msg"
proof (cases "msg = LeaderRequest")
  case False
  from table_cong(5) [OF roster_control [OF assms(1) this]] False show ?thesis by (simp add: leaders_for_def)
next
  case True
  show ?thesis
  proof (cases "''leader-request-v1'' \<in> set (ch_negotiated_caps (w_clients w ! idx)) \<and> ch_mode (w_clients w ! idx) \<noteq> Ro")
    case False
    with True show ?thesis
      by (simp add: handle_control_message_def handle_leader_request_def guarded_cases leaders_for_def roster_leaders)
  next
    case ok: True
    have d: "distinct (map ch_id (w_clients w))" and l: "leader_inv (w_clients w)"
      using assms(1) by (simp_all add: session_inv_def base_inv_def)
    from take_leader_defined [OF assms(2)] obtain cs r where t: "take_leader (w_clients w) idx = Some (cs, r)" by fastforce
    from ok have m: "ch_mode (w_clients w ! idx) \<noteq> Ro" by simp
    have "roster (w_clients (snd (handle_leader_request e idx w))) = roster cs"
      using ok t by (cases r) (simp_all add: handle_leader_request_def guarded_cases Let_def)
    from table_cong(5) [OF this] take_leader_spec(1) [OF assms(2) d l m t] True ok show ?thesis
      by (simp add: handle_control_message_def leaders_for_def)
  qed
qed

subsection \<open>Outcomes\<close>

lemma outcome_control:
  "fst (handle_control_message e idx msg w) =
     (case msg of
        KillMsg k \<Rightarrow>
          if ch_mode (w_clients w ! idx) = Rw \<and> kl_wait k \<and> resolve_signal e (kl_signal k) \<noteq> None
          then TerminateSession RelayClientDetachedOrKilled else ContinueClient
      | Detach t \<Rightarrow>
          (case t of
             Myself \<Rightarrow> DropClient
           | Others \<Rightarrow> if ch_mode (w_clients w ! idx) \<noteq> Ro
                       then DropClients (filter (\<lambda>i. i \<noteq> idx) [0..<length (w_clients w)]) True else ContinueClient
           | AllClients \<Rightarrow> if ch_mode (w_clients w ! idx) \<noteq> Ro
                       then DropClients [0..<length (w_clients w)] True else ContinueClient)
      | SessionChildResumeRequest \<Rightarrow>
          if ''child-state-v1'' \<in> set (ch_negotiated_caps (w_clients w ! idx))
             \<and> snd (send_attach_redraw e (w_clients w ! idx) (w_screen w)) \<noteq> []
          then DropClient else ContinueClient
      | _ \<Rightarrow> ContinueClient)"
proof -
  have lock: "fst (handle_lock_acquire e idx req w) = ContinueClient" "fst (handle_lock_release e idx tok w) = ContinueClient"
    for req tok
    by (simp_all add: handle_lock_acquire_def handle_lock_release_def guarded_cases case_prod_beta Let_def split: sum.splits)
  have recs: "fst (handle_record_start_request e idx req w) = ContinueClient" "fst (handle_record_stop_request e idx i w) = ContinueClient"
    "fst (handle_record_stop_all_request e idx w) = ContinueClient" "fst (handle_record_list_request e idx w) = ContinueClient"
    for req i
    by (simp_all add: handle_record_start_request_def handle_record_stop_request_def handle_record_stop_all_request_def
        handle_record_list_request_def guarded_cases case_prod_beta Let_def split: sum.splits)
  have rest: "fst (handle_tail_request_dispatch e idx treq w) = ContinueClient" "fst (handle_status_query e idx w) = ContinueClient"
    "fst (handle_set_request e idx sreq w) = ContinueClient" "fst (handle_upgrade_request e idx target w) = ContinueClient"
    "fst (handle_screen_dump_request e idx dreq w) = ContinueClient" "fst (handle_state_snapshot_request e idx incl serial w) = ContinueClient"
    "fst (reject_unexpected_kind e idx w) = ContinueClient" "fst (handle_resize e idx r w) = ContinueClient"
    "fst (handle_signal e idx s w) = ContinueClient" "fst (handle_leader_request e idx w) = ContinueClient"
    for treq sreq target dreq incl serial r s
    by (simp_all add: handle_tail_request_dispatch_def handle_status_query_def handle_set_request_def handle_upgrade_request_def
        handle_screen_dump_request_def handle_state_snapshot_request_def reject_unexpected_kind_def handle_resize_def
        handle_signal_def handle_leader_request_def guarded_cases case_prod_beta Let_def
        split: sum.splits option.splits screen_dump_error.splits leader_takeover.splits)
  show ?thesis
  proof (cases msg)
    case (KillMsg k)
    then show ?thesis
      by (auto simp: handle_control_message_def handle_kill_def guarded_cases resolve_signal_def signal_name_to_nix_signal_def
          Let_def split: option.splits)
  next
    case (Detach t)
    then show ?thesis by (cases t) (auto simp: handle_control_message_def handle_detach_target_def guarded_cases Let_def)
  next
    case SessionChildResumeRequest
    then show ?thesis
      by (auto simp: handle_control_message_def handle_session_child_resume_request_def guarded_cases case_prod_beta Let_def)
  qed (simp_all add: handle_control_message_def lock recs rest)
qed

subsection \<open>Properties\<close>



text \<open>C4. The authority of a control message is exactly what its sender's role allows: signals go to
  the child only for a kill by a \<open>Rw\<close> client, a signal request by a client that is not read-only, or a resume
  request of a client that negotiated it; the window size follows only the leader, within the size limits; the
  session settings change only for a writer with the capability and, for an upgrade, only after the
  target passed its checks; only a kill that waits ends the session, and only a client that is not read-only detaches
  others.\<close>

theorem control_authority:
  "w_kills (snd (handle_control_message e idx msg w)) =
       w_kills w @ signals_for e (w_clients w ! idx) (snd (send_attach_redraw e (w_clients w ! idx) (w_screen w)) = []) msg
   \<and> w_winsize (snd (handle_control_message e idx msg w)) = winsize_for (w_clients w ! idx) (w_winsize w) msg
   \<and> w_state (snd (handle_control_message e idx msg w)) = state_for e (w_clients w ! idx) (w_state w) msg
   \<and> w_pty (snd (handle_control_message e idx msg w)) = w_pty w
   \<and> (fst (handle_control_message e idx msg w) = TerminateSession RelayClientDetachedOrKilled \<longleftrightarrow>
        (\<exists>k. msg = KillMsg k \<and> kl_wait k \<and> ch_mode (w_clients w ! idx) = Rw \<and> resolve_signal e (kl_signal k) \<noteq> None))
   \<and> ((\<exists>is b. fst (handle_control_message e idx msg w) = DropClients is b) \<longleftrightarrow>
        (\<exists>t. msg = Detach t \<and> t \<noteq> Myself \<and> ch_mode (w_clients w ! idx) \<noteq> Ro))"
proof -
  from view_control [of e idx msg w] have v:
    "w_kills (snd (handle_control_message e idx msg w)) =
       w_kills w @ signals_for e (w_clients w ! idx) (snd (send_attach_redraw e (w_clients w ! idx) (w_screen w)) = []) msg"
    "w_winsize (snd (handle_control_message e idx msg w)) = winsize_for (w_clients w ! idx) (w_winsize w) msg"
    "w_state (snd (handle_control_message e idx msg w)) = state_for e (w_clients w ! idx) (w_state w) msg"
    "w_pty (snd (handle_control_message e idx msg w)) = w_pty w" by (auto simp: view_def)
  have t: "fst (handle_control_message e idx msg w) = TerminateSession RelayClientDetachedOrKilled \<longleftrightarrow>
        (\<exists>k. msg = KillMsg k \<and> kl_wait k \<and> ch_mode (w_clients w ! idx) = Rw \<and> resolve_signal e (kl_signal k) \<noteq> None)"
    by (subst outcome_control) (auto split: control_message.splits detach_target.splits if_splits)
  have d: "(\<exists>is b. fst (handle_control_message e idx msg w) = DropClients is b) \<longleftrightarrow>
        (\<exists>t. msg = Detach t \<and> t \<noteq> Myself \<and> ch_mode (w_clients w ! idx) \<noteq> Ro)"
    by (subst outcome_control) (auto split: control_message.splits detach_target.splits if_splits)
  from v t d show ?thesis by blast
qed

text \<open>C5. Lock and leader requests end to end: through the handler, the reducer and the executor, a control message moves
  the abstract lock only by an acquire of a writer with the capability when it is free, to that
  client and a fresh token, or by a release of the holder with its own token; and the leader only by a leader request
  of a writer with the capability, to that client.\<close>

theorem lock_and_leader_requests:
  assumes "session_inv w" and "idx < length (w_clients w)"
  shows "world_lock (snd (handle_control_message e idx msg w)) = lock_for e (w_clients w ! idx) (world_lock w) msg
    \<and> leaders (w_clients (snd (handle_control_message e idx msg w))) = leaders_for (w_clients w ! idx) (leaders (w_clients w)) msg"
  using lock_control [OF assms(1)] leader_control [OF assms] by blast

theorem lock_and_leader_requests_witness:
  "world_lock (snd (handle_control_message example_env 1 (LockRelease \<lparr>lrel_token = ''k''\<rparr>) example_world)) = Some (1, ''k'')
   \<and> world_lock (snd (handle_control_message example_env 0 (LockRelease \<lparr>lrel_token = ''k''\<rparr>) example_world)) = None"
proof -
  have "1 < length (w_clients example_world)" "0 < length (w_clients example_world)" by (simp_all add: example_world_def)
  from lock_and_leader_requests [OF session_inv_example this(1), of example_env "LockRelease \<lparr>lrel_token = ''k''\<rparr>"]
    lock_and_leader_requests [OF session_inv_example this(2), of example_env "LockRelease \<lparr>lrel_token = ''k''\<rparr>"]
  show ?thesis
    by (simp add: lock_for_def world_lock_def example_world_def example_client_def ch_new_def lock_abs_def lock_grant_def)
qed

text \<open>What a control message of a read-only client cannot do.\<close>

lemma read_only_no_lock:
  assumes "session_inv w" and "idx < length (w_clients w)" and "ch_mode (w_clients w ! idx) = Ro"
  shows "world_lock w \<noteq> Some (ch_id (w_clients w ! idx), t)" and "\<not> ch_leader (w_clients w ! idx)"
proof -
  show "\<not> ch_leader (w_clients w ! idx)" using assms by (auto simp: session_inv_def leader_inv_def dest: nth_mem)
  show "world_lock w \<noteq> Some (ch_id (w_clients w ! idx), t)"
  proof
    assume "world_lock w = Some (ch_id (w_clients w ! idx), t)"
    then have "lk_holder (ds_lock (w_daemon w)) = Some (ch_id (w_clients w ! idx))"
      by (auto simp: world_lock_def lock_abs_def split: option.splits)
    then obtain c where c: "c \<in> set (w_clients w)" "ch_id c = ch_id (w_clients w ! idx)" "ch_mode c \<noteq> Ro"
      using assms(1) by (auto simp: session_inv_def base_inv_def holder_ok_def)
    moreover have "distinct (map ch_id (w_clients w))" using assms(1) by (simp add: session_inv_def base_inv_def)
    ultimately have "c = w_clients w ! idx" using assms(2) filter_cong_unique [of ch_id "w_clients w" c "w_clients w ! idx"] by auto
    with c assms(3) show False by simp
  qed
qed

lemma read_only_roster:
  assumes "session_inv w" and "ch_mode (w_clients w ! idx) = Ro"
  shows "roster (w_clients (snd (handle_control_message e idx msg w))) = roster (w_clients w)"
proof (cases "msg = LeaderRequest")
  case False
  from roster_control [OF assms(1) this] show ?thesis .
next
  case True
  then show ?thesis using assms(2) by (simp add: handle_control_message_def handle_leader_request_def guarded_cases)
qed

definition harmless_step :: "'scr world \<Rightarrow> client_frame_outcome \<Rightarrow> 'scr world \<Rightarrow> bool" where
  "harmless_step w oc w' \<longleftrightarrow>
     tty_in (w_pty w') = tty_in (w_pty w)
     \<and> (w_kills w' = w_kills w \<or> w_kills w' = w_kills w @ [(ToGroup, SIGCONT)])
     \<and> world_lock w' = world_lock w \<and> roster (w_clients w') = roster (w_clients w)
     \<and> w_winsize w' = w_winsize w \<and> w_state w' = w_state w
     \<and> (oc = ContinueClient \<or> oc = DropClient)"

lemma read_only_control:
  assumes "session_inv w" and "idx < length (w_clients w)" and "ch_mode (w_clients w ! idx) = Ro"
    and h: "handle_control_message e idx msg w = (oc, w')"
  shows "harmless_step w oc w'"
proof -
  let ?ch = "w_clients w ! idx"
  have s: "signals_for e ?ch b msg = [] \<or> signals_for e ?ch b msg = [(ToGroup, SIGCONT)]" for b
    using assms(3) by (auto simp: signals_for_def split: control_message.splits)
  have st: "winsize_for ?ch (w_winsize w) msg = w_winsize w" "state_for e ?ch (w_state w) msg = w_state w"
    "lock_for e ?ch (world_lock w) msg = world_lock w"
    using assms(3) read_only_no_lock [OF assms(1-3)]
    by (auto simp: winsize_for_def state_for_def lock_for_def split: control_message.splits)
  have ro: "roster (w_clients w') = roster (w_clients w)" using read_only_roster [OF assms(1,3), of e msg] h by simp
  have o: "oc = ContinueClient \<or> oc = DropClient"
    using outcome_control [of e idx msg w] h assms(3) by (auto split: control_message.splits detach_target.splits if_splits)
  from view_control [of e idx msg w] h st ro o lock_control [OF assms(1), of e idx msg]
    s [of "snd (send_attach_redraw e ?ch (w_screen w)) = []"] show ?thesis by (auto simp: view_def harmless_step_def)
qed

lemma read_only_frame:
  assumes "session_inv w" and "idx < length (w_clients w)" and "ch_mode (w_clients w ! idx) = Ro"
  shows "\<exists>oc w'. handle_client_frame e idx fr w = Some (oc, w') \<and> harmless_step w oc w'"
proof (cases "frame_ty fr = TYPE_RAW_DATA \<and> \<not> ss_upgrade_pending (w_state w)")
  case True
  obtain oc w' where r: "handle_raw_data e idx (frame_body fr) w = Some (oc, w')" "w_pty w' = w_pty w"
      "w_kills w' = w_kills w" "w_winsize w' = w_winsize w" "w_state w' = w_state w" "oc = ContinueClient \<or> oc = DropClient"
    using raw_data_read_only [OF assms(1,3), of e "frame_body fr"] by blast
  with raw_data_inv(2,3) [OF assms(1) r(1)] True show ?thesis
    by (auto simp: handle_client_frame_def world_lock_def harmless_step_def)
next
  case no_raw: False
  show ?thesis
  proof (cases "frame_ty fr = TYPE_CBOR_CONTROL \<and> en_dec e (frame_body fr) \<noteq> None")
    case True
    then obtain msg where m: "en_dec e (frame_body fr) = Some msg" by blast
    obtain oc w' where h: "handle_control_message e idx msg w = (oc, w')" by fastforce
    have "handle_client_frame e idx fr w = Some (oc, w')"
      using True m h by (simp add: handle_client_frame_def frame_consts)
    with read_only_control [OF assms h] show ?thesis by blast
  next
    case False
    with no_raw show ?thesis by (auto simp: handle_client_frame_def harmless_step_def)
  qed
qed

text \<open>C6. A read-only client is harmless: whatever frame it sends, the handler returns, the child receives
  no input and no signal but the continue signal of a resume request, and the lock, the leader, the client table,
  the window size and the session settings stay as they were; the session does not end and no other
  client is detached.\<close>

theorem read_only_harmless:
  assumes "session_inv w" and "idx < length (w_clients w)" and "ch_mode (w_clients w ! idx) = Ro"
  shows "\<exists>oc w'. handle_client_frame e idx fr w = Some (oc, w')
    \<and> tty_in (w_pty w') = tty_in (w_pty w)
    \<and> (w_kills w' = w_kills w \<or> w_kills w' = w_kills w @ [(ToGroup, SIGCONT)])
    \<and> world_lock w' = world_lock w \<and> roster (w_clients w') = roster (w_clients w)
    \<and> w_winsize w' = w_winsize w \<and> w_state w' = w_state w
    \<and> (oc = ContinueClient \<or> oc = DropClient)"
  using read_only_frame [OF assms, of e fr] by (simp add: harmless_step_def)

theorem read_only_harmless_witness:
  "\<exists>oc w'. handle_client_frame example_env 0 \<lparr>frame_ty = TYPE_RAW_DATA, frame_body = [0x41]\<rparr>
       (example_world\<lparr>w_clients := [example_client 2 Ro False], w_daemon := daemon_default\<rparr>) = Some (oc, w')
     \<and> tty_in (w_pty w') = []"
proof -
  let ?w = "example_world\<lparr>w_clients := [example_client 2 Ro False], w_daemon := daemon_default\<rparr>"
  have "session_inv ?w"
    by (simp add: session_inv_def base_inv_def example_world_def example_client_def ch_new_def lock_inv_def lock_default_def
        holder_ok_def cr_idle_def daemon_default_def registry_inv_def registry_new_def leader_inv_def leader_complete_def
        MAX_CLOSING_CLIENTS_def MAX_CLIENTS_PER_DAEMON_def rw_present_def)
  from read_only_harmless [OF this, of 0 example_env "\<lparr>frame_ty = TYPE_RAW_DATA, frame_body = [0x41]\<rparr>"]
  obtain oc w' where "handle_client_frame example_env 0 \<lparr>frame_ty = TYPE_RAW_DATA, frame_body = [0x41]\<rparr> ?w = Some (oc, w')"
    and "tty_in (w_pty w') = tty_in (w_pty ?w)" by (auto simp: example_client_def ch_new_def)
  then show ?thesis by (auto simp: example_world_def)
qed

end
