(* ===== verification/Child.thy ===== *)
theory Child
  imports Control
begin

text \<open>
  The child process as the daemon sees it: \<^verbatim>\<open>crates/hyoui/src/daemon/pty.rs\<close> (the lifecycle
  latch over \<open>waitpid\<close>) and the parts of \<^verbatim>\<open>daemon/session.rs\<close> around the serve loop that
  need no client table: signals, the \<open>--until\<close> watcher, the timeouts, the capped poll timeout, and the
  escalation and reaping at the end of a session.

  The kernel's answers to \<open>waitpid\<close> are scripted: a call takes the next answer of a list, and when the
  list is used up the child has nothing to report. Where a loop could wait for ever, an
  exhausted script is the value \<open>None\<close>. Clocks are milliseconds.
\<close>

subsection \<open>waitpid\<close>

datatype wait_status = WsExited int | WsSignaled nat | WsStopped nat | WsContinued | WsStillAlive | WsOther

datatype wait_result = WaitOk wait_status | WaitEintr | WaitEchild | WaitErr string

fun next_wait :: "wait_result list \<Rightarrow> wait_result \<times> wait_result list" where
  "next_wait [] = (WaitOk WsStillAlive, [])"
| "next_wait (r # rs) = (r, rs)"

subsection \<open>The lifecycle latch\<close>

datatype child_state = CsExited "int option" | CsAlive | CsStopped

datatype child_transition = CtStopped nat | CtContinued | CtExited "int option"

record child_lifecycle =
  lc_stopped :: bool

definition lc_default :: child_lifecycle where "lc_default = \<lparr>lc_stopped = False\<rparr>"

definition lc_clear_stopped :: "child_lifecycle \<Rightarrow> child_lifecycle" where
  "lc_clear_stopped l = l\<lparr>lc_stopped := False\<rparr>"

definition latched_state :: "child_lifecycle \<Rightarrow> child_state" where
  "latched_state l = (if lc_stopped l then CsStopped else CsAlive)"

fun poll_with_transition ::
  "wait_result \<Rightarrow> child_lifecycle \<Rightarrow> child_lifecycle \<times> child_state \<times> child_transition option" where
  "poll_with_transition (WaitOk (WsExited c)) l = (l\<lparr>lc_stopped := False\<rparr>, CsExited (Some c), Some (CtExited (Some c)))"
| "poll_with_transition (WaitOk (WsSignaled s)) l =
     (let code = 128 + int s in (l\<lparr>lc_stopped := False\<rparr>, CsExited (Some code), Some (CtExited (Some code))))"
| "poll_with_transition (WaitOk (WsStopped s)) l = (l\<lparr>lc_stopped := True\<rparr>, CsStopped, Some (CtStopped s))"
| "poll_with_transition (WaitOk WsContinued) l = (l\<lparr>lc_stopped := False\<rparr>, CsAlive, Some CtContinued)"
| "poll_with_transition (WaitOk WsStillAlive) l = (l, latched_state l, None)"
| "poll_with_transition (WaitOk WsOther) l = (l, CsAlive, None)"
| "poll_with_transition WaitEintr l = (l, latched_state l, None)"
| "poll_with_transition WaitEchild l = (l, latched_state l, None)"
| "poll_with_transition (WaitErr m) l = (l, latched_state l, None)"

subsection \<open>Signals to the child\<close>

text \<open>\<open>own\<close> is \<open>getpgrp()\<close> of the daemon.\<close>

definition kill_pgrp :: "'scr env \<Rightarrow> nat \<Rightarrow> nat \<Rightarrow> 'scr world \<Rightarrow> 'scr world" where
  "kill_pgrp e own sig w = send_kill (if en_child_pgid e = Some own then ToChild else ToGroup) sig w"

definition child_is_stopped_via_waitpid :: "wait_result list \<Rightarrow> bool \<times> wait_result list" where
  "child_is_stopped_via_waitpid ws =
     (let (r, ws') = next_wait ws in (case r of WaitOk (WsStopped _) \<Rightarrow> True | _ \<Rightarrow> False, ws'))"

fun handle_suspend_signals ::
  "'scr env \<Rightarrow> nat \<Rightarrow> nat list \<Rightarrow> child_lifecycle \<Rightarrow> wait_result list \<Rightarrow> 'scr world
    \<Rightarrow> relay_outcome option \<times> wait_result list \<times> 'scr world" where
  "handle_suspend_signals e own [] l ws w = (None, ws, w)"
| "handle_suspend_signals e own (b # bs) l ws w =
     (if b = SIGCONT then
        (let (stopped, ws') = (if lc_stopped l then (True, ws) else child_is_stopped_via_waitpid ws)
         in handle_suspend_signals e own bs l ws' (if stopped then kill_pgrp e own SIGCONT w else w))
      else if b = SIGUSR1 then
        (let w1 = log_lifecycle e (SessionTerminatedByCondition ''upgrade-request'' (en_unix_ms e)) w
         in handle_suspend_signals e own bs l ws (w1\<lparr>w_state := set_upgrade_pending (w_state w1)\<rparr>))
      else if b = SIGTERM \<or> b = SIGINT then
        (let w1 = log_lifecycle e (SessionTerminatedByCondition
                    (if b = SIGINT then ''sigint'' else ''sigterm'') (en_unix_ms e)) w
         in (Some RelayClientDetachedOrKilled, ws, kill_pgrp e own SIGTERM w1))
      else handle_suspend_signals e own bs l ws w)"

subsection \<open>Reports of the child\<close>

text \<open>\<open>name\<close> is the table of signal names behind \<open>Signal::try_from\<close>.\<close>

definition sig_num_to_name :: "(nat \<Rightarrow> string option) \<Rightarrow> nat \<Rightarrow> string" where
  "sig_num_to_name name sig = (case name sig of Some s \<Rightarrow> s | None \<Rightarrow> ''SIG'' @ nat_to_dec sig)"

definition wants_child_state :: "client_handle \<Rightarrow> bool" where
  "wants_child_state ch \<longleftrightarrow> ch_mode ch \<noteq> Ro \<and> ''child-state-v1'' \<in> set (ch_negotiated_caps ch)"

fun notify_each :: "control_encoder \<Rightarrow> control_message \<Rightarrow> client_handle list \<Rightarrow> client_handle list \<times> client_id list" where
  "notify_each enc msg [] = ([], [])"
| "notify_each enc msg (ch # cs) =
     (let (cs', failed) = notify_each enc msg cs in
      if \<not> wants_child_state ch then (ch # cs', failed)
      else let (ok, ch') = send_control enc ch msg in (ch' # cs', if ok then failed else ch_id ch # failed))"

definition notify_child_stopped ::
  "'scr env \<Rightarrow> nat \<Rightarrow> (nat \<Rightarrow> string option) \<Rightarrow> nat \<Rightarrow> 'scr world \<Rightarrow> 'scr world \<times> client_id list" where
  "notify_child_stopped e own name sig w =
     (let w1 = w\<lparr>w_state := set_child_stopped True (w_state w)\<rparr>;
          nm = sig_num_to_name name sig;
          w2 = log_lifecycle e (ChildStoppedObserved nm (int sig) (en_child_pid e) (en_unix_ms e)) w1
      in if get_child_suspend_policy (w_state w) = SuspendAutoResume then (kill_pgrp e own SIGCONT w2, [])
         else let (cs, failed) = notify_each (en_enc e)
                (SessionChildStoppedNotify \<lparr>sc_pid = nat (en_child_pid e), sc_signal = Some nm\<rparr>) (w_clients w2)
              in (w2\<lparr>w_clients := cs\<rparr>, failed))"

definition record_child_continued :: "'scr env \<Rightarrow> 'scr world \<Rightarrow> 'scr world" where
  "record_child_continued e w =
     log_lifecycle e (ChildContinuedObserved ''SIGCONT'' (int SIGCONT) (en_child_pid e) (en_unix_ms e))
       (w\<lparr>w_state := set_child_stopped False (w_state w)\<rparr>)"

subsection \<open>The --until watcher\<close>

record until_watcher =
  uw_needle :: bytes
  uw_carry :: bytes

definition uw_new :: "string \<Rightarrow> until_watcher" where
  "uw_new needle = \<lparr>uw_needle = as_bytes needle, uw_carry = []\<rparr>"

text \<open>\<open>slice::windows(n)\<close> for \<open>n > 0\<close>.\<close>

fun slice_windows :: "nat \<Rightarrow> 'a list \<Rightarrow> 'a list list" where
  "slice_windows n [] = []"
| "slice_windows n (x # xs) = (if length (x # xs) < n then [] else take n (x # xs) # slice_windows n xs)"

definition uw_feed :: "until_watcher \<Rightarrow> bytes \<Rightarrow> bool \<times> until_watcher" where
  "uw_feed u chunk =
     (if uw_needle u = [] then (False, u)
      else let window = uw_carry u @ chunk in
        if length window \<ge> length (uw_needle u) \<and> uw_needle u \<in> set (slice_windows (length (uw_needle u)) window)
        then (True, u)
        else let keep = length (uw_needle u) - 1 in
          (False, u\<lparr>uw_carry := (if length window > keep then drop (length window - keep) window else window)\<rparr>))"

subsection \<open>Timeouts\<close>

text \<open>Elapsed times are the values of \<open>as_millis\<close>; \<open>u64::try_from\<close> clips at the largest value.\<close>

definition u64_clip :: "nat \<Rightarrow> nat" where "u64_clip n = (if n < 2 ^ 64 then n else 2 ^ 64 - 1)"

definition eval_timeout :: "nat \<Rightarrow> nat \<Rightarrow> nat option \<Rightarrow> nat option \<Rightarrow> string option" where
  "eval_timeout since_start since_output timeout idle =
     (if (case timeout of Some ms \<Rightarrow> since_start \<ge> ms | None \<Rightarrow> False) then Some ''timeout''
      else if (case idle of Some ms \<Rightarrow> since_output \<ge> ms | None \<Rightarrow> False) then Some ''idle-timeout''
      else None)"

definition timeout_poll_cap_ms :: "nat \<Rightarrow> nat \<Rightarrow> nat option \<Rightarrow> nat option \<Rightarrow> nat option" where
  "timeout_poll_cap_ms since_start since_output timeout idle =
     (let overall_rem = map_option (\<lambda>ms. ms - u64_clip since_start) timeout;
          idle_rem = map_option (\<lambda>ms. ms - u64_clip since_output) idle
      in case (overall_rem, idle_rem) of
           (Some a, Some b) \<Rightarrow> Some (min a b)
         | (Some a, None) \<Rightarrow> Some a
         | (None, Some b) \<Rightarrow> Some b
         | (None, None) \<Rightarrow> None)"

text \<open>\<open>None\<close> is \<open>PollTimeout::NONE\<close>, a poll without a limit.\<close>

definition cap_poll_timeout :: "nat option \<Rightarrow> nat \<Rightarrow> nat option" where
  "cap_poll_timeout current cap_ms =
     (case current of None \<Rightarrow> Some cap_ms | Some ms \<Rightarrow> if ms > cap_ms then Some cap_ms else current)"

definition u16_clip :: "nat \<Rightarrow> nat" where "u16_clip n = (if n < 2 ^ 16 then n else 2 ^ 16 - 1)"

subsection \<open>The end of a session\<close>

definition FINALIZE_TERM_GRACE_MS :: nat where "FINALIZE_TERM_GRACE_MS = 5000"
definition FINALIZE_KILL_DEADLINE_MS :: nat where "FINALIZE_KILL_DEADLINE_MS = 2000"
definition EXIT_CHILD_UNREAPED :: int where "EXIT_CHILD_UNREAPED = 125"

text \<open>A pass of a reaping loop: the answer of \<open>waitpid\<close> and the clock read after it.\<close>

type_synonym reap_pass = "wait_result \<times> nat"

fun reap_until :: "nat \<Rightarrow> reap_pass list \<Rightarrow> (string + int option) option" where
  "reap_until deadline [] = None"
| "reap_until deadline ((r, now) # ps) =
     (case r of
        WaitOk (WsExited code) \<Rightarrow> Some (Inr (Some code))
      | WaitOk (WsSignaled sig) \<Rightarrow> Some (Inr (Some (128 + int sig)))
      | WaitEintr \<Rightarrow> reap_until deadline ps
      | WaitEchild \<Rightarrow> Some (Inr (Some 143))
      | WaitErr m \<Rightarrow> Some (Inl m)
      | WaitOk _ \<Rightarrow> if now \<ge> deadline then Some (Inr None) else reap_until deadline ps)"

definition reap_after_kill :: "nat \<Rightarrow> reap_pass list \<Rightarrow> (string + int) option" where
  "reap_after_kill deadline ps =
     (case reap_until deadline ps of
        None \<Rightarrow> None
      | Some (Inl m) \<Rightarrow> Some (Inl m)
      | Some (Inr (Some code)) \<Rightarrow> Some (Inr code)
      | Some (Inr None) \<Rightarrow> Some (Inr EXIT_CHILD_UNREAPED))"

fun reap_blocking :: "wait_result list \<Rightarrow> (string + int) option" where
  "reap_blocking [] = None"
| "reap_blocking (r # rs) =
     (case r of
        WaitOk (WsExited code) \<Rightarrow> Some (Inr code)
      | WaitOk (WsSignaled sig) \<Rightarrow> Some (Inr (128 + int sig))
      | WaitOk _ \<Rightarrow> reap_blocking rs
      | WaitEintr \<Rightarrow> reap_blocking rs
      | WaitEchild \<Rightarrow> Some (Inr 0)
      | WaitErr m \<Rightarrow> Some (Inl m))"

text \<open>The kernel's side of the finalisation: the answers to a blocking \<open>waitpid\<close>, and the two
  deadline loops with the clock each starts from.\<close>

record reap_script =
  rp_blocking :: "wait_result list"
  rp_term_at :: nat
  rp_term :: "reap_pass list"
  rp_kill_at :: nat
  rp_kill :: "reap_pass list"

definition finalize_child ::
  "'scr env \<Rightarrow> nat \<Rightarrow> reap_script \<Rightarrow> relay_outcome \<Rightarrow> 'scr world \<Rightarrow> (string + int) option \<times> 'scr world" where
  "finalize_child e own rs outcome w =
     (case outcome of
        RelayChildExited (Some code) \<Rightarrow> (Some (Inr code), w)
      | RelayChildExited None \<Rightarrow> (reap_blocking (rp_blocking rs), w)
      | _ \<Rightarrow>
          (let w1 = kill_pgrp e own SIGTERM (kill_pgrp e own SIGCONT w) in
           case reap_until (rp_term_at rs + FINALIZE_TERM_GRACE_MS) (rp_term rs) of
             None \<Rightarrow> (None, w1)
           | Some (Inl m) \<Rightarrow> (Some (Inl m), w1)
           | Some (Inr (Some code)) \<Rightarrow> (Some (Inr code), w1)
           | Some (Inr None) \<Rightarrow>
               (reap_after_kill (rp_kill_at rs + FINALIZE_KILL_DEADLINE_MS) (rp_kill rs), kill_pgrp e own SIGKILL w1)))"

subsection \<open>The watcher sees the stream\<close>

text \<open>The way the serve loop uses the watcher: it stops at the first match.\<close>

fun uw_feeds :: "until_watcher \<Rightarrow> bytes list \<Rightarrow> bool \<times> until_watcher" where
  "uw_feeds u [] = (False, u)"
| "uw_feeds u (c # cs) = (let (hit, u') = uw_feed u c in if hit then (True, u') else uw_feeds u' cs)"

lemma slice_windows_set:
  assumes "0 < n"
  shows "v \<in> set (slice_windows n xs) \<longleftrightarrow> length v = n \<and> sublist v xs"
proof (induction xs)
  case Nil
  then show ?case using assms by (auto simp: sublist_code)
next
  case (Cons x xs)
  have p: "v = take n (x # xs) \<longleftrightarrow> length v = n \<and> prefix v (x # xs)" if "n \<le> length (x # xs)"
    using that by (metis append_eq_conv_conj length_take min.absorb2 prefix_def take_is_prefix)
  show ?case
  proof (cases "length (x # xs) < n")
    case True
    then show ?thesis using sublist_length_le [of v "x # xs"] by auto
  next
    case False
    then show ?thesis using p Cons.IH by (auto simp: sublist_Cons_right)
  qed
qed

lemma uw_feed_simps:
  assumes "uw_needle u \<noteq> []"
  shows "fst (uw_feed u c) \<longleftrightarrow> sublist (uw_needle u) (uw_carry u @ c)"
    and "uw_needle (snd (uw_feed u c)) = uw_needle u"
    and "\<not> fst (uw_feed u c) \<Longrightarrow> uw_carry (snd (uw_feed u c)) = take_last (length (uw_needle u) - 1) (uw_carry u @ c)"
  using assms sublist_length_le [of "uw_needle u" "uw_carry u @ c"]
  by (auto simp: uw_feed_def Let_def slice_windows_set take_last_def)

text \<open>A needle that straddles the cut lies in what is kept and what follows.\<close>

lemma sublist_append_iff: "sublist v (xs @ ys) \<longleftrightarrow> sublist v xs \<or> sublist v ys \<or> (\<exists>a b. v = a @ b \<and> a \<noteq> [] \<and> b \<noteq> [] \<and> suffix a xs \<and> prefix b ys)"
proof -
  have "sublist (a @ b) xs" if "b = []" "suffix a xs" for a b :: "'a list" using that by (simp add: suffix_imp_sublist)
  moreover have "sublist (a @ b) ys" if "a = []" "prefix b ys" for a b :: "'a list" using that by (simp add: prefix_imp_sublist)
  ultimately show ?thesis unfolding sublist_append by metis
qed

lemma sublist_take_last:
  assumes "v \<noteq> []" and "\<not> sublist v xs"
  shows "sublist v (take_last (length v - 1) xs @ ys) \<longleftrightarrow> sublist v (xs @ ys)"
proof
  have "xs @ ys = take (length xs - (length v - 1)) xs @ take_last (length v - 1) xs @ ys"
    by (simp add: take_last_def)
  then show "sublist v (xs @ ys)" if "sublist v (take_last (length v - 1) xs @ ys)"
    using that by (metis sublist_append)
next
  assume "sublist v (xs @ ys)"
  with assms(2) consider "sublist v ys" | a b where "v = a @ b" "a \<noteq> []" "b \<noteq> []" "suffix a xs" "prefix b ys"
    by (auto simp: sublist_append_iff)
  then show "sublist v (take_last (length v - 1) xs @ ys)"
  proof cases
    case 1
    then show ?thesis by (simp add: sublist_append_iff)
  next
    case 2
    then have "length a \<le> length v - 1" by (cases b) auto
    moreover obtain zs where "xs = zs @ a" using 2(4) by (auto simp: suffix_def)
    ultimately have "suffix a (take_last (length v - 1) xs)"
      by (auto simp: take_last_def suffix_def)
    with 2 show ?thesis by (auto simp: sublist_append_iff)
  qed
qed

lemma uw_feeds_spec:
  assumes "uw_needle u \<noteq> []" and "uw_carry u = take_last (length (uw_needle u) - 1) xs" and "\<not> sublist (uw_needle u) xs"
  shows "(fst (uw_feeds u cs) \<longleftrightarrow> sublist (uw_needle u) (xs @ concat cs))
       \<and> length (uw_carry (snd (uw_feeds u cs))) \<le> length (uw_needle u) - 1"
  using assms
proof (induction cs arbitrary: u xs)
  case Nil
  then show ?case by simp
next
  case (Cons c cs)
  obtain hit u' where f: "uw_feed u c = (hit, u')" by fastforce
  note s = uw_feed_simps [OF Cons.prems(1), of c, unfolded f fst_conv snd_conv]
  have hit: "hit \<longleftrightarrow> sublist (uw_needle u) (xs @ c)"
    using s(1) Cons.prems(2) sublist_take_last [OF Cons.prems(1,3), of c] by simp
  show ?case
  proof (cases hit)
    case True
    have "u' = u" using f True by (auto simp: uw_feed_def Let_def split: if_splits)
    moreover have "sublist (uw_needle u) (xs @ c @ concat cs)" using hit True
      by (metis append.assoc sublist_append)
    ultimately show ?thesis using f True Cons.prems(2) by simp
  next
    case False
    have "uw_carry u' = take_last (length (uw_needle u') - 1) (xs @ c)"
      using s(2,3) False Cons.prems(2) by (simp add: take_last_take_last_append)
    then show ?thesis using Cons.IH [of u' "xs @ c"] Cons.prems(1) s(2) hit False f by simp
  qed
qed

text \<open>The \<open>--until\<close> watcher is exact: fed the terminal output in whatever chunks \<open>read\<close> returns, it
  fires if and only if the text occurs in the whole output, also across chunk boundaries, and never keeps
  more than one byte less than the text.\<close>

theorem until_watcher_exact:
  "(fst (uw_feeds (uw_new s) cs) \<longleftrightarrow> s \<noteq> [] \<and> sublist (as_bytes s) (concat cs))
   \<and> length (uw_carry (snd (uw_feeds (uw_new s) cs))) \<le> length (as_bytes s) - 1"
proof (cases "as_bytes s = []")
  case True
  then have "uw_feed u c = (False, u)" if "uw_needle u = []" for u c using that by (simp add: uw_feed_def)
  then have "uw_feeds u cs = (False, u)" if "uw_needle u = []" for u using that by (induction cs) simp_all
  with True show ?thesis by (auto simp: uw_new_def as_bytes_def)
next
  case False
  then show ?thesis using uw_feeds_spec [of "uw_new s" "[]" cs]
    by (auto simp: uw_new_def as_bytes_def sublist_code)
qed

subsection \<open>Timeouts fire on time\<close>

lemma timeout_cap_None: "timeout_poll_cap_ms a b t i = None \<longleftrightarrow> t = None \<and> i = None"
  by (cases t; cases i) (simp_all add: timeout_poll_cap_ms_def)

text \<open>The timeouts and the poll limit agree to the millisecond: with the limit \<open>r\<close> computed from the elapsed times,
  the session is due after \<open>d\<close> more milliseconds without output exactly when \<open>r \<le> d\<close>.\<close>

lemma timeout_cap_exact:
  assumes "timeout_poll_cap_ms a b t i = Some r" and "\<forall>ms. t = Some ms \<or> i = Some ms \<longrightarrow> ms < 2 ^ 64"
  shows "eval_timeout (a + d) (b + d) t i \<noteq> None \<longleftrightarrow> r \<le> d"
proof -
  have "ms \<le> x + d \<longleftrightarrow> ms - u64_clip x \<le> d" if "ms < 2 ^ 64" for ms x
    using that by (auto simp: u64_clip_def)
  then show ?thesis using assms by (auto simp: timeout_poll_cap_ms_def eval_timeout_def split: option.splits)
qed

subsection \<open>Reaping\<close>

text \<open>What an answer of \<open>waitpid\<close> says about the end of the child, and the first pass of a loop that decides.\<close>

fun verdict :: "wait_result \<Rightarrow> (string + int) option" where
  "verdict (WaitOk (WsExited c)) = Some (Inr c)"
| "verdict (WaitOk (WsSignaled s)) = Some (Inr (128 + int s))"
| "verdict WaitEchild = Some (Inr 143)"
| "verdict (WaitErr m) = Some (Inl m)"
| "verdict _ = None"

definition decisive :: "nat \<Rightarrow> reap_pass \<Rightarrow> bool" where
  "decisive d p \<longleftrightarrow> verdict (fst p) \<noteq> None \<or> (fst p \<noteq> WaitEintr \<and> d \<le> snd p)"

lemma reap_until_find:
  "reap_until d ps = map_option (\<lambda>p. case verdict (fst p) of None \<Rightarrow> Inr None | Some v \<Rightarrow> map_sum id Some v)
     (find (decisive d) ps)"
  by (induction d ps rule: reap_until.induct)
     (auto simp: decisive_def split: wait_result.splits wait_status.splits)

lemma find_decisive: "\<exists>p \<in> set ps. decisive d p \<Longrightarrow> \<exists>p \<in> set ps. find (decisive d) ps = Some p \<and> decisive d p"
  by (induction ps) auto

lemma case_map_sum_Some [simp]:
  "(case map_sum id Some v of Inl m \<Rightarrow> f m | Inr x \<Rightarrow> (case x of None \<Rightarrow> h | Some c \<Rightarrow> g c)) = (case v of Inl m \<Rightarrow> f m | Inr c \<Rightarrow> g c)"
  by (cases v) simp_all

lemma reap_after_kill_find:
  "reap_after_kill d ps = map_option (\<lambda>p. case verdict (fst p) of None \<Rightarrow> Inr 125 | Some v \<Rightarrow> v) (find (decisive d) ps)"
  by (auto simp: reap_after_kill_def reap_until_find EXIT_CHILD_UNREAPED_def split: option.splits sum.splits)

lemma finalize_killed:
  assumes "\<forall>c. outcome \<noteq> RelayChildExited c"
    and "find (decisive (rp_term_at rs + FINALIZE_TERM_GRACE_MS)) (rp_term rs) = Some p"
  shows "finalize_child e own rs outcome w =
    (let w1 = kill_pgrp e own SIGTERM (kill_pgrp e own SIGCONT w) in
     case verdict (fst p) of Some v \<Rightarrow> (Some v, w1)
     | None \<Rightarrow> (reap_after_kill (rp_kill_at rs + FINALIZE_KILL_DEADLINE_MS) (rp_kill rs), kill_pgrp e own SIGKILL w1))"
  using assms
  by (cases outcome) (auto simp: finalize_child_def reap_until_find Let_def split: option.splits sum.splits)

lemma kill_pgrp_kills [simp]: "map snd (w_kills (kill_pgrp e own s w)) = map snd (w_kills w) @ [s]"
  by (simp add: kill_pgrp_def send_kill_def)

text \<open>C10. A session that is ended by a kill, a signal, a timeout or an error always gets its exit code: once the
  clock has passed each deadline at some pass that was not interrupted, the escalation has returned. It
  sends continue, then terminate, and the kill signal exactly when nothing was reported within the grace period; the
  code is the one of the first report (128 plus the signal for a killed child), or 125 when
  the child could not be reaped before the second deadline.\<close>

theorem finalize_escalates:
  assumes "\<forall>c. outcome \<noteq> RelayChildExited c"
    and "\<exists>p \<in> set (rp_term rs). decisive (rp_term_at rs + FINALIZE_TERM_GRACE_MS) p"
    and "\<exists>p \<in> set (rp_kill rs). decisive (rp_kill_at rs + FINALIZE_KILL_DEADLINE_MS) p"
  shows "\<exists>p q res. find (decisive (rp_term_at rs + FINALIZE_TERM_GRACE_MS)) (rp_term rs) = Some p
    \<and> find (decisive (rp_kill_at rs + FINALIZE_KILL_DEADLINE_MS)) (rp_kill rs) = Some q
    \<and> fst (finalize_child e own rs outcome w) = Some res
    \<and> map snd (w_kills (snd (finalize_child e own rs outcome w))) =
        map snd (w_kills w) @ [SIGCONT, SIGTERM] @ (if verdict (fst p) = None then [SIGKILL] else [])
    \<and> res = (case verdict (fst p) of Some v \<Rightarrow> v
             | None \<Rightarrow> (case verdict (fst q) of Some v \<Rightarrow> v | None \<Rightarrow> Inr 125))"
proof -
  from find_decisive [OF assms(2)] find_decisive [OF assms(3)] obtain p q where
    "find (decisive (rp_term_at rs + FINALIZE_TERM_GRACE_MS)) (rp_term rs) = Some p"
    "find (decisive (rp_kill_at rs + FINALIZE_KILL_DEADLINE_MS)) (rp_kill rs) = Some q" by blast
  with finalize_killed [OF assms(1) this(1), of e own w] show ?thesis
    by (auto simp: reap_after_kill_find Let_def split: option.splits)
qed

theorem finalize_escalates_witness:
  "fst (finalize_child example_env 0 \<lparr>rp_blocking = [], rp_term_at = 0, rp_term = [(WaitOk WsStillAlive, 5000)],
      rp_kill_at = 5000, rp_kill = [(WaitEintr, 5000), (WaitOk (WsSignaled 9), 5020)]\<rparr>
      RelayClientDetachedOrKilled example_world) = Some (Inr 137)"
proof -
  let ?rs = "\<lparr>rp_blocking = [], rp_term_at = 0, rp_term = [(WaitOk WsStillAlive, 5000)],
      rp_kill_at = 5000, rp_kill = [(WaitEintr, 5000), (WaitOk (WsSignaled 9), 5020)]\<rparr> :: reap_script"
  have a: "\<forall>c. RelayClientDetachedOrKilled \<noteq> RelayChildExited c" by simp
  have b: "\<exists>p \<in> set (rp_term ?rs). decisive (rp_term_at ?rs + FINALIZE_TERM_GRACE_MS) p"
    by (simp add: decisive_def FINALIZE_TERM_GRACE_MS_def)
  have c: "\<exists>p \<in> set (rp_kill ?rs). decisive (rp_kill_at ?rs + FINALIZE_KILL_DEADLINE_MS) p"
    by (simp add: decisive_def)
  show ?thesis using finalize_escalates [OF a b c, of example_env 0 example_world]
    by (auto simp: decisive_def FINALIZE_TERM_GRACE_MS_def FINALIZE_KILL_DEADLINE_MS_def)
qed

end
