(* ===== verification/Session.thy ===== *)
theory Session
  imports Child
begin

text \<open>
  The serve loop of \<^verbatim>\<open>crates/hyoui/src/daemon/session.rs\<close>: one pass as a function of the loop state
  and of everything the kernel and the worker threads answer during the pass, and runs of passes as an
  inductive relation. A pass is composed of the phases of the source in their order; each phase
  falls through (\<open>Next\<close>), goes to the next pass (\<open>Again\<close>, the source's \<open>continue\<close>) or leaves the loop
  (\<open>Return\<close>).

  The clocks are read once before and once after the poll of a pass: the two environments of a pass input. The value
  \<open>None\<close> of a pass means that a write to the terminal is still waiting for the kernel
  (\<open>tty_write_returns\<close> says when it is not).
\<close>

subsection \<open>State and inputs\<close>

definition EXIT_DRAIN_BUDGET_MS :: nat where "EXIT_DRAIN_BUDGET_MS = 100"
definition UPGRADE_FLUSH_BUDGET_MS :: nat where "UPGRADE_FLUSH_BUDGET_MS = 1000"

text \<open>Fixed for a run: whether the self-pipe could be installed, the process group of the daemon, the names of the
  signals, and the growth policy of \<open>Vec\<close>.\<close>

record serve_params =
  sp_pipe :: bool
  sp_pgrp :: nat
  sp_signal_name :: "nat \<Rightarrow> string option"
  sp_grow :: "nat \<Rightarrow> nat \<Rightarrow> nat"

record 'scr serve =
  sv_world :: "'scr world"
  sv_lifecycle :: child_lifecycle
  sv_until :: "until_watcher option"
  sv_start :: nat
  sv_last_output :: nat
  sv_deferred_exit :: "relay_outcome option"
  sv_drain_deadline :: "nat option"
  sv_master_drained :: bool
  sv_startup_overflow :: "client_id list"
  sv_upgrade_deadline :: "nat option"
  sv_debug_dump :: "bytes option"

datatype poll_answer =
    PollReady bool bool "bool list" bool
  | PollInterrupted
  | PollTimedOut
  | PollFailed string

datatype read_answer = ReadBytes bytes | ReadEio | ReadEagain | ReadErr string

datatype recv_answer = RecvBytes bytes | RecvInterrupted | RecvWouldBlock | RecvErr

text \<open>\<open>pi_results\<close> are the messages of the handshake workers that arrive before the pass looks at their channels.\<close>

record 'scr pass_input =
  pi_before :: "'scr env"
  pi_after :: "'scr env"
  pi_poll :: poll_answer
  pi_drained :: "nat list"
  pi_waits :: "wait_result list"
  pi_procstate :: "bool option"
  pi_results :: "pending_result list"
  pi_accept :: "pending_handshake option"
  pi_read :: read_answer
  pi_dump_ok :: bool
  pi_recv :: "client_id \<Rightarrow> recv_answer list"

datatype 's flow = Next 's | Again 's | Return relay_outcome 's

fun and_then :: "'s flow \<Rightarrow> ('s \<Rightarrow> 's flow option) \<Rightarrow> 's flow option" where
  "and_then (Next s) f = f s"
| "and_then (Again s) f = Some (Again s)"
| "and_then (Return r s) f = Some (Return r s)"

fun flow_bind :: "'s flow \<Rightarrow> ('s \<Rightarrow> 's flow) \<Rightarrow> 's flow" where
  "flow_bind (Next s) f = f s"
| "flow_bind (Again s) f = Again s"
| "flow_bind (Return r s) f = Return r s"

definition on_world :: "('scr world \<Rightarrow> 'scr world) \<Rightarrow> 'scr serve \<Rightarrow> 'scr serve" where
  "on_world f s = s\<lparr>sv_world := f (sv_world s)\<rparr>"

text \<open>\<open>reducer::handle_and_execute\<close> on the world.\<close>

definition reduce_and_execute :: "'scr env \<Rightarrow> daemon_msg \<Rightarrow> 'scr world \<Rightarrow> 'scr world" where
  "reduce_and_execute e m w = (let (w', es) = reduce_world m w in execute_world e es w')"

subsection \<open>Observing the child\<close>

definition defer_child_exit :: "nat \<Rightarrow> int option \<Rightarrow> 'scr serve \<Rightarrow> 'scr serve" where
  "defer_child_exit now code s =
     (if sv_deferred_exit s = None
      then s\<lparr>sv_deferred_exit := Some (RelayChildExited code), sv_drain_deadline := Some (now + EXIT_DRAIN_BUDGET_MS)\<rparr>
      else s)"

fun report_transition :: "'scr env \<Rightarrow> serve_params \<Rightarrow> child_transition option \<Rightarrow> 'scr world \<Rightarrow> 'scr world" where
  "report_transition e sp (Some (CtStopped sig)) w =
     (let (w', ids) = notify_child_stopped e (sp_pgrp sp) (sp_signal_name sp) sig w
      in w'\<lparr>w_overflow := w_overflow w' @ ids\<rparr>)"
| "report_transition e sp (Some CtContinued) w = record_child_continued e w"
| "report_transition e sp _ w = w"

definition observe_child_transition ::
  "'scr env \<Rightarrow> serve_params \<Rightarrow> wait_result list \<Rightarrow> 'scr serve \<Rightarrow> wait_result list \<times> 'scr serve" where
  "observe_child_transition e sp ws s =
     (let (r, ws') = next_wait ws;
          (lc, st, tr) = poll_with_transition r (sv_lifecycle s);
          s1 = s\<lparr>sv_lifecycle := lc\<rparr>;
          s2 = (case st of CsExited code \<Rightarrow> defer_child_exit (en_now_ms e) code s1 | _ \<Rightarrow> s1)
      in (ws', on_world (report_transition e sp tr) s2))"

subsection \<open>The top of the loop\<close>

definition check_upgrade :: "'scr env \<Rightarrow> 'scr serve \<Rightarrow> 'scr serve flow" where
  "check_upgrade e s =
     (if \<not> ss_upgrade_pending (w_state (sv_world s)) then Next s
      else let closing = write_closing (w_closing (sv_world s));
               deadline = (case sv_upgrade_deadline s of Some d \<Rightarrow> d | None \<Rightarrow> en_now_ms e + UPGRADE_FLUSH_BUDGET_MS);
               settled = (list_all ch_send_settled (w_clients (sv_world s)) \<and> closing = []);
               s' = on_world (\<lambda>w. w\<lparr>w_closing := closing\<rparr>) (s\<lparr>sv_upgrade_deadline := Some deadline\<rparr>)
           in if settled \<or> en_now_ms e \<ge> deadline then Return RelayUpgradeRequested s' else Again s')"

definition check_deadlines :: "'scr env \<Rightarrow> 'scr serve \<Rightarrow> 'scr serve flow" where
  "check_deadlines e s =
     (case (sv_drain_deadline s, sv_deferred_exit s) of
        (Some d, Some o') \<Rightarrow>
          if en_now_ms e \<ge> d then Return o' (s\<lparr>sv_deferred_exit := None\<rparr>) else Next s
      | _ \<Rightarrow> Next s)"

definition check_timeouts :: "'scr env \<Rightarrow> serve_params \<Rightarrow> 'scr serve \<Rightarrow> 'scr serve flow" where
  "check_timeouts e sp s =
     (case eval_timeout (en_now_ms e - sv_start s) (en_now_ms e - sv_last_output s)
             (dc_timeout_ms (en_config e)) (dc_idle_timeout_ms (en_config e)) of
        Some reason \<Rightarrow>
          Return RelayClientDetachedOrKilled
            (on_world (\<lambda>w. kill_pgrp e (sp_pgrp sp) SIGTERM
               (log_lifecycle e (SessionTerminatedByCondition reason (en_unix_ms e)) w)) s)
      | None \<Rightarrow> Next s)"

definition buffered_frames :: "'scr world \<Rightarrow> bool" where
  "buffered_frames w = list_ex (\<lambda>c. fd_is_ready (ch_decoder c)) (w_clients w)"

definition serve_poll_timeout :: "'scr env \<Rightarrow> serve_params \<Rightarrow> 'scr serve \<Rightarrow> nat option" where
  "serve_poll_timeout e sp s =
     (let cap_if = (\<lambda>b cap t. if b then cap_poll_timeout t cap else t);
          now = en_now_ms e;
          t1 = cap_if (w_pending (sv_world s) \<noteq> []) 50 None;
          t2 = cap_if (\<not> sp_pipe sp) 500 t1;
          t3 = cap_if (lc_stopped (sv_lifecycle s)) 200 t2;
          t4 = (case sv_drain_deadline s of Some d \<Rightarrow> cap_poll_timeout t3 (u16_clip (d - now)) | None \<Rightarrow> t3);
          t5 = (case timeout_poll_cap_ms (now - sv_start s) (now - sv_last_output s)
                       (dc_timeout_ms (en_config e)) (dc_idle_timeout_ms (en_config e)) of
                  Some r \<Rightarrow> cap_poll_timeout t4 (u16_clip r) | None \<Rightarrow> t4);
          t6 = (case closing_deadline (w_closing (sv_world s)) of
                  Some d \<Rightarrow> cap_poll_timeout t5 (u16_clip (d - now)) | None \<Rightarrow> t5)
      in cap_if (buffered_frames (sv_world s)) 0 t6)"

subsection \<open>Poll outcomes without ready descriptors\<close>

text \<open>The self-pipe: drained bytes are signal numbers. Shared by the interrupted and the ready path.\<close>

definition serve_signals :: "'scr env \<Rightarrow> serve_params \<Rightarrow> 'scr pass_input \<Rightarrow> 'scr serve \<Rightarrow> wait_result list \<times> 'scr serve flow" where
  "serve_signals e sp i s =
     (if \<not> sp_pipe sp then (pi_waits i, Next s)
      else case handle_suspend_signals e (sp_pgrp sp) (pi_drained i) (sv_lifecycle s) (pi_waits i) (sv_world s) of
        (Some o', ws, w) \<Rightarrow> (ws, Return o' (s\<lparr>sv_world := w\<rparr>))
      | (None, ws, w) \<Rightarrow>
          (ws, if ss_upgrade_pending (w_state w) then Again (s\<lparr>sv_world := w\<rparr>) else Next (s\<lparr>sv_world := w\<rparr>)))"

definition serve_interrupted :: "'scr env \<Rightarrow> serve_params \<Rightarrow> 'scr pass_input \<Rightarrow> 'scr serve \<Rightarrow> 'scr serve flow option" where
  "serve_interrupted e sp i s =
     (let (ws, fl) = serve_signals e sp i s
      in and_then fl (\<lambda>s'. Some (Again (snd (observe_child_transition e sp ws s')))))"

definition poll_child_on_timeout :: "'scr env \<Rightarrow> serve_params \<Rightarrow> 'scr pass_input \<Rightarrow> 'scr serve \<Rightarrow> wait_result list \<times> 'scr serve" where
  "poll_child_on_timeout e sp i s =
     (if \<not> sp_pipe sp \<or> lc_stopped (sv_lifecycle s)
      then let (ws, s1) = observe_child_transition e sp (pi_waits i) s
           in (ws, if lc_stopped (sv_lifecycle s1) \<and> pi_procstate i = Some False
                   then on_world (record_child_continued e) (s1\<lparr>sv_lifecycle := lc_clear_stopped (sv_lifecycle s1)\<rparr>)
                   else s1)
      else (pi_waits i, s))"

fun deliver_results :: "pending_result list \<Rightarrow> pending_handshake list \<Rightarrow> pending_handshake list" where
  "deliver_results (r # rs) (p # ps) =
     (if ph_result p = StageEmpty then p\<lparr>ph_result := r\<rparr> else p) # deliver_results rs ps"
| "deliver_results rs ps = ps"

definition serve_handshakes :: "'scr env \<Rightarrow> 'scr pass_input \<Rightarrow> 'scr world \<Rightarrow> 'scr world" where
  "serve_handshakes e i w =
     flush_pending_redraws_if_sync_over e
       (process_pending_handshakes e (w\<lparr>w_pending := deliver_results (pi_results i) (w_pending w)\<rparr>))"

subsection \<open>Ready descriptors\<close>

definition serve_sigchld ::
  "'scr env \<Rightarrow> serve_params \<Rightarrow> 'scr pass_input \<Rightarrow> bool \<Rightarrow> wait_result list \<times> 'scr serve \<Rightarrow> wait_result list \<times> 'scr serve flow" where
  "serve_sigchld e sp i ready x =
     (let (ws, s) = x in
      if \<not> ready then (ws, Next s)
      else let s1 = on_world (reduce_and_execute e (sigchld_received (en_child_pid e))) s;
               (ws1, fl) = serve_signals e sp (i\<lparr>pi_waits := ws\<rparr>) s1
           in case fl of
                Next s2 \<Rightarrow> (let (ws2, s3) = observe_child_transition e sp ws1 s2 in (ws2, Next s3))
              | _ \<Rightarrow> (ws1, fl))"

definition serve_accept :: "'scr pass_input \<Rightarrow> bool \<Rightarrow> 'scr serve \<Rightarrow> 'scr serve flow" where
  "serve_accept i ready s =
     (if \<not> ready then Next s
      else if length (w_clients (sv_world s)) \<ge> MAX_CLIENTS_PER_DAEMON
              \<or> length (w_pending (sv_world s)) \<ge> MAX_PENDING_HANDSHAKES then Again s
      else Next (on_world (\<lambda>w. w\<lparr>w_pending := w_pending w @ (case pi_accept i of Some p \<Rightarrow> [p] | None \<Rightarrow> [])\<rparr>) s))"

text \<open>The end of file of the terminal, or \<open>EIO\<close>, with a child that was not seen to exit yet. Only the first tells the
  reducer.\<close>

definition serve_eof ::
  "'scr env \<Rightarrow> serve_params \<Rightarrow> wait_result list \<Rightarrow> bool \<Rightarrow> 'scr serve \<Rightarrow> 'scr serve" where
  "serve_eof e sp ws tell s =
     (if sv_deferred_exit s \<noteq> None then s\<lparr>sv_master_drained := True\<rparr>
      else let (r, ws') = next_wait ws;
               (lc, st, tr) = poll_with_transition r (sv_lifecycle s);
               s1 = on_world (report_transition e sp tr) (s\<lparr>sv_lifecycle := lc\<rparr>)
           in case st of
                CsExited code \<Rightarrow>
                  (let s2 = (if tell
                             then on_world (reduce_and_execute e (child_reaped code)) s1
                             else s1)
                   in defer_child_exit (en_now_ms e) code (s2\<lparr>sv_master_drained := True\<rparr>))
              | _ \<Rightarrow> s1)"

definition push_output :: "'scr env \<Rightarrow> bytes \<Rightarrow> 'scr world \<Rightarrow> 'scr world" where
  "push_output e bs w =
     (let w2 = reduce_and_execute e (tty_master_read bs) w;
          w3 = w2\<lparr>w_registry := push_bytes_out (en_unix_ms e) bs (w_registry w2),
                  w_scrollback := sb_push (w_scrollback w2) (en_now e) bs,
                  w_screen := en_screen_process e (w_screen w2) bs\<rparr>;
          (cs, ids) = broadcast_master_bytes (en_enc e) (w_clients w3) bs (en_epoch_ms e)
      in w3\<lparr>w_clients := cs, w_overflow := w_overflow w3 @ ids\<rparr>)"

definition dump_output :: "bool \<Rightarrow> bytes \<Rightarrow> bytes option \<Rightarrow> bytes option" where
  "dump_output ok bs d = (case d of None \<Rightarrow> None | Some f \<Rightarrow> if ok then Some (f @ bs) else None)"

definition serve_output ::
  "'scr env \<Rightarrow> serve_params \<Rightarrow> 'scr pass_input \<Rightarrow> bytes \<Rightarrow> 'scr serve \<Rightarrow> 'scr serve flow" where
  "serve_output e sp i bs s =
     (let s1 = on_world (push_output e bs)
                 (s\<lparr>sv_debug_dump := dump_output (pi_dump_ok i) bs (sv_debug_dump s), sv_last_output := en_now_ms e\<rparr>)
      in case sv_until s of
           Some u \<Rightarrow>
             if sv_deferred_exit s \<noteq> None then Next s1
             else let (hit, u') = uw_feed u bs; s2 = s1\<lparr>sv_until := Some u'\<rparr> in
               if hit
               then Return RelayClientDetachedOrKilled
                      (on_world (\<lambda>w. kill_pgrp e (sp_pgrp sp) SIGTERM
                         (log_lifecycle e (SessionTerminatedByCondition ''until'' (en_unix_ms e)) w)) s2)
               else Next s2
         | None \<Rightarrow> Next s1)"

definition serve_pty ::
  "'scr env \<Rightarrow> serve_params \<Rightarrow> 'scr pass_input \<Rightarrow> wait_result list \<Rightarrow> bool \<Rightarrow> 'scr serve \<Rightarrow> 'scr serve flow" where
  "serve_pty e sp i ws ready s =
     (if \<not> ready then Next s
      else case pi_read i of
        ReadBytes [] \<Rightarrow> Next (serve_eof e sp ws True s)
      | ReadBytes bs \<Rightarrow> serve_output e sp i bs s
      | ReadEio \<Rightarrow> Next (serve_eof e sp ws False s)
      | ReadEagain \<Rightarrow> Next s
      | ReadErr m \<Rightarrow> Return (RelayError m) s)"

subsection \<open>Frames of the clients\<close>

datatype frame_or_error = FrameOk frame | FrameError

fun recv_read :: "recv_answer list \<Rightarrow> recv_answer" where
  "recv_read [] = RecvWouldBlock"
| "recv_read (RecvInterrupted # rs) = recv_read rs"
| "recv_read (r # rs) = r"

definition take_frame :: "client_handle \<Rightarrow> frame_or_error option \<times> client_handle" where
  "take_frame ch =
     (let (r, d) = fd_next_frame (ch_decoder ch); ch' = ch\<lparr>ch_decoder := d\<rparr> in
      case r of
        Inr (Some fr) \<Rightarrow> (Some (FrameOk fr), ch')
      | Inr None \<Rightarrow> (None, ch')
      | Inl _ \<Rightarrow> (Some FrameError, ch'))"

definition receive_client_frame ::
  "(nat \<Rightarrow> nat \<Rightarrow> nat) \<Rightarrow> client_handle \<Rightarrow> bool \<Rightarrow> recv_answer list \<Rightarrow> frame_or_error option \<times> client_handle" where
  "receive_client_frame grow ch readable rs =
     (if fd_is_ready (ch_decoder ch) then take_frame ch
      else if \<not> readable then (None, ch)
      else case recv_read rs of
        RecvBytes [] \<Rightarrow> (Some FrameError, ch)
      | RecvBytes bs \<Rightarrow> take_frame (ch\<lparr>ch_decoder := fd_push grow (ch_decoder ch) bs\<rparr>)
      | RecvErr \<Rightarrow> (Some FrameError, ch)
      | _ \<Rightarrow> (None, ch))"

text \<open>The revents were taken by id at the poll; the table may have grown at its end since.\<close>

fun match_revents :: "client_id \<Rightarrow> (client_id \<times> bool) list \<Rightarrow> bool \<times> (client_id \<times> bool) list" where
  "match_revents c [] = (False, [])"
| "match_revents c ((i, r) # rs) = (if i = c then (r, rs) else match_revents c rs)"

fun receive_frames ::
  "'scr env \<Rightarrow> serve_params \<Rightarrow> (client_id \<Rightarrow> recv_answer list) \<Rightarrow> nat list \<Rightarrow> (client_id \<times> bool) list \<Rightarrow> 'scr world
    \<Rightarrow> (nat \<times> frame_or_error) list \<times> 'scr world" where
  "receive_frames e sp recv [] revs w = ([], w)"
| "receive_frames e sp recv (idx # is) revs w =
     (let ch = w_clients w ! idx;
          (readable, revs') = match_revents (ch_id ch) revs;
          (res, ch') = receive_client_frame (sp_grow sp) ch readable (recv (ch_id ch));
          w1 = w\<lparr>w_clients := (w_clients w)[idx := ch']\<rparr>
      in case res of
           None \<Rightarrow> receive_frames e sp recv is revs' w1
         | Some FrameError \<Rightarrow>
             (let (fs, w2) = receive_frames e sp recv is revs' w1 in ((idx, FrameError) # fs, w2))
         | Some (FrameOk fr) \<Rightarrow>
             (let (fs, w3) = receive_frames e sp recv is revs' (reduce_and_execute e (client_frame_received (ch_id ch)) w1)
              in ((idx, FrameOk fr) # fs, w3)))"

fun process_frames ::
  "'scr env \<Rightarrow> (nat \<times> frame_or_error) list \<Rightarrow> nat list \<Rightarrow> 'scr world \<Rightarrow> (nat list \<times> relay_outcome option \<times> 'scr world) option" where
  "process_frames e [] drops w = Some (drops, None, w)"
| "process_frames e ((idx, FrameError) # fs) drops w = process_frames e fs (drops @ [idx]) w"
| "process_frames e ((idx, FrameOk fr) # fs) drops w =
     (case handle_client_frame e idx fr w of
        None \<Rightarrow> None
      | Some (ContinueClient, w') \<Rightarrow> process_frames e fs drops w'
      | Some (DropClient, w') \<Rightarrow> process_frames e fs (drops @ [idx]) w'
      | Some (DropClients is cancel, w') \<Rightarrow>
          process_frames e fs (drops @ is) (if cancel then w'\<lparr>w_pending := []\<rparr> else w')
      | Some (TerminateSession o', w') \<Rightarrow> Some (drops, Some o', w'))"

definition serve_frames ::
  "'scr env \<Rightarrow> serve_params \<Rightarrow> 'scr pass_input \<Rightarrow> (client_id \<times> bool) list \<Rightarrow> 'scr serve \<Rightarrow> 'scr serve flow option" where
  "serve_frames e sp i revs s =
     (let (fs, w1) = receive_frames e sp (pi_recv i) [0..<length (w_clients (sv_world s))] revs (sv_world s);
          drops = indices_of (w_overflow w1) (w_clients w1)
      in case process_frames e fs drops (w1\<lparr>w_overflow := []\<rparr>) of
           None \<Rightarrow> None
         | Some (drops', r, w2) \<Rightarrow>
             (let s' = s\<lparr>sv_world := drop_clients e drops' w2\<rparr>
              in Some (case r of Some o' \<Rightarrow> Return o' s' | None \<Rightarrow> Again s')))"

subsection \<open>One pass\<close>

definition serve_ready ::
  "'scr env \<Rightarrow> serve_params \<Rightarrow> 'scr pass_input \<Rightarrow> bool \<Rightarrow> bool \<Rightarrow> (client_id \<times> bool) list \<Rightarrow> bool \<Rightarrow> wait_result list \<times> 'scr serve
    \<Rightarrow> 'scr serve flow option" where
  "serve_ready e sp i lrev mrev crev sig x =
     (let (ws1, fl) = serve_sigchld e sp i sig (fst x, on_world (serve_handshakes e i) (snd x))
      in and_then fl (\<lambda>s1. and_then (serve_accept i lrev s1)
           (\<lambda>s2. and_then (serve_pty e sp i ws1 mrev s2) (serve_frames e sp i crev))))"

definition serve_poll :: "serve_params \<Rightarrow> 'scr pass_input \<Rightarrow> 'scr serve \<Rightarrow> 'scr serve flow option" where
  "serve_poll sp i s =
     (let e = pi_after i in
      case pi_poll i of
        PollReady lrev mrev crev sig \<Rightarrow>
          serve_ready e sp i lrev (mrev \<and> \<not> sv_master_drained s)
            (zip (map ch_id (w_clients (sv_world s))) crev) (sig \<and> sp_pipe sp) (pi_waits i, s)
      | PollInterrupted \<Rightarrow> serve_interrupted e sp i s
      | PollTimedOut \<Rightarrow>
          (let x = poll_child_on_timeout e sp i s in
           if buffered_frames (sv_world s) then serve_ready e sp i False False [] False x
           else Some (Again (on_world (drop_on_timeout e) (on_world (serve_handshakes e i) (snd x)))))
      | PollFailed m \<Rightarrow> Some (Return (RelayError m) s))"

definition serve_top :: "serve_params \<Rightarrow> 'scr env \<Rightarrow> 'scr serve \<Rightarrow> 'scr serve flow" where
  "serve_top sp e s =
     flow_bind (check_upgrade e (on_world (\<lambda>w. w\<lparr>w_clients := flush_clients (w_clients w)\<rparr>) s)) (\<lambda>s1.
     flow_bind (check_deadlines e (on_world (\<lambda>w. w\<lparr>w_closing := advance_closing (w_closing w) (en_now_ms e)\<rparr>) s1)) (\<lambda>s2.
     flow_bind (check_timeouts e sp s2) (\<lambda>s3.
       Next ((on_world (\<lambda>w. w\<lparr>w_overflow := sv_startup_overflow s3\<rparr>) s3)\<lparr>sv_startup_overflow := []\<rparr>))))"

definition serve_pass :: "serve_params \<Rightarrow> 'scr pass_input \<Rightarrow> 'scr serve \<Rightarrow> 'scr serve flow option" where
  "serve_pass sp i s = and_then (serve_top sp (pi_before i) s) (serve_poll sp i)"

text \<open>The state before the first pass: the child is observed once.\<close>

definition serve_start ::
  "'scr env \<Rightarrow> serve_params \<Rightarrow> wait_result list \<Rightarrow> bytes option \<Rightarrow> 'scr world \<Rightarrow> 'scr serve" where
  "serve_start e sp ws dump w =
     (let s = \<lparr>sv_world = w\<lparr>w_pending := [], w_overflow := [], w_daemon := daemon_default\<rparr>, sv_lifecycle = lc_default,
               sv_until = (case dc_until (en_config e) of
                             Some n \<Rightarrow> if n = [] then None else Some (uw_new n) | None \<Rightarrow> None),
               sv_start = en_now_ms e, sv_last_output = en_now_ms e, sv_deferred_exit = None, sv_drain_deadline = None,
               sv_master_drained = False, sv_startup_overflow = [], sv_upgrade_deadline = None, sv_debug_dump = dump\<rparr>;
          s1 = snd (observe_child_transition e sp ws s)
      in s1\<lparr>sv_startup_overflow := w_overflow (sv_world s1), sv_world := (sv_world s1)\<lparr>w_overflow := []\<rparr>\<rparr>)"

text \<open>A run with its trace: the state and the input of every pass.\<close>

type_synonym 'scr trace = "('scr serve \<times> 'scr pass_input) list"

inductive serves ::
  "serve_params \<Rightarrow> 'scr serve \<Rightarrow> 'scr trace \<Rightarrow> relay_outcome option \<Rightarrow> 'scr serve \<Rightarrow> bool"
  for sp :: serve_params and s0 :: "'scr serve" where
  serves_start: "serves sp s0 [] None s0"
| serves_again: "serves sp s0 tr None s \<Longrightarrow> serve_pass sp i s = Some (Again s') \<Longrightarrow> serves sp s0 (tr @ [(s, i)]) None s'"
| serves_return: "serves sp s0 tr None s \<Longrightarrow> serve_pass sp i s = Some (Return r s') \<Longrightarrow> serves sp s0 (tr @ [(s, i)]) (Some r) s'"

subsection \<open>Invariants of the loop\<close>

fun flow_state :: "'s flow \<Rightarrow> 's" where
  "flow_state (Next s) = s"
| "flow_state (Again s) = s"
| "flow_state (Return r s) = s"

definition flow_ok :: "('s \<Rightarrow> bool) \<Rightarrow> (relay_outcome \<Rightarrow> bool) \<Rightarrow> 's flow \<Rightarrow> bool" where
  "flow_ok P R fl \<longleftrightarrow> P (flow_state fl) \<and> (\<forall>r s. fl = Return r s \<longrightarrow> R r)"

lemma flow_ok_simps [simp]:
  "flow_ok P R (Next s) \<longleftrightarrow> P s" "flow_ok P R (Again s) \<longleftrightarrow> P s" "flow_ok P R (Return r s) \<longleftrightarrow> P s \<and> R r"
  by (auto simp: flow_ok_def)

lemma sv_world_on_world [simp]: "sv_world (on_world f s) = f (sv_world s)"
  by (simp add: on_world_def)

text \<open>What an invariant of the loop has to show: each phase keeps it and leaves the loop only with an accepted outcome,
  for answers of \<open>waitpid\<close> that it accepts; the drop of the timeout path may ask for more. The client lemma is that
  passes and runs keep it.\<close>

lemma next_wait_subset: "set (snd (next_wait ws)) \<subseteq> set ws"
  by (cases ws) auto

lemma handle_suspend_waits: "handle_suspend_signals e own bs l ws w = (r, ws', w') \<Longrightarrow> set ws' \<subseteq> set ws"
proof (induction bs arbitrary: ws w)
  case Nil
  then show ?case by simp
next
  case (Cons b bs)
  then show ?case using next_wait_subset [of ws]
    by (fastforce simp: Let_def child_is_stopped_via_waitpid_def split: if_splits prod.splits)
qed

lemma serve_signals_waits: "serve_signals e sp i s = (ws, fl) \<Longrightarrow> set ws \<subseteq> set (pi_waits i)"
  by (auto simp: serve_signals_def dest!: handle_suspend_waits split: if_splits prod.splits option.splits)

lemma observe_waits: "set (fst (observe_child_transition e sp ws s)) \<subseteq> set ws"
  using next_wait_subset [of ws] by (auto simp: observe_child_transition_def Let_def split: prod.splits)

text \<open>The world a pass drops clients from without the reducer, if it does.\<close>

definition timeout_world :: "serve_params \<Rightarrow> 'scr pass_input \<Rightarrow> 'scr serve \<Rightarrow> 'scr world option" where
  "timeout_world sp i s =
     (if pi_poll i = PollTimedOut \<and> \<not> buffered_frames (sv_world s)
      then Some (serve_handshakes (pi_after i) i (sv_world (snd (poll_child_on_timeout (pi_after i) sp i s))))
      else None)"

definition pass_fine :: "('scr env \<Rightarrow> 'scr world \<Rightarrow> bool) \<Rightarrow> serve_params \<Rightarrow> 'scr pass_input \<Rightarrow> 'scr serve \<Rightarrow> bool" where
  "pass_fine fine sp i s \<longleftrightarrow>
     (case serve_top sp (pi_before i) s of
        Next s1 \<Rightarrow> (case timeout_world sp i s1 of Some w \<Rightarrow> fine (pi_after i) w | None \<Rightarrow> True)
      | _ \<Rightarrow> True)"

locale pass_invariant =
  fixes sp :: serve_params
    and P :: "'scr serve \<Rightarrow> bool"
    and R :: "relay_outcome \<Rightarrow> bool"
    and okw :: "wait_result \<Rightarrow> bool"
    and fine :: "'scr env \<Rightarrow> 'scr world \<Rightarrow> bool"
  assumes inv_flush: "P s \<Longrightarrow> P (on_world (\<lambda>w. w\<lparr>w_clients := flush_clients (w_clients w)\<rparr>) s)"
    and inv_upgrade: "P s \<Longrightarrow> flow_ok P R (check_upgrade e s)"
    and inv_closing: "P s \<Longrightarrow> P (on_world (\<lambda>w. w\<lparr>w_closing := advance_closing (w_closing w) n\<rparr>) s)"
    and inv_deadlines: "P s \<Longrightarrow> flow_ok P R (check_deadlines e s)"
    and inv_timeouts: "P s \<Longrightarrow> flow_ok P R (check_timeouts e sp s)"
    and inv_overflow: "P s \<Longrightarrow> P ((on_world (\<lambda>w. w\<lparr>w_overflow := ids\<rparr>) s)\<lparr>sv_startup_overflow := ids'\<rparr>)"
    and inv_signals: "P s \<Longrightarrow> flow_ok P R (snd (serve_signals e sp i s))"
    and inv_observe: "P s \<Longrightarrow> list_all okw ws \<Longrightarrow> P (snd (observe_child_transition e sp ws s))"
    and inv_continued: "P s \<Longrightarrow> P (on_world (record_child_continued e) (s\<lparr>sv_lifecycle := lc\<rparr>))"
    and inv_handshakes: "P s \<Longrightarrow> P (on_world (serve_handshakes e i) s)"
    and inv_reduce: "P s \<Longrightarrow> P (on_world (reduce_and_execute e (sigchld_received p)) s)"
    and inv_accept: "P s \<Longrightarrow> flow_ok P R (serve_accept i lr s)"
    and inv_eof: "P s \<Longrightarrow> list_all okw ws \<Longrightarrow> P (serve_eof e sp ws tell s)"
    and inv_output: "P s \<Longrightarrow> flow_ok P R (serve_output e sp i bs s)"
    and inv_frames: "P s \<Longrightarrow> serve_frames e sp i revs s = Some fl \<Longrightarrow> flow_ok P R fl"
    and outcome_error: "R (RelayError m)"
    and inv_timeout_drop: "P s \<Longrightarrow> fine e (sv_world s) \<Longrightarrow> P (on_world (drop_on_timeout e) s)"
begin

lemma and_then_keeps:
  assumes "and_then fl f = Some fl'" and "flow_ok P R fl" and "\<And>s fl'. f s = Some fl' \<Longrightarrow> P s \<Longrightarrow> flow_ok P R fl'"
  shows "flow_ok P R fl'"
  using assms by (cases fl) auto

lemma flow_bind_keeps:
  assumes "flow_ok P R fl" and "\<And>s. P s \<Longrightarrow> flow_ok P R (f s)"
  shows "flow_ok P R (flow_bind fl f)"
  using assms by (cases fl) auto

lemma top_keeps: "P s \<Longrightarrow> flow_ok P R (serve_top sp e s)"
  unfolding serve_top_def
  by (intro flow_bind_keeps) (auto intro: inv_upgrade inv_flush inv_deadlines inv_closing inv_timeouts inv_overflow)

lemma pty_keeps: "P s \<Longrightarrow> list_all okw ws \<Longrightarrow> flow_ok P R (serve_pty e sp i ws b s)"
  by (auto simp: serve_pty_def intro: inv_eof inv_output outcome_error split: read_answer.splits list.splits)

lemma sigchld_keeps:
  assumes "P s" and "list_all okw ws"
  shows "flow_ok P R (snd (serve_sigchld e sp i b (ws, s)))"
    and "list_all okw (fst (serve_sigchld e sp i b (ws, s)))"
proof -
  let ?s1 = "on_world (reduce_and_execute e (sigchld_received (en_child_pid e))) s"
  obtain ws1 fl where sg: "serve_signals e sp (i\<lparr>pi_waits := ws\<rparr>) ?s1 = (ws1, fl)" by fastforce
  have p: "flow_ok P R fl" using inv_signals [OF inv_reduce [OF assms(1), where p = "en_child_pid e" and e = e], of e "i\<lparr>pi_waits := ws\<rparr>"] sg by simp
  have o1: "list_all okw ws1" using serve_signals_waits [OF sg] assms(2) by (auto simp: list_all_iff)
  obtain ws2 s3 where ob: "observe_child_transition e sp ws1 (flow_state fl) = (ws2, s3)" by fastforce
  have pf: "P (flow_state fl)" using p by (simp add: flow_ok_def)
  have "P s3" "list_all okw ws2"
    using inv_observe [OF pf o1, of e] observe_waits [of e sp ws1 "flow_state fl"] ob o1 by (auto simp: list_all_iff)
  with sg ob p assms o1 show "flow_ok P R (snd (serve_sigchld e sp i b (ws, s)))"
    and "list_all okw (fst (serve_sigchld e sp i b (ws, s)))"
    by (cases fl; simp add: serve_sigchld_def Let_def)+
qed

lemma ready_keeps:
  assumes "serve_ready e sp i lr mr cr sig (ws, s) = Some fl" and "P s" and "list_all okw ws"
  shows "flow_ok P R fl"
proof -
  obtain ws1 f1 where sc: "serve_sigchld e sp i sig (ws, on_world (serve_handshakes e i) s) = (ws1, f1)" by fastforce
  note k = sigchld_keeps [OF inv_handshakes [OF assms(2), of e i] assms(3), where e = e and i = i and b = sig, unfolded sc fst_conv snd_conv]
  from assms(1) sc have "and_then f1 (\<lambda>s1. and_then (serve_accept i lr s1)
           (\<lambda>s2. and_then (serve_pty e sp i ws1 mr s2) (serve_frames e sp i cr))) = Some fl"
    by (simp add: serve_ready_def)
  then show ?thesis
    by (rule and_then_keeps [OF _ k(1)])
      (auto elim!: and_then_keeps intro: inv_accept inv_frames pty_keeps k(2))
qed

lemma timeout_child_keeps:
  assumes "P s" and "list_all okw (pi_waits i)"
  shows "P (snd (poll_child_on_timeout e sp i s))" and "list_all okw (fst (poll_child_on_timeout e sp i s))"
  using assms inv_observe [OF assms, of e] observe_waits [of e sp "pi_waits i" s]
  by (auto simp: poll_child_on_timeout_def list_all_iff intro: inv_continued split: prod.splits)

lemma poll_keeps:
  assumes "serve_poll sp i s = Some fl" and "P s" and "list_all okw (pi_waits i)"
    and "\<And>w. timeout_world sp i s = Some w \<Longrightarrow> fine (pi_after i) w"
  shows "flow_ok P R fl"
proof (cases "pi_poll i")
  case (PollReady lr mr cr sg)
  with assms(1) show ?thesis by (auto simp: serve_poll_def intro: ready_keeps [OF _ assms(2,3)])
next
  case PollInterrupted
  obtain ws f1 where sg: "serve_signals (pi_after i) sp i s = (ws, f1)" by fastforce
  have "list_all okw ws" using serve_signals_waits [OF sg] assms(3) by (auto simp: list_all_iff)
  moreover have "flow_ok P R f1" using inv_signals [OF assms(2), of "pi_after i" i] sg by simp
  ultimately show ?thesis using assms(1) PollInterrupted sg
    by (auto simp: serve_poll_def serve_interrupted_def elim!: and_then_keeps intro: inv_observe)
next
  case PollTimedOut
  note k = timeout_child_keeps [OF assms(2,3), of "pi_after i"]
  show ?thesis
  proof (cases "buffered_frames (sv_world s)")
    case True
    then show ?thesis using assms(1) PollTimedOut k
      by (cases "poll_child_on_timeout (pi_after i) sp i s") (auto simp: serve_poll_def intro: ready_keeps)
  next
    case False
    then show ?thesis using assms(1,4) PollTimedOut k(1)
      by (auto simp: serve_poll_def Let_def timeout_world_def intro!: inv_timeout_drop inv_handshakes)
  qed
next
  case (PollFailed m)
  with assms(1,2) show ?thesis by (auto simp: serve_poll_def outcome_error)
qed

lemma pass_keeps:
  assumes "serve_pass sp i s = Some fl" and "P s" and "list_all okw (pi_waits i)" and "pass_fine fine sp i s"
  shows "flow_ok P R fl"
proof -
  have t: "flow_ok P R (serve_top sp (pi_before i) s)" using assms(2) by (rule top_keeps)
  then show ?thesis using assms(1,3,4)
    by (cases "serve_top sp (pi_before i) s") (auto simp: serve_pass_def pass_fine_def intro: poll_keeps)
qed

theorem run_keeps:
  assumes "serves sp s0 tr r s" and "P s0" and "\<forall>(s, i) \<in> set tr. list_all okw (pi_waits i) \<and> pass_fine fine sp i s"
  shows "P s \<and> (\<forall>o'. r = Some o' \<longrightarrow> R o')"
  using assms by (induction rule: serves.induct) (force dest: pass_keeps)+

end

end
