(* ===== verification/Serving.thy ===== *)
theory Serving
  imports Session
begin

text \<open>
  Properties of the serve loop over all runs: the session invariant and the bound on the client table, the exit
  code that is returned, and what a failed upgrade and a badly timed \<open>SIGCONT\<close> lose. Each is an interpretation of the
  loop-invariant interface \<open>pass_invariant\<close>.
\<close>

subsection \<open>Small steps keep the session invariant\<close>

lemma same_entry_flush: "ch_id (snd (ch_flush_send c)) = ch_id c" "ch_mode (snd (ch_flush_send c)) = ch_mode c"
  "ch_leader (snd (ch_flush_send c)) = ch_leader c"
  by (simp_all add: ch_flush_send_def split: prod.splits)

lemma roster_flush [simp]: "roster (flush_clients cs) = roster cs"
  by (simp add: flush_clients_def roster_def same_entry_flush)

lemma length_closing [simp]: "length (advance_closing cl n) \<le> length cl" "length (write_closing cl) \<le> length cl"
  using length_filter_le [of _ "map still_writing cl"] by (simp_all add: advance_closing_def write_closing_def)

lemma session_inv_closing: "session_inv w \<Longrightarrow> length cl \<le> length (w_closing w) \<Longrightarrow> session_inv (w\<lparr>w_closing := cl\<rparr>)"
  by (auto simp: session_inv_def base_inv_def)

lemma session_inv_kill_pgrp: "session_inv w \<Longrightarrow> session_inv (kill_pgrp e own s w)"
  by (erule session_inv_cong) (simp_all add: kill_pgrp_def send_kill_def)

lemma session_inv_continued: "session_inv w \<Longrightarrow> session_inv (record_child_continued e w)"
  by (simp add: record_child_continued_def session_inv_log session_inv_state)

lemma session_inv_overflow: "session_inv w \<Longrightarrow> session_inv (w\<lparr>w_overflow := ids\<rparr>)"
  by (erule session_inv_cong) simp_all

lemma session_inv_pending: "session_inv w \<Longrightarrow> session_inv (w\<lparr>w_pending := ps\<rparr>)"
  by (erule session_inv_cong) simp_all

lemma roster_notify_each: "roster (fst (notify_each enc msg cs)) = roster cs"
proof (induction cs)
  case (Cons c cs)
  then show ?case using same_identity_entry [OF send_control_same_identity [of enc c msg]]
    by (auto simp: case_prod_beta Let_def)
qed simp

lemma notify_child_stopped_keeps:
  assumes "session_inv w"
  shows "session_inv (fst (notify_child_stopped e own name sig w))"
    and "roster (w_clients (fst (notify_child_stopped e own name sig w))) = roster (w_clients w)"
    and "w_pending (fst (notify_child_stopped e own name sig w)) = w_pending w"
proof -
  let ?w = "log_lifecycle e (ChildStoppedObserved (sig_num_to_name name sig) (int sig) (en_child_pid e) (en_unix_ms e))
    (w\<lparr>w_state := set_child_stopped True (w_state w)\<rparr>)"
  have i: "session_inv ?w" using assms by (simp add: session_inv_log session_inv_state)
  obtain cs failed where n: "notify_each (en_enc e) (SessionChildStoppedNotify
      \<lparr>sc_pid = nat (en_child_pid e), sc_signal = Some (sig_num_to_name name sig)\<rparr>) (w_clients w) = (cs, failed)" by fastforce
  have r: "roster cs = roster (w_clients w)" using roster_notify_each n by (metis fst_conv)
  from n have eq: "fst (notify_child_stopped e own name sig w) =
      (if get_child_suspend_policy (w_state w) = SuspendAutoResume then kill_pgrp e own SIGCONT ?w else ?w\<lparr>w_clients := cs\<rparr>)"
    by (simp add: notify_child_stopped_def Let_def)
  show "session_inv (fst (notify_child_stopped e own name sig w))"
    using session_inv_kill_pgrp [OF i] session_inv_clients [OF i, of cs] r by (simp add: eq)
  show "roster (w_clients (fst (notify_child_stopped e own name sig w))) = roster (w_clients w)"
    and "w_pending (fst (notify_child_stopped e own name sig w)) = w_pending w"
    using r by (simp_all add: eq kill_pgrp_def send_kill_def)
qed

lemma report_transition_keeps:
  assumes "session_inv w"
  shows "session_inv (report_transition e sp tr w)"
    and "roster (w_clients (report_transition e sp tr w)) = roster (w_clients w)"
    and "w_pending (report_transition e sp tr w) = w_pending w"
  using notify_child_stopped_keeps [OF assms] session_inv_continued [OF assms] assms
  by (cases "(e, sp, tr, w)" rule: report_transition.cases;
      auto simp: case_prod_beta Let_def record_child_continued_def intro: session_inv_overflow)+

lemma suspend_signals_keep:
  assumes "session_inv w" and "handle_suspend_signals e own bs l ws w = (r, ws', w')"
  shows "session_inv w' \<and> roster (w_clients w') = roster (w_clients w) \<and> w_pending w' = w_pending w
    \<and> (\<forall>o'. r = Some o' \<longrightarrow> o' = RelayClientDetachedOrKilled)"
  using assms
proof (induction bs arbitrary: ws w)
  case Nil
  then show ?case by simp
next
  case (Cons b bs)
  have k: "session_inv (kill_pgrp e own s v)" "w_clients (kill_pgrp e own s v) = w_clients v"
    "w_pending (kill_pgrp e own s v) = w_pending v" if "session_inv v" for s v
    using that by (simp_all add: session_inv_kill_pgrp) (simp_all add: kill_pgrp_def send_kill_def)
  have u: "session_inv ((log_lifecycle e ev w)\<lparr>w_state := st\<rparr>)" for ev st
    using Cons.prems(1) by (simp add: session_inv_log session_inv_state)
  show ?case
    using Cons.prems(2) Cons.IH [OF Cons.prems(1)] Cons.IH [OF k(1) [OF Cons.prems(1)]] Cons.IH [OF u]
      k [OF Cons.prems(1)] k [OF session_inv_log [OF Cons.prems(1)]]
    by (simp add: Let_def case_prod_beta split: if_splits) (auto simp: log_lifecycle_simps)
qed

subsection \<open>The client table\<close>

text \<open>Handshakes in flight count: the limit on clients is compared when a connection is accepted, not when it
  becomes a client.\<close>

definition table_ok :: "'scr world \<Rightarrow> bool" where
  "table_ok w \<longleftrightarrow> length (w_pending w) \<le> MAX_PENDING_HANDSHAKES
     \<and> length (w_clients w) + length (w_pending w) < MAX_CLIENTS_PER_DAEMON + MAX_PENDING_HANDSHAKES"

definition sound :: "'scr world \<Rightarrow> bool" where
  "sound w \<longleftrightarrow> session_inv w \<and> table_ok w"

lemma soundI:
  assumes "sound w" and "session_inv w'" and "length (w_pending w') \<le> length (w_pending w)"
    and "length (w_clients w') + length (w_pending w') \<le> length (w_clients w) + length (w_pending w)"
  shows "sound w'"
  using assms by (auto simp: sound_def table_ok_def)

lemma roster_length: "roster cs = roster ds \<Longrightarrow> length cs = length ds"
  by (metis roster_simps(4))

lemma sound_keep:
  assumes "sound w" and "session_inv w'" and "roster (w_clients w') = roster (w_clients w)" and "w_pending w' = w_pending w"
  shows "sound w'"
  using soundI [OF assms(1,2)] assms(4) roster_length [OF assms(3)] by simp

lemma sound_inv: "sound w \<Longrightarrow> session_inv w"
  by (simp add: sound_def)

text \<open>The messages the serve loop only reports to the reducer.\<close>

lemma reduce_stub:
  "reduce_world (sigchld_received p) w = (w, [])" "reduce_world (child_reaped c) w = (w, [])"
  "reduce_world (tty_master_read bs) w = (w, [])" "reduce_world (client_frame_received i) w = (w, [])"
  by (simp_all add: reduce_world_def handle_eq detach_msg_def sigchld_received_def child_reaped_def tty_master_read_def
      client_frame_received_def empty_output_def)

definition stub_msg :: "daemon_msg \<Rightarrow> bool" where
  "stub_msg m \<longleftrightarrow> (\<exists>p. m = sigchld_received p) \<or> (\<exists>c. m = child_reaped c) \<or> (\<exists>bs. m = tty_master_read bs)
     \<or> (\<exists>i. m = client_frame_received i)"

lemma reduce_and_execute_stub:
  assumes "session_inv w" and "stub_msg m"
  shows "\<exists>cs ov. reduce_and_execute e m w = w\<lparr>w_clients := cs, w_overflow := ov\<rparr> \<and> roster cs = roster (w_clients w)"
proof -
  from assms(2) have "reduce_and_execute e m w = execute_world e [] w"
    by (auto simp: reduce_and_execute_def reduce_stub stub_msg_def)
  then show ?thesis using execute_world_keeps [OF session_inv_idle [OF assms(1)], of e "[]"] by simp
qed

lemma stub_keeps:
  assumes "session_inv w" and "stub_msg m"
  shows "session_inv (reduce_and_execute e m w)" and "roster (w_clients (reduce_and_execute e m w)) = roster (w_clients w)"
    and "w_pending (reduce_and_execute e m w) = w_pending w"
proof -
  obtain cs ov where eq: "reduce_and_execute e m w = w\<lparr>w_clients := cs, w_overflow := ov\<rparr>" and r: "roster cs = roster (w_clients w)"
    using reduce_and_execute_stub [OF assms] by blast
  have "session_inv (w\<lparr>w_clients := cs, w_overflow := ov\<rparr>)" using r by (intro session_inv_cong [OF assms(1)]) simp_all
  with eq r show "session_inv (reduce_and_execute e m w)" and "roster (w_clients (reduce_and_execute e m w)) = roster (w_clients w)"
    and "w_pending (reduce_and_execute e m w) = w_pending w" by simp_all
qed

lemma stub_msgs [simp]: "stub_msg (sigchld_received p)" "stub_msg (child_reaped c)" "stub_msg (tty_master_read bs)"
  "stub_msg (client_frame_received i)"
  by (auto simp: stub_msg_def)

lemma push_output_keeps:
  assumes "session_inv w"
  shows "session_inv (push_output e bs w)" and "roster (w_clients (push_output e bs w)) = roster (w_clients w)"
    and "w_pending (push_output e bs w) = w_pending w"
proof -
  note k = stub_keeps [OF assms stub_msgs(3), of e bs]
  let ?w2 = "reduce_and_execute e (tty_master_read bs) w"
  obtain cs ids where b: "broadcast_master_bytes (en_enc e) (w_clients ?w2) bs (en_epoch_ms e) = (cs, ids)" by fastforce
  have r: "roster cs = roster (w_clients ?w2)"
    using b by (auto simp: broadcast_master_bytes_def broadcast_each_map Let_def intro!: roster_map_same)
  from b have eq: "push_output e bs w = ?w2\<lparr>w_registry := push_bytes_out (en_unix_ms e) bs (w_registry ?w2),
      w_scrollback := sb_push (w_scrollback ?w2) (en_now e) bs, w_screen := en_screen_process e (w_screen ?w2) bs,
      w_clients := cs, w_overflow := w_overflow ?w2 @ ids\<rparr>"
    by (simp add: push_output_def Let_def)
  show "session_inv (push_output e bs w)" unfolding eq
    using r by (intro session_inv_cong [OF k(1)]) (simp_all add: registry_inv_pushes)
  show "roster (w_clients (push_output e bs w)) = roster (w_clients w)" and "w_pending (push_output e bs w) = w_pending w"
    using k(2,3) r by (simp_all add: eq)
qed

lemma sweep_pending_table:
  assumes "session_inv w"
  shows "length (w_pending (sweep_pending e kept ps w)) \<le> length kept + length ps
    \<and> length (w_clients (sweep_pending e kept ps w)) + length (w_pending (sweep_pending e kept ps w))
        \<le> length (w_clients w) + length kept + length ps"
  using assms
proof (induction ps arbitrary: kept w)
  case Nil
  then show ?case by simp
next
  case (Cons p ps)
  show ?case
  proof (cases "ph_result p")
    case (StageOk stream req caps)
    let ?f = "finalize_accepted_client e stream req caps (w_next_client_id w) (w_clients w) (length kept + length ps)
      (ss_child_stopped (w_state w))"
    show ?thesis
    proof (cases ?f)
      case (Inr ac)
      have sp: "session_inv (integrate_client e ac w)"
        "map ch_id (w_clients (integrate_client e ac w)) =
          (if ac_detach_others ac then [w_next_client_id w] else map ch_id (w_clients w) @ [w_next_client_id w])"
        using integrate_client_spec [OF Cons.prems, of ac e] finalize_accepted [OF Inr] by simp_all
      from arg_cong [OF sp(2), of length] have "length (w_clients (integrate_client e ac w)) =
          (if ac_detach_others ac then 1 else length (w_clients w) + 1)" by (simp split: if_splits)
      with Cons.IH [OF sp(1), of kept] StageOk Inr show ?thesis by (auto simp: Let_def)
    next
      case (Inl oc)
      have "session_inv (w\<lparr>w_closing := admit_closing (w_closing w) c\<rparr>)" for c
        using Cons.prems by (auto simp: session_inv_def base_inv_def length_admit)
      note ih = Cons.IH [OF this, of kept, simplified] Cons.IH [OF Cons.prems, of kept]
      show ?thesis
      proof (cases oc)
        case None
        with ih(2) StageOk Inl show ?thesis by simp
      next
        case (Some c)
        from ih(1) [of c] StageOk Inl Some show ?thesis by (simp add: le_SucI)
      qed
    qed
  next
    case StageEmpty
    then show ?thesis using Cons.IH [OF Cons.prems, of kept] Cons.IH [OF Cons.prems, of "kept @ [p]"] by auto
  qed (use Cons.IH [OF Cons.prems, of kept] in auto)
qed

lemma length_deliver [simp]: "length (deliver_results rs ps) = length ps"
  by (induction rs ps rule: deliver_results.induct) auto

lemma sound_handshakes: "sound w \<Longrightarrow> sound (serve_handshakes e i w)"
proof -
  assume s: "sound w"
  let ?w = "w\<lparr>w_pending := deliver_results (pi_results i) (w_pending w)\<rparr>"
  let ?v = "process_pending_handshakes e ?w"
  have i: "session_inv ?w" using s by (simp add: sound_inv session_inv_pending)
  note p = process_pending_inv [OF i, of e]
  have l: "length (w_pending ?v) \<le> length (w_pending w)"
    "length (w_clients ?v) + length (w_pending ?v) \<le> length (w_clients w) + length (w_pending w)"
    using sweep_pending_table [OF i, of e "[]" "deliver_results (pi_results i) (w_pending w)"]
    by (simp_all add: process_pending_handshakes_def)
  have sv: "sound ?v" by (rule soundI [OF s p l])
  have "roster (fold (\<lambda>i cs. snd (on_client i (\<lambda>ch. (True, send_initial_attach_redraw e ch (w_screen v))) cs)) is cs) = roster cs"
    for "is" cs and v :: "'a world" by (induction "is" arbitrary: cs) (simp_all add: roster_on_client)
  then have "roster (w_clients (serve_handshakes e i w)) = roster (w_clients ?v)" "w_pending (serve_handshakes e i w) = w_pending ?v"
    by (simp_all add: serve_handshakes_def flush_pending_redraws_if_sync_over_def)
  then show ?thesis using sound_keep [OF sv, of "serve_handshakes e i w"] flush_redraws_inv [OF p, of e] by (simp add: serve_handshakes_def)
qed

subsection \<open>Frames\<close>

lemma receive_client_frame_entry:
  "receive_client_frame grow ch r rs = (res, ch') \<Longrightarrow> (ch_id ch', ch_mode ch', ch_leader ch') = (ch_id ch, ch_mode ch, ch_leader ch)"
  by (auto simp: receive_client_frame_def take_frame_def Let_def
      split: if_splits prod.splits recv_answer.splits list.splits sum.splits option.splits)

lemma roster_update_entry:
  "(ch_id c, ch_mode c, ch_leader c) = (ch_id (cs ! k), ch_mode (cs ! k), ch_leader (cs ! k)) \<Longrightarrow> roster (cs[k := c]) = roster cs"
  by (cases "k < length cs") (simp_all add: roster_def map_update list_update_same_conv list_update_beyond)

lemma receive_frames_keep:
  assumes "session_inv w" and "receive_frames e sp recv is revs w = (fs, w')"
  shows "session_inv w' \<and> roster (w_clients w') = roster (w_clients w) \<and> w_pending w' = w_pending w \<and> (\<forall>x \<in> set fs. fst x \<in> set is)"
  using assms
proof (induction "is" arbitrary: revs w fs w')
  case Nil
  then show ?case by simp
next
  case (Cons idx "is")
  obtain rd revs' where m: "match_revents (ch_id (w_clients w ! idx)) revs = (rd, revs')" by fastforce
  obtain res ch' where rc: "receive_client_frame (sp_grow sp) (w_clients w ! idx) rd (recv (ch_id (w_clients w ! idx))) = (res, ch')"
    by fastforce
  let ?w1 = "w\<lparr>w_clients := (w_clients w)[idx := ch']\<rparr>"
  have r1: "roster (w_clients ?w1) = roster (w_clients w)"
    using roster_update_entry [OF receive_client_frame_entry [OF rc]] by simp
  have i1: "session_inv ?w1" using session_inv_clients [OF Cons.prems(1)] r1 by simp
  note st = stub_keeps [OF i1 stub_msgs(4), of e "ch_id (w_clients w ! idx)"]
  show ?case
  proof (cases res)
    case None
    with Cons.prems(2) m rc Cons.IH [OF i1, of revs' fs] r1 show ?thesis by (auto simp: Let_def)
  next
    case (Some x)
    show ?thesis
    proof (cases x)
      case FrameError
      obtain gs v where g: "receive_frames e sp recv is revs' ?w1 = (gs, v)" by fastforce
      from Cons.IH [OF i1 g] g Cons.prems(2) m rc Some FrameError r1 show ?thesis
        by (auto simp: Let_def)
    next
      case (FrameOk fr)
      obtain gs v where g: "receive_frames e sp recv is revs' (reduce_and_execute e (client_frame_received (ch_id (w_clients w ! idx))) ?w1) = (gs, v)"
        by fastforce
      from Cons.IH [OF st(1) g] g Cons.prems(2) m rc Some FrameOk r1 st(2,3) show ?thesis
        by (auto simp: Let_def)
    qed
  qed
qed

lemma pending_frame [simp]:
  "w_pending (execute_world_ignore e es w) = w_pending w" "w_pending (fst (broadcast_world e m w)) = w_pending w"
  "w_pending (snd (snd (lock_world lm w))) = w_pending w" "w_pending (send_kill t s w) = w_pending w"
  "w_pending (reply_error e idx c x w) = w_pending w"
  by (simp_all add: execute_world_ignore_def broadcast_world_def lock_world_def send_kill_def reply_error_def
      case_prod_beta Let_def)

lemma pending_handlers:
  "w_pending (snd (handle_tail_request_dispatch e idx tq w)) = w_pending w"
  "w_pending (snd (handle_record_start_request e idx rq w)) = w_pending w"
  "w_pending (snd (handle_record_stop_request e idx n w)) = w_pending w"
  "w_pending (snd (handle_record_stop_all_request e idx w)) = w_pending w"
  "w_pending (snd (handle_record_list_request e idx w)) = w_pending w"
  "w_pending (snd (handle_screen_dump_request e idx dq w)) = w_pending w"
  "w_pending (snd (handle_state_snapshot_request e idx incl serial w)) = w_pending w"
  "w_pending (snd (handle_status_query e idx w)) = w_pending w"
  "w_pending (snd (reject_unexpected_kind e idx w)) = w_pending w"
  "w_pending (snd (handle_detach_target e idx t w)) = w_pending w"
  by (simp_all add: handle_tail_request_dispatch_def handle_tail_request_def handle_record_start_request_def
      handle_record_stop_request_def handle_record_stop_all_request_def handle_record_list_request_def
      handle_screen_dump_request_def handle_state_snapshot_request_def handle_status_query_def reject_unexpected_kind_def
      handle_detach_target_def guarded_cases case_prod_beta Let_def
      split: sum.splits option.splits screen_dump_error.splits detach_target.splits)

lemma pending_requests:
  "w_pending (snd (handle_kill e idx k w)) = w_pending w"
  "w_pending (snd (handle_signal e idx sg w)) = w_pending w"
  "w_pending (snd (handle_session_child_resume_request e idx w)) = w_pending w"
  "w_pending (snd (handle_resize e idx r w)) = w_pending w"
  "w_pending (snd (handle_set_request e idx sr w)) = w_pending w"
  "w_pending (snd (handle_upgrade_request e idx target w)) = w_pending w"
  "w_pending (snd (handle_leader_request e idx w)) = w_pending w"
  "w_pending (snd (handle_lock_acquire e idx la w)) = w_pending w"
  "w_pending (snd (handle_lock_release e idx tok w)) = w_pending w"
  by (simp_all add: handle_kill_def handle_signal_def handle_session_child_resume_request_def handle_resize_def
      handle_set_request_def handle_upgrade_request_def handle_leader_request_def handle_lock_acquire_def
      handle_lock_release_def guarded_cases case_prod_beta Let_def
      split: sum.splits option.splits leader_takeover.splits)

lemma pending_control: "w_pending (snd (handle_control_message e idx msg w)) = w_pending w"
  by (cases msg) (simp_all add: handle_control_message_def pending_handlers pending_requests)

lemma client_frame_pending: "handle_client_frame e idx fr w = Some (oc, w') \<Longrightarrow> w_pending w' = w_pending w"
  using pending_control [of e idx _ w]
  by (auto simp: handle_client_frame_def handle_raw_data_def Let_def split: if_splits option.splits) (metis snd_conv)

text \<open>A frame changes no client's place in the table, and asks only for clients of the table to be dropped.\<close>

lemma leader_request_ids:
  assumes "session_inv w" and "idx < length (w_clients w)"
  shows "map ch_id (w_clients (snd (handle_leader_request e idx w))) = map ch_id (w_clients w)"
proof -
  from take_leader_defined [OF assms(2)] obtain cs r where t: "take_leader (w_clients w) idx = Some (cs, r)" by fastforce
  have "map ch_id cs = map ch_id (w_clients w)" if "ch_mode (w_clients w ! idx) \<noteq> Ro"
    using take_leader_spec(3) [OF assms(2) _ _ that t] assms(1) by (simp add: session_inv_def base_inv_def)
  then show ?thesis using t
    by (cases r) (auto simp: handle_leader_request_def guarded_cases Let_def roster_ids)
qed

lemma client_frame_cases:
  assumes "handle_client_frame e idx fr w = Some (oc, w')"
  obtains (raw) "handle_raw_data e idx (frame_body fr) w = Some (oc, w')"
  | (refused) c t where "w' = reply_error e idx c t w" and "oc = ContinueClient"
  | (ignored) "w' = w" and "oc = ContinueClient \<or> oc = DropClient"
  | (control) msg where "oc = fst (handle_control_message e idx msg w)" and "w' = snd (handle_control_message e idx msg w)"
proof -
  consider (a) "frame_ty fr = TYPE_RAW_DATA" "ss_upgrade_pending (w_state w)"
    | (b) "frame_ty fr = TYPE_RAW_DATA" "\<not> ss_upgrade_pending (w_state w)"
    | (c) "frame_ty fr \<noteq> TYPE_RAW_DATA" "frame_ty fr = TYPE_CBOR_CONTROL" "en_dec e (frame_body fr) = None"
    | (d) msg where "frame_ty fr \<noteq> TYPE_RAW_DATA" "frame_ty fr = TYPE_CBOR_CONTROL" "en_dec e (frame_body fr) = Some msg"
    | (f) "frame_ty fr \<noteq> TYPE_RAW_DATA" "frame_ty fr \<noteq> TYPE_CBOR_CONTROL"
    by (cases "en_dec e (frame_body fr)") blast+
  then show ?thesis
  proof cases
    case a
    with assms show ?thesis by (intro refused) (auto simp: handle_client_frame_def)
  next
    case b
    with assms show ?thesis by (intro raw) (auto simp: handle_client_frame_def)
  next
    case (d msg)
    with assms have "handle_control_message e idx msg w = (oc, w')" by (simp add: handle_client_frame_def)
    then show ?thesis by (intro control [of msg]) (metis fst_conv, metis snd_conv)
  next
    case c
    with assms show ?thesis by (intro ignored) (auto simp: handle_client_frame_def)
  next
    case f
    with assms show ?thesis by (intro ignored) (auto simp: handle_client_frame_def)
  qed
qed

lemma raw_outcome: "handle_raw_data e idx body w = Some (oc, w') \<Longrightarrow> oc = ContinueClient \<or> oc = DropClient"
  by (auto simp: handle_raw_data_def Let_def split: option.splits prod.splits if_splits)

lemma client_frame_table:
  assumes "session_inv w" and "idx < length (w_clients w)" and "handle_client_frame e idx fr w = Some (oc, w')"
  shows "length (w_clients w') = length (w_clients w)"
    and "\<And>is c. oc = DropClients is c \<Longrightarrow> \<forall>k \<in> set is. k < length (w_clients w)"
    and "\<And>o'. oc = TerminateSession o' \<Longrightarrow> o' = RelayClientDetachedOrKilled"
proof -
  have ctl: "length (w_clients (snd (handle_control_message e idx msg w))) = length (w_clients w)" for msg
    using roster_length [OF roster_control [OF assms(1), of msg e idx]] arg_cong [OF leader_request_ids [OF assms(1,2), of e], of length]
    by (cases "msg = LeaderRequest") (simp_all add: handle_control_message_def)
  have "length (w_clients w') = length (w_clients w)
      \<and> (\<forall>is c. oc = DropClients is c \<longrightarrow> (\<forall>k \<in> set is. k < length (w_clients w)))
      \<and> (\<forall>o'. oc = TerminateSession o' \<longrightarrow> o' = RelayClientDetachedOrKilled)"
    using assms(3)
  proof (cases rule: client_frame_cases)
    case raw
    with roster_length [OF raw_data_inv(3) [OF assms(1) raw]] raw_outcome [OF raw] show ?thesis by auto
  next
    case (refused c t)
    with roster_length [OF reply_error_frame(7) [of e idx c t w]] show ?thesis by simp
  next
    case (control msg)
    with ctl [of msg] show ?thesis
      by (auto simp: outcome_control split: control_message.splits detach_target.splits if_splits)
  qed auto
  then show "length (w_clients w') = length (w_clients w)"
    and "\<And>is c. oc = DropClients is c \<Longrightarrow> \<forall>k \<in> set is. k < length (w_clients w)"
    and "\<And>o'. oc = TerminateSession o' \<Longrightarrow> o' = RelayClientDetachedOrKilled" by blast+
qed

lemma process_frames_keep:
  assumes "sound w" and "\<forall>x \<in> set fs. fst x < length (w_clients w)" and "\<forall>k \<in> set drops. k < length (w_clients w)"
    and "process_frames e fs drops w = Some (drops', r, w')"
  shows "sound w' \<and> length (w_clients w') = length (w_clients w) \<and> (\<forall>k \<in> set drops'. k < length (w_clients w))
    \<and> (\<forall>o'. r = Some o' \<longrightarrow> o' = RelayClientDetachedOrKilled)"
  using assms
proof (induction fs arbitrary: drops w)
  case Nil
  then show ?case by simp
next
  case (Cons f fs)
  obtain idx x where f: "f = (idx, x)" by fastforce
  have idx: "idx < length (w_clients w)" and fs: "\<forall>x \<in> set fs. fst x < length (w_clients w)" using Cons.prems(2) f by auto
  show ?case
  proof (cases x)
    case FrameError
    then show ?thesis using Cons.IH [OF Cons.prems(1) fs, of "drops @ [idx]"] Cons.prems(3,4) f idx by simp
  next
    case (FrameOk fr)
    with Cons.prems(4) f obtain oc w1 where h: "handle_client_frame e idx fr w = Some (oc, w1)"
      by (auto split: option.splits)
    note t = client_frame_table [OF sound_inv [OF Cons.prems(1)] idx h]
    have s1: "sound w1"
      using soundI [OF Cons.prems(1) client_frame_inv [OF sound_inv [OF Cons.prems(1)] idx h]] t(1) client_frame_pending [OF h] by simp
    then have s2: "sound (w1\<lparr>w_pending := []\<rparr>)"
      using soundI [OF s1 session_inv_pending [OF sound_inv [OF s1]], of "[]"] by simp
    show ?thesis
    proof (cases oc)
      case ContinueClient
      then show ?thesis using Cons.IH [OF s1, of drops] fs t(1) h f FrameOk Cons.prems(3,4) by simp
    next
      case DropClient
      then show ?thesis using Cons.IH [OF s1, of "drops @ [idx]"] fs t(1) h f FrameOk idx Cons.prems(3,4) by simp
    next
      case (DropClients "is" c)
      then show ?thesis using Cons.IH [OF s1, of "drops @ is"] Cons.IH [OF s2, of "drops @ is"] fs t(1) t(2) [OF DropClients]
          h f FrameOk Cons.prems(3,4) by (cases c) (simp_all add: ball_Un)
    next
      case (TerminateSession o')
      then show ?thesis using s1 t(1,3) h f FrameOk Cons.prems(3,4) by auto
    qed
  qed
qed

lemma pending_drop_indices: "w_pending (fst (drop_indices e is x)) = w_pending (fst x)"
proof (induction "is" arbitrary: x)
  case (Cons k ks)
  obtain w es lead where x: "x = (w, es, lead)" by (metis prod_cases3)
  show ?case using Cons.IH
    by (simp add: x Let_def retire_one_def reduce_world_def case_prod_beta)
qed simp

lemma drop_clients_pending: "w_pending (drop_clients e is w) = w_pending w"
  using pending_drop_indices [of e "drop_order is" "(w, [], False)"]
  by (simp add: drop_clients_def elect_after_drop_def execute_world_def case_prod_beta Let_def)

lemma length_nths_le: "length (nths xs A) \<le> length xs"
  by (induction xs arbitrary: A) (simp_all add: nths_Cons le_SucI)

lemma sound_drop:
  assumes "sound w" and "\<forall>k \<in> set is. k < length (w_clients w)"
  shows "sound (drop_clients e is w)"
proof -
  note d = drop_clients_spec [OF sound_inv [OF assms(1)] assms(2), of e]
  have "length (w_clients (drop_clients e is w)) \<le> length (w_clients w)"
    using arg_cong [OF d(2), of length] length_nths_le [of "w_clients w"] by simp
  then show ?thesis using soundI [OF assms(1) d(1)] drop_clients_pending [of e "is" w] by simp
qed

lemma serve_frames_sound:
  assumes "sound (sv_world s)" and "serve_frames e sp i revs s = Some fl"
  shows "sound (sv_world (flow_state fl)) \<and> (\<forall>r s'. fl = Return r s' \<longrightarrow> r = RelayClientDetachedOrKilled)"
proof -
  let ?w = "sv_world s"
  obtain fs w1 where r: "receive_frames e sp (pi_recv i) [0..<length (w_clients ?w)] revs ?w = (fs, w1)" by fastforce
  from receive_frames_keep [OF sound_inv [OF assms(1)] r] have
    k: "session_inv w1" "roster (w_clients w1) = roster (w_clients ?w)" "w_pending w1 = w_pending ?w"
    "\<forall>x \<in> set fs. fst x < length (w_clients ?w)" by auto
  let ?w1 = "w1\<lparr>w_overflow := []\<rparr>"
  have s1: "sound ?w1" using sound_keep [OF assms(1) session_inv_overflow [OF k(1)]] k by simp
  have len: "length (w_clients w1) = length (w_clients ?w)" by (rule roster_length [OF k(2)])
  from assms(2) r obtain drops' ro w2 where
    p: "process_frames e fs (indices_of (w_overflow w1) (w_clients w1)) ?w1 = Some (drops', ro, w2)"
    and fl: "fl = (case ro of Some o' \<Rightarrow> Return o' (s\<lparr>sv_world := drop_clients e drops' w2\<rparr>)
        | None \<Rightarrow> Again (s\<lparr>sv_world := drop_clients e drops' w2\<rparr>))"
    by (auto simp: serve_frames_def Let_def split: option.splits)
  have f: "\<forall>x \<in> set fs. fst x < length (w_clients ?w1)" "\<forall>k \<in> set (indices_of (w_overflow w1) (w_clients w1)). k < length (w_clients ?w1)"
    using k(4) len indices_of_valid [of "w_overflow w1" "w_clients w1"] by simp_all
  from process_frames_keep [OF s1 f p] have "sound w2" "\<forall>k \<in> set drops'. k < length (w_clients w2)"
    "\<forall>o'. ro = Some o' \<longrightarrow> o' = RelayClientDetachedOrKilled" by simp_all
  with fl sound_drop show ?thesis by (auto split: option.splits)
qed

subsection \<open>The timeout path\<close>

text \<open>The shorter drop is harmless when nobody it drops leads or holds the lock.\<close>

definition drops_bystanders :: "'scr env \<Rightarrow> 'scr world \<Rightarrow> bool" where
  "drops_bystanders e w \<longleftrightarrow>
     (\<forall>c \<in> set (w_clients w). ch_id c \<in> set (w_overflow w) \<longrightarrow>
        \<not> ch_leader c \<and> lk_holder (ds_lock (w_daemon w)) \<noteq> Some (ch_id c))"

lemma drop_plain_frame:
  "w_next_client_id (drop_indices_plain e is w) = w_next_client_id w \<and> w_pending (drop_indices_plain e is w) = w_pending w
   \<and> (registry_inv (w_registry w) \<longrightarrow> registry_inv (w_registry (drop_indices_plain e is w)))
   \<and> (length (w_closing w) \<le> MAX_CLOSING_CLIENTS \<longrightarrow> length (w_closing (drop_indices_plain e is w)) \<le> MAX_CLOSING_CLIENTS)"
proof (induction "is" arbitrary: w)
  case (Cons k ks)
  let ?w1 = "log_lifecycle e (ClientDetachedEv (ch_id (w_clients w ! k)) (en_unix_ms e)) (w\<lparr>w_clients := remove_nth k (w_clients w)\<rparr>)"
  show ?case using Cons.IH [of "?w1\<lparr>w_closing := retire_client (en_now_ms e) (w_closing ?w1) (w_clients w ! k)\<rparr>"]
    by (simp add: Let_def length_retire)
qed simp

lemma sound_timeout_drop:
  assumes "sound w" and "drops_bystanders e w"
  shows "sound (drop_on_timeout e w)"
proof -
  let ?is = "indices_of (w_overflow w) (w_clients w)" and ?w = "w\<lparr>w_overflow := []\<rparr>"
  let ?v = "drop_on_timeout e w"
  have i: "session_inv w" by (rule sound_inv [OF assms(1)])
  have v: "w_clients ?v = nths (w_clients w) (- set ?is)" "w_daemon ?v = w_daemon w"
    using drop_indices_plain_spec [OF drop_order_sorted, of ?is ?w e] indices_of_valid [of "w_overflow w" "w_clients w"]
    by (simp_all add: drop_on_timeout_def drop_order_def)
  note fr = drop_plain_frame [of e "drop_order ?is" ?w, folded drop_on_timeout_def]
  have hit: "ch_id (w_clients w ! k) \<in> set (w_overflow w)" if "k \<in> set ?is" for k
    using that index_of_spec by (fastforce simp: set_indices_of split: option.splits)
  have "holder_ok (ds_lock (w_daemon w)) (nths (w_clients w) (- set ?is))"
    unfolding holder_ok_def
  proof (intro allI impI)
    fix h assume h: "lk_holder (ds_lock (w_daemon w)) = Some h"
    then obtain c where c: "c \<in> set (w_clients w)" "ch_id c = h" "ch_mode c \<noteq> Ro"
      using i by (auto simp: session_inv_def base_inv_def holder_ok_def)
    then obtain k where k: "k < length (w_clients w)" "c = w_clients w ! k" by (auto simp: in_set_conv_nth)
    have "k \<notin> set ?is" using hit [of k] assms(2) c k h by (auto simp: drops_bystanders_def)
    with c k show "\<exists>c \<in> set (nths (w_clients w) (- set ?is)). ch_id c = h \<and> ch_mode c \<noteq> Ro" by (auto simp: set_nths)
  qed
  moreover have "leader_complete (nths (w_clients w) (- set ?is))"
  proof (rule leader_complete_nths)
    show "leader_complete (w_clients w)" using i by (simp add: session_inv_def)
    show "\<forall>k \<in> set ?is. \<not> (k < length (w_clients w) \<and> ch_leader (w_clients w ! k))"
      using hit assms(2) nth_mem by (fastforce simp: drops_bystanders_def)
  qed
  ultimately have "session_inv ?v"
    using i fr v leader_inv_nths [of "w_clients w"]
    by (auto simp: session_inv_def base_inv_def nths_map [symmetric] distinct_nthsI dest: in_set_nthsD)
  moreover have "length (w_clients ?v) \<le> length (w_clients w)" using v(1) length_nths_le by simp
  ultimately show ?thesis using soundI [OF assms(1), of ?v] fr by simp
qed

subsection \<open>The loop keeps the session\<close>

lemma sound_report: "sound w \<Longrightarrow> sound (report_transition e sp tr w)"
  using sound_keep report_transition_keeps sound_inv by metis

lemma sound_stub: "sound w \<Longrightarrow> stub_msg m \<Longrightarrow> sound (reduce_and_execute e m w)"
  using sound_keep stub_keeps sound_inv by metis

lemma sound_cong:
  "sound w \<Longrightarrow> session_inv w' \<Longrightarrow> w_clients w' = w_clients w \<Longrightarrow> w_pending w' = w_pending w \<Longrightarrow> sound w'"
  by (rule sound_keep) simp_all

lemma sound_small:
  assumes "sound w"
  shows "sound (w\<lparr>w_clients := flush_clients (w_clients w)\<rparr>)" and "length cl \<le> length (w_closing w) \<Longrightarrow> sound (w\<lparr>w_closing := cl\<rparr>)"
    and "sound (kill_pgrp e own sg w)" and "sound (log_lifecycle e ev w)" and "sound (record_child_continued e w)"
    and "sound (w\<lparr>w_overflow := ids\<rparr>)"
proof -
  note i = sound_inv [OF assms]
  show "sound (w\<lparr>w_clients := flush_clients (w_clients w)\<rparr>)" using sound_keep [OF assms session_inv_clients [OF i]] by simp
  show "sound (w\<lparr>w_closing := cl\<rparr>)" if "length cl \<le> length (w_closing w)"
    using sound_cong [OF assms session_inv_closing [OF i that]] by simp
  show "sound (kill_pgrp e own sg w)" using sound_cong [OF assms session_inv_kill_pgrp [OF i]] by (simp add: kill_pgrp_def)
  show "sound (log_lifecycle e ev w)" using sound_cong [OF assms session_inv_log [OF i]] by simp
  show "sound (record_child_continued e w)" using sound_cong [OF assms session_inv_continued [OF i]] by (simp add: record_child_continued_def)
  show "sound (w\<lparr>w_overflow := ids\<rparr>)" using sound_cong [OF assms session_inv_overflow [OF i]] by simp
qed

lemma sound_suspend: "sound w \<Longrightarrow> handle_suspend_signals e own bs l ws w = (r, ws', w') \<Longrightarrow> sound w'"
  using suspend_signals_keep sound_keep sound_inv by metis

lemma sound_push_output: "sound w \<Longrightarrow> sound (push_output e bs w)"
  using push_output_keeps sound_keep sound_inv by metis

lemma sv_world_defer [simp]: "sv_world (defer_child_exit n c s) = sv_world s"
  by (simp add: defer_child_exit_def)

lemma sound_observe: "sound (sv_world s) \<Longrightarrow> sound (sv_world (snd (observe_child_transition e sp ws s)))"
  by (auto simp: observe_child_transition_def Let_def sound_report split: prod.splits child_state.splits)

lemma sound_eof: "sound (sv_world s) \<Longrightarrow> sound (sv_world (serve_eof e sp ws tell s))"
  by (auto simp: serve_eof_def Let_def sound_report sound_stub split: prod.splits child_state.splits)

lemma sound_accept: "sound (sv_world s) \<Longrightarrow> sound (sv_world (flow_state (serve_accept i lr s)))"
  by (auto simp: serve_accept_def sound_def table_ok_def session_inv_pending split: option.splits)

lemma sound_signals: "sound (sv_world s) \<Longrightarrow> sound (sv_world (flow_state (snd (serve_signals e sp i s))))"
  by (auto simp: serve_signals_def dest: sound_suspend split: prod.splits option.splits)

interpretation sound_loop: pass_invariant sp "\<lambda>s. sound (sv_world s)" "\<lambda>_. True" "\<lambda>_. True" drops_bystanders
  for sp :: serve_params
proof unfold_locales
  fix s :: "'scr serve" and e i fl revs lr ws tell ids ids' bs lc p n
  assume s: "sound (sv_world s)"
  note sm = sound_small [OF s]
  show "sound (sv_world (on_world (\<lambda>w. w\<lparr>w_clients := flush_clients (w_clients w)\<rparr>) s))" using sm(1) by simp
  show "flow_ok (\<lambda>s. sound (sv_world s)) (\<lambda>_. True) (check_upgrade e s)"
    using s sm(2) by (simp add: check_upgrade_def Let_def)
  show "sound (sv_world (on_world (\<lambda>w. w\<lparr>w_closing := advance_closing (w_closing w) n\<rparr>) s))" using sm(2) by simp
  show "flow_ok (\<lambda>s. sound (sv_world s)) (\<lambda>_. True) (check_deadlines e s)"
    using s by (simp add: check_deadlines_def split: option.splits)
  show "flow_ok (\<lambda>s. sound (sv_world s)) (\<lambda>_. True) (check_timeouts e sp s)"
    using s by (simp add: check_timeouts_def sound_small split: option.splits)
  show "sound (sv_world ((on_world (\<lambda>w. w\<lparr>w_overflow := ids\<rparr>) s)\<lparr>sv_startup_overflow := ids'\<rparr>))" using sm(6) by simp
  show "flow_ok (\<lambda>s. sound (sv_world s)) (\<lambda>_. True) (snd (serve_signals e sp i s))"
    using sound_signals [OF s] by (simp add: flow_ok_def)
  show "sound (sv_world (snd (observe_child_transition e sp ws s)))" by (rule sound_observe [OF s])
  show "sound (sv_world (on_world (record_child_continued e) (s\<lparr>sv_lifecycle := lc\<rparr>)))" using sm(5) by simp
  show "sound (sv_world (on_world (serve_handshakes e i) s))" using sound_handshakes [OF s] by simp
  show "sound (sv_world (on_world (reduce_and_execute e (sigchld_received p)) s))" using sound_stub [OF s] by simp
  show "flow_ok (\<lambda>s. sound (sv_world s)) (\<lambda>_. True) (serve_accept i lr s)"
    using sound_accept [OF s] by (simp add: flow_ok_def)
  show "sound (sv_world (serve_eof e sp ws tell s))" by (rule sound_eof [OF s])
  show "flow_ok (\<lambda>s. sound (sv_world s)) (\<lambda>_. True) (serve_output e sp i bs s)"
    using sound_push_output [OF s] by (simp add: serve_output_def Let_def sound_small split: option.splits prod.splits)
  show "flow_ok (\<lambda>s. sound (sv_world s)) (\<lambda>_. True) fl" if "serve_frames e sp i revs s = Some fl"
    using serve_frames_sound [OF s that] by (simp add: flow_ok_def)
  show "sound (sv_world (on_world (drop_on_timeout e) s))" if "drops_bystanders e (sv_world s)"
    using sound_timeout_drop [OF s that] by simp
qed simp

subsection \<open>The exit code\<close>

fun exit_code :: "wait_result \<Rightarrow> int option" where
  "exit_code (WaitOk (WsExited c)) = Some c"
| "exit_code (WaitOk (WsSignaled s)) = Some (128 + int s)"
| "exit_code _ = None"

definition exit_within :: "int set \<Rightarrow> relay_outcome \<Rightarrow> bool" where
  "exit_within E r \<longleftrightarrow> (\<forall>x. r = RelayChildExited x \<longrightarrow> (\<exists>c \<in> E. x = Some c))"

definition reported_within :: "int set \<Rightarrow> wait_result \<Rightarrow> bool" where
  "reported_within E r \<longleftrightarrow> (\<forall>c. exit_code r = Some c \<longrightarrow> c \<in> E)"

definition deferred_within :: "int set \<Rightarrow> 'scr serve \<Rightarrow> bool" where
  "deferred_within E s \<longleftrightarrow> (\<forall>r. sv_deferred_exit s = Some r \<longrightarrow> (\<exists>c \<in> E. r = RelayChildExited (Some c)))"

lemma exit_within_simps [simp]: "exit_within E RelayClientDetachedOrKilled" "exit_within E (RelayError m)"
  "exit_within E RelayUpgradeRequested" "exit_within E (RelayChildExited (Some c)) \<longleftrightarrow> c \<in> E"
  by (auto simp: exit_within_def)

lemma poll_exit: "poll_with_transition r l = (l', CsExited x, t) \<Longrightarrow> \<exists>c. x = Some c \<and> exit_code r = Some c"
  by (cases "(r, l)" rule: poll_with_transition.cases) (auto simp: latched_state_def Let_def split: if_splits)

lemma next_wait_within: "list_all (reported_within E) ws \<Longrightarrow> next_wait ws = (r, ws') \<Longrightarrow> reported_within E r"
  by (cases ws) (auto simp: reported_within_def)

lemma deferred_on_world [simp]: "deferred_within E (on_world f s) \<longleftrightarrow> deferred_within E s"
  by (simp add: deferred_within_def on_world_def)

lemma deferred_fields [simp]:
  "deferred_within E (s\<lparr>sv_world := w\<rparr>) = deferred_within E s" "deferred_within E (s\<lparr>sv_lifecycle := l\<rparr>) = deferred_within E s"
  "deferred_within E (s\<lparr>sv_upgrade_deadline := d\<rparr>) = deferred_within E s" "deferred_within E (s\<lparr>sv_until := u\<rparr>) = deferred_within E s"
  "deferred_within E (s\<lparr>sv_startup_overflow := ids\<rparr>) = deferred_within E s"
  "deferred_within E (s\<lparr>sv_master_drained := b\<rparr>) = deferred_within E s"
  "deferred_within E (s\<lparr>sv_debug_dump := dd, sv_last_output := lo\<rparr>) = deferred_within E s"
  "deferred_within E (s\<lparr>sv_deferred_exit := None\<rparr>)"
  by (simp_all add: deferred_within_def)

lemma deferred_defer: "deferred_within E s \<Longrightarrow> c \<in> E \<Longrightarrow> deferred_within E (defer_child_exit n (Some c) s)"
  by (simp add: deferred_within_def defer_child_exit_def)

lemma suspend_outcome:
  "handle_suspend_signals e own bs l ws w = (Some r, ws', w') \<Longrightarrow> r = RelayClientDetachedOrKilled"
  by (induction bs arbitrary: ws w) (auto simp: Let_def case_prod_beta split: if_splits)

lemma frame_terminate:
  "handle_client_frame e idx fr w = Some (TerminateSession o', w') \<Longrightarrow> o' = RelayClientDetachedOrKilled"
  by (erule client_frame_cases)
    (auto simp: outcome_control dest: raw_outcome split: control_message.splits detach_target.splits if_splits)

lemma process_frames_outcome:
  "process_frames e fs drops w = Some (drops', Some o', w') \<Longrightarrow> o' = RelayClientDetachedOrKilled"
  by (induction e fs drops w rule: process_frames.induct)
    (auto dest: frame_terminate split: option.splits prod.splits client_frame_outcome.splits)

lemma deferred_observe:
  assumes "deferred_within E s" and "list_all (reported_within E) ws"
  shows "deferred_within E (snd (observe_child_transition e sp ws s))"
proof -
  obtain r ws' where n: "next_wait ws = (r, ws')" by fastforce
  obtain lc st tr where p: "poll_with_transition r (sv_lifecycle s) = (lc, st, tr)" by (metis prod_cases3)
  have "reported_within E r" by (rule next_wait_within [OF assms(2) n])
  with p assms(1) n show ?thesis
    by (cases st) (auto simp: observe_child_transition_def reported_within_def intro: deferred_defer dest!: poll_exit)
qed

lemma deferred_eof:
  assumes "deferred_within E s" and "list_all (reported_within E) ws"
  shows "deferred_within E (serve_eof e sp ws tell s)"
proof -
  obtain r ws' where n: "next_wait ws = (r, ws')" by fastforce
  obtain lc st tr where p: "poll_with_transition r (sv_lifecycle s) = (lc, st, tr)" by (metis prod_cases3)
  have "reported_within E r" by (rule next_wait_within [OF assms(2) n])
  with p assms(1) n show ?thesis
    by (cases st) (auto simp: serve_eof_def Let_def reported_within_def intro!: deferred_defer dest!: poll_exit)
qed

interpretation exit_loop: pass_invariant sp "deferred_within E" "exit_within E" "reported_within E" "\<lambda>_ _. True"
  for sp :: serve_params and E :: "int set"
proof unfold_locales
  fix s :: "'scr serve" and e i fl revs lr ws tell ids ids' bs lc p n m
  show "exit_within E (RelayError m)" by simp
  assume s: "deferred_within E s"
  show "deferred_within E (on_world (\<lambda>w. w\<lparr>w_clients := flush_clients (w_clients w)\<rparr>) s)" using s by simp
  show "flow_ok (deferred_within E) (exit_within E) (check_upgrade e s)" using s by (simp add: check_upgrade_def Let_def)
  show "deferred_within E (on_world (\<lambda>w. w\<lparr>w_closing := advance_closing (w_closing w) n\<rparr>) s)" using s by simp
  show "flow_ok (deferred_within E) (exit_within E) (check_deadlines e s)"
    using s by (auto simp: check_deadlines_def deferred_within_def split: option.splits)
  show "flow_ok (deferred_within E) (exit_within E) (check_timeouts e sp s)"
    using s by (simp add: check_timeouts_def split: option.splits)
  show "deferred_within E ((on_world (\<lambda>w. w\<lparr>w_overflow := ids\<rparr>) s)\<lparr>sv_startup_overflow := ids'\<rparr>)" using s by simp
  show "flow_ok (deferred_within E) (exit_within E) (snd (serve_signals e sp i s))"
    using s by (auto simp: serve_signals_def dest!: suspend_outcome split: prod.splits option.splits)
  show "deferred_within E (on_world (record_child_continued e) (s\<lparr>sv_lifecycle := lc\<rparr>))" using s by simp
  show "deferred_within E (on_world (serve_handshakes e i) s)" using s by simp
  show "deferred_within E (on_world (reduce_and_execute e (sigchld_received p)) s)" using s by simp
  show "flow_ok (deferred_within E) (exit_within E) (serve_accept i lr s)" using s by (simp add: serve_accept_def)
  show "flow_ok (deferred_within E) (exit_within E) (serve_output e sp i bs s)"
    using s by (simp add: serve_output_def Let_def split: option.splits prod.splits)
  show "flow_ok (deferred_within E) (exit_within E) fl" if "serve_frames e sp i revs s = Some fl"
    using s that by (auto simp: serve_frames_def Let_def dest!: process_frames_outcome split: option.splits prod.splits)
  show "deferred_within E (on_world (drop_on_timeout e) s)" using s by simp
  show "deferred_within E (snd (observe_child_transition e sp ws s))" if "list_all (reported_within E) ws"
    by (rule deferred_observe [OF s that])
  show "deferred_within E (serve_eof e sp ws tell s)" if "list_all (reported_within E) ws"
    by (rule deferred_eof [OF s that])
qed

subsection \<open>Properties of runs\<close>

lemma serve_start_fields:
  "sv_world (serve_start e sp ws dump w) =
     (report_transition e sp (snd (snd (poll_with_transition (fst (next_wait ws)) lc_default)))
        (w\<lparr>w_pending := [], w_overflow := [], w_daemon := daemon_default\<rparr>))\<lparr>w_overflow := []\<rparr>"
  "deferred_within E (serve_start e sp ws dump w) \<longleftrightarrow> reported_within E (fst (next_wait ws))"
proof -
  obtain r ws' where n: "next_wait ws = (r, ws')" by fastforce
  obtain lc st tr where p: "poll_with_transition r lc_default = (lc, st, tr)" by (metis prod_cases3)
  show "sv_world (serve_start e sp ws dump w) =
     (report_transition e sp (snd (snd (poll_with_transition (fst (next_wait ws)) lc_default)))
        (w\<lparr>w_pending := [], w_overflow := [], w_daemon := daemon_default\<rparr>))\<lparr>w_overflow := []\<rparr>"
    using n p by (cases st) (simp_all add: serve_start_def Let_def observe_child_transition_def)
  have "reported_within E r \<longleftrightarrow> (\<forall>c. st = CsExited c \<longrightarrow> (\<exists>x \<in> E. c = Some x))"
    using p by (cases "(r, lc_default)" rule: poll_with_transition.cases)
      (auto simp: reported_within_def Let_def latched_state_def lc_default_def)
  then show "deferred_within E (serve_start e sp ws dump w) \<longleftrightarrow> reported_within E (fst (next_wait ws))"
    using n p by (cases st)
      (auto simp: serve_start_def Let_def observe_child_transition_def deferred_within_def defer_child_exit_def exit_within_def on_world_def)
qed

lemma sound_start:
  assumes "session_inv w" and "length (w_clients w) < MAX_CLIENTS_PER_DAEMON + MAX_PENDING_HANDSHAKES"
  shows "sound (sv_world (serve_start e sp ws dump w))"
proof -
  have "session_inv (w\<lparr>w_pending := [], w_overflow := [], w_daemon := daemon_default\<rparr>)"
    using assms(1) by (simp add: session_inv_def base_inv_def holder_ok_def daemon_default_def lock_default_def lock_inv_def cr_idle_def)
  with assms(2) have "sound (w\<lparr>w_pending := [], w_overflow := [], w_daemon := daemon_default\<rparr>)"
    by (simp add: sound_def table_ok_def)
  then show ?thesis by (simp add: serve_start_fields sound_small(6) sound_report)
qed


definition example_params :: serve_params where
  "example_params = \<lparr>sp_pipe = True, sp_pgrp = 1, sp_signal_name = (\<lambda>_. None), sp_grow = (\<lambda>a b. b)\<rparr>"

definition example_pass :: "nat \<Rightarrow> poll_answer \<Rightarrow> nat list \<Rightarrow> wait_result list \<Rightarrow> unit pass_input" where
  "example_pass now p drained waits =
     \<lparr>pi_before = example_env\<lparr>en_now_ms := now\<rparr>, pi_after = example_env\<lparr>en_now_ms := now\<rparr>, pi_poll = p, pi_drained = drained,
      pi_waits = waits, pi_procstate = None, pi_results = [], pi_accept = None, pi_read = ReadEagain, pi_dump_ok = True,
      pi_recv = (\<lambda>_. [])\<rparr>"

definition example_start :: "wait_result list \<Rightarrow> unit serve" where
  "example_start ws = serve_start example_env example_params ws None example_world"

lemma example_top:
  "sv_deferred_exit s = None \<Longrightarrow> w_state (sv_world s) = session_default \<Longrightarrow>
   serve_top example_params (example_env\<lparr>en_now_ms := now\<rparr>) s =
     Next ((on_world (\<lambda>w. w\<lparr>w_clients := flush_clients (w_clients w),
        w_closing := advance_closing (w_closing w) now, w_overflow := sv_startup_overflow s\<rparr>) s)\<lparr>sv_startup_overflow := []\<rparr>)"
  by (simp add: serve_top_def check_upgrade_def check_deadlines_def check_timeouts_def example_env_def session_default_def
      eval_timeout_def on_world_def split: option.splits)

lemma example_quiet_start:
  "sv_deferred_exit (example_start []) = None" "w_state (sv_world (example_start [])) = session_default"
  "sv_startup_overflow (example_start []) = []"
  "sv_lifecycle (example_start []) = lc_default"
  by (simp_all add: example_start_def serve_start_def observe_child_transition_def latched_state_def lc_default_def on_world_def
      example_world_def)

lemma example_exit_start:
  "sv_deferred_exit (example_start [WaitOk (WsExited 3)]) = Some (RelayChildExited (Some 3))"
  "sv_drain_deadline (example_start [WaitOk (WsExited 3)]) = Some 200"
  "w_state (sv_world (example_start [WaitOk (WsExited 3)])) = session_default"
  by (simp_all add: example_start_def serve_start_def observe_child_transition_def defer_child_exit_def on_world_def
      example_world_def example_env_def EXIT_DRAIN_BUDGET_MS_def)

lemma example_signal_pass:
  assumes "sv_deferred_exit s = None" and "w_state (sv_world s) = session_default" and "sv_lifecycle s = lc_default"
  shows "\<exists>s'. serve_pass example_params (example_pass now PollInterrupted [] ws) s = Some (Again s')"
    and "\<exists>s'. serve_pass example_params (example_pass now PollInterrupted [SIGCONT] [WaitOk (WsExited c)]) s = Some (Again s')"
  using assms
  by (simp_all add: serve_pass_def example_pass_def example_top serve_poll_def serve_interrupted_def serve_signals_def Let_def
      example_params_def [THEN arg_cong [where f = sp_pipe]] child_is_stopped_via_waitpid_def lc_default_def session_default_def)


text \<open>C9. The exit code is the child's: when the loop ends because the child exited, the outcome carries a code that
  \<open>waitpid\<close> reported for an exit or a fatal signal during the run, and the finalisation returns that code without
  sending any signal.\<close>

theorem exit_code_reported:
  assumes "serves sp (serve_start e sp ws dump w) tr (Some (RelayChildExited x)) s"
  shows "\<exists>c r. x = Some c \<and> exit_code r = Some c \<and> (r \<in> set ws \<or> (\<exists>(s, i) \<in> set tr. r \<in> set (pi_waits i)))
    \<and> finalize_child e' own rs (RelayChildExited x) w' = (Some (Inr c), w')"
proof -
  let ?W = "set ws \<union> (\<Union>(s, i) \<in> set tr. set (pi_waits i))"
  let ?E = "{c. \<exists>r \<in> ?W. exit_code r = Some c}"
  have "reported_within ?E (fst (next_wait ws))" by (cases ws) (auto simp: reported_within_def)
  then have s0: "deferred_within ?E (serve_start e sp ws dump w)" by (simp add: serve_start_fields)
  have "\<forall>(s, i) \<in> set tr. list_all (reported_within ?E) (pi_waits i) \<and> pass_fine (\<lambda>_ _. True) sp i s"
    by (fastforce simp: reported_within_def list_all_iff pass_fine_def split: flow.splits option.splits)
  from exit_loop.run_keeps [OF assms s0 this] have "exit_within ?E (RelayChildExited x)" by simp
  then show ?thesis by (fastforce simp: exit_within_def finalize_child_def)
qed

theorem exit_code_reported_witness:
  "fst (finalize_child example_env 1 \<lparr>rp_blocking = [], rp_term_at = 0, rp_term = [], rp_kill_at = 0, rp_kill = []\<rparr>
     (RelayChildExited (Some 3)) example_world) = Some (Inr 3)
   \<and> (\<exists>s. serves example_params (example_start [WaitOk (WsExited 3)])
        [(example_start [WaitOk (WsExited 3)], example_pass 200 PollTimedOut [] [])] (Some (RelayChildExited (Some 3))) s)"
proof -
  let ?s = "example_start [WaitOk (WsExited 3)]" and ?i = "example_pass 200 PollTimedOut [] []"
  have "\<exists>s. serve_pass example_params ?i ?s = Some (Return (RelayChildExited (Some 3)) s)"
    by (simp add: serve_pass_def serve_top_def check_upgrade_def check_deadlines_def example_pass_def example_exit_start session_default_def)
      (simp add: on_world_def example_exit_start)
  then obtain s where p: "serve_pass example_params ?i ?s = Some (Return (RelayChildExited (Some 3)) s)" by blast
  have r: "serves example_params ?s ([] @ [(?s, ?i)]) (Some (RelayChildExited (Some 3))) s"
    by (rule serves_return [OF serves_start p])
  from exit_code_reported [OF r [unfolded example_start_def], where e' = example_env and own = 1 and w' = example_world
      and rs = "\<lparr>rp_blocking = [], rp_term_at = 0, rp_term = [], rp_kill_at = 0, rp_kill = []\<rparr>"]
    r show ?thesis by auto
qed

text \<open>A \<open>SIGCONT\<close> of the daemon that arrives together with the exit of the child swallows the exit: the check for a stopped child
  takes the report from \<open>waitpid\<close> and throws it away, so with the answers that remain (there is no child to wait
  for) no run ever ends with the exit of the child; without the signal the same pass records the exit code.\<close>

theorem sigcont_swallows_exit:
  assumes "sp_pipe sp" and "sv_deferred_exit s = None" and "\<not> lc_stopped (sv_lifecycle s)"
    and "pi_poll i = PollInterrupted" and "pi_waits i = [WaitOk (WsExited c)]"
    and "serve_top sp (pi_before i) s = Next s0" and "\<not> ss_upgrade_pending (w_state (sv_world s0))"
  shows "(pi_drained i = [SIGCONT] \<longrightarrow>
       (\<exists>s1. serve_pass sp i s = Some (Again s1)
         \<and> (\<forall>tr r s'. serves sp s1 tr r s' \<longrightarrow> (\<forall>(s, i) \<in> set tr. list_all (\<lambda>a. a = WaitEchild) (pi_waits i))
              \<longrightarrow> (\<forall>x. r \<noteq> Some (RelayChildExited x)) \<and> sv_deferred_exit s' = None)))
    \<and> (pi_drained i = [] \<longrightarrow>
       (\<exists>s1. serve_pass sp i s = Some (Again s1) \<and> sv_deferred_exit s1 = Some (RelayChildExited (Some c))))"
proof -
  have top: "sv_deferred_exit s0 = None" "sv_lifecycle s0 = sv_lifecycle s"
    using assms(2,6)
    by (auto simp: serve_top_def check_upgrade_def check_deadlines_def check_timeouts_def on_world_def Let_def
        split: if_splits option.splits)
  let ?e = "pi_after i"
  have eq: "serve_pass sp i s = serve_interrupted ?e sp i s0" using assms(4,6) by (simp add: serve_pass_def serve_poll_def Let_def)
  have "\<exists>s1. serve_pass sp i s = Some (Again s1) \<and> deferred_within {} s1" if "pi_drained i = [SIGCONT]"
    using that assms(1,3,5,7) top unfolding eq
    by (simp add: serve_interrupted_def serve_signals_def child_is_stopped_via_waitpid_def observe_child_transition_def
        deferred_within_def on_world_def Let_def split: prod.splits child_state.splits)
      (auto simp: latched_state_def split: if_splits)
  moreover have "(\<forall>x. r \<noteq> Some (RelayChildExited x)) \<and> sv_deferred_exit s' = None"
    if "deferred_within {} s1" "serves sp s1 tr r s'" "\<forall>(s, i) \<in> set tr. list_all (\<lambda>a. a = WaitEchild) (pi_waits i)" for s1 tr r s'
  proof -
    have "\<forall>(s, i) \<in> set tr. list_all (reported_within {}) (pi_waits i) \<and> pass_fine (\<lambda>_ _. True) sp i s"
      using that(3) by (fastforce simp: reported_within_def list_all_iff pass_fine_def split: flow.splits option.splits)
    from exit_loop.run_keeps [OF that(2,1) this] have "deferred_within {} s'" "\<forall>o'. r = Some o' \<longrightarrow> exit_within {} o'" by auto
    then show ?thesis by (auto simp: exit_within_def deferred_within_def)
  qed
  moreover have "\<exists>s1. serve_pass sp i s = Some (Again s1) \<and> sv_deferred_exit s1 = Some (RelayChildExited (Some c))" if "pi_drained i = []"
    using that assms(1,5,7) top unfolding eq
    by (simp add: serve_interrupted_def serve_signals_def observe_child_transition_def defer_child_exit_def on_world_def Let_def)
  ultimately show ?thesis by blast
qed

theorem sigcont_swallows_exit_witness:
  "\<exists>s1. serve_pass example_params (example_pass 150 PollInterrupted [SIGCONT] [WaitOk (WsExited 3)]) (example_start []) = Some (Again s1)
     \<and> (\<forall>s2 r. serves example_params s1 [(s1, example_pass 160 PollInterrupted [] [WaitEchild])] r s2
          \<longrightarrow> sv_deferred_exit s2 = None)"
proof -
  let ?i = "example_pass 150 PollInterrupted [SIGCONT] [WaitOk (WsExited 3)]"
  let ?s0 = "(on_world (\<lambda>w. w\<lparr>w_clients := flush_clients (w_clients w),
        w_closing := advance_closing (w_closing w) 150, w_overflow := []\<rparr>) (example_start []))\<lparr>sv_startup_overflow := []\<rparr>"
  have p: "sp_pipe example_params" by (simp add: example_params_def)
  have l: "\<not> lc_stopped (sv_lifecycle (example_start []))" by (simp add: example_quiet_start lc_default_def)
  have i: "pi_poll ?i = PollInterrupted" "pi_waits ?i = [WaitOk (WsExited 3)]" "pi_drained ?i = [SIGCONT]"
    "pi_before ?i = example_env\<lparr>en_now_ms := 150\<rparr>" by (simp_all add: example_pass_def)
  have t: "serve_top example_params (pi_before ?i) (example_start []) = Next ?s0"
    unfolding i(4) using example_top [OF example_quiet_start(1,2)] by (simp add: example_quiet_start)
  have u: "\<not> ss_upgrade_pending (w_state (sv_world ?s0))" by (simp add: on_world_def example_quiet_start session_default_def)
  have w: "list_all (\<lambda>a. a = WaitEchild) (pi_waits (example_pass 160 PollInterrupted [] [WaitEchild]))"
    by (simp add: example_pass_def)
  from sigcont_swallows_exit [OF p example_quiet_start(1) l i(1,2) t u] i(3) obtain s1 where
    a: "serve_pass example_params ?i (example_start []) = Some (Again s1)"
    and b: "\<And>tr r s'. serves example_params s1 tr r s' \<Longrightarrow>
       \<forall>(s, i) \<in> set tr. list_all (\<lambda>a. a = WaitEchild) (pi_waits i) \<Longrightarrow> sv_deferred_exit s' = None" by blast
  from a b w show ?thesis by (intro exI [of _ s1]) auto
qed

subsection \<open>The poll limit\<close>

lemma cap_poll_timeout_le: "cap_poll_timeout cur c = Some t \<Longrightarrow> t \<le> c \<and> (\<forall>x. cur = Some x \<longrightarrow> t \<le> x)"
  and cap_poll_timeout_Some [simp]: "cap_poll_timeout cur c \<noteq> None"
  by (auto simp: cap_poll_timeout_def split: option.splits if_splits)

lemma u16_clip_le: "u16_clip n \<le> n"
  by (simp add: u16_clip_def)

text \<open>A chain of limits: each stage that applies bounds the result, and so does every later one.\<close>

definition capped :: "nat option \<Rightarrow> nat option \<Rightarrow> nat option" where
  "capped cap cur = (case cap of Some c \<Rightarrow> cap_poll_timeout cur c | None \<Rightarrow> cur)"

lemma capped_chain:
  "fold capped caps cur = Some t \<Longrightarrow> (\<forall>c. Some c \<in> set caps \<longrightarrow> t \<le> c) \<and> (\<forall>x. cur = Some x \<longrightarrow> t \<le> x)"
  "fold capped caps cur = None \<Longrightarrow> cur = None \<and> set caps \<subseteq> {None}"
proof (induction caps arbitrary: cur)
  case (Cons cap caps)
  {
    case 1
    with Cons.IH(1) [of "capped cap cur"] show ?case
      by (cases cap; cases cur) (auto simp: capped_def cap_poll_timeout_def split: if_splits dest: order_trans)
  next
    case 2
    with Cons.IH(2) [of "capped cap cur"] show ?case by (cases cap) (auto simp: capped_def)
  }
qed simp_all

definition cap_when :: "bool \<Rightarrow> nat \<Rightarrow> nat option" where
  "cap_when b n = (if b then Some n else None)"

lemma serve_poll_timeout_chain:
  "serve_poll_timeout e sp s = fold capped
     [cap_when (w_pending (sv_world s) \<noteq> []) 50, cap_when (\<not> sp_pipe sp) 500, cap_when (lc_stopped (sv_lifecycle s)) 200,
      map_option (\<lambda>d. u16_clip (d - en_now_ms e)) (sv_drain_deadline s),
      map_option u16_clip (timeout_poll_cap_ms (en_now_ms e - sv_start s) (en_now_ms e - sv_last_output s)
        (dc_timeout_ms (en_config e)) (dc_idle_timeout_ms (en_config e))),
      map_option (\<lambda>d. u16_clip (d - en_now_ms e)) (closing_deadline (w_closing (sv_world s))),
      cap_when (buffered_frames (sv_world s)) 0] None"
  by (simp add: serve_poll_timeout_def Let_def capped_def cap_when_def split: option.splits)



end
