(* ===== verification/Lifetime.thy ===== *)
theory Lifetime
  imports Serving
begin

text \<open>
  The life of a session around the serve loop: \<open>Session::serve\<close> of \<^verbatim>\<open>crates/hyoui/src/daemon/session.rs\<close> with its upgrade
  attempts, the shutdown sequence and the linger for a late client, and the two waiting loops of
  \<^verbatim>\<open>daemon/broadcast.rs\<close> that only the shutdown uses. Each waiting loop takes the clock readings of its passes
  as a list; \<open>None\<close> says that the readings were used up before the loop ended.
\<close>

subsection \<open>Waiting loops\<close>

fun flush_until :: "nat \<Rightarrow> nat list \<Rightarrow> client_handle list \<Rightarrow> client_handle list option" where
  "flush_until deadline [] cs = None"
| "flush_until deadline (now # ts) cs =
     (let cs' = flush_clients cs in
      if list_all ch_send_settled cs' \<or> now \<ge> deadline then Some cs' else flush_until deadline ts cs')"

fun drain_closing :: "nat list \<Rightarrow> closing_client list \<Rightarrow> closing_client list option" where
  "drain_closing [] cl = None"
| "drain_closing (now # ts) cl =
     (let cl' = advance_closing cl now in
      case closing_deadline cl' of None \<Rightarrow> Some cl' | Some _ \<Rightarrow> drain_closing ts cl')"

subsection \<open>Upgrade attempts\<close>

text \<open>\<open>perform_self_exec\<close> returns only when it failed: before the session was given up (\<open>PrepFailed\<close>, which ends the
  session) or in \<open>execve\<close>.\<close>

datatype exec_outcome = PrepFailed string | ExecFailed string

definition abandon_upgrade :: "'scr env \<Rightarrow> string \<Rightarrow> 'scr world \<Rightarrow> 'scr world" where
  "abandon_upgrade e reason w =
     (let w1 = log_lifecycle e (SessionTerminatedByCondition reason (en_unix_ms e)) w
      in w1\<lparr>w_state := clear_upgrade_pending (w_state w1)\<rparr>)"

text \<open>\<open>Inl\<close> is the error \<open>serve\<close> returns; \<open>Inr\<close> the world the serve loop is entered with again.\<close>

definition attempt_upgrade :: "'scr env \<Rightarrow> exec_outcome \<Rightarrow> 'scr world \<Rightarrow> string + 'scr world" where
  "attempt_upgrade e ex w =
     (let (target, st) = take_upgrade_target (w_state w); w1 = w\<lparr>w_state := st\<rparr> in
      case upgrade_precheck e target of
        Inl msg \<Rightarrow> Inr (abandon_upgrade e (''upgrade-precheck-failed: '' @ msg) w1)
      | Inr _ \<Rightarrow>
          (case ex of
             PrepFailed err \<Rightarrow> Inl err
           | ExecFailed err \<Rightarrow> Inr (abandon_upgrade e (''upgrade-execve-failed: '' @ err) w1)))"

subsection \<open>Shutdown\<close>

definition DRAIN_BUDGET_MS :: nat where "DRAIN_BUDGET_MS = 200"

record shutdown_script =
  sd_flush_at :: nat
  sd_flush :: "nat list"
  sd_reap :: reap_script
  sd_notify_at :: nat
  sd_notify :: "nat list"
  sd_retire_at :: nat
  sd_drain :: "nat list"

definition exit_notice :: "int \<Rightarrow> control_message" where
  "exit_notice code = SessionExitNotify \<lparr>sx_exit_status = code, sx_signal = None\<rparr>"

definition notify_exit :: "'scr env \<Rightarrow> int \<Rightarrow> client_handle list \<Rightarrow> client_handle list" where
  "notify_exit e code cs = fst (broadcast_control_with_cap (en_enc e) cs (exit_notice code) ''session-exit-v1'')"

definition retire_all :: "nat \<Rightarrow> client_handle list \<Rightarrow> closing_client list \<Rightarrow> closing_client list" where
  "retire_all now cs cl = fold (\<lambda>ch cl. retire_client now cl ch) cs cl"

text \<open>The last match of \<open>serve\<close>; an upgrade request never gets here.\<close>

fun session_result :: "relay_outcome \<Rightarrow> int \<Rightarrow> string + int" where
  "session_result (RelayChildExited _) code = Inr code"
| "session_result RelayClientDetachedOrKilled code = Inr code"
| "session_result (RelayError m) code = Inl m"
| "session_result RelayUpgradeRequested code = Inl ''unreachable''"

definition end_session ::
  "'scr env \<Rightarrow> nat \<Rightarrow> shutdown_script \<Rightarrow> relay_outcome \<Rightarrow> 'scr world \<Rightarrow> ((string + int) \<times> 'scr world) option" where
  "end_session e own sd outcome w =
     (let w1 = (case tail_end_reason_from_outcome outcome of
                  Some r \<Rightarrow> broadcast_tail_end_to_followers e r w | None \<Rightarrow> w) in
      case flush_until (sd_flush_at sd + DRAIN_BUDGET_MS) (sd_flush sd) (w_clients w1) of
        None \<Rightarrow> None
      | Some cs1 \<Rightarrow>
          (case finalize_child e own (sd_reap sd) outcome (w1\<lparr>w_clients := cs1\<rparr>) of
             (None, w2) \<Rightarrow> None
           | (Some (Inl m), w2) \<Rightarrow> Some (Inl m, w2)
           | (Some (Inr code), w2) \<Rightarrow>
               (case flush_until (sd_notify_at sd + DRAIN_BUDGET_MS) (sd_notify sd) (notify_exit e code (w_clients w2)) of
                  None \<Rightarrow> None
                | Some cs3 \<Rightarrow>
                    map_option (\<lambda>cl. (session_result outcome code, w2\<lparr>w_clients := [], w_closing := cl\<rparr>))
                      (drain_closing (sd_drain sd) (retire_all (sd_retire_at sd) cs3 (w_closing w2))))))"

subsection \<open>The linger\<close>

definition LINGER_DURATION_MS :: nat where "LINGER_DURATION_MS = 2000"

record 'scr linger_input =
  li_env :: "'scr env"
  li_now :: nat
  li_ready :: bool
  li_accept :: "pending_handshake option"
  li_results :: "pending_result list"
  li_flush :: "nat list"
  li_notify :: "nat list"
  li_drain :: "nat list"

text \<open>A fresh session of its own; only the screen is the old one.\<close>

definition linger_world :: "'scr world \<Rightarrow> 'scr world" where
  "linger_world w =
     w\<lparr>w_clients := [], w_closing := [], w_next_client_id := 0, w_pending := [], w_pending_redraws := [], w_overflow := [],
       w_state := session_default, w_daemon := daemon_default, w_registry := registry_new\<rparr>"

definition linger_serve :: "int \<Rightarrow> 'scr linger_input \<Rightarrow> 'scr world \<Rightarrow> 'scr world option" where
  "linger_serve code i w =
     (case flush_until (li_now i + 500) (li_flush i) (w_clients w) of
        None \<Rightarrow> None
      | Some cs1 \<Rightarrow>
          (case flush_until (li_now i + 1000) (li_notify i) (notify_exit (li_env i) code cs1) of
             None \<Rightarrow> None
           | Some cs2 \<Rightarrow>
               map_option (\<lambda>cl. w\<lparr>w_clients := [], w_closing := cl\<rparr>)
                 (drain_closing (li_drain i) (retire_all (li_now i) cs2 (w_closing w)))))"

fun linger_loop :: "nat \<Rightarrow> int \<Rightarrow> 'scr linger_input list \<Rightarrow> 'scr world \<Rightarrow> 'scr world option" where
  "linger_loop deadline code [] w = None"
| "linger_loop deadline code (i # is) w =
     (if li_now i \<ge> deadline
      then map_option (\<lambda>cl. w\<lparr>w_closing := cl\<rparr>) (drain_closing (li_drain i) (w_closing w))
      else let w1 = w\<lparr>w_closing := advance_closing (w_closing w) (li_now i)\<rparr>;
               w2 = (if li_ready i \<and> length (w_clients w1) < MAX_CLIENTS_PER_DAEMON
                        \<and> length (w_pending w1) < MAX_PENDING_HANDSHAKES
                     then w1\<lparr>w_pending := w_pending w1 @ (case li_accept i of Some p \<Rightarrow> [p] | None \<Rightarrow> [])\<rparr> else w1);
               w3 = process_pending_handshakes (li_env i)
                      (w2\<lparr>w_pending := deliver_results (li_results i) (w_pending w2)\<rparr>)
           in if w_clients w3 \<noteq> [] then linger_serve code i w3 else linger_loop deadline code is w3)"

definition linger_for_late_attach :: "nat \<Rightarrow> int \<Rightarrow> 'scr linger_input list \<Rightarrow> 'scr world \<Rightarrow> 'scr world option" where
  "linger_for_late_attach now code is w = linger_loop (now + LINGER_DURATION_MS) code is (linger_world w)"

subsection \<open>The waiting loops end\<close>

lemma flush_until_returns:
  "\<exists>t \<in> set ts. d \<le> t \<Longrightarrow> \<exists>cs'. flush_until d ts cs = Some cs' \<and> roster cs' = roster cs"
proof (induction ts arbitrary: cs)
  case (Cons t ts)
  show ?case
  proof (cases "list_all ch_send_settled (flush_clients cs) \<or> d \<le> t")
    case True
    then show ?thesis by (auto simp: Let_def)
  next
    case False
    with Cons.prems have "\<exists>t \<in> set ts. d \<le> t" by auto
    from Cons.IH [OF this, of "flush_clients cs"] False show ?thesis by (auto simp: Let_def)
  qed
qed simp

lemma closing_deadline_None: "closing_deadline cl = None \<longleftrightarrow> cl = []"
  by (simp add: closing_deadline_def split: list.splits)

lemma advance_closing_members: "c \<in> set (advance_closing cl now) \<Longrightarrow> now < cc_deadline c \<and> (\<exists>x \<in> set cl. cc_deadline c = cc_deadline x)"
  by (auto simp: advance_closing_def) (metis snd_conv still_writing_deadline)+

lemma drain_closing_returns:
  assumes "\<forall>c \<in> set cl. cc_deadline c \<le> d" and "\<exists>t \<in> set ts. d \<le> t"
  shows "drain_closing ts cl = Some []"
  using assms
proof (induction ts arbitrary: cl)
  case (Cons t ts)
  let ?cl = "advance_closing cl t"
  have b: "\<forall>c \<in> set ?cl. cc_deadline c \<le> d" using Cons.prems(1) advance_closing_members by fastforce
  show ?case
  proof (cases "?cl = []")
    case True
    then show ?thesis by (simp add: closing_deadline_def)
  next
    case False
    then obtain c where "c \<in> set ?cl" by fastforce
    with b advance_closing_members [of c cl t] have "\<not> d \<le> t" by force
    with Cons.prems(2) Cons.IH [OF b] False show ?thesis
      by (auto simp: closing_deadline_None Let_def split: option.splits)
  qed
qed simp

lemma retire_all_deadlines:
  "\<forall>c \<in> set cl. cc_deadline c \<le> d \<Longrightarrow> now + CLOSE_FLUSH_TIMEOUT_MS \<le> d \<Longrightarrow> \<forall>c \<in> set (retire_all now cs cl). cc_deadline c \<le> d"
proof (induction cs arbitrary: cl)
  case (Cons ch cs)
  have "\<forall>c \<in> set (retire_client now cl ch). cc_deadline c \<le> d"
    using Cons.prems by (auto simp: retire_client_def ch_into_closing_def admit_closing_def split: option.splits if_splits)
  from Cons.IH [OF this Cons.prems(2)] show ?case by (simp add: retire_all_def)
qed (simp add: retire_all_def)

lemma finalize_child_world:
  "fst (finalize_child e own rs r w) = fst (finalize_child e own rs r w')"
  "w_closing (snd (finalize_child e own rs r w)) = w_closing w"
  by (auto simp: finalize_child_def Let_def kill_pgrp_def send_kill_def
      split: relay_outcome.splits option.splits sum.splits)

lemma finalize_child_clients: "w_clients (snd (finalize_child e own rs r w)) = w_clients w"
  by (auto simp: finalize_child_def Let_def kill_pgrp_def send_kill_def split: relay_outcome.splits option.splits sum.splits)



subsection \<open>Failed upgrades\<close>

text \<open>A failed upgrade forgets the lock: the lock lives in a reducer state that the serve loop creates when it is entered, so when the
  new binary cannot be executed and the loop is entered again, the clients are the same, byte for byte, the
  holder among them, but the lock is free and nobody has been told; handshakes that were pending are gone.\<close>

theorem failed_upgrade_forgets_lock:
  assumes "session_inv w" and "lk_holder (ds_lock (w_daemon w)) = Some h" and "attempt_upgrade e ex w = Inr w1"
    and "\<forall>sig. fst (next_wait ws) \<noteq> WaitOk (WsStopped sig)"
  shows "lk_holder (ds_lock (w_daemon (sv_world (serve_start e sp ws dump w1)))) = None
    \<and> w_clients (sv_world (serve_start e sp ws dump w1)) = w_clients w
    \<and> h \<in> set (map ch_id (w_clients w))
    \<and> w_pending (sv_world (serve_start e sp ws dump w1)) = []"
proof -
  have w1: "w_clients w1 = w_clients w"
    using assms(3) by (auto simp: attempt_upgrade_def abandon_upgrade_def take_upgrade_target_def Let_def
        split: sum.splits exec_outcome.splits)
  let ?v = "w1\<lparr>w_pending := [], w_overflow := [], w_daemon := daemon_default\<rparr>"
  let ?t = "snd (snd (poll_with_transition (fst (next_wait ws)) lc_default))"
  have "?t = None \<or> ?t = Some CtContinued \<or> (\<exists>c. ?t = Some (CtExited c))"
    using assms(4) by (cases "(fst (next_wait ws), lc_default)" rule: poll_with_transition.cases) (auto simp: Let_def)
  then have "w_clients (report_transition e sp ?t ?v) = w_clients w1" "w_daemon (report_transition e sp ?t ?v) = daemon_default"
    "w_pending (report_transition e sp ?t ?v) = []"
    by (auto simp: record_child_continued_def)
  then show ?thesis using w1 session_inv_holder [OF assms(1,2)]
    by (simp add: serve_start_fields(1)) (simp add: daemon_default_def lock_default_def)
qed

theorem failed_upgrade_forgets_lock_witness:
  "\<exists>w1. attempt_upgrade example_env (ExecFailed ''ENOEXEC'') example_world = Inr w1
     \<and> lk_holder (ds_lock (w_daemon (sv_world (serve_start example_env example_params [] None w1)))) = None
     \<and> w_clients (sv_world (serve_start example_env example_params [] None w1)) = w_clients example_world"
proof -
  obtain w1 where a: "attempt_upgrade example_env (ExecFailed ''ENOEXEC'') example_world = Inr w1"
    by (cases "upgrade_precheck example_env (ss_upgrade_target (w_state example_world))")
      (auto simp: attempt_upgrade_def take_upgrade_target_def)
  have h: "lk_holder (ds_lock (w_daemon example_world)) = Some 1" by (simp add: example_world_def lock_grant_def)
  have n: "\<forall>sig. fst (next_wait []) \<noteq> WaitOk (WsStopped sig)" by simp
  from failed_upgrade_forgets_lock [OF session_inv_example h a n] a show ?thesis by blast
qed

end
