(* ===== verification/Client.thy ===== *)
theory Client
  imports Frame Messages
begin

text \<open>
  The client end of a connection, \<^verbatim>\<open>crates/hyoui/src/client/attach.rs\<close> (\<open>ClientConnection\<close>): sending control
  messages and raw bytes, waiting for the acknowledgement of raw bytes, receiving frames and control messages, and
  \<^verbatim>\<open>client/auto_lock.rs\<close>, which takes the session's lock around a command.

  The reader is the reader of the wire framing: the bytes the daemon will still deliver, and whether the stream then breaks.
  A connection with a read deadline is a reader that breaks after the bytes that came in time. What the kernel answers to
  \<open>write\<close> and \<open>poll\<close>, and the clock, are scripts; a loop that outlives its script has not returned and gives \<open>None\<close>.
\<close>

subsection \<open>The connection\<close>

datatype client_error = ErrConnectionClosed | ErrIo | ErrInvalid string | ErrRemote string

text \<open>What a \<open>write_all\<close> does: all bytes taken, or a failure after some of them, with \<open>True\<close> for a closed peer
  (\<open>BrokenPipe\<close>, \<open>ConnectionReset\<close>).\<close>

datatype write_answer = WroteAll | WroteSome nat bool

record client_connection =
  cc_reader :: reader
  cc_reader_reset :: bool
  cc_written :: bytes
  cc_writes :: "write_answer list"
  cc_pending :: "frame list"
  cc_poisoned :: bool

definition frame_write_io_error :: "bool \<Rightarrow> client_error" where
  "frame_write_io_error closed = (if closed then ErrConnectionClosed else ErrIo)"

definition frame_read_error :: "bool \<Rightarrow> frame_error \<Rightarrow> string \<Rightarrow> client_error" where
  "frame_read_error reset e what =
     (case e of
        FrameProtocol (UnexpectedEof _) \<Rightarrow> ErrConnectionClosed
      | FrameIo \<Rightarrow> if reset then ErrConnectionClosed else ErrIo
      | FrameProtocol _ \<Rightarrow> ErrInvalid what)"

text \<open>One \<open>write_all\<close> to the socket; after \<open>shutdown\<close> it fails with \<open>EPIPE\<close>.\<close>

definition cc_write :: "bytes \<Rightarrow> client_connection \<Rightarrow> client_error option \<times> client_connection" where
  "cc_write bs c =
     (if cc_poisoned c then (Some (frame_write_io_error True), c)
      else case cc_writes c of
        [] \<Rightarrow> (None, c\<lparr>cc_written := cc_written c @ bs\<rparr>)
      | WroteAll # ws \<Rightarrow> (None, c\<lparr>cc_written := cc_written c @ bs, cc_writes := ws\<rparr>)
      | WroteSome n closed # ws \<Rightarrow>
          (Some (frame_write_io_error closed), c\<lparr>cc_written := cc_written c @ take n bs, cc_writes := ws\<rparr>))"

text \<open>\<open>encode_to\<close> of a frame on the connection and the error of the caller; \<open>flush\<close> of a Unix stream does nothing.\<close>

definition cc_send_frame :: "frame \<Rightarrow> string \<Rightarrow> client_connection \<Rightarrow> client_error option \<times> client_connection" where
  "cc_send_frame f what c = (case encode_to f of Inl _ \<Rightarrow> (Some (ErrInvalid what), c) | Inr bs \<Rightarrow> cc_write bs c)"

definition cc_send_control :: "control_encoder \<Rightarrow> control_message \<Rightarrow> client_connection \<Rightarrow> client_error option \<times> client_connection" where
  "cc_send_control enc msg c =
     (case enc msg of
        None \<Rightarrow> (Some (ErrInvalid ''control message CBOR encode failed''), c)
      | Some body \<Rightarrow> cc_send_frame (cbor_control body) ''control message frame protocol error'' c)"

definition poison :: "client_connection \<Rightarrow> client_connection" where
  "poison c = c\<lparr>cc_poisoned := True\<rparr>"

subsection \<open>Waiting for the acknowledgement\<close>

definition RAW_ACK_TIMEOUT_MS :: nat where "RAW_ACK_TIMEOUT_MS = 5000"

datatype client_poll = CpReady | CpTimeout | CpInterrupted | CpFailed

type_synonym ack_decoder = "bytes \<Rightarrow> raw_ack_msg option"

definition ack_verdict :: "raw_ack_msg \<Rightarrow> client_error option" where
  "ack_verdict a =
     (case ra_result a of
        AckOk \<Rightarrow> None
      | AckError \<Rightarrow> Some (ErrRemote (case ra_message a of
            Some m \<Rightarrow> m
          | None \<Rightarrow> (case ra_code a of Some k \<Rightarrow> k | None \<Rightarrow> ''master write failed''))))"

definition ack_timeout_error :: client_error where
  "ack_timeout_error = ErrInvalid ''raw_ack timeout: daemon did not ack within RAW_ACK_TIMEOUT''"

text \<open>Each step of the script is the clock at the top of the loop and the answer of \<open>poll\<close>.\<close>

fun recv_raw_ack_inner ::
  "ack_decoder \<Rightarrow> nat \<Rightarrow> (nat \<times> client_poll) list \<Rightarrow> client_connection \<Rightarrow> (client_error option \<times> client_connection) option" where
  "recv_raw_ack_inner dec deadline [] c = None"
| "recv_raw_ack_inner dec deadline ((now, answer) # script) c =
     (if now \<ge> deadline then Some (Some ack_timeout_error, c)
      else case answer of
        CpFailed \<Rightarrow> Some (Some ErrIo, c)
      | CpTimeout \<Rightarrow> Some (Some ack_timeout_error, c)
      | CpInterrupted \<Rightarrow> recv_raw_ack_inner dec deadline script c
      | CpReady \<Rightarrow>
          (case decode_from (cc_reader c) of
             Inl e \<Rightarrow> Some (Some (frame_read_error (cc_reader_reset c) e ''frame decode failed while waiting raw_ack''), c)
           | Inr (f, r) \<Rightarrow>
               (let c' = c\<lparr>cc_reader := r\<rparr> in
                if frame_ty f = TYPE_RAW_ACK
                then (case dec (frame_body f) of
                        None \<Rightarrow> Some (Some (ErrInvalid ''raw_ack CBOR decode failed''), c')
                      | Some a \<Rightarrow> Some (ack_verdict a, c'))
                else recv_raw_ack_inner dec deadline script (c'\<lparr>cc_pending := cc_pending c' @ [f]\<rparr>))))"

definition poisoned_error :: client_error where
  "poisoned_error = ErrInvalid ''connection poisoned after raw_ack failure; reconnect required''"

fun is_remote :: "client_error \<Rightarrow> bool" where
  "is_remote (ErrRemote _) = True"
| "is_remote _ = False"

definition send_raw_bytes ::
  "ack_decoder \<Rightarrow> bytes \<Rightarrow> nat \<Rightarrow> (nat \<times> client_poll) list \<Rightarrow> client_connection \<Rightarrow> (client_error option \<times> client_connection) option" where
  "send_raw_bytes dec bs now script c =
     (if cc_poisoned c then Some (Some poisoned_error, c)
      else if bs = [] then Some (None, c)
      else case cc_send_frame (raw_data bs) ''raw_data frame protocol error'' c of
        (Some e, c') \<Rightarrow> Some (Some e, poison c')
      | (None, c') \<Rightarrow>
          map_option (\<lambda>(res, c''). (res, case res of Some e \<Rightarrow> if is_remote e then c'' else poison c'' | None \<Rightarrow> c''))
            (recv_raw_ack_inner dec (now + RAW_ACK_TIMEOUT_MS) script c'))"

subsection \<open>Receiving\<close>

definition recv_frame :: "client_connection \<Rightarrow> (client_error + frame) \<times> client_connection" where
  "recv_frame c =
     (case cc_pending c of
        f # fs \<Rightarrow> (Inr f, c\<lparr>cc_pending := fs\<rparr>)
      | [] \<Rightarrow>
          (case decode_from (cc_reader c) of
             Inl e \<Rightarrow> (Inl (frame_read_error (cc_reader_reset c) e ''frame decode failed''), c)
           | Inr (f, r) \<Rightarrow> (Inr f, c\<lparr>cc_reader := r\<rparr>)))"

definition cc_left :: "client_connection \<Rightarrow> nat" where
  "cc_left c = length (cc_pending c) + length (fst (cc_reader c))"

lemma recv_frame_shrinks: "recv_frame c = (Inr f, c') \<Longrightarrow> cc_left c' < cc_left c"
  by (cases "cc_reader c")
    (auto simp: recv_frame_def cc_left_def decode_from_parse split: list.splits sum.splits option.splits prod.splits dest: parse_frame_shrinks)

text \<open>\<open>buf\<close> is the caller's buffer for the raw data that is skipped, when it has one.\<close>

function recv_control ::
  "control_decoder \<Rightarrow> bytes option \<Rightarrow> client_connection \<Rightarrow> (client_error + control_message) \<times> bytes option \<times> client_connection" where
  "recv_control dec buf c =
     (case recv_frame c of
        (Inl e, c') \<Rightarrow> (Inl e, buf, c')
      | (Inr f, c') \<Rightarrow>
          if frame_ty f = TYPE_CBOR_CONTROL
          then ((case dec (frame_body f) of Some m \<Rightarrow> Inr m | None \<Rightarrow> Inl (ErrInvalid ''control message decode failed'')), buf, c')
          else if frame_ty f = TYPE_RAW_DATA then recv_control dec (map_option (\<lambda>b. b @ frame_body f) buf) c'
          else if frame_ty f = TYPE_RAW_ACK then recv_control dec buf c'
          else (Inl (ErrInvalid ''unexpected frame type''), buf, c'))"
  by pat_completeness auto
termination by (relation "measure (\<lambda>(dec, buf, c). cc_left c)") (auto dest: recv_frame_shrinks [OF sym])

declare recv_control.simps [simp del]
subsection \<open>Connecting\<close>

text \<open>The texts that \<open>connect\<close> gives for the error codes of a refused handshake, by their ASCII part.\<close>

definition handshake_refusal :: "error_message \<Rightarrow> client_error" where
  "handshake_refusal em =
     (if em_code em = ModeNotAllowed then ErrRemote (em_message em)
      else ErrInvalid
        (if em_code em = LockDenied then ''lock denied''
         else if em_code em = UnsupportedCapability then ''unsupported capability''
         else if em_code em = AuthTokenMismatch then ''HYOUI_LOCK_TOKEN mismatch''
         else if em_code em = UnknownCode ''session.full'' then ''session full''
         else ''daemon error during handshake''))"

definition connect ::
  "control_encoder \<Rightarrow> control_decoder \<Rightarrow> handshake_request \<Rightarrow> client_connection \<Rightarrow> (client_error + handshake_response) \<times> client_connection" where
  "connect enc dec req c =
     (case enc (HandshakeRequest req) of
        None \<Rightarrow> (Inl (ErrInvalid ''handshake.request encode failed''), c)
      | Some body \<Rightarrow>
          (case cc_send_frame (cbor_control body) ''handshake.request frame send failed'' c of
             (Some e, c1) \<Rightarrow> (Inl e, c1)
           | (None, c1) \<Rightarrow>
               (case decode_from (cc_reader c1) of
                  Inl e \<Rightarrow> (Inl (frame_read_error (cc_reader_reset c1) e ''handshake.response decode failed''), c1)
                | Inr (f, r) \<Rightarrow>
                    (if frame_ty f \<noteq> TYPE_CBOR_CONTROL then Inl (ErrInvalid ''handshake response must be CBOR control'')
                     else case dec (frame_body f) of
                       None \<Rightarrow> Inl (ErrInvalid ''handshake.response CBOR decode failed'')
                     | Some (HandshakeResponse h) \<Rightarrow> Inr h
                     | Some (ErrorMsg em) \<Rightarrow> Inl (handshake_refusal em)
                     | Some _ \<Rightarrow> Inl (ErrInvalid ''unexpected response to handshake.request''),
                     c1\<lparr>cc_reader := r\<rparr>))))"

definition send_initial_resize ::
  "control_encoder \<Rightarrow> bool \<Rightarrow> (16 word \<times> 16 word) option \<Rightarrow> client_connection \<Rightarrow> client_error option \<times> client_connection" where
  "send_initial_resize enc leader sz c =
     (if \<not> leader then (None, c)
      else case sz of
        None \<Rightarrow> (None, c)
      | Some (cols, rows) \<Rightarrow> cc_send_control enc (ResizeMsg \<lparr>rz_cols = cols, rz_rows = rows\<rparr>) c)"

subsection \<open>Acknowledgements\<close>

text \<open>The frames the daemon's bytes hold, and all frames a receiver will still see.\<close>

definition cc_wire :: "client_connection \<Rightarrow> frame list" where
  "cc_wire c = fst (parse_all (fst (cc_reader c)))"

definition cc_stream :: "client_connection \<Rightarrow> frame list" where
  "cc_stream c = cc_pending c @ cc_wire c"

definition is_ack :: "frame \<Rightarrow> bool" where
  "is_ack f \<longleftrightarrow> frame_ty f = TYPE_RAW_ACK"

definition answered :: "client_error option \<Rightarrow> bool" where
  "answered res \<longleftrightarrow> (case res of None \<Rightarrow> True | Some e \<Rightarrow> is_remote e)"

lemma answered_simps [simp]: "answered None" "answered (Some (ErrRemote m))" "\<not> answered (Some ErrIo)" "\<not> answered (Some (ErrInvalid m))"
  "\<not> answered (Some ErrConnectionClosed)" "\<not> answered (Some ack_timeout_error)" "\<not> answered (Some poisoned_error)" "answered (ack_verdict a)"
  "\<not> answered (Some (frame_read_error b e m))"  "\<not> answered (Some (frame_write_io_error b))"
  by (auto simp: answered_def ack_timeout_error_def poisoned_error_def ack_verdict_def frame_read_error_def frame_write_io_error_def
      split: raw_ack_result.splits frame_error.splits protocol_error.splits)

lemma cc_wire_decode:
  assumes "decode_from (cc_reader c) = Inr (f, r)"
  shows "cc_wire c = f # cc_wire (c\<lparr>cc_reader := r\<rparr>)"
proof (cases "cc_reader c")
  case (Pair bs b)
  with assms obtain rest where "parse_frame bs = Inr (Some (f, rest))" "r = (rest, b)"
    by (auto simp: decode_from_parse split: sum.splits option.splits)
  with Pair show ?thesis by (simp add: cc_wire_def parse_all_Some case_prod_beta)
qed

lemma cc_wire_cong [simp]: "cc_wire (c\<lparr>cc_pending := p\<rparr>) = cc_wire c" "cc_wire (c\<lparr>cc_written := w\<rparr>) = cc_wire c"
  "cc_wire (c\<lparr>cc_writes := ws\<rparr>) = cc_wire c" "cc_wire (c\<lparr>cc_poisoned := b\<rparr>) = cc_wire c"
  by (simp_all add: cc_wire_def)

text \<open>The wait takes the frames before the first acknowledgement aside, in order, and either takes that acknowledgement or fails
  without an answer.\<close>

lemma recv_raw_ack_taken:
  assumes "recv_raw_ack_inner dec deadline script c = Some (res, c')"
  shows "\<exists>us vs. cc_wire c = us @ vs \<and> (\<forall>f \<in> set us. \<not> is_ack f) \<and> cc_pending c' = cc_pending c @ us
    \<and> (if answered res then \<exists>f a. vs = f # cc_wire c' \<and> is_ack f \<and> dec (frame_body f) = Some a \<and> res = ack_verdict a
       else cc_wire c' = vs \<or> (\<exists>f. vs = f # cc_wire c' \<and> is_ack f))
    \<and> cc_written c' = cc_written c \<and> cc_writes c' = cc_writes c \<and> cc_poisoned c' = cc_poisoned c"
  using assms
proof (induction script arbitrary: c)
  case (Cons step script)
  obtain now answer where step: "step = (now, answer)" by fastforce
  have stop: ?case if "recv_raw_ack_inner dec deadline (step # script) c = Some (r, c)" "\<not> answered r" for r
    using that Cons.prems by (intro exI [of _ "[]"] exI [of _ "cc_wire c"]) simp
  show ?case
  proof (cases "now \<ge> deadline")
    case True
    then show ?thesis by (intro stop [of "Some ack_timeout_error"]) (simp_all add: step)
  next
    case early: False
    show ?thesis
    proof (cases answer)
      case CpReady
      show ?thesis
      proof (cases "decode_from (cc_reader c)")
        case (Inl e)
        with early CpReady show ?thesis
          by (intro stop [of "Some (frame_read_error (cc_reader_reset c) e ''frame decode failed while waiting raw_ack'')"]) (simp_all add: step)
      next
        case (Inr x)
        obtain f r where fr: "decode_from (cc_reader c) = Inr (f, r)" using Inr by (cases x) simp
        note w = cc_wire_decode [OF fr]
        show ?thesis
        proof (cases "frame_ty f = TYPE_RAW_ACK")
          case True
          with Cons.prems early CpReady fr w show ?thesis
            by (intro exI [of _ "[]"] exI [of _ "cc_wire c"]) (auto simp: step Let_def is_ack_def split: option.splits)
        next
          case False
          let ?c = "c\<lparr>cc_reader := r, cc_pending := cc_pending c @ [f]\<rparr>"
          from Cons.prems early CpReady fr False have "recv_raw_ack_inner dec deadline script ?c = Some (res, c')"
            by (simp add: step Let_def)
          with Cons.IH [of ?c] obtain us vs where
            i: "cc_wire ?c = us @ vs" "\<forall>f \<in> set us. \<not> is_ack f" "cc_pending c' = cc_pending ?c @ us"
              "if answered res then \<exists>f a. vs = f # cc_wire c' \<and> is_ack f \<and> dec (frame_body f) = Some a \<and> res = ack_verdict a
               else cc_wire c' = vs \<or> (\<exists>f. vs = f # cc_wire c' \<and> is_ack f)"
              "cc_written c' = cc_written c" "cc_writes c' = cc_writes c" "cc_poisoned c' = cc_poisoned c"
            by auto
          from i w False show ?thesis by (intro exI [of _ "f # us"] exI [of _ vs]) (simp add: is_ack_def)
        qed
      qed
    next
      case CpInterrupted
      with Cons.prems early Cons.IH [of c] show ?thesis by (simp add: step)
    next
      case CpTimeout
      with early show ?thesis by (intro stop [of "Some ack_timeout_error"]) (simp_all add: step)
    next
      case CpFailed
      with early show ?thesis by (intro stop [of "Some ErrIo"]) (simp_all add: step)
    qed
  qed
qed simp
text \<open>A sequence of sends, each with the clock at its start and the script of its wait.\<close>

fun send_sequence ::
  "ack_decoder \<Rightarrow> (bytes \<times> nat \<times> (nat \<times> client_poll) list) list \<Rightarrow> client_connection
   \<Rightarrow> (client_error option list \<times> client_connection) option" where
  "send_sequence dec [] c = Some ([], c)"
| "send_sequence dec ((bs, now, script) # ss) c =
     (case send_raw_bytes dec bs now script c of
        None \<Rightarrow> None
      | Some (res, c') \<Rightarrow> map_option (\<lambda>(rs, c''). (res # rs, c'')) (send_sequence dec ss c'))"

definition ack_result :: "ack_decoder \<Rightarrow> frame \<Rightarrow> client_error option" where
  "ack_result dec f = ack_verdict (the (dec (frame_body f)))"

definition payload_frames :: "(bytes \<times> nat \<times> (nat \<times> client_poll) list) list \<Rightarrow> frame list" where
  "payload_frames ss = map (raw_data \<circ> fst) ss"

lemma cc_send_frame_effect:
  assumes "cc_send_frame f what c = (res, c')" "\<not> cc_poisoned c"
  shows "cc_reader c' = cc_reader c \<and> cc_pending c' = cc_pending c \<and> cc_poisoned c' = cc_poisoned c \<and> (\<forall>e. res = Some e \<longrightarrow> \<not> answered res)
    \<and> (res = None \<longrightarrow> cc_written c' = cc_written c @ encode_all [f])"
  using assms by (auto simp: cc_send_frame_def cc_write_def encode_all_def split: sum.splits list.splits write_answer.splits)

text \<open>One send that returns, on a connection in use.\<close>

lemma send_raw_bytes_cases:
  assumes "send_raw_bytes dec bs now script c = Some (res, c')" "\<not> cc_poisoned c" "bs \<noteq> []"
  obtains (ack) us f where "cc_wire c = us @ f # cc_wire c'" "\<forall>g \<in> set us. \<not> is_ack g" "is_ack f" "cc_pending c' = cc_pending c @ us"
      "answered res" "res = ack_result dec f" "\<not> cc_poisoned c'" "cc_written c' = cc_written c @ encode_all [raw_data bs]"
  | (failed) us vs where "cc_wire c = us @ vs" "\<forall>g \<in> set us. \<not> is_ack g" "cc_pending c' = cc_pending c @ us"
      "cc_wire c' = vs \<or> (\<exists>f. vs = f # cc_wire c' \<and> is_ack f)" "\<not> answered res" "cc_poisoned c'"
proof -
  obtain r1 c1 where s: "cc_send_frame (raw_data bs) ''raw_data frame protocol error'' c = (r1, c1)" by fastforce
  note e = cc_send_frame_effect [OF s assms(2)]
  then have w: "cc_wire c1 = cc_wire c" by (simp add: cc_wire_def)
  show thesis
  proof (cases r1)
    case (Some e1)
    with assms s have "res = Some e1" "c' = poison c1" by (simp_all add: send_raw_bytes_def)
    with Some e w show thesis by (intro failed [of "[]" "cc_wire c"]) (simp_all add: poison_def)
  next
    case None
    with assms s obtain c2 where i: "recv_raw_ack_inner dec (now + RAW_ACK_TIMEOUT_MS) script c1 = Some (res, c2)"
      and c': "c' = (if answered res then c2 else poison c2)"
      by (cases res) (auto simp: send_raw_bytes_def answered_def)
    from recv_raw_ack_taken [OF i] obtain us vs where
      t: "cc_wire c = us @ vs" "\<forall>f \<in> set us. \<not> is_ack f" "cc_pending c2 = cc_pending c @ us"
        "if answered res then \<exists>f a. vs = f # cc_wire c2 \<and> is_ack f \<and> dec (frame_body f) = Some a \<and> res = ack_verdict a
         else cc_wire c2 = vs \<or> (\<exists>f. vs = f # cc_wire c2 \<and> is_ack f)"
        "cc_written c2 = cc_written c @ encode_all [raw_data bs]" "\<not> cc_poisoned c2"
      using e w None assms(2) by auto
    show thesis
    proof (cases "answered res")
      case True
      with t(4) obtain f a where "vs = f # cc_wire c2" "is_ack f" "dec (frame_body f) = Some a" "res = ack_verdict a" by auto
      with True t c' show thesis by (intro ack [of us f]) (simp_all add: ack_result_def)
    next
      case False
      with t c' show thesis by (intro failed [of us vs]) (simp_all add: poison_def)
    qed
  qed
qed

lemma send_sequence_poisoned:
  "cc_poisoned c \<Longrightarrow> send_sequence dec ss c = Some (replicate (length ss) (Some poisoned_error), c)"
  by (induction ss) (auto simp: send_raw_bytes_def)

lemma filter_none: "\<forall>g \<in> set us. \<not> P g \<Longrightarrow> filter P us = []" "\<forall>g \<in> set us. \<not> P g \<Longrightarrow> filter (\<lambda>g. \<not> P g) us = us"
  by (simp_all add: filter_empty_conv filter_id_conv)

text \<open>C14. An acknowledgement answers the send it belongs to: over any sequence of sends on one connection, whatever else the
  daemon sends in between, the results of the first \<open>k\<close> sends are the verdicts of the first \<open>k\<close> acknowledgements of the
  stream; either these are all sends, and the daemon was handed exactly their frames, or the next one failed without an answer
  and every later one is refused. No other frame is lost or reordered.\<close>

theorem acks_match_sends:
  assumes "send_sequence dec ss c = Some (rs, c')" "\<not> cc_poisoned c" "\<forall>s \<in> set ss. fst s \<noteq> []"
  shows "(\<exists>k \<le> length (filter is_ack (cc_wire c)). take k rs = map (ack_result dec) (take k (filter is_ack (cc_wire c)))
      \<and> (if k = length ss then \<not> cc_poisoned c' \<and> cc_written c' = cc_written c @ encode_all (payload_frames ss)
         else k < length ss \<and> cc_poisoned c' \<and> \<not> answered (rs ! k) \<and> drop (Suc k) rs = replicate (length ss - Suc k) (Some poisoned_error)))
    \<and> filter (\<lambda>f. \<not> is_ack f) (cc_stream c') = filter (\<lambda>f. \<not> is_ack f) (cc_stream c)"
  using assms
proof (induction ss arbitrary: c rs)
  case Nil
  then show ?case by (simp add: payload_frames_def encode_all_def)
next
  case (Cons s ss)
  obtain bs now script where s: "s = (bs, now, script)" by (cases s) auto
  from Cons.prems(1) s obtain res c1 rs1 where r: "send_raw_bytes dec bs now script c = Some (res, c1)"
    "send_sequence dec ss c1 = Some (rs1, c')" "rs = res # rs1" by (auto split: option.splits)
  have ne: "bs \<noteq> []" "\<forall>s \<in> set ss. fst s \<noteq> []" using Cons.prems(3) s by auto
  from r(1) Cons.prems(2) ne(1) show ?case
  proof (cases rule: send_raw_bytes_cases)
    case (ack us f)
    have acks: "filter is_ack (cc_wire c) = f # filter is_ack (cc_wire c1)" using ack filter_none [of us is_ack] by simp
    from Cons.IH [OF r(2) ack(7) ne(2)] obtain k where k: "k \<le> length (filter is_ack (cc_wire c1))"
      "take k rs1 = map (ack_result dec) (take k (filter is_ack (cc_wire c1)))"
      "if k = length ss then \<not> cc_poisoned c' \<and> cc_written c' = cc_written c1 @ encode_all (payload_frames ss)
         else k < length ss \<and> cc_poisoned c' \<and> \<not> answered (rs1 ! k) \<and> drop (Suc k) rs1 = replicate (length ss - Suc k) (Some poisoned_error)"
      "filter (\<lambda>f. \<not> is_ack f) (cc_stream c') = filter (\<lambda>f. \<not> is_ack f) (cc_stream c1)" by blast
    have st: "filter (\<lambda>f. \<not> is_ack f) (cc_stream c1) = filter (\<lambda>f. \<not> is_ack f) (cc_stream c)" using ack by (simp add: cc_stream_def)
    have pf: "encode_all (payload_frames (s # ss)) = encode_all [raw_data bs] @ encode_all (payload_frames ss)"
      by (simp add: payload_frames_def s encode_all_def)
    have t: "take (Suc k) rs = map (ack_result dec) (take (Suc k) (filter is_ack (cc_wire c)))" using k(2) r(3) ack(6) acks by simp
    show ?thesis
    proof (cases "k = length ss")
      case True
      with k st t pf ack(8) acks show ?thesis by (intro conjI exI [of _ "Suc k"]) simp_all
    next
      case False
      with k st t r(3) acks show ?thesis by (intro conjI exI [of _ "Suc k"]) simp_all
    qed
  next
    case (failed us vs)
    have "rs1 = replicate (length ss) (Some poisoned_error)" "c' = c1" using r(2) failed(6) by (simp_all add: send_sequence_poisoned)
    moreover have "filter (\<lambda>f. \<not> is_ack f) (cc_stream c1) = filter (\<lambda>f. \<not> is_ack f) (cc_stream c)"
      using failed by (auto simp: cc_stream_def)
    ultimately show ?thesis using failed r(3) by (intro conjI exI [of _ 0]) simp_all
  qed
qed
definition example_ack_decoder :: ack_decoder where
  "example_ack_decoder b = (if b = [1] then Some RawAck_ok else if b = [2] then Some (RawAck_err CODE_CLIENT_RO_REJECTED ''read only'') else None)"

definition example_connection :: client_connection where
  "example_connection = \<lparr>cc_reader = ([2, 0, 0, 0, 0, 0x61, 2, 0, 0, 0, 2, 1, 2, 0, 0, 0, 1, 9, 2, 0, 0, 0, 2, 2], False), cc_reader_reset = False,
     cc_written = [], cc_writes = [], cc_pending = [], cc_poisoned = False\<rparr>"

definition example_sends :: "(bytes \<times> nat \<times> (nat \<times> client_poll) list) list" where
  "example_sends = [([0x6c, 0x73], 0, [(0, CpReady), (1, CpInterrupted), (2, CpReady)]), ([0x0d], 10, [(10, CpReady), (11, CpReady)])]"

theorem acks_match_sends_witness:
  "\<exists>rs c'. send_sequence example_ack_decoder example_sends example_connection = Some (rs, c')
     \<and> rs = [None, Some (ErrRemote ''read only'')]
     \<and> filter (\<lambda>f. \<not> is_ack f) (cc_stream c') = filter (\<lambda>f. \<not> is_ack f) (cc_stream example_connection)"
proof -
  have run: "map_option fst (send_sequence example_ack_decoder example_sends example_connection) = Some [None, Some (ErrRemote ''read only'')]"
    by (simp add: example_sends_def example_connection_def send_raw_bytes_def cc_send_frame_def cc_write_def encode_to_def raw_data_def
        MAX_FRAME_SIZE_def u32_to_le_bytes_def decode_from_def check_size_def check_type_def frame_consts Let_def RAW_ACK_TIMEOUT_MS_def
        example_ack_decoder_def ack_verdict_def RawAck_ok_def RawAck_err_def)
  then obtain c' where c': "send_sequence example_ack_decoder example_sends example_connection = Some ([None, Some (ErrRemote ''read only'')], c')"
    by auto
  from acks_match_sends [OF this] have
    "filter (\<lambda>f. \<not> is_ack f) (cc_stream c') = filter (\<lambda>f. \<not> is_ack f) (cc_stream example_connection)"
    by (simp add: example_connection_def example_sends_def)
  with c' show ?thesis by blast
qed

subsection \<open>Control messages of a stream\<close>

text \<open>What \<open>recv_control\<close> passes over before the first control frame: raw data, for the caller's buffer, and acknowledgements.\<close>

definition data_of :: "frame list \<Rightarrow> bytes" where
  "data_of fs = concat (map frame_body (filter (\<lambda>f. frame_ty f = TYPE_RAW_DATA) fs))"

lemma recv_frame_stream: "recv_frame c = (Inr f, c') \<Longrightarrow> cc_stream c = f # cc_stream c'"
  using cc_wire_decode [of c f]
  by (auto simp: recv_frame_def cc_stream_def split: list.splits sum.splits prod.splits)

lemma recv_control_stream:
  assumes "recv_control dec buf c = (Inr m, buf', c')"
  shows "\<exists>us f. cc_stream c = us @ f # cc_stream c' \<and> (\<forall>g \<in> set us. frame_ty g \<noteq> TYPE_CBOR_CONTROL) \<and> frame_ty f = TYPE_CBOR_CONTROL
    \<and> dec (frame_body f) = Some m \<and> buf' = map_option (\<lambda>b. b @ data_of us) buf"
  using assms
proof (induction dec buf c rule: recv_control.induct)
  case (1 dec buf c)
  obtain r c1 where rf: "recv_frame c = (r, c1)" by fastforce
  show ?case
  proof (cases r)
    case (Inl e)
    with "1.prems" rf show ?thesis by (simp add: recv_control.simps [of dec buf c])
  next
    case (Inr f)
    note st = recv_frame_stream [OF rf [unfolded Inr]]
    consider "frame_ty f = TYPE_CBOR_CONTROL" | "frame_ty f = TYPE_RAW_DATA" | "frame_ty f = TYPE_RAW_ACK"
      | "frame_ty f \<noteq> TYPE_CBOR_CONTROL" "frame_ty f \<noteq> TYPE_RAW_DATA" "frame_ty f \<noteq> TYPE_RAW_ACK" by blast
    then show ?thesis
    proof cases
      case 1
      with "1.prems" rf Inr st show ?thesis
        by (intro exI [of _ "[]"]) (auto simp: recv_control.simps [of dec buf c] data_of_def option.map_ident split: option.splits)
    next
      case 2
      have ty: "TYPE_RAW_DATA \<noteq> TYPE_CBOR_CONTROL" by (simp add: TYPE_RAW_DATA_def TYPE_CBOR_CONTROL_def)
      from 2 ty "1.prems" rf Inr have "recv_control dec (map_option (\<lambda>b. b @ frame_body f) buf) c1 = (Inr m, buf', c')"
        by (simp add: recv_control.simps [of dec buf c])
      with "1.IH"(1) [OF rf [symmetric] Inr] 2 ty obtain us g where "cc_stream c1 = us @ g # cc_stream c'"
        "\<forall>g \<in> set us. frame_ty g \<noteq> TYPE_CBOR_CONTROL" "frame_ty g = TYPE_CBOR_CONTROL" "dec (frame_body g) = Some m"
        "buf' = map_option (\<lambda>b. b @ data_of us) (map_option (\<lambda>b. b @ frame_body f) buf)" by auto
      with 2 ty st show ?thesis
        by (intro exI [of _ "f # us"] exI [of _ g]) (simp add: data_of_def option.map_comp comp_def)
    next
      case 3
      have ty: "TYPE_RAW_ACK \<noteq> TYPE_CBOR_CONTROL" "TYPE_RAW_ACK \<noteq> TYPE_RAW_DATA"
        by (simp_all add: TYPE_RAW_DATA_def TYPE_CBOR_CONTROL_def TYPE_RAW_ACK_def)
      from 3 ty "1.prems" rf Inr have "recv_control dec buf c1 = (Inr m, buf', c')"
        by (simp add: recv_control.simps [of dec buf c])
      with "1.IH"(2) [OF rf [symmetric] Inr] 3 ty obtain us g where "cc_stream c1 = us @ g # cc_stream c'"
        "\<forall>g \<in> set us. frame_ty g \<noteq> TYPE_CBOR_CONTROL" "frame_ty g = TYPE_CBOR_CONTROL" "dec (frame_body g) = Some m"
        "buf' = map_option (\<lambda>b. b @ data_of us) buf" by auto
      with 3 ty st show ?thesis
        by (intro exI [of _ "f # us"] exI [of _ g]) (simp add: data_of_def)
    next
      case 4
      with "1.prems" rf Inr show ?thesis by (simp add: recv_control.simps [of dec buf c])
    qed
  qed
qed
subsection \<open>Taking the lock around a command\<close>

definition LOCK_RECV_TIMEOUT_MS :: nat where "LOCK_RECV_TIMEOUT_MS = 5000"

datatype auto_lock_error = AlTimeout nat | AlDaemonUnresponsive string | AlIo | AlProtocol string

datatype poll_recv_outcome = PrReady | PrTimedOut | PrHangUp

text \<open>\<open>PollAnswered pollin hangup\<close> is a ready descriptor with these flags.\<close>

datatype recv_poll = PollAnswered bool bool | PollTimedOut | PollEintr | PollError

fun poll_recv_ready :: "nat \<Rightarrow> (nat \<times> recv_poll) list \<Rightarrow> (client_error + poll_recv_outcome) option" where
  "poll_recv_ready deadline [] = None"
| "poll_recv_ready deadline ((now, answer) # script) =
     (if deadline - now = 0 then Some (Inr PrTimedOut)
      else case answer of
        PollAnswered pollin hangup \<Rightarrow>
          if pollin then Some (Inr PrReady) else if hangup then Some (Inr PrHangUp) else poll_recv_ready deadline script
      | PollTimedOut \<Rightarrow> Some (Inr PrTimedOut)
      | PollEintr \<Rightarrow> poll_recv_ready deadline script
      | PollError \<Rightarrow> Some (Inl ErrIo))"

definition auto_lock_request :: "nat \<Rightarrow> control_message" where
  "auto_lock_request timeout =
     LockAcquire \<lparr>la_wait = True, la_timeout_abs_ms = Some (min timeout (2 ^ 64 - 1)), la_timeout_idle_ms = None, la_process_bound = True\<rparr>"

text \<open>One turn of the receive loop: the clock at its top, the clock and script of \<open>poll_recv_ready\<close>, and the clock that decides
  whether a refusal is tried again.\<close>

record auto_lock_turn =
  al_now :: nat
  al_poll_start :: nat
  al_polls :: "(nat \<times> recv_poll) list"
  al_after :: nat

fun auto_lock_loop ::
  "control_encoder \<Rightarrow> control_decoder \<Rightarrow> nat \<Rightarrow> nat \<Rightarrow> auto_lock_turn list \<Rightarrow> client_connection
   \<Rightarrow> ((auto_lock_error + string) \<times> client_connection) option" where
  "auto_lock_loop enc dec timeout deadline [] c = None"
| "auto_lock_loop enc dec timeout deadline (t # ts) c =
     (let remaining = deadline - al_now t in
      if remaining = 0 then Some (Inl (AlTimeout timeout), c)
      else case poll_recv_ready (al_poll_start t + min remaining LOCK_RECV_TIMEOUT_MS) (al_polls t) of
        None \<Rightarrow> None
      | Some (Inl _) \<Rightarrow> Some (Inl AlIo, c)
      | Some (Inr PrHangUp) \<Rightarrow> Some (Inl (AlDaemonUnresponsive ''socket HUP/ERR''), c)
      | Some (Inr PrTimedOut) \<Rightarrow>
          Some (Inl (if LOCK_RECV_TIMEOUT_MS < remaining then AlDaemonUnresponsive ''recv timeout'' else AlTimeout timeout), c)
      | Some (Inr PrReady) \<Rightarrow>
          (case recv_control dec None c of
             (Inl _, _, c') \<Rightarrow> Some (Inl AlIo, c')
           | (Inr (LockResponse lr), _, c') \<Rightarrow>
               (case lr_result lr of
                  LockAcquiredResult \<Rightarrow>
                    Some ((case lr_token lr of Some tok \<Rightarrow> Inr tok | None \<Rightarrow> Inl (AlProtocol ''Acquired without token'')), c')
                | LockTimeoutResult \<Rightarrow> Some (Inl (AlProtocol ''daemon timeout''), c')
                | _ \<Rightarrow>
                    if al_after t \<ge> deadline then Some (Inl (AlTimeout timeout), c')
                    else (case cc_send_control enc (auto_lock_request timeout) c' of
                            (Some _, c'') \<Rightarrow> Some (Inl AlIo, c'')
                          | (None, c'') \<Rightarrow> auto_lock_loop enc dec timeout deadline ts c''))
           | (Inr (ErrorMsg em), _, c') \<Rightarrow> Some (Inl (AlProtocol (em_message em)), c')
           | (Inr _, _, c') \<Rightarrow> auto_lock_loop enc dec timeout deadline ts c'))"

definition acquire_auto_lock ::
  "control_encoder \<Rightarrow> control_decoder \<Rightarrow> nat \<Rightarrow> nat \<Rightarrow> auto_lock_turn list \<Rightarrow> client_connection
   \<Rightarrow> ((auto_lock_error + string) \<times> client_connection) option" where
  "acquire_auto_lock enc dec timeout start script c =
     (case cc_send_control enc (auto_lock_request timeout) c of
        (Some _, c') \<Rightarrow> Some (Inl AlIo, c')
      | (None, c') \<Rightarrow> auto_lock_loop enc dec timeout (start + timeout) script c')"

definition release_auto_lock :: "control_encoder \<Rightarrow> string \<Rightarrow> client_connection \<Rightarrow> client_error option \<times> client_connection" where
  "release_auto_lock enc token c = cc_send_control enc (LockRelease \<lparr>lrel_token = token\<rparr>) c"
definition control_of :: "control_decoder \<Rightarrow> frame \<Rightarrow> control_message option" where
  "control_of dec f = (if frame_ty f = TYPE_CBOR_CONTROL then dec (frame_body f) else None)"

definition is_refusal :: "control_decoder \<Rightarrow> frame \<Rightarrow> bool" where
  "is_refusal dec f = (case control_of dec f of Some (LockResponse lr) \<Rightarrow> lr_result lr \<in> {LockDeniedResult, LockQueuedResult} | _ \<Rightarrow> False)"

definition is_lock_answer :: "control_decoder \<Rightarrow> frame \<Rightarrow> bool" where
  "is_lock_answer dec f = (case control_of dec f of Some (LockResponse lr) \<Rightarrow> True | _ \<Rightarrow> False)"

definition request_frame :: "control_encoder \<Rightarrow> nat \<Rightarrow> frame" where
  "request_frame enc timeout = cbor_control (case enc (auto_lock_request timeout) of Some b \<Rightarrow> b | None \<Rightarrow> [])"

lemma cc_send_control_ok:
  assumes "cc_send_control enc m c = (None, c')"
  shows "cc_written c' = cc_written c @ encode_all [cbor_control (the (enc m))] \<and> cc_stream c' = cc_stream c"
  using assms
  by (auto simp: cc_send_control_def cc_send_frame_def cc_write_def encode_all_def cc_stream_def cc_wire_def
      split: option.splits sum.splits list.splits write_answer.splits if_splits)

lemma send_request_ok:
  assumes "cc_send_control enc (auto_lock_request timeout) c = (None, c')"
  shows "cc_written c' = cc_written c @ encode_all [request_frame enc timeout]" "cc_stream c' = cc_stream c"
proof -
  from assms have "enc (auto_lock_request timeout) \<noteq> None" by (auto simp: cc_send_control_def split: option.splits)
  with cc_send_control_ok [OF assms] show "cc_written c' = cc_written c @ encode_all [request_frame enc timeout]" "cc_stream c' = cc_stream c"
    by (auto simp: request_frame_def)
qed

lemma recv_control_written: "recv_control dec buf c = (r, buf', c') \<Longrightarrow> cc_written c' = cc_written c"
proof (induction dec buf c rule: recv_control.induct)
  case (1 dec buf c)
  obtain x c1 where rf: "recv_frame c = (x, c1)" by fastforce
  then have "cc_written c1 = cc_written c" by (auto simp: recv_frame_def split: list.splits sum.splits prod.splits)
  with 1 rf show ?case by (cases x) (auto simp: recv_control.simps [of dec buf c] split: if_splits)
qed

lemma skipped_no_answer: "\<forall>g \<in> set us. frame_ty g \<noteq> TYPE_CBOR_CONTROL \<Longrightarrow> \<forall>g \<in> set us. \<not> is_lock_answer dec g \<and> \<not> is_refusal dec g"
  by (auto simp: is_lock_answer_def is_refusal_def control_of_def)

lemma encode_all_append [simp]: "encode_all (fs @ gs) = encode_all fs @ encode_all gs" "encode_all [] = []"
  by (simp_all add: encode_all_def)

lemma encode_all_replicate: "encode_all (replicate (Suc n) f) = encode_all [f] @ encode_all (replicate n f)"
  by (simp add: encode_all_def)

lemma auto_lock_loop_sound:
  assumes "auto_lock_loop enc dec timeout deadline ts c = Some (Inr tok, c')"
  shows "\<exists>us f lr. cc_stream c = us @ f # cc_stream c' \<and> control_of dec f = Some (LockResponse lr)
    \<and> lr_result lr = LockAcquiredResult \<and> lr_token lr = Some tok
    \<and> (\<forall>g \<in> set us. is_lock_answer dec g \<longrightarrow> is_refusal dec g)
    \<and> cc_written c' = cc_written c @ encode_all (replicate (length (filter (is_refusal dec) us)) (request_frame enc timeout))"
  using assms
proof (induction ts arbitrary: c)
  case (Cons t ts)
  let ?goal = "\<lambda>c. \<exists>us f lr. cc_stream c = us @ f # cc_stream c' \<and> control_of dec f = Some (LockResponse lr)
    \<and> lr_result lr = LockAcquiredResult \<and> lr_token lr = Some tok
    \<and> (\<forall>g \<in> set us. is_lock_answer dec g \<longrightarrow> is_refusal dec g)
    \<and> cc_written c' = cc_written c @ encode_all (replicate (length (filter (is_refusal dec) us)) (request_frame enc timeout))"
  from Cons.prems obtain m b c1 where rc: "recv_control dec None c = (Inr m, b, c1)"
    and rest: "(case m of
        LockResponse lr \<Rightarrow>
          (case lr_result lr of
             LockAcquiredResult \<Rightarrow> Some ((case lr_token lr of Some tok \<Rightarrow> Inr tok | None \<Rightarrow> Inl (AlProtocol ''Acquired without token'')), c1)
           | LockTimeoutResult \<Rightarrow> Some (Inl (AlProtocol ''daemon timeout''), c1)
           | _ \<Rightarrow> if al_after t \<ge> deadline then Some (Inl (AlTimeout timeout), c1)
                  else (case cc_send_control enc (auto_lock_request timeout) c1 of
                          (Some _, c'') \<Rightarrow> Some (Inl AlIo, c'')
                        | (None, c'') \<Rightarrow> auto_lock_loop enc dec timeout deadline ts c''))
      | ErrorMsg em \<Rightarrow> Some (Inl (AlProtocol (em_message em)), c1)
      | _ \<Rightarrow> auto_lock_loop enc dec timeout deadline ts c1) = Some (Inr tok, c')"
    by (auto simp: Let_def split: if_splits option.splits sum.splits poll_recv_outcome.splits prod.splits)
  from recv_control_stream [OF rc] obtain us f where us: "cc_stream c = us @ f # cc_stream c1"
    "\<forall>g \<in> set us. frame_ty g \<noteq> TYPE_CBOR_CONTROL" "frame_ty f = TYPE_CBOR_CONTROL" "dec (frame_body f) = Some m" by blast
  note w = recv_control_written [OF rc] and sk = skipped_no_answer [OF us(2), of dec]
  have step: "?goal c" if "?goal c2" "cc_stream c2 = cc_stream c1" "is_lock_answer dec f \<longrightarrow> is_refusal dec f"
    "cc_written c2 = cc_written c @ encode_all (replicate (of_bool (is_refusal dec f)) (request_frame enc timeout))" for c2
  proof -
    from that(1) obtain vs g lr where v: "cc_stream c2 = vs @ g # cc_stream c'" "control_of dec g = Some (LockResponse lr)"
      "lr_result lr = LockAcquiredResult" "lr_token lr = Some tok" "\<forall>g \<in> set vs. is_lock_answer dec g \<longrightarrow> is_refusal dec g"
      "cc_written c' = cc_written c2 @ encode_all (replicate (length (filter (is_refusal dec) vs)) (request_frame enc timeout))" by blast
    have n: "filter (is_refusal dec) us = []" using sk by (simp add: filter_empty_conv)
    from v us(1) that(2-4) sk n show ?thesis
      by (intro exI [of _ "us @ f # vs"] exI [of _ g] exI [of _ lr]) (auto simp: encode_all_def)
  qed
  have cf: "control_of dec f = Some m" using us by (simp add: control_of_def)
  have refused: ?case if m: "m = LockResponse lr" "lr_result lr \<in> {LockDeniedResult, LockQueuedResult}" for lr
  proof -
    from m rest obtain c2 where s: "cc_send_control enc (auto_lock_request timeout) c1 = (None, c2)"
      "auto_lock_loop enc dec timeout deadline ts c2 = Some (Inr tok, c')" by (auto split: if_splits prod.splits option.splits)
    have "is_refusal dec f" using cf m by (auto simp: is_refusal_def)
    with send_request_ok [OF s(1)] w show ?case by (intro step [OF Cons.IH [OF s(2)]]) simp_all
  qed
  show ?case
  proof (cases "\<exists>lr. m = LockResponse lr")
    case True
    then obtain lr where lr: "m = LockResponse lr" by blast
    show ?thesis
    proof (cases "lr_result lr")
      case LockAcquiredResult
      with rest lr have "lr_token lr = Some tok" "c' = c1" by (auto split: option.splits)
      with LockAcquiredResult us(1) cf lr w sk show ?thesis
        by (intro exI [of _ us] exI [of _ f] exI [of _ lr]) (auto simp: filter_empty_conv encode_all_def)
    next
      case LockTimeoutResult
      with rest lr show ?thesis by simp
    next
      case LockDeniedResult
      with lr show ?thesis by (intro refused [of lr]) simp_all
    next
      case LockQueuedResult
      with lr show ?thesis by (intro refused [of lr]) simp_all
    qed
  next
    case False
    then have nr: "\<not> is_lock_answer dec f" "\<not> is_refusal dec f"
      using cf by (cases m; simp add: is_lock_answer_def is_refusal_def)+
    have "auto_lock_loop enc dec timeout deadline ts c1 = Some (Inr tok, c')" using rest False by (cases m) auto
    note IH = Cons.IH [OF this]
    show ?thesis using w nr by (intro step [OF IH]) (simp_all add: encode_all_def)
  qed
qed simp
text \<open>The waits of the loop end with the clock: a poll whose script reaches its deadline returns, and so does the whole loop.\<close>

lemma poll_recv_ready_returns: "\<exists>t \<in> set script. deadline \<le> fst t \<Longrightarrow> \<exists>r. poll_recv_ready deadline script = Some r"
  by (induction deadline script rule: poll_recv_ready.induct) (auto split: recv_poll.splits)

lemma auto_lock_loop_returns:
  assumes "\<exists>t \<in> set ts. deadline \<le> al_now t"
    and "\<forall>t \<in> set ts. \<exists>p \<in> set (al_polls t). al_poll_start t + LOCK_RECV_TIMEOUT_MS \<le> fst p"
  shows "auto_lock_loop enc dec timeout deadline ts c \<noteq> None"
  using assms
proof (induction ts arbitrary: c)
  case (Cons t ts)
  show ?case
  proof (cases "deadline \<le> al_now t")
    case False
    with Cons.prems have l: "\<And>c. auto_lock_loop enc dec timeout deadline ts c \<noteq> None" by (intro Cons.IH) auto
    from Cons.prems(2) have "\<exists>p \<in> set (al_polls t). al_poll_start t + min (deadline - al_now t) LOCK_RECV_TIMEOUT_MS \<le> fst p" by force
    from poll_recv_ready_returns [OF this] obtain r where
      "poll_recv_ready (al_poll_start t + min (deadline - al_now t) LOCK_RECV_TIMEOUT_MS) (al_polls t) = Some r" by blast
    with l show ?thesis
      by (auto simp: Let_def split: sum.splits poll_recv_outcome.splits prod.splits control_message.splits lock_result.splits option.splits)
  qed simp
qed simp


definition example_lock_answer :: "lock_result \<Rightarrow> control_message" where
  "example_lock_answer r = LockResponse \<lparr>lr_result = r, lr_token = (if r = LockAcquiredResult then Some ''tok'' else None), lr_queue_position = None\<rparr>"

definition example_lock_decoder :: control_decoder where
  "example_lock_decoder b = (if b = [1] then Some (example_lock_answer LockDeniedResult)
     else if b = [2] then Some (example_lock_answer LockAcquiredResult) else None)"

definition example_lock_connection :: client_connection where
  "example_lock_connection = example_connection\<lparr>cc_reader := ([2, 0, 0, 0, 1, 1, 2, 0, 0, 0, 0, 9, 2, 0, 0, 0, 1, 2], False)\<rparr>"

definition example_turn :: "nat \<Rightarrow> auto_lock_turn" where
  "example_turn now = \<lparr>al_now = now, al_poll_start = now, al_polls = [(now, PollAnswered True False), (now + 5000, PollTimedOut)], al_after = now\<rparr>"


end
