(* ===== verification/Keys.thy ===== *)
theory Keys
  imports Prelude Recording
begin

text \<open>
  The keyboard side of the attach client: the Ctrl-Z recogniser of \<^verbatim>\<open>crates/hyoui/src/client/key_decoder.rs\<close>, which finds
  every encoding of the key in a byte stream that arrives in pieces, and the guard, the menus and the input decisions of
  \<^verbatim>\<open>client/attach.rs\<close> that use it. Clocks are milliseconds and arguments of the operations.
\<close>

subsection \<open>The key decoder\<close>

definition CTRL_Z_BYTE :: byte where "CTRL_Z_BYTE = 0x1a"

definition CTRLZ_ENCODINGS :: "bytes list" where
  "CTRLZ_ENCODINGS =
     [[CTRL_Z_BYTE], 0x1b # as_bytes ''[122;5u'', 0x1b # as_bytes ''[122;5:1u'', 0x1b # as_bytes ''[122;5:2u'',
      0x1b # as_bytes ''[122:122;5u'', 0x1b # as_bytes ''[122:122;5:1u'', 0x1b # as_bytes ''[122:122;5:2u'',
      0x1b # as_bytes ''[27;5;122~'']"

definition HOLD_MS :: nat where "HOLD_MS = 20"

datatype key_token = CtrlZ bytes | Passthrough bytes

record key_decoder =
  kd_partial :: bytes
  kd_hold_deadline :: "nat option"

definition kd_default :: key_decoder where
  "kd_default = \<lparr>kd_partial = [], kd_hold_deadline = None\<rparr>"

datatype scan_result = ScanCtrlZ nat | ScanOther | ScanIncomplete

fun scan_encodings :: "bytes list \<Rightarrow> bool \<Rightarrow> bytes \<Rightarrow> scan_result" where
  "scan_encodings [] incomplete buf = (if incomplete then ScanIncomplete else ScanOther)"
| "scan_encodings (s # ss) incomplete buf =
     (if length buf \<ge> length s
      then if take (length s) buf = s then ScanCtrlZ (length s) else scan_encodings ss incomplete buf
      else scan_encodings ss (incomplete \<or> prefix buf s) buf)"

definition scan :: "bytes \<Rightarrow> scan_result" where
  "scan buf = scan_encodings CTRLZ_ENCODINGS False buf"

lemma scan_encodings_CtrlZ: "scan_encodings ss b buf = ScanCtrlZ n \<Longrightarrow> take n buf \<in> set ss \<and> n = length (take n buf)"
  by (induction ss arbitrary: b) (auto split: if_splits)

lemma encodings_nonempty: "[] \<notin> set CTRLZ_ENCODINGS"
  by (simp add: CTRLZ_ENCODINGS_def)

lemma scan_CtrlZ: "scan buf = ScanCtrlZ n \<Longrightarrow> take n buf \<in> set CTRLZ_ENCODINGS \<and> 0 < n \<and> n \<le> length buf"
proof -
  assume "scan buf = ScanCtrlZ n"
  then have e: "take n buf \<in> set CTRLZ_ENCODINGS" "n = length (take n buf)"
    using scan_encodings_CtrlZ [of CTRLZ_ENCODINGS False buf n] by (simp_all add: scan_def)
  then have "take n buf \<noteq> []" using encodings_nonempty by metis
  with e show ?thesis by (auto simp: min_def split: if_splits)
qed

definition flush_pass :: "bytes \<Rightarrow> key_token list" where
  "flush_pass pass = (if pass = [] then [] else [Passthrough pass])"

text \<open>The loop of \<open>feed\<close>: the tokens and what is kept.\<close>

function kd_loop :: "bytes \<Rightarrow> bytes \<Rightarrow> key_token list \<times> bytes" where
  "kd_loop pass buf =
     (if buf = [] then (flush_pass pass, [])
      else case scan buf of
        ScanIncomplete \<Rightarrow> (flush_pass pass, buf)
      | ScanCtrlZ n \<Rightarrow> (let (ts, r) = kd_loop [] (drop n buf) in (flush_pass pass @ CtrlZ (take n buf) # ts, r))
      | ScanOther \<Rightarrow> kd_loop (pass @ [hd buf]) (tl buf))"
  by pat_completeness auto
termination by (relation "measure (\<lambda>(pass, buf). length buf)") (auto dest: scan_CtrlZ)

declare kd_loop.simps [simp del]

definition kd_feed :: "bytes \<Rightarrow> nat \<Rightarrow> key_decoder \<Rightarrow> key_token list \<times> key_decoder" where
  "kd_feed chunk now d =
     (let expired = (kd_partial d \<noteq> [] \<and> (case kd_hold_deadline d of Some t \<Rightarrow> now \<ge> t | None \<Rightarrow> False));
          pass = (if expired then kd_partial d else []);
          buf = (if expired then [] else kd_partial d) @ chunk;
          (ts, rest) = kd_loop pass buf
      in (ts, \<lparr>kd_partial = rest,
               kd_hold_deadline =
                 (if rest = [] then None
                  else Some (if chunk = [] then (case kd_hold_deadline d of Some t \<Rightarrow> t | None \<Rightarrow> now + HOLD_MS)
                             else now + HOLD_MS))\<rparr>))"

definition kd_take_partial :: "key_decoder \<Rightarrow> bytes \<times> key_decoder" where
  "kd_take_partial d = (kd_partial d, kd_default)"

subsection \<open>The Ctrl-Z guard\<close>

datatype guard_state = GuardIdle | GuardPending nat

record ctrlz_guard =
  cg_state :: guard_state
  cg_decoder :: key_decoder

definition cg_default :: ctrlz_guard where
  "cg_default = \<lparr>cg_state = GuardIdle, cg_decoder = kd_default\<rparr>"

record guard_outcome =
  go_forward :: bytes
  go_suspend :: bool

datatype ctrlz_x1_action = X1ActSuspend | X1ActDetach | X1ActSelect

record attach_config =
  ac_ctrlz_guard :: bool
  ac_ctrlz_guard_delay :: nat
  ac_ctrlz_x1_action :: ctrlz_x1_action

fun guard_token :: "attach_config \<Rightarrow> nat \<Rightarrow> key_token \<Rightarrow> guard_state \<times> bytes \<times> bool \<Rightarrow> guard_state \<times> bytes \<times> bool" where
  "guard_token c now (CtrlZ bs) (GuardIdle, fw, su) =
     (if ac_ctrlz_guard_delay c = 0 then (GuardIdle, fw, True) else (GuardPending (now + ac_ctrlz_guard_delay c), fw, su))"
| "guard_token c now (CtrlZ bs) (GuardPending _, fw, su) = (GuardIdle, fw @ bs, su)"
| "guard_token c now (Passthrough bs) (_, fw, su) = (GuardIdle, fw @ bs, su)"

definition guard_expired :: "nat \<Rightarrow> guard_state \<Rightarrow> bool" where
  "guard_expired now st = (case st of GuardPending d \<Rightarrow> now \<ge> d | GuardIdle \<Rightarrow> False)"

definition process_ctrlz_guard ::
  "bytes \<Rightarrow> ctrlz_guard \<Rightarrow> nat \<Rightarrow> attach_config \<Rightarrow> guard_outcome \<times> ctrlz_guard" where
  "process_ctrlz_guard chunk g now c =
     (if \<not> ac_ctrlz_guard c
      then (\<lparr>go_forward = fst (kd_take_partial (cg_decoder g)) @ chunk, go_suspend = False\<rparr>, cg_default)
      else let su = guard_expired now (cg_state g);
               st = (if su then GuardIdle else cg_state g);
               (ts, d) = kd_feed chunk now (cg_decoder g);
               (st', fw, su') = fold (guard_token c now) ts (st, [], su)
           in (\<lparr>go_forward = fw, go_suspend = su'\<rparr>, \<lparr>cg_state = st', cg_decoder = d\<rparr>))"

definition ctrlz_guard_poll_timeout :: "ctrlz_guard \<Rightarrow> nat \<Rightarrow> nat option" where
  "ctrlz_guard_poll_timeout g now =
     (let pending = (case cg_state g of GuardPending d \<Rightarrow> Some d | GuardIdle \<Rightarrow> None);
          deadline = (case (pending, kd_hold_deadline (cg_decoder g)) of
                        (Some a, Some b) \<Rightarrow> Some (min a b)
                      | (Some d, None) \<Rightarrow> Some d
                      | (None, Some d) \<Rightarrow> Some d
                      | (None, None) \<Rightarrow> None)
      in map_option (\<lambda>d. min (max (d - now) 1) 65535) deadline)"

subsection \<open>Menus and decisions\<close>

datatype on_child_suspend_setting = AutoResumeAlways | AutoResumeOnAttached | ShowChildActionMenu

datatype stopped_child_action = ActResume | ActMenu | ActNothing

definition stopped_child_action :: "client_mode \<Rightarrow> on_child_suspend_setting \<Rightarrow> stopped_child_action" where
  "stopped_child_action mode setting =
     (if mode \<noteq> Rw then ActNothing
      else case setting of
        AutoResumeAlways \<Rightarrow> ActResume
      | AutoResumeOnAttached \<Rightarrow> ActResume
      | ShowChildActionMenu \<Rightarrow> ActMenu)"

datatype menu_action = MenuResume | MenuClientSuspend | MenuDetach | MenuSigint | MenuSighup | MenuSigkill

definition to_ascii_lowercase :: "byte \<Rightarrow> byte" where
  "to_ascii_lowercase b = (if 0x41 \<le> b \<and> b \<le> 0x5a then b + 0x20 else b)"

definition menu_action_for_input :: "bytes \<Rightarrow> menu_action option" where
  "menu_action_for_input chunk =
     (case chunk of
        [b] \<Rightarrow>
          (if b = 0x1b then Some MenuResume
           else let l = to_ascii_lowercase b in
             if l = 0x63 then Some MenuResume
             else if l = 0x7a then Some MenuClientSuspend
             else if l = 0x64 then Some MenuDetach
             else if l = 0x69 then Some MenuSigint
             else if l = 0x68 then Some MenuSighup
             else if l = 0x6b then Some MenuSigkill
             else None)
      | _ \<Rightarrow> None)"

datatype x1_prompt_choice = X1ClientSuspend | X1ClientQuit | X1BackToAttach

definition x1_prompt_choice_for_input :: "bytes \<Rightarrow> x1_prompt_choice option" where
  "x1_prompt_choice_for_input chunk =
     (case chunk of
        [b] \<Rightarrow>
          (if b = CTRL_Z_BYTE then Some X1ClientSuspend
           else if b = 0x03 then Some X1ClientQuit
           else if b = 0x1b then Some X1BackToAttach
           else None)
      | _ \<Rightarrow> None)"

record revents =
  rv_in :: bool
  rv_hup :: bool
  rv_err :: bool
  rv_nval :: bool

definition input_revents_is_eof :: "revents \<Rightarrow> bool" where
  "input_revents_is_eof r = (if rv_nval r then True else if rv_in r then False else rv_hup r \<or> rv_err r)"

subsection \<open>The stream of keys\<close>

datatype key_event = EvByte byte | EvCtrlZ bytes

fun token_events :: "key_token \<Rightarrow> key_event list" where
  "token_events (CtrlZ bs) = [EvCtrlZ bs]"
| "token_events (Passthrough bs) = map EvByte bs"

definition events_of :: "key_token list \<Rightarrow> key_event list" where
  "events_of ts = concat (map token_events ts)"

fun event_bytes :: "key_event \<Rightarrow> bytes" where
  "event_bytes (EvByte b) = [b]"
| "event_bytes (EvCtrlZ bs) = bs"

definition bytes_of :: "key_event list \<Rightarrow> bytes" where
  "bytes_of es = concat (map event_bytes es)"

text \<open>The reference: the whole stream is cut at once, from the left, at the first encoding that is a prefix of what is left.\<close>

function keys_of :: "bytes \<Rightarrow> key_event list \<times> bytes" where
  "keys_of buf =
     (case find (\<lambda>s. prefix s buf) CTRLZ_ENCODINGS of
        Some s \<Rightarrow> (let (es, r) = keys_of (drop (length s) buf) in (EvCtrlZ s # es, r))
      | None \<Rightarrow>
          if list_ex (prefix buf) CTRLZ_ENCODINGS then ([], buf)
          else let (es, r) = keys_of (tl buf) in (EvByte (hd buf) # es, r))"
  by pat_completeness auto

lemma found_encoding: "find (\<lambda>s. prefix s buf) CTRLZ_ENCODINGS = Some s \<Longrightarrow> s \<in> set CTRLZ_ENCODINGS \<and> prefix s buf \<and> s \<noteq> []"
  using encodings_nonempty by (auto simp: find_Some_iff in_set_conv_nth)

termination keys_of
proof (relation "measure length")
  fix buf s
  assume "find (\<lambda>s. prefix s buf) CTRLZ_ENCODINGS = Some s"
  from found_encoding [OF this] show "(drop (length s) buf, buf) \<in> measure length" by (auto simp: prefix_def)
next
  fix buf :: bytes
  assume "\<not> list_ex (prefix buf) CTRLZ_ENCODINGS"
  then show "(tl buf, buf) \<in> measure length" by (cases buf) (auto simp: CTRLZ_ENCODINGS_def)
qed simp

declare keys_of.simps [simp del]

lemma events_simps [simp]: "events_of [] = []" "events_of (t # ts) = token_events t @ events_of ts"
  "events_of (ts @ us) = events_of ts @ events_of us" "events_of (flush_pass p) = map EvByte p"
  by (simp_all add: events_of_def flush_pass_def)

lemma bytes_simps [simp]: "bytes_of [] = []" "bytes_of (e # es) = event_bytes e @ bytes_of es"
  "bytes_of (es @ fs) = bytes_of es @ bytes_of fs" "bytes_of (map EvByte bs) = bs"
  by (simp_all add: bytes_of_def) (induction bs, simp_all)

lemma scan_encodings_find:
  "scan_encodings ss b buf =
     (case find (\<lambda>s. prefix s buf) ss of
        Some s \<Rightarrow> ScanCtrlZ (length s)
      | None \<Rightarrow> if b \<or> list_ex (prefix buf) ss then ScanIncomplete else ScanOther)"
proof (induction ss arbitrary: b)
  case (Cons s ss)
  have p: "prefix s buf \<longleftrightarrow> length s \<le> length buf \<and> take (length s) buf = s"
    by (metis append_eq_conv_conj prefix_def prefix_length_le)
  have q: "prefix buf s \<longleftrightarrow> length buf < length s \<and> prefix buf s \<or> prefix buf s \<and> prefix s buf"
    by (metis le_neq_implies_less prefix_length_le prefix_order.eq_refl not_equal_is_parallel parallel_def)
  show ?case using Cons.IH p q by (auto simp: not_le split: option.splits)
qed simp

lemma scan_find:
  "scan buf =
     (case find (\<lambda>s. prefix s buf) CTRLZ_ENCODINGS of
        Some s \<Rightarrow> ScanCtrlZ (length s)
      | None \<Rightarrow> if list_ex (prefix buf) CTRLZ_ENCODINGS then ScanIncomplete else ScanOther)"
  by (simp add: scan_def scan_encodings_find)

text \<open>The three cases of the scanner, as cases of the reference.\<close>

lemma keys_cases:
  obtains (key) s where "find (\<lambda>s. prefix s buf) CTRLZ_ENCODINGS = Some s" "buf \<noteq> []" "scan buf = ScanCtrlZ (length s)"
      "take (length s) buf = s" "keys_of buf = (EvCtrlZ s # fst (keys_of (drop (length s) buf)), snd (keys_of (drop (length s) buf)))"
  | (partial) "find (\<lambda>s. prefix s buf) CTRLZ_ENCODINGS = None" "list_ex (prefix buf) CTRLZ_ENCODINGS"
      "buf \<noteq> [] \<Longrightarrow> scan buf = ScanIncomplete" "keys_of buf = ([], buf)"
  | (other) "find (\<lambda>s. prefix s buf) CTRLZ_ENCODINGS = None" "\<not> list_ex (prefix buf) CTRLZ_ENCODINGS" "buf \<noteq> []"
      "scan buf = ScanOther" "keys_of buf = (EvByte (hd buf) # fst (keys_of (tl buf)), snd (keys_of (tl buf)))"
proof (cases "find (\<lambda>s. prefix s buf) CTRLZ_ENCODINGS")
  case None
  show thesis
  proof (cases "list_ex (prefix buf) CTRLZ_ENCODINGS")
    case True
    with None show thesis by (intro partial) (simp_all add: scan_find keys_of.simps [of buf])
  next
    case False
    then have "buf \<noteq> []" by (auto simp: CTRLZ_ENCODINGS_def)
    with None False show thesis by (intro other) (simp_all add: scan_find keys_of.simps [of buf] case_prod_beta)
  qed
next
  case (Some s)
  from found_encoding [OF Some] have "take (length s) buf = s" "buf \<noteq> []" by (auto simp: prefix_def)
  with Some show thesis by (intro key) (simp_all add: scan_find keys_of.simps [of buf] case_prod_beta)
qed

lemma keys_of_Nil [simp]: "keys_of [] = ([], [])"
  by (rule keys_cases [of "[]"]) simp_all

lemma kd_loop_keys: "kd_loop pass buf = (ts, r) \<Longrightarrow> events_of ts = map EvByte pass @ fst (keys_of buf) \<and> r = snd (keys_of buf)"
proof (induction pass buf arbitrary: ts r rule: kd_loop.induct)
  case (1 pass buf)
  show ?case
  proof (cases "buf = []")
    case True
    with 1 show ?thesis by (auto simp: kd_loop.simps)
  next
    case ne: False
    show ?thesis
    proof (cases rule: keys_cases [of buf])
      case (key s)
      obtain us q where u: "kd_loop [] (drop (length s) buf) = (us, q)" by fastforce
      from "1.IH"(1) [OF ne key(3) u] "1.prems" u key show ?thesis
        by (auto simp: kd_loop.simps [of pass])
    next
      case partial
      with "1.prems" ne show ?thesis by (auto simp: kd_loop.simps [of pass])
    next
      case other
      from "1.IH"(2) [OF ne other(4), of ts r] "1.prems" other show ?thesis
        by (simp add: kd_loop.simps [of pass])
    qed
  qed
qed

lemma keys_of_bytes: "bytes_of (fst (keys_of buf)) @ snd (keys_of buf) = buf"
proof (induction buf rule: length_induct)
  case (1 buf)
  show ?case
  proof (cases rule: keys_cases [of buf])
    case (key s)
    then have "length (drop (length s) buf) < length buf" using found_encoding [of buf s] by simp
    with 1 key show ?thesis by (metis append.assoc append_take_drop_id bytes_simps(2) event_bytes.simps(2) fst_conv snd_conv)
  next
    case other
    then have "length (tl buf) < length buf" by simp
    with 1 have "bytes_of (fst (keys_of (tl buf))) @ snd (keys_of (tl buf)) = tl buf" by blast
    with other show ?thesis by simp
  qed simp
qed

text \<open>No encoding is a prefix of another, so a decision of the scanner is final: more input does not change it.\<close>

lemma encodings_prefix_free: "s \<in> set CTRLZ_ENCODINGS \<Longrightarrow> t \<in> set CTRLZ_ENCODINGS \<Longrightarrow> prefix s t \<Longrightarrow> s = t"
  by (auto simp: CTRLZ_ENCODINGS_def CTRL_Z_BYTE_def as_bytes_def)

lemma find_key:
  assumes "s \<in> set CTRLZ_ENCODINGS" "prefix s buf"
  shows "find (\<lambda>s. prefix s buf) CTRLZ_ENCODINGS = Some s"
proof (cases "find (\<lambda>s. prefix s buf) CTRLZ_ENCODINGS")
  case None
  with assms show ?thesis by (auto simp: find_None_iff)
next
  case (Some t)
  with assms encodings_prefix_free found_encoding [OF Some] prefix_same_cases show ?thesis by metis
qed

lemma keys_of_append:
  "keys_of (xs @ ys) = (fst (keys_of xs) @ fst (keys_of (snd (keys_of xs) @ ys)), snd (keys_of (snd (keys_of xs) @ ys)))"
proof (induction xs rule: length_induct)
  case (1 xs)
  show ?case
  proof (cases rule: keys_cases [of xs])
    case (key s)
    then have s: "s \<in> set CTRLZ_ENCODINGS" "prefix s (xs @ ys)" "length s \<le> length xs" "s \<noteq> []"
      using found_encoding [of xs s] by (auto simp: prefix_prefix prefix_length_le)
    then have f: "find (\<lambda>s. prefix s (xs @ ys)) CTRLZ_ENCODINGS = Some s" by (intro find_key)
    from s key have "length (drop (length s) xs) < length xs" by simp
    with 1 key f s show ?thesis by (simp add: keys_of.simps [of "xs @ ys"])
  next
    case other
    have "\<not> prefix s (xs @ ys) \<and> \<not> prefix (xs @ ys) s" if "s \<in> set CTRLZ_ENCODINGS" for s
      using that other(1,2) prefix_same_cases [of s "xs @ ys" xs] append_prefixD [of xs ys s]
      by (auto simp: find_None_iff list_ex_iff)
    then have f: "find (\<lambda>s. prefix s (xs @ ys)) CTRLZ_ENCODINGS = None" "\<not> list_ex (prefix (xs @ ys)) CTRLZ_ENCODINGS"
      by (auto simp: find_None_iff list_ex_iff)
    have "length (tl xs) < length xs" using other by simp
    with 1 have "keys_of (tl xs @ ys) =
        (fst (keys_of (tl xs)) @ fst (keys_of (snd (keys_of (tl xs)) @ ys)), snd (keys_of (snd (keys_of (tl xs)) @ ys)))"
      by blast
    with other f show ?thesis by (simp add: keys_of.simps [of "xs @ ys"])
  qed simp
qed
subsection \<open>Feeding the decoder\<close>

fun kd_feeds :: "(bytes \<times> nat) list \<Rightarrow> key_decoder \<Rightarrow> key_token list \<times> key_decoder" where
  "kd_feeds [] d = ([], d)"
| "kd_feeds ((chunk, now) # fs) d =
     (let (ts, d') = kd_feed chunk now d; (us, d'') = kd_feeds fs d' in (ts @ us, d''))"

text \<open>What is kept is always a beginning of an encoding, under a deadline.\<close>

definition kd_ok :: "key_decoder \<Rightarrow> bool" where
  "kd_ok d \<longleftrightarrow> (kd_partial d = [] \<longleftrightarrow> kd_hold_deadline d = None) \<and> keys_of (kd_partial d) = ([], kd_partial d)"

lemma keys_of_rest: "keys_of (snd (keys_of buf)) = ([], snd (keys_of buf))"
  using keys_of_append [of buf "[]"] by (simp add: prod_eq_iff)

definition kd_expired :: "nat \<Rightarrow> key_decoder \<Rightarrow> bool" where
  "kd_expired now d \<longleftrightarrow> kd_partial d \<noteq> [] \<and> (case kd_hold_deadline d of Some t \<Rightarrow> t \<le> now | None \<Rightarrow> False)"

lemma kd_feed_keys:
  assumes "kd_feed chunk now d = (ts, d')"
  shows "events_of ts =
      (if kd_expired now d then map EvByte (kd_partial d) @ fst (keys_of chunk) else fst (keys_of (kd_partial d @ chunk)))"
    and "kd_partial d' = snd (keys_of ((if kd_expired now d then [] else kd_partial d) @ chunk))"
proof -
  have "kd_loop (if kd_expired now d then kd_partial d else []) ((if kd_expired now d then [] else kd_partial d) @ chunk) =
      (ts, kd_partial d')"
    using assms by (auto simp: kd_feed_def kd_expired_def Let_def split: prod.splits)
  from kd_loop_keys [OF this] show "events_of ts =
      (if kd_expired now d then map EvByte (kd_partial d) @ fst (keys_of chunk) else fst (keys_of (kd_partial d @ chunk)))"
    and "kd_partial d' = snd (keys_of ((if kd_expired now d then [] else kd_partial d) @ chunk))"
    by auto
qed

lemma kd_feed_ok: "kd_feed chunk now d = (ts, d') \<Longrightarrow> kd_ok d'"
  using kd_feed_keys(2) [of chunk now d ts d'] keys_of_rest
  by (auto simp: kd_ok_def kd_feed_def Let_def split: prod.splits) (auto split: if_splits)

lemma kd_feed_bytes: "kd_feed chunk now d = (ts, d') \<Longrightarrow> bytes_of (events_of ts) @ kd_partial d' = kd_partial d @ chunk"
  using kd_feed_keys [of chunk now d ts d'] by (auto simp: keys_of_bytes)

lemma kd_feeds_bytes: "kd_feeds fs d = (ts, d') \<Longrightarrow> bytes_of (events_of ts) @ kd_partial d' = kd_partial d @ concat (map fst fs)"
proof (induction fs arbitrary: d ts)
  case (Cons f fs)
  obtain chunk now where f: "f = (chunk, now)" by fastforce
  obtain us d1 where u: "kd_feed chunk now d = (us, d1)" by fastforce
  obtain vs where v: "kd_feeds fs d1 = (vs, d')" "ts = us @ vs" using Cons.prems f u by (auto split: prod.splits)
  from Cons.IH [OF v(1)] kd_feed_bytes [OF u] v(2) f show ?case by (metis append.assoc bytes_simps(3) concat.simps(2) events_simps(3) fst_conv list.simps(9))
qed simp

text \<open>A stream that comes in without a pause of \<open>HOLD\<close>: no piece waits for its continuation longer than the decoder does.\<close>

fun prompt :: "nat \<Rightarrow> (bytes \<times> nat) list \<Rightarrow> bool" where
  "prompt t [] = True"
| "prompt t ((chunk, now) # fs) = (chunk \<noteq> [] \<and> now < t + HOLD_MS \<and> prompt now fs)"

lemma kd_feeds_keys:
  assumes "kd_ok d" "kd_hold_deadline d = None \<or> kd_hold_deadline d = Some (t + HOLD_MS)" "prompt t fs" "kd_feeds fs d = (ts, d')"
  shows "events_of ts = fst (keys_of (kd_partial d @ concat (map fst fs))) \<and> kd_partial d' = snd (keys_of (kd_partial d @ concat (map fst fs)))"
  using assms
proof (induction fs arbitrary: d t ts)
  case (Cons f fs)
  obtain chunk now where f: "f = (chunk, now)" by fastforce
  obtain us d1 where u: "kd_feed chunk now d = (us, d1)" by fastforce
  obtain vs where v: "kd_feeds fs d1 = (vs, d')" "ts = us @ vs" using Cons.prems(4) f u by (auto split: prod.splits)
  have ne: "\<not> kd_expired now d" "chunk \<noteq> []" "prompt now fs" using Cons.prems(2,3) f by (auto simp: kd_expired_def)
  have h: "kd_hold_deadline d1 = None \<or> kd_hold_deadline d1 = Some (now + HOLD_MS)"
    using u ne(2) by (auto simp: kd_feed_def Let_def split: prod.splits) (auto split: if_splits)
  from kd_feed_keys [OF u] ne(1) have k: "events_of us = fst (keys_of (kd_partial d @ chunk))" "kd_partial d1 = snd (keys_of (kd_partial d @ chunk))"
    by simp_all
  from Cons.IH [OF kd_feed_ok [OF u] h ne(3) v(1)] k v(2) f keys_of_append [of "kd_partial d @ chunk" "concat (map fst fs)"]
  show ?case by simp
qed (simp add: kd_ok_def)

lemma kd_default_ok [simp]: "kd_ok kd_default" "kd_partial kd_default = []" "kd_hold_deadline kd_default = None"
  by (simp_all add: kd_ok_def kd_default_def)

text \<open>C34. The key decoder loses nothing and misses no key: whatever the sizes of the reads and the times between them, the bytes of
  the tokens followed by the bytes it still holds are the input, in order; and when no pause reaches the 20 ms of \<open>HOLD\<close>, the
  presses of Ctrl-Z it reports are those that cutting the whole stream at once finds, wherever the reads split an encoding.\<close>

theorem key_decoder_exact:
  assumes "kd_feeds fs kd_default = (ts, d)"
  shows "bytes_of (events_of ts) @ kd_partial d = concat (map fst fs)
    \<and> (prompt t fs \<longrightarrow> (events_of ts, kd_partial d) = keys_of (concat (map fst fs)))"
  using kd_feeds_bytes [OF assms] kd_feeds_keys [OF _ _ _ assms, of t] by (auto simp: prod_eq_iff)
definition example_keys :: "(bytes \<times> nat) list" where
  "example_keys = [([0x61, 0x1b], 5), (as_bytes ''[12'', 10), (as_bytes ''2;5uq'', 24)]"

lemma example_keys_fed:
  "kd_feeds example_keys kd_default = ([Passthrough [0x61], CtrlZ (0x1b # as_bytes ''[122;5u''), Passthrough (as_bytes ''q'')], kd_default)"
  by code_simp

theorem key_decoder_exact_witness:
  "keys_of (concat (map fst example_keys)) = ([EvByte 0x61, EvCtrlZ (0x1b # as_bytes ''[122;5u''), EvByte 0x71], [])"
  using key_decoder_exact [OF example_keys_fed, of 0]
  by (simp add: example_keys_def HOLD_MS_def as_bytes_def kd_default_def)

subsection \<open>What reaches the child\<close>

text \<open>A sequence of calls of the guard: what was forwarded, how often the client was asked to suspend, and the guard after it.\<close>

fun guard_run :: "attach_config \<Rightarrow> (bytes \<times> nat) list \<Rightarrow> ctrlz_guard \<Rightarrow> bytes \<times> nat \<times> ctrlz_guard" where
  "guard_run c [] g = ([], 0, g)"
| "guard_run c ((chunk, now) # fs) g =
     (let (o1, g') = process_ctrlz_guard chunk g now c; (fw, n, g'') = guard_run c fs g'
      in (go_forward o1 @ fw, of_bool (go_suspend o1) + n, g''))"

fun is_byte :: "key_event \<Rightarrow> bool" where
  "is_byte (EvByte b) = True"
| "is_byte (EvCtrlZ bs) = False"

text \<open>\<open>kept\<close> is \<open>es\<close> less some presses of Ctrl-Z.\<close>

definition only_presses_dropped :: "key_event list \<Rightarrow> key_event list \<Rightarrow> bool" where
  "only_presses_dropped kept es \<longleftrightarrow> subseq kept es \<and> filter is_byte kept = filter is_byte es"

lemma only_presses_append:
  "only_presses_dropped k1 e1 \<Longrightarrow> only_presses_dropped k2 e2 \<Longrightarrow> only_presses_dropped (k1 @ k2) (e1 @ e2)"
  by (auto simp: only_presses_dropped_def intro: list_emb_append_mono)

lemma only_presses_refl [simp]: "only_presses_dropped es es"
  by (simp add: only_presses_dropped_def)

lemma only_presses_drop [simp]: "only_presses_dropped [] [EvCtrlZ bs]"
  by (simp add: only_presses_dropped_def)

definition guard_pending :: "guard_state \<Rightarrow> nat" where
  "guard_pending st = (case st of GuardPending _ \<Rightarrow> 1 | GuardIdle \<Rightarrow> 0)"

lemma guard_token_kept:
  assumes "guard_token c now t (st, fw, su) = (st', fw', su')"
  shows "\<exists>kept. only_presses_dropped kept (token_events t) \<and> fw' = fw @ bytes_of kept
    \<and> of_bool su' + guard_pending st' + length kept \<le> of_bool su + guard_pending st + length (token_events t)"
proof (cases t)
  case (CtrlZ bs)
  show ?thesis
  proof (cases st)
    case GuardIdle
    with CtrlZ assms show ?thesis by (intro exI [of _ "[]"]) (auto simp: guard_pending_def split: if_splits)
  next
    case (GuardPending d)
    with CtrlZ assms show ?thesis by (intro exI [of _ "[EvCtrlZ bs]"]) (auto simp: guard_pending_def)
  qed
next
  case (Passthrough bs)
  with assms show ?thesis by (intro exI [of _ "map EvByte bs"]) (auto simp: guard_pending_def)
qed

lemma guard_tokens_kept:
  "fold (guard_token c now) ts (st, fw, su) = (st', fw', su') \<Longrightarrow>
   \<exists>kept. only_presses_dropped kept (events_of ts) \<and> fw' = fw @ bytes_of kept
    \<and> of_bool su' + guard_pending st' + length kept \<le> of_bool su + guard_pending st + length (events_of ts)"
proof (induction ts arbitrary: st fw su)
  case Nil
  then show ?case by (intro exI [of _ "[]"]) simp
next
  case (Cons t ts)
  obtain st1 fw1 su1 where g: "guard_token c now t (st, fw, su) = (st1, fw1, su1)" by (metis prod_cases3)
  from guard_token_kept [OF g] obtain k1 where k1: "only_presses_dropped k1 (token_events t)" "fw1 = fw @ bytes_of k1"
    "of_bool su1 + guard_pending st1 + length k1 \<le> of_bool su + guard_pending st + length (token_events t)" by blast
  from Cons.IH [of st1 fw1 su1] Cons.prems g obtain k2 where k2: "only_presses_dropped k2 (events_of ts)" "fw' = fw1 @ bytes_of k2"
    "of_bool su' + guard_pending st' + length k2 \<le> of_bool su1 + guard_pending st1 + length (events_of ts)" by auto
  from k1 k2 show ?case by (intro exI [of _ "k1 @ k2"]) (simp add: only_presses_append)
qed

lemma process_kept:
  assumes "ac_ctrlz_guard c" "process_ctrlz_guard chunk g now c = (o1, g')"
  shows "\<exists>ts kept. kd_feed chunk now (cg_decoder g) = (ts, cg_decoder g') \<and> only_presses_dropped kept (events_of ts)
    \<and> go_forward o1 = bytes_of kept
    \<and> of_bool (go_suspend o1) + guard_pending (cg_state g') + length kept \<le> guard_pending (cg_state g) + length (events_of ts)"
proof -
  let ?su = "guard_expired now (cg_state g)"
  obtain ts d where ts: "kd_feed chunk now (cg_decoder g) = (ts, d)" by fastforce
  obtain st' fw su' where f: "fold (guard_token c now) ts (if ?su then GuardIdle else cg_state g, [], ?su) = (st', fw, su')"
    by (metis prod_cases3)
  from assms ts f have o1: "o1 = \<lparr>go_forward = fw, go_suspend = su'\<rparr>" "g' = \<lparr>cg_state = st', cg_decoder = d\<rparr>"
    by (simp_all add: process_ctrlz_guard_def Let_def)
  have "of_bool ?su + guard_pending (if ?su then GuardIdle else cg_state g) = guard_pending (cg_state g)"
    by (auto simp: guard_pending_def guard_expired_def split: guard_state.splits)
  with guard_tokens_kept [OF f] o1 ts show ?thesis by (intro exI [of _ ts]) auto
qed

lemma guard_run_kept:
  "ac_ctrlz_guard c \<Longrightarrow> guard_run c fs g = (fw, n, g') \<Longrightarrow>
   \<exists>ts kept. kd_feeds fs (cg_decoder g) = (ts, cg_decoder g') \<and> only_presses_dropped kept (events_of ts) \<and> fw = bytes_of kept
    \<and> n + guard_pending (cg_state g') + length kept \<le> guard_pending (cg_state g) + length (events_of ts)"
proof (induction fs arbitrary: g fw n)
  case Nil
  then show ?case by (intro exI [of _ "[]"]) simp
next
  case (Cons f fs)
  obtain chunk now where f: "f = (chunk, now)" by fastforce
  obtain o1 g1 where o1: "process_ctrlz_guard chunk g now c = (o1, g1)" by fastforce
  obtain fw2 n2 where r: "guard_run c fs g1 = (fw2, n2, g')" "fw = go_forward o1 @ fw2" "n = of_bool (go_suspend o1) + n2"
    using Cons.prems(2) f o1 by (auto split: prod.splits)
  from process_kept [OF Cons.prems(1) o1] obtain ts1 k1 where k1: "kd_feed chunk now (cg_decoder g) = (ts1, cg_decoder g1)"
    "only_presses_dropped k1 (events_of ts1)" "go_forward o1 = bytes_of k1"
    "of_bool (go_suspend o1) + guard_pending (cg_state g1) + length k1 \<le> guard_pending (cg_state g) + length (events_of ts1)" by blast
  from Cons.IH [OF Cons.prems(1) r(1)] obtain ts2 k2 where k2: "kd_feeds fs (cg_decoder g1) = (ts2, cg_decoder g')"
    "only_presses_dropped k2 (events_of ts2)" "fw2 = bytes_of k2"
    "n2 + guard_pending (cg_state g') + length k2 \<le> guard_pending (cg_state g1) + length (events_of ts2)" by blast
  from k1 k2 r f show ?case by (intro exI [of _ "ts1 @ ts2"] exI [of _ "k1 @ k2"]) (simp add: only_presses_append)
qed

lemma guard_run_off:
  "\<not> ac_ctrlz_guard c \<Longrightarrow> guard_run c fs cg_default = (concat (map fst fs), 0, cg_default)"
  by (induction fs) (auto simp: process_ctrlz_guard_def kd_take_partial_def cg_default_def)

text \<open>The guard hides nothing but Ctrl-Z from the child: over any sequence of reads and timeouts, what it forwards is what the
  decoder found in the input, in order and in the encoding the terminal used, less presses of Ctrl-Z; every request to suspend the
  client, and a press still pending, is paid for by a press that was withheld. With the guard off the input passes unchanged and
  the client is never suspended.\<close>

theorem guard_transparent:
  assumes "guard_run c fs cg_default = (fw, n, g)"
  shows "if ac_ctrlz_guard c
    then \<exists>ts kept. kd_feeds fs kd_default = (ts, cg_decoder g) \<and> only_presses_dropped kept (events_of ts) \<and> fw = bytes_of kept
           \<and> n + guard_pending (cg_state g) + length kept \<le> length (events_of ts)
    else fw = concat (map fst fs) \<and> n = 0 \<and> g = cg_default"
  using guard_run_kept [OF _ assms] guard_run_off [of c fs] assms by (auto simp: cg_default_def guard_pending_def)

definition example_guard :: attach_config where
  "example_guard = \<lparr>ac_ctrlz_guard = True, ac_ctrlz_guard_delay = 500, ac_ctrlz_x1_action = X1ActSuspend\<rparr>"

theorem guard_transparent_witness:
  "\<exists>ts kept. kd_feeds [([0x61, 0x1a], 5), ([], 600)] kd_default = (ts, kd_default) \<and> only_presses_dropped kept (events_of ts)
     \<and> [0x61] = bytes_of kept \<and> 1 + length kept \<le> length (events_of ts)"
proof -
  have "guard_run example_guard [([0x61, 0x1a], 5), ([], 600)] cg_default = ([0x61], 1, cg_default)" by code_simp
  from guard_transparent [OF this] show ?thesis by (simp add: example_guard_def cg_default_def guard_pending_def)
qed

text \<open>Every second press of a burst.\<close>

fun every_second :: "'a list \<Rightarrow> 'a list" where
  "every_second (a # b # xs) = b # every_second xs"
| "every_second _ = []"

fun burst :: "nat \<Rightarrow> (bytes \<times> nat) list \<Rightarrow> bool" where
  "burst delay ((s, t) # (s', t') # ps) = (t' < t + delay \<and> burst delay ((s', t') # ps))"
| "burst delay _ = True"

lemma kd_feed_press:
  assumes "s \<in> set CTRLZ_ENCODINGS"
  shows "kd_feed s now kd_default = ([CtrlZ s], kd_default)"
proof -
  from assms encodings_nonempty have "s \<noteq> []" by metis
  moreover from find_key [OF assms, of s] have "scan s = ScanCtrlZ (length s)" by (simp add: scan_find)
  ultimately have "kd_loop [] s = ([CtrlZ s], [])"
    by (simp add: kd_loop.simps [of "[]" s] kd_loop.simps [of "[]" "[]"] flush_pass_def)
  then show ?thesis by (simp add: kd_feed_def kd_default_def)
qed

lemma guard_press:
  assumes "s \<in> set CTRLZ_ENCODINGS" "ac_ctrlz_guard c" "0 < ac_ctrlz_guard_delay c"
  shows "process_ctrlz_guard s cg_default now c =
      (\<lparr>go_forward = [], go_suspend = False\<rparr>, \<lparr>cg_state = GuardPending (now + ac_ctrlz_guard_delay c), cg_decoder = kd_default\<rparr>)"
    and "now < d \<Longrightarrow> process_ctrlz_guard s \<lparr>cg_state = GuardPending d, cg_decoder = kd_default\<rparr> now c =
      (\<lparr>go_forward = s, go_suspend = False\<rparr>, cg_default)"
  using assms by (simp_all add: process_ctrlz_guard_def cg_default_def guard_expired_def kd_feed_press)

lemma kd_feed_idle [simp]: "kd_feed [] now kd_default = ([], kd_default)"
  by (simp add: kd_feed_def kd_default_def kd_loop.simps flush_pass_def)

text \<open>The table of presses: of a burst of \<open>k\<close> presses, in any encodings and each within the delay of the one before, the child
  receives every second one, unaltered, and once the delay has passed the client is suspended exactly when \<open>k\<close> is odd.\<close>

theorem guard_counts_presses:
  assumes "ac_ctrlz_guard c" "0 < ac_ctrlz_guard_delay c" "set (map fst ps) \<subseteq> set CTRLZ_ENCODINGS" "burst (ac_ctrlz_guard_delay c) ps"
    and "snd (last ps) + ac_ctrlz_guard_delay c \<le> t"
  shows "guard_run c (ps @ [([], t)]) cg_default = (concat (map fst (every_second ps)), of_bool (odd (length ps)), cg_default)"
  using assms(3-5)
proof (induction ps rule: every_second.induct [case_names pair none one])
  case (pair a b xs)
  obtain s t1 where a: "a = (s, t1)" by fastforce
  obtain s' t2 where b: "b = (s', t2)" by fastforce
  have "burst (ac_ctrlz_guard_delay c) xs" using pair.prems(2) a b by (cases xs) auto
  then have "guard_run c (xs @ [([], t)]) cg_default = (concat (map fst (every_second xs)), of_bool (odd (length xs)), cg_default)"
    using pair by (cases "xs = []") (auto simp: process_ctrlz_guard_def cg_default_def guard_expired_def assms(1))
  with pair.prems a b assms(1,2) show ?case by (simp add: guard_press)
next
  case none
  then show ?case by (simp add: process_ctrlz_guard_def cg_default_def guard_expired_def assms(1))
next
  case (one a)
  obtain s t1 where a: "a = (s, t1)" by fastforce
  with one assms(1,2) show ?case
    by (simp add: guard_press) (simp add: process_ctrlz_guard_def cg_default_def guard_expired_def)
qed

theorem guard_counts_presses_witness:
  "guard_run example_guard [([0x1a], 0), (0x1b # as_bytes ''[122;5u'', 400), ([0x1a], 700), ([], 1200)] cg_default =
     (0x1b # as_bytes ''[122;5u'', 1, cg_default)"
  using guard_counts_presses [of example_guard "[([0x1a], 0), (0x1b # as_bytes ''[122;5u'', 400), ([0x1a], 700)]" 1200]
  by (simp add: example_guard_def CTRLZ_ENCODINGS_def CTRL_Z_BYTE_def)

end
