(* ===== verification/Attach.thy ===== *)
theory Attach
  imports Client Keys
begin

text \<open>
  The relay loop of an attached client, \<open>ClientConnection::relay\<close> of \<^verbatim>\<open>crates/hyoui/src/client/attach.rs\<close>: keys from the
  terminal through the Ctrl-Z guard to the daemon, frames from the daemon to the terminal, the two operation surfaces (the
  menu for a stopped child and the prompt of a single Ctrl-Z), window size reports and the ways the loop ends.

  One pass of the loop is a function of the loop's state and of what the kernel answers in that pass (\<open>relay_pass\<close>). What the
  client does to the outer terminal is a list of operations; the texts of notice, menu and prompt are not spelled out.
\<close>

subsection \<open>State\<close>

datatype input_focus = FocusChild | FocusChildMenu | FocusX1Prompt

datatype run_outcome = ChildExited int | Detached | ConnectionLost | StdoutWriteFailed | BackpressureDisconnected

datatype outer_op =
    OuterReset | OuterData bytes | OuterMenu "16 word" | OuterNotice "16 word" | OuterPrompt "16 word" | OuterCooked | OuterStop | OuterRaw

record relay_params =
  ry_enc :: control_encoder
  ry_dec :: control_decoder
  ry_config :: attach_config
  ry_on_child_suspend :: on_child_suspend_setting
  ry_outer_tty_raw :: bool
  ry_tty_guard :: bool
  ry_client_id :: client_id
  ry_input :: bool
  ry_winch :: bool

record relay =
  rl_conn :: client_connection
  rl_mode :: client_mode
  rl_leader :: bool
  rl_guard :: ctrlz_guard
  rl_focus :: input_focus
  rl_initial_redraw :: bool
  rl_winch_disabled :: bool
  rl_outer :: "outer_op list"

datatype input_read = RdBytes bytes | RdInterrupted | RdFailed

text \<open>The answers of one pass: clocks, \<open>poll\<close>, the events of the descriptors, the terminal's rows and size where they are asked
  for, whether \<open>stdout\<close> takes its bytes, what \<open>read\<close> of the terminal gives (no bytes at its end) and whether stopping works.\<close>

record relay_pass =
  rp_now :: nat
  rp_poll :: client_poll
  rp_deadline_now :: nat
  rp_deadline_rows :: "16 word option"
  rp_sock :: revents
  rp_in :: revents
  rp_winch :: revents
  rp_size :: "(16 word \<times> 16 word) option"
  rp_promoted_size :: "(16 word \<times> 16 word) option"
  rp_sock_rows :: "16 word option"
  rp_stdout_ok :: bool
  rp_read :: input_read
  rp_read_now :: nat
  rp_input_rows :: "16 word option"
  rp_suspended :: bool

text \<open>A step goes on, goes back to the top of the loop, or leaves it.\<close>

datatype relay_flow = Go relay | Again relay | Leave "client_error + run_outcome" relay

fun relay_bind :: "relay_flow \<Rightarrow> (relay \<Rightarrow> relay_flow) \<Rightarrow> relay_flow" where
  "relay_bind (Go r) f = f r"
| "relay_bind (Again r) f = Again r"
| "relay_bind (Leave o1 r) f = Leave o1 r"

subsection \<open>Operations\<close>

definition outer :: "outer_op list \<Rightarrow> relay \<Rightarrow> relay" where
  "outer ops r = r\<lparr>rl_outer := rl_outer r @ ops\<rparr>"

text \<open>A control message whose failure to be sent is ignored.\<close>

definition send_quietly :: "relay_params \<Rightarrow> control_message \<Rightarrow> relay \<Rightarrow> relay" where
  "send_quietly e m r = r\<lparr>rl_conn := snd (cc_send_control (ry_enc e) m (rl_conn r))\<rparr>"

definition emit_outer_tty_reset :: "relay_params \<Rightarrow> relay \<Rightarrow> relay" where
  "emit_outer_tty_reset e r = (if ry_outer_tty_raw e then outer [OuterReset] r else r)"

definition finish_detach :: "relay_params \<Rightarrow> relay \<Rightarrow> relay_flow" where
  "finish_detach e r = Leave (Inr Detached) (emit_outer_tty_reset e (send_quietly e (Detach Myself) r))"

definition redraw_request_allowed :: "relay_params \<Rightarrow> relay \<Rightarrow> bool" where
  "redraw_request_allowed e r \<longleftrightarrow> stopped_child_action (rl_mode r) (ry_on_child_suspend e) = ActResume"

definition suspend_client :: "relay_params \<Rightarrow> bool \<Rightarrow> bool \<Rightarrow> relay \<Rightarrow> relay" where
  "suspend_client e suspended resume_after_fg r =
     (let r1 = emit_outer_tty_reset e r;
          r2 = (if ry_tty_guard e then outer [OuterCooked] r1 else r1);
          r3 = (if suspended then outer [OuterStop] r2 else r2);
          r4 = (if ry_tty_guard e then outer [OuterRaw] r3 else r3)
      in if suspended \<and> (resume_after_fg \<or> redraw_request_allowed e r4) then send_quietly e SessionChildResumeRequest r4 else r4)"

definition draw_child_action_menu :: "relay_params \<Rightarrow> 16 word option \<Rightarrow> relay \<Rightarrow> bool \<times> relay" where
  "draw_child_action_menu e rows r =
     (if \<not> ry_outer_tty_raw e then (False, r) else case rows of None \<Rightarrow> (False, r) | Some n \<Rightarrow> (True, outer [OuterMenu n] r))"

definition draw_child_stopped_notice :: "relay_params \<Rightarrow> 16 word option \<Rightarrow> relay \<Rightarrow> relay" where
  "draw_child_stopped_notice e rows r =
     (if \<not> ry_outer_tty_raw e then r else case rows of None \<Rightarrow> r | Some n \<Rightarrow> outer [OuterNotice n] r)"

text \<open>The second message is sent only when the first one went out.\<close>

definition send_terminating_signal :: "relay_params \<Rightarrow> string \<Rightarrow> relay \<Rightarrow> relay" where
  "send_terminating_signal e name r =
     (if name = ''SIGKILL'' then send_quietly e (SignalMsg name) r
      else case cc_send_control (ry_enc e) (SignalMsg ''SIGCONT'') (rl_conn r) of
        (Some _, c) \<Rightarrow> r\<lparr>rl_conn := c\<rparr>
      | (None, c) \<Rightarrow> send_quietly e (SignalMsg name) (r\<lparr>rl_conn := c\<rparr>))"

definition run_ctrlz_x1_action :: "relay_params \<Rightarrow> bool \<Rightarrow> 16 word option \<Rightarrow> relay \<Rightarrow> relay_flow" where
  "run_ctrlz_x1_action e suspended rows r =
     (case ac_ctrlz_x1_action (ry_config e) of
        X1ActSuspend \<Rightarrow> Go (suspend_client e suspended False r)
      | X1ActDetach \<Rightarrow> finish_detach e r
      | X1ActSelect \<Rightarrow>
          (let r1 = emit_outer_tty_reset e r;
               r2 = (case rows of Some n \<Rightarrow> if ry_outer_tty_raw e then outer [OuterPrompt n] r1 else r1 | None \<Rightarrow> r1)
           in Go (r2\<lparr>rl_focus := FocusX1Prompt\<rparr>)))"

definition run_x1_prompt_choice :: "relay_params \<Rightarrow> bool \<Rightarrow> x1_prompt_choice \<Rightarrow> relay \<Rightarrow> relay_flow" where
  "run_x1_prompt_choice e suspended choice r =
     (case choice of
        X1ClientSuspend \<Rightarrow> Go (suspend_client e suspended False (r\<lparr>rl_focus := FocusChild\<rparr>))
      | X1ClientQuit \<Rightarrow> finish_detach e r
      | X1BackToAttach \<Rightarrow>
          (let r1 = r\<lparr>rl_focus := FocusChild\<rparr>
           in Go (if redraw_request_allowed e r1 then send_quietly e SessionChildResumeRequest r1 else r1)))"

definition run_menu_action :: "relay_params \<Rightarrow> bool \<Rightarrow> menu_action \<Rightarrow> relay \<Rightarrow> relay_flow" where
  "run_menu_action e suspended action r =
     (let r1 = r\<lparr>rl_focus := FocusChild\<rparr> in
      case action of
        MenuDetach \<Rightarrow> finish_detach e r
      | MenuResume \<Rightarrow> Go (send_quietly e SessionChildResumeRequest r1)
      | MenuClientSuspend \<Rightarrow> Go (suspend_client e suspended True r1)
      | MenuSigint \<Rightarrow> Go (send_terminating_signal e ''SIGINT'' r1)
      | MenuSighup \<Rightarrow> Go (send_terminating_signal e ''SIGHUP'' r1)
      | MenuSigkill \<Rightarrow> Go (send_terminating_signal e ''SIGKILL'' r1))"

subsection \<open>One pass\<close>

definition no_events :: revents where
  "no_events = \<lparr>rv_in = False, rv_hup = False, rv_err = False, rv_nval = False\<rparr>"

text \<open>The guard on a chunk, and what it lets through on the wire.\<close>

definition relay_guard :: "relay_params \<Rightarrow> bytes \<Rightarrow> nat \<Rightarrow> relay \<Rightarrow> relay_flow \<times> bool" where
  "relay_guard e chunk now r =
     (let (o1, g) = process_ctrlz_guard chunk (rl_guard r) now (ry_config e);
          r1 = r\<lparr>rl_guard := g\<rparr>
      in (if go_forward o1 = [] then Go r1
          else case cc_send_frame (raw_data (go_forward o1)) '''' (rl_conn r1) of
            (Some _, c) \<Rightarrow> Leave (Inr ConnectionLost) (r1\<lparr>rl_conn := c\<rparr>)
          | (None, c) \<Rightarrow> Go (r1\<lparr>rl_conn := c\<rparr>),
          go_suspend o1))"

definition relay_deadline :: "relay_params \<Rightarrow> relay_pass \<Rightarrow> relay \<Rightarrow> relay_flow" where
  "relay_deadline e p r =
     (if rl_focus r \<noteq> FocusChild then Go r
      else let (fl, suspend) = relay_guard e [] (rp_deadline_now p) r in
        relay_bind fl (\<lambda>r1.
          if suspend then relay_bind (run_ctrlz_x1_action e (rp_suspended p) (rp_deadline_rows p) r1) Again
          else Go r1))"

definition resize_report :: "relay_params \<Rightarrow> (16 word \<times> 16 word) option \<Rightarrow> relay \<Rightarrow> relay" where
  "resize_report e sz r =
     (case sz of
        Some (cols, rows) \<Rightarrow> if ry_winch e then send_quietly e (ResizeMsg \<lparr>rz_cols = cols, rz_rows = rows\<rparr>) r else r
      | None \<Rightarrow> r)"

definition relay_winch :: "relay_params \<Rightarrow> relay_pass \<Rightarrow> relay \<Rightarrow> relay" where
  "relay_winch e p r =
     (let ev = (if ry_winch e \<and> \<not> rl_winch_disabled r then rp_winch p else no_events);
          r1 = (if rv_hup ev \<or> rv_err ev \<or> rv_nval ev then r\<lparr>rl_winch_disabled := True\<rparr> else r)
      in if rv_in ev \<and> rl_leader r1 then resize_report e (rp_size p) r1 else r1)"

definition relay_raw_data :: "relay_params \<Rightarrow> relay_pass \<Rightarrow> bytes \<Rightarrow> relay \<Rightarrow> relay_flow" where
  "relay_raw_data e p body r =
     (let initial = rl_initial_redraw r;
          r1 = r\<lparr>rl_initial_redraw := False\<rparr>;
          r2 = (if rl_focus r1 = FocusChildMenu \<and> \<not> initial then r1\<lparr>rl_focus := FocusChild\<rparr> else r1)
      in if rl_focus r2 = FocusX1Prompt then Again r2
         else if \<not> rp_stdout_ok p then Leave (Inr StdoutWriteFailed) r2
         else let r3 = outer [OuterData body] r2 in
           if initial \<and> rl_focus r3 = FocusChildMenu
           then let (drawn, r4) = (if stopped_child_action (rl_mode r3) (ry_on_child_suspend e) = ActMenu
                                   then draw_child_action_menu e (rp_sock_rows p) r3 else (False, r3))
                in if drawn then Go (r4\<lparr>rl_guard := cg_default\<rparr>)
                   else Go (draw_child_stopped_notice e (rp_sock_rows p) (r4\<lparr>rl_focus := FocusChild\<rparr>))
           else Go r3)"

definition relay_child_stopped :: "relay_params \<Rightarrow> relay_pass \<Rightarrow> relay \<Rightarrow> relay" where
  "relay_child_stopped e p r =
     (case stopped_child_action (rl_mode r) (ry_on_child_suspend e) of
        ActResume \<Rightarrow>
          (case cc_send_control (ry_enc e) SessionChildResumeRequest (rl_conn r) of
             (Some _, c) \<Rightarrow> draw_child_stopped_notice e (rp_sock_rows p) (r\<lparr>rl_conn := c\<rparr>)
           | (None, c) \<Rightarrow> r\<lparr>rl_conn := c\<rparr>)
      | ActMenu \<Rightarrow>
          (case draw_child_action_menu e (rp_sock_rows p) r of
             (True, r1) \<Rightarrow> r1\<lparr>rl_guard := cg_default, rl_focus := FocusChildMenu\<rparr>
           | (False, r1) \<Rightarrow> draw_child_stopped_notice e (rp_sock_rows p) r1)
      | ActNothing \<Rightarrow> draw_child_stopped_notice e (rp_sock_rows p) r)"

definition relay_leader_notify :: "relay_params \<Rightarrow> relay_pass \<Rightarrow> leader_notify \<Rightarrow> relay \<Rightarrow> relay" where
  "relay_leader_notify e p n r =
     (let was = rl_leader r; now = (ln_client_id n = Some (ry_client_id e)); r1 = r\<lparr>rl_leader := now\<rparr>
      in if \<not> was \<and> now then resize_report e (rp_promoted_size p) r1 else r1)"

definition relay_control :: "relay_params \<Rightarrow> relay_pass \<Rightarrow> bytes \<Rightarrow> relay \<Rightarrow> relay_flow" where
  "relay_control e p body r =
     (case ry_dec e body of
        Some (SessionExitNotify n) \<Rightarrow> Leave (Inr (ChildExited (sx_exit_status n))) r
      | Some (SessionChildStoppedNotify _) \<Rightarrow> Go (relay_child_stopped e p r)
      | Some (ModeChange m) \<Rightarrow> Go (case mc_client_mode m of Some md \<Rightarrow> r\<lparr>rl_mode := md\<rparr> | None \<Rightarrow> r)
      | Some (LeaderNotify n) \<Rightarrow> Go (relay_leader_notify e p n r)
      | Some (ErrorMsg em) \<Rightarrow> if em_code em = BackpressureDisconnect then Leave (Inr BackpressureDisconnected) r else Go r
      | _ \<Rightarrow> Go r)"

definition relay_socket :: "relay_params \<Rightarrow> relay_pass \<Rightarrow> relay \<Rightarrow> relay_flow" where
  "relay_socket e p r =
     (if rv_in (rp_sock p)
      then (case decode_from (cc_reader (rl_conn r)) of
              Inr (f, rd) \<Rightarrow>
                (let r1 = r\<lparr>rl_conn := (rl_conn r)\<lparr>cc_reader := rd\<rparr>\<rparr> in
                 if frame_ty f = TYPE_RAW_DATA then relay_raw_data e p (frame_body f) r1
                 else if frame_ty f = TYPE_CBOR_CONTROL then relay_control e p (frame_body f) r1
                 else if frame_ty f = TYPE_RAW_ACK then Go r1
                 else Leave (Inl (ErrInvalid ''unknown frame type from daemon'')) r1)
            | Inl (FrameProtocol (UnexpectedEof _)) \<Rightarrow> Leave (Inr ConnectionLost) r
            | Inl _ \<Rightarrow> Leave (Inl (ErrInvalid ''protocol error from daemon'')) r)
      else if rv_hup (rp_sock p) \<or> rv_err (rp_sock p) then Leave (Inr ConnectionLost) r
      else Go r)"

definition relay_input :: "relay_params \<Rightarrow> relay_pass \<Rightarrow> relay \<Rightarrow> relay_flow" where
  "relay_input e p r =
     (if \<not> ry_input e then Again r
      else if input_revents_is_eof (rp_in p) then finish_detach e r
      else if \<not> rv_in (rp_in p) then Go r
      else case rp_read p of
        RdInterrupted \<Rightarrow> Again r
      | RdFailed \<Rightarrow> finish_detach e r
      | RdBytes chunk \<Rightarrow>
          if chunk = [] then finish_detach e r
          else case rl_focus r of
            FocusChildMenu \<Rightarrow>
              (case menu_action_for_input chunk of Some a \<Rightarrow> run_menu_action e (rp_suspended p) a r | None \<Rightarrow> Go r)
          | FocusX1Prompt \<Rightarrow>
              (case x1_prompt_choice_for_input chunk of Some ch \<Rightarrow> run_x1_prompt_choice e (rp_suspended p) ch r | None \<Rightarrow> Go r)
          | FocusChild \<Rightarrow>
              (let (fl, suspend) = relay_guard e chunk (rp_read_now p) r in
               relay_bind fl (\<lambda>r1. if suspend then run_ctrlz_x1_action e (rp_suspended p) (rp_input_rows p) r1 else Go r1)))"

definition relay_step :: "relay_params \<Rightarrow> relay_pass \<Rightarrow> relay \<Rightarrow> relay_flow" where
  "relay_step e p r =
     (case rp_poll p of
        CpInterrupted \<Rightarrow> Again r
      | CpFailed \<Rightarrow> Leave (Inl ErrIo) r
      | _ \<Rightarrow>
          relay_bind (relay_deadline e p r) (\<lambda>r1.
            if rp_poll p = CpTimeout then Again r1
            else relay_bind (relay_socket e p (relay_winch e p r1)) (relay_input e p)))"

definition relay_start :: "relay_params \<Rightarrow> bool \<Rightarrow> client_mode \<Rightarrow> bool \<Rightarrow> 16 word option \<Rightarrow> client_connection \<Rightarrow> relay" where
  "relay_start e child_stopped mode leader rows c =
     (let r = \<lparr>rl_conn = c, rl_mode = mode, rl_leader = leader, rl_guard = cg_default, rl_focus = FocusChild,
               rl_initial_redraw = False, rl_winch_disabled = False, rl_outer = []\<rparr>
      in if child_stopped \<and> stopped_child_action mode (ry_on_child_suspend e) = ActMenu
         then (case draw_child_action_menu e rows r of
                 (True, r1) \<Rightarrow> r1\<lparr>rl_focus := FocusChildMenu, rl_initial_redraw := True\<rparr>
               | (False, r1) \<Rightarrow> draw_child_stopped_notice e rows r1)
         else r)"
subsection \<open>What a client puts on the wire\<close>

datatype sent = SentRaw bytes | SentControl control_message

fun sent_frames :: "control_encoder \<Rightarrow> sent list \<Rightarrow> frame list" where
  "sent_frames enc [] = []"
| "sent_frames enc (SentRaw bs # ms) = raw_data bs # sent_frames enc ms"
| "sent_frames enc (SentControl m # ms) = cbor_control (the (enc m)) # sent_frames enc ms"

fun sent_data :: "sent list \<Rightarrow> bytes" where
  "sent_data [] = []"
| "sent_data (SentRaw bs # ms) = bs @ sent_data ms"
| "sent_data (SentControl m # ms) = sent_data ms"

lemma sent_append [simp]: "sent_frames enc (ms @ ns) = sent_frames enc ms @ sent_frames enc ns" "sent_data (ms @ ns) = sent_data ms @ sent_data ns"
  by (induction ms rule: sent_data.induct) simp_all

lemma data_of_sent: "data_of (sent_frames enc ms) = sent_data ms"
  by (induction enc ms rule: sent_frames.induct)
    (simp_all add: data_of_def raw_data_def cbor_control_def TYPE_RAW_DATA_def TYPE_CBOR_CONTROL_def)

text \<open>A connection that takes what it is given, and the messages a step of the loop wrote to it.\<close>

definition usable :: "client_connection \<Rightarrow> bool" where
  "usable c \<longleftrightarrow> cc_writes c = [] \<and> \<not> cc_poisoned c"

definition emits :: "relay_params \<Rightarrow> relay \<Rightarrow> sent list \<Rightarrow> relay \<Rightarrow> bool" where
  "emits e r ms r' \<longleftrightarrow> (usable (rl_conn r) \<longrightarrow>
     usable (rl_conn r') \<and> cc_written (rl_conn r') = cc_written (rl_conn r) @ encode_all (sent_frames (ry_enc e) ms))"

lemma emits_refl: "rl_conn r' = rl_conn r \<Longrightarrow> emits e r [] r'"
  by (simp add: emits_def)

lemma emits_trans: "emits e r ms r1 \<Longrightarrow> emits e r1 ns r2 \<Longrightarrow> emits e r (ms @ ns) r2"
  by (simp add: emits_def)

text \<open>A step that writes only control messages, all of them satisfying \<open>Q\<close>, and leaves the guard alone or resets it.\<close>

definition quiet :: "(control_message \<Rightarrow> bool) \<Rightarrow> relay_params \<Rightarrow> relay \<Rightarrow> relay \<Rightarrow> bool" where
  "quiet Q e r r' \<longleftrightarrow> (\<exists>ms. emits e r (map SentControl ms) r' \<and> (\<forall>m \<in> set ms. Q m)) \<and> (rl_guard r' = rl_guard r \<or> rl_guard r' = cg_default)"

named_theorems quiet_intros \<open>steps that write no raw data\<close>

lemma quietI:
  "emits e r (map SentControl ms) r' \<Longrightarrow> \<forall>m \<in> set ms. Q m \<Longrightarrow> rl_guard r' = rl_guard r \<or> rl_guard r' = cg_default \<Longrightarrow> quiet Q e r r'"
  unfolding quiet_def by blast

lemma quietE:
  assumes "quiet Q e r r'"
  obtains ms where "emits e r (map SentControl ms) r'" "\<forall>m \<in> set ms. Q m" "rl_guard r' = rl_guard r \<or> rl_guard r' = cg_default"
  using assms unfolding quiet_def by blast

lemma quiet_refl [quiet_intros]: "rl_conn r' = rl_conn r \<Longrightarrow> rl_guard r' = rl_guard r \<or> rl_guard r' = cg_default \<Longrightarrow> quiet Q e r r'"
  by (rule quietI [of e r "[]"]) (simp_all add: emits_refl)

lemma quiet_trans:
  assumes "quiet Q e r r1" "quiet Q e r1 r2"
  shows "quiet Q e r r2"
proof -
  from assms(1) obtain ms where ms: "emits e r (map SentControl ms) r1" "\<forall>m \<in> set ms. Q m" "rl_guard r1 = rl_guard r \<or> rl_guard r1 = cg_default"
    by (rule quietE)
  from assms(2) obtain ns where ns: "emits e r1 (map SentControl ns) r2" "\<forall>m \<in> set ns. Q m" "rl_guard r2 = rl_guard r1 \<or> rl_guard r2 = cg_default"
    by (rule quietE)
  from emits_trans [OF ms(1) ns(1)] ms ns show ?thesis by (intro quietI [of e r "ms @ ns"]) auto
qed

lemma cc_send_usable:
  assumes "cc_send_frame f what c = (res, c')" "usable c"
  shows "usable c' \<and> cc_written c' = cc_written c @ (if res = None then encode_all [f] else [])"
  using assms by (auto simp: cc_send_frame_def cc_write_def usable_def encode_all_def split: sum.splits)

lemma cc_send_control_usable:
  assumes "cc_send_control enc m c = (res, c')" "usable c"
  shows "usable c' \<and> cc_written c' = cc_written c @ (if res = None then encode_all [cbor_control (the (enc m))] else [])"
  using assms cc_send_usable by (fastforce simp: cc_send_control_def split: option.splits)

lemma send_control_quiet:
  assumes "cc_send_control (ry_enc e) m (rl_conn r) = (res, c)" "Q m"
  shows "quiet Q e r (r\<lparr>rl_conn := c\<rparr>)"
proof -
  have "emits e r (map SentControl (if res = None then [m] else [])) (r\<lparr>rl_conn := c\<rparr>)"
    using cc_send_control_usable [OF assms(1)] by (simp add: emits_def)
  then show ?thesis by (rule quietI) (simp_all add: assms(2))
qed

lemma send_quietly_quiet [quiet_intros]: "Q m \<Longrightarrow> quiet Q e r (send_quietly e m r)"
  using send_control_quiet [of e m r] by (cases "cc_send_control (ry_enc e) m (rl_conn r)") (simp add: send_quietly_def)

lemma outer_conn [simp]: "rl_conn (outer ops r) = rl_conn r" "rl_guard (outer ops r) = rl_guard r" "rl_focus (outer ops r) = rl_focus r"
  "rl_mode (outer ops r) = rl_mode r" "rl_leader (outer ops r) = rl_leader r"
  by (simp_all add: outer_def)

lemma emit_reset_same [simp]: "rl_conn (emit_outer_tty_reset e r) = rl_conn r" "rl_guard (emit_outer_tty_reset e r) = rl_guard r"
  "rl_focus (emit_outer_tty_reset e r) = rl_focus r" "rl_leader (emit_outer_tty_reset e r) = rl_leader r"
  by (simp_all add: emit_outer_tty_reset_def)

lemma send_quietly_same [simp]: "rl_guard (send_quietly e m r) = rl_guard r" "rl_focus (send_quietly e m r) = rl_focus r"
  "rl_leader (send_quietly e m r) = rl_leader r"
  by (simp_all add: send_quietly_def)

lemma suspend_client_quiet [quiet_intros]: "Q SessionChildResumeRequest \<Longrightarrow> quiet Q e r (suspend_client e s b r)"
proof -
  assume q: "Q SessionChildResumeRequest"
  have "quiet Q e r r4" if "rl_conn r4 = rl_conn r" "rl_guard r4 = rl_guard r" for r4
    using that by (intro quiet_refl) simp_all
  then show ?thesis using q by (auto simp: suspend_client_def Let_def intro!: quiet_trans [OF _ send_quietly_quiet])
qed

lemma menu_drawn_quiet: "draw_child_action_menu e rows r = (b, r1) \<Longrightarrow> rl_conn r1 = rl_conn r \<and> rl_guard r1 = rl_guard r \<and> rl_leader r1 = rl_leader r \<and> rl_focus r1 = rl_focus r"
  by (auto simp: draw_child_action_menu_def split: if_splits option.splits)

lemma notice_same [simp]: "rl_conn (draw_child_stopped_notice e rows r) = rl_conn r" "rl_guard (draw_child_stopped_notice e rows r) = rl_guard r"
  "rl_leader (draw_child_stopped_notice e rows r) = rl_leader r" "rl_focus (draw_child_stopped_notice e rows r) = rl_focus r"
  by (auto simp: draw_child_stopped_notice_def split: option.splits)

fun flow_relay :: "relay_flow \<Rightarrow> relay" where
  "flow_relay (Go r) = r"
| "flow_relay (Again r) = r"
| "flow_relay (Leave o1 r) = r"

lemma finish_detach_quiet [quiet_intros]: "Q (Detach Myself) \<Longrightarrow> quiet Q e r (flow_relay (finish_detach e r))"
  by (auto simp: finish_detach_def intro!: quiet_trans [OF send_quietly_quiet quiet_refl])

lemma x1_action_quiet [quiet_intros]:
  "Q (Detach Myself) \<Longrightarrow> Q SessionChildResumeRequest \<Longrightarrow> quiet Q e r (flow_relay (run_ctrlz_x1_action e s rows r))"
  by (auto simp: run_ctrlz_x1_action_def Let_def split: ctrlz_x1_action.splits option.splits intro!: quiet_intros)

lemma x1_choice_quiet [quiet_intros]:
  "Q (Detach Myself) \<Longrightarrow> Q SessionChildResumeRequest \<Longrightarrow> quiet Q e r (flow_relay (run_x1_prompt_choice e s ch r))"
proof -
  assume q: "Q (Detach Myself)" "Q SessionChildResumeRequest"
  have "quiet Q e r (r\<lparr>rl_focus := f\<rparr>)" for f by (intro quiet_intros) simp_all
  with q show ?thesis
    by (auto simp: run_x1_prompt_choice_def Let_def split: x1_prompt_choice.splits intro: quiet_intros quiet_trans)
qed
lemma quiet_mono: "quiet P e r r' \<Longrightarrow> (\<And>m. P m \<Longrightarrow> Q m) \<Longrightarrow> quiet Q e r r'"
  unfolding quiet_def by blast

definition plain :: "control_message \<Rightarrow> bool" where
  "plain m \<longleftrightarrow> m = Detach Myself \<or> m = SessionChildResumeRequest"

definition signalling :: "menu_action \<Rightarrow> bool" where
  "signalling a \<longleftrightarrow> a \<in> {MenuSigint, MenuSighup, MenuSigkill}"

lemma plain_simps [simp]: "plain (Detach Myself)" "plain SessionChildResumeRequest"
  by (simp_all add: plain_def)

lemma terminating_signal_quiet:
  assumes "\<And>s. Q (SignalMsg s)"
  shows "quiet Q e r (send_terminating_signal e name r)"
proof -
  obtain res c where s: "cc_send_control (ry_enc e) (SignalMsg ''SIGCONT'') (rl_conn r) = (res, c)" by fastforce
  note q = send_control_quiet [OF s, of Q, OF assms]
  note q2 = quiet_trans [OF q send_quietly_quiet [of Q "SignalMsg name", OF assms]]
  show ?thesis
  proof (cases "name = ''SIGKILL''")
    case True
    then show ?thesis by (simp add: send_terminating_signal_def send_quietly_quiet assms)
  next
    case False
    with q q2 s show ?thesis by (cases res) (simp_all add: send_terminating_signal_def)
  qed
qed

lemma menu_action_quiet: "quiet (\<lambda>m. plain m \<or> signalling a \<and> (\<exists>s. m = SignalMsg s)) e r (flow_relay (run_menu_action e s a r))"
proof -
  let ?r = "r\<lparr>rl_focus := FocusChild\<rparr>" and ?Q = "\<lambda>m. plain m \<or> signalling a \<and> (\<exists>s. m = SignalMsg s)"
  have q: "quiet ?Q e r ?r" by (intro quiet_refl) simp_all
  have t: "quiet ?Q e ?r (send_terminating_signal e name ?r)" if "signalling a" for name
    using that by (intro terminating_signal_quiet) simp
  have p: "quiet ?Q e ?r (send_quietly e SessionChildResumeRequest ?r)" "quiet ?Q e ?r (suspend_client e s True ?r)"
    by (simp_all add: send_quietly_quiet suspend_client_quiet)
  show ?thesis using quiet_trans [OF q p(1)] quiet_trans [OF q p(2)] quiet_trans [OF q t]
    by (cases a) (simp_all add: run_menu_action_def signalling_def finish_detach_quiet)
qed

lemma resize_report_quiet:
  assumes "\<And>z. Q (ResizeMsg z)"
  shows "quiet Q e r (resize_report e sz r)"
  by (auto simp: resize_report_def assms split: option.splits intro!: quiet_intros)

lemma resize_report_same [simp]: "rl_guard (resize_report e sz r) = rl_guard r" "rl_leader (resize_report e sz r) = rl_leader r"
  "rl_focus (resize_report e sz r) = rl_focus r"
  by (auto simp: resize_report_def split: option.splits)

definition resizing :: "bool \<Rightarrow> control_message \<Rightarrow> bool" where
  "resizing b m \<longleftrightarrow> b \<and> (\<exists>z. m = ResizeMsg z)"

lemma relay_winch_quiet: "quiet (resizing (rl_leader r)) e r (relay_winch e p r)"
proof -
  define ev where "ev = (if ry_winch e \<and> \<not> rl_winch_disabled r then rp_winch p else no_events)"
  define r1 where "r1 = (if rv_hup ev \<or> rv_err ev \<or> rv_nval ev then r\<lparr>rl_winch_disabled := True\<rparr> else r)"
  have q: "quiet (resizing (rl_leader r)) e r r1" by (auto simp: r1_def intro: quiet_refl)
  have l: "rl_leader r1 = rl_leader r" by (simp add: r1_def)
  have "quiet (resizing (rl_leader r)) e r1 (resize_report e (rp_size p) r1)" if "rl_leader r"
    using that by (intro resize_report_quiet) (simp add: resizing_def)
  with q l show ?thesis using quiet_trans [OF q]
    by (auto simp: relay_winch_def Let_def ev_def [symmetric] r1_def [symmetric])
qed

lemma relay_winch_same [simp]: "rl_guard (relay_winch e p r) = rl_guard r" "rl_leader (relay_winch e p r) = rl_leader r"
  "rl_focus (relay_winch e p r) = rl_focus r"
  by (auto simp: relay_winch_def Let_def)

lemma relay_raw_data_quiet: "quiet Q e r (flow_relay (relay_raw_data e p body r))"
  by (auto simp: relay_raw_data_def Let_def split: prod.splits dest!: menu_drawn_quiet intro!: quiet_refl split: if_splits)

lemma relay_child_stopped_quiet: "quiet plain e r (relay_child_stopped e p r)"
proof -
  obtain res c where s: "cc_send_control (ry_enc e) SessionChildResumeRequest (rl_conn r) = (res, c)" by fastforce
  have q: "quiet plain e r (r\<lparr>rl_conn := c\<rparr>)" using s by (rule send_control_quiet) simp
  have n: "quiet plain e r (draw_child_stopped_notice e (rp_sock_rows p) (r\<lparr>rl_conn := c\<rparr>))"
    by (rule quiet_trans [OF q]) (intro quiet_refl, simp_all)
  obtain b r1 where m: "draw_child_action_menu e (rp_sock_rows p) r = (b, r1)" by fastforce
  note same = menu_drawn_quiet [OF m]
  show ?thesis
    by (cases "stopped_child_action (rl_mode r) (ry_on_child_suspend e)"; cases b; cases res)
      (auto simp: relay_child_stopped_def s m same q n intro!: quiet_refl)
qed

lemma relay_leader_quiet: "quiet (resizing (rl_leader (relay_leader_notify e p n r))) e r (relay_leader_notify e p n r)"
proof -
  define now where "now = (ln_client_id n = Some (ry_client_id e))"
  define r1 where "r1 = r\<lparr>rl_leader := now\<rparr>"
  have q: "quiet (resizing now) e r r1" by (intro quiet_refl) (simp_all add: r1_def)
  have l: "relay_leader_notify e p n r = (if \<not> rl_leader r \<and> now then resize_report e (rp_promoted_size p) r1 else r1)" "rl_leader r1 = now"
    by (simp_all add: relay_leader_notify_def Let_def now_def r1_def)
  have "quiet (resizing now) e r1 (resize_report e (rp_promoted_size p) r1)" if now
    using that by (intro resize_report_quiet) (simp add: resizing_def)
  with quiet_trans [OF q] q l show ?thesis by (cases "\<not> rl_leader r \<and> now") auto
qed

lemma relay_control_quiet:
  "quiet (\<lambda>m. plain m \<or> resizing (rl_leader (flow_relay (relay_control e p body r))) m) e r (flow_relay (relay_control e p body r))"
proof (cases "ry_dec e body")
  case None
  then show ?thesis by (auto simp: relay_control_def intro!: quiet_refl)
next
  case (Some m)
  show ?thesis
  proof (cases m)
    case (LeaderNotify n)
    show ?thesis using Some LeaderNotify by (auto simp: relay_control_def intro: quiet_mono [OF relay_leader_quiet])
  next
    case (SessionChildStoppedNotify n)
    show ?thesis using Some SessionChildStoppedNotify by (auto simp: relay_control_def intro: quiet_mono [OF relay_child_stopped_quiet])
  qed (use Some in \<open>auto simp: relay_control_def split: option.splits intro!: quiet_refl\<close>)
qed

lemma relay_socket_quiet:
  "quiet (\<lambda>m. plain m \<or> resizing (rl_leader (flow_relay (relay_socket e p r))) m) e r (flow_relay (relay_socket e p r))"
proof (cases "decode_from (cc_reader (rl_conn r))")
  case (Inl x)
  then show ?thesis
    by (cases x) (auto simp: relay_socket_def split: protocol_error.splits intro!: quiet_refl)
next
  case (Inr y)
  obtain f rd where y: "y = (f, rd)" by (cases y)
  let ?r = "r\<lparr>rl_conn := (rl_conn r)\<lparr>cc_reader := rd\<rparr>\<rparr>"
  have q: "quiet Q e r ?r" for Q by (rule quietI [of e r "[]"]) (simp_all add: emits_def usable_def)
  show ?thesis
    using Inr y by (auto simp: relay_socket_def Let_def intro!: quiet_trans [OF q relay_raw_data_quiet] quiet_trans [OF q relay_control_quiet] q quiet_refl)
qed
subsection \<open>Input on its way\<close>

text \<open>Bytes the client holds back, to decide what they are.\<close>

abbreviation held :: "relay \<Rightarrow> bytes" where
  "held r \<equiv> kd_partial (cg_decoder (rl_guard r))"

text \<open>A step that is handed \<open>chunk\<close>: what it writes as raw data, with what it then holds, is what it held and was handed, with
  parts left out.\<close>

definition conveys :: "(control_message \<Rightarrow> bool) \<Rightarrow> relay_params \<Rightarrow> relay \<Rightarrow> bytes \<Rightarrow> relay \<Rightarrow> bool" where
  "conveys Q e r chunk r' \<longleftrightarrow>
     (\<exists>ms. emits e r ms r' \<and> (\<forall>m. SentControl m \<in> set ms \<longrightarrow> Q m) \<and> subseq (sent_data ms @ held r') (held r @ chunk))"

lemma sent_data_controls [simp]: "sent_data (map SentControl ms) = []"
  by (induction ms) simp_all

lemma quiet_conveys: "quiet Q e r r' \<Longrightarrow> conveys Q e r [] r'"
  by (erule quietE) (auto simp: conveys_def cg_default_def kd_default_def intro!: exI)

lemma conveys_mono: "conveys P e r a r' \<Longrightarrow> subseq a b \<Longrightarrow> (\<And>m. P m \<Longrightarrow> Q m) \<Longrightarrow> conveys Q e r b r'"
  unfolding conveys_def by (meson list_emb_append_mono subseq_order.refl subseq_order.trans)

lemma conveys_trans:
  assumes "conveys Q e r a r1" "conveys Q e r1 b r2"
  shows "conveys Q e r (a @ b) r2"
proof -
  from assms obtain ms ns where ms: "emits e r ms r1" "\<forall>m. SentControl m \<in> set ms \<longrightarrow> Q m" "subseq (sent_data ms @ held r1) (held r @ a)"
    and ns: "emits e r1 ns r2" "\<forall>m. SentControl m \<in> set ns \<longrightarrow> Q m" "subseq (sent_data ns @ held r2) (held r1 @ b)"
    unfolding conveys_def by blast
  have "subseq (sent_data ms @ sent_data ns @ held r2) (sent_data ms @ held r1 @ b)"
    using list_emb_append_mono [OF subseq_order.refl ns(3), of "sent_data ms"] by simp
  moreover have "subseq (sent_data ms @ held r1 @ b) (held r @ a @ b)"
    using list_emb_append_mono [OF ms(3) subseq_order.refl, of b] by simp
  ultimately have "subseq (sent_data (ms @ ns) @ held r2) (held r @ a @ b)" by (auto intro: subseq_order.trans)
  with emits_trans [OF ms(1) ns(1)] ms(2) ns(2) show ?thesis unfolding conveys_def by (intro exI [of _ "ms @ ns"]) auto
qed

lemma conveys_bind:
  assumes "conveys Q e r a (flow_relay fl)" "\<And>r1. fl = Go r1 \<Longrightarrow> conveys Q e r1 b (flow_relay (f r1))"
  shows "conveys Q e r (a @ b) (flow_relay (relay_bind fl f))"
proof (cases fl)
  case (Go r1)
  with assms conveys_trans show ?thesis by fastforce
qed (use assms(1) conveys_mono [of Q e r a _ "a @ b" Q] in auto)

lemma subseq_concat: "subseq xs ys \<Longrightarrow> subseq (concat (map f xs)) (concat (map f ys))"
proof (induction rule: list_emb.induct)
  case (list_emb_Cons xs ys y)
  then show ?case by (metis concat.simps(2) list.simps(9) list_emb_append2)
next
  case (list_emb_Cons2 x y xs ys)
  then show ?case by (simp add: list_emb_append_mono)
qed simp

lemma process_guard_subseq:
  assumes "process_ctrlz_guard chunk g now c = (o1, g')"
  shows "subseq (go_forward o1 @ kd_partial (cg_decoder g')) (kd_partial (cg_decoder g) @ chunk)"
proof (cases "ac_ctrlz_guard c")
  case True
  from process_kept [OF True assms] obtain ts kept where k: "kd_feed chunk now (cg_decoder g) = (ts, cg_decoder g')"
    "only_presses_dropped kept (events_of ts)" "go_forward o1 = bytes_of kept" by blast
  from k(2) have "subseq (bytes_of kept) (bytes_of (events_of ts))" by (simp add: only_presses_dropped_def bytes_of_def subseq_concat)
  from list_emb_append_mono [OF this, of "kd_partial (cg_decoder g')" "kd_partial (cg_decoder g')"] k(3) kd_feed_bytes [OF k(1)]
  show ?thesis by simp
next
  case False
  with assms show ?thesis by (auto simp: process_ctrlz_guard_def kd_take_partial_def cg_default_def)
qed

lemma relay_guard_conveys:
  assumes "relay_guard e chunk now r = (fl, s)"
  shows "conveys (\<lambda>m. False) e r chunk (flow_relay fl)" "rl_leader (flow_relay fl) = rl_leader r" "rl_focus (flow_relay fl) = rl_focus r"
proof -
  obtain o1 g where g: "process_ctrlz_guard chunk (rl_guard r) now (ry_config e) = (o1, g)" by fastforce
  note sub = process_guard_subseq [OF g]
  obtain res c where s: "cc_send_frame (raw_data (go_forward o1)) '''' (rl_conn r) = (res, c)" by fastforce
  have h: "subseq (kd_partial (cg_decoder g)) (held r @ chunk)" using sub by (meson list_emb_append2 subseq_order.refl subseq_order.trans)
  have none: "emits e r [] (r\<lparr>rl_guard := g\<rparr>)" by (simp add: emits_refl)
  have sent: "emits e r (if res = None then [SentRaw (go_forward o1)] else []) (r\<lparr>rl_guard := g, rl_conn := c\<rparr>)"
    using cc_send_usable [OF s] by (simp add: emits_def)
  have fl: "fl = (if go_forward o1 = [] then Go (r\<lparr>rl_guard := g\<rparr>)
      else if res = None then Go (r\<lparr>rl_guard := g, rl_conn := c\<rparr>) else Leave (Inr ConnectionLost) (r\<lparr>rl_guard := g, rl_conn := c\<rparr>))"
    using assms g s by (auto simp: relay_guard_def split: option.splits)
  show "rl_leader (flow_relay fl) = rl_leader r" "rl_focus (flow_relay fl) = rl_focus r" by (simp_all add: fl)
  show "conveys (\<lambda>m. False) e r chunk (flow_relay fl)"
  proof (cases "go_forward o1 = []")
    case True
    with none sub show ?thesis by (auto simp: fl conveys_def intro!: exI [of _ "[]"])
  next
    case ne: False
    show ?thesis
    proof (cases res)
      case None
      with sent sub ne show ?thesis unfolding conveys_def by (intro exI [of _ "[SentRaw (go_forward o1)]"]) (simp add: fl)
    next
      case (Some x)
      with sent h ne show ?thesis unfolding conveys_def by (intro exI [of _ "[]"]) (simp add: fl)
    qed
  qed
qed
text \<open>What the terminal offers in a pass.\<close>

definition typed :: "relay_pass \<Rightarrow> bytes" where
  "typed p = (if rp_poll p = CpReady \<and> rv_in (rp_in p) then (case rp_read p of RdBytes chunk \<Rightarrow> chunk | _ \<Rightarrow> []) else [])"

definition deliberate :: "relay_pass \<Rightarrow> control_message \<Rightarrow> bool" where
  "deliberate p m \<longleftrightarrow> (\<exists>s b a. m = SignalMsg s \<and> typed p = [b] \<and> menu_action_for_input [b] = Some a \<and> signalling a)"

lemma deliberateI: "typed p = [b] \<Longrightarrow> menu_action_for_input [b] = Some a \<Longrightarrow> signalling a \<Longrightarrow> deliberate p (SignalMsg s)"
  by (simp add: deliberate_def)

lemma x1_action_leader [simp]: "rl_leader (flow_relay (run_ctrlz_x1_action e s rows r)) = rl_leader r"
  by (auto simp: run_ctrlz_x1_action_def finish_detach_def suspend_client_def Let_def split: ctrlz_x1_action.splits option.splits)

lemma flow_relay_Again: "flow_relay (relay_bind fl Again) = flow_relay fl"
  by (cases fl) simp_all

lemma relay_deadline_conveys: "conveys plain e r [] (flow_relay (relay_deadline e p r))"
proof (cases "rl_focus r = FocusChild")
  case True
  obtain fl s where g: "relay_guard e [] (rp_deadline_now p) r = (fl, s)" by fastforce
  have "conveys plain e r1 [] (flow_relay (if s then relay_bind (run_ctrlz_x1_action e (rp_suspended p) (rp_deadline_rows p) r1) Again else Go r1))"
    for r1 by (auto simp: flow_relay_Again intro!: quiet_conveys quiet_intros)
  with conveys_bind [OF conveys_mono [OF relay_guard_conveys(1) [OF g]], of "[]" plain "[]"] True g show ?thesis
    by (simp add: relay_deadline_def)
next
  case False
  then show ?thesis by (auto simp: relay_deadline_def intro!: quiet_conveys quiet_refl)
qed

lemma relay_deadline_leader [simp]: "rl_leader (flow_relay (relay_deadline e p r)) = rl_leader r"
proof -
  obtain fl s where g: "relay_guard e [] (rp_deadline_now p) r = (fl, s)" by fastforce
  from relay_guard_conveys(2) [OF g] g show ?thesis by (cases fl) (auto simp: relay_deadline_def flow_relay_Again)
qed

lemma finish_detach_leader [simp]: "rl_leader (flow_relay (finish_detach e r)) = rl_leader r"
  by (simp add: finish_detach_def)

lemma suspend_client_same [simp]: "rl_leader (suspend_client e s b r) = rl_leader r" "rl_focus (suspend_client e s b r) = rl_focus r"
  by (simp_all add: suspend_client_def Let_def)

lemma terminating_signal_leader [simp]: "rl_leader (send_terminating_signal e name r) = rl_leader r"
  by (auto simp: send_terminating_signal_def split: prod.splits option.splits)

lemma menu_action_leader [simp]: "rl_leader (flow_relay (run_menu_action e s a r)) = rl_leader r"
  by (cases a) (simp_all add: run_menu_action_def)

lemma x1_choice_leader [simp]: "rl_leader (flow_relay (run_x1_prompt_choice e s ch r)) = rl_leader r"
  by (cases ch) (simp_all add: run_x1_prompt_choice_def Let_def)

text \<open>The terminal's turn of a pass: on an operation surface it is quiet, otherwise what was typed goes through the guard.\<close>

lemma relay_input_unread:
  assumes "\<not> (ry_input e \<and> \<not> input_revents_is_eof (rp_in p) \<and> rv_in (rp_in p) \<and> (\<exists>chunk. rp_read p = RdBytes chunk \<and> chunk \<noteq> []))"
  shows "flow_relay (relay_input e p r) = r \<or> flow_relay (relay_input e p r) = flow_relay (finish_detach e r)"
  using assms by (auto simp: relay_input_def split: input_read.splits)

lemma relay_input_surface:
  assumes "rp_poll p = CpReady" "rl_focus r \<noteq> FocusChild"
  shows "quiet (\<lambda>m. plain m \<or> deliberate p m) e r (flow_relay (relay_input e p r))"
proof -
  let ?Q = "\<lambda>m. plain m \<or> deliberate p m"
  have d: "quiet ?Q e r (flow_relay (finish_detach e r))" by (simp add: finish_detach_quiet)
  have s: "quiet ?Q e r r" by (intro quiet_refl) simp_all
  show ?thesis
  proof (cases "ry_input e \<and> \<not> input_revents_is_eof (rp_in p) \<and> rv_in (rp_in p) \<and> (\<exists>chunk. rp_read p = RdBytes chunk \<and> chunk \<noteq> [])")
    case False
    from relay_input_unread [OF this, of r] show ?thesis using d s by metis
  next
    case True
    then obtain chunk where c: "rp_read p = RdBytes chunk" "chunk \<noteq> []" by blast
    have t: "typed p = chunk" using True c assms(1) by (simp add: typed_def)
    have m: "quiet ?Q e r (flow_relay (run_menu_action e (rp_suspended p) a r))" if a: "menu_action_for_input chunk = Some a" for a
    proof (rule quiet_mono [OF menu_action_quiet])
      from a obtain b where b: "chunk = [b]" by (cases chunk; cases "tl chunk") (simp_all add: menu_action_for_input_def)
      show "plain m \<or> deliberate p m" if "plain m \<or> signalling a \<and> (\<exists>s. m = SignalMsg s)" for m
        using that deliberateI [OF t [unfolded b] a [unfolded b]] by blast
    qed
    have x: "quiet ?Q e r (flow_relay (run_x1_prompt_choice e (rp_suspended p) ch r))" for ch by (intro x1_choice_quiet) simp_all
    show ?thesis
    proof (cases "rl_focus r")
      case FocusChildMenu
      with True c m s show ?thesis by (cases "menu_action_for_input chunk") (simp_all add: relay_input_def)
    next
      case FocusX1Prompt
      with True c x s show ?thesis by (cases "x1_prompt_choice_for_input chunk") (simp_all add: relay_input_def)
    qed (use assms(2) in simp)
  qed
qed

lemma relay_input_conveys:
  assumes "rp_poll p = CpReady"
  shows "conveys (\<lambda>m. plain m \<or> deliberate p m) e r (typed p) (flow_relay (relay_input e p r))"
proof (cases "rl_focus r = FocusChild")
  case False
  from quiet_conveys [OF relay_input_surface [OF assms False]] show ?thesis by (rule conveys_mono) simp_all
next
  case True
  let ?Q = "\<lambda>m. plain m \<or> deliberate p m"
  have none: "conveys ?Q e r (typed p) r'" if "quiet ?Q e r r'" for r'
    using quiet_conveys [OF that] by (rule conveys_mono) simp_all
  have s: "quiet ?Q e r r" by (intro quiet_refl) simp_all
  show ?thesis
  proof (cases "ry_input e \<and> \<not> input_revents_is_eof (rp_in p) \<and> rv_in (rp_in p) \<and> (\<exists>chunk. rp_read p = RdBytes chunk \<and> chunk \<noteq> [])")
    case False
    have "quiet ?Q e r (flow_relay (finish_detach e r))" by (simp add: finish_detach_quiet)
    with relay_input_unread [OF False, of r] s none show ?thesis by metis
  next
    case read: True
    then obtain chunk where c: "rp_read p = RdBytes chunk" "chunk \<noteq> []" by blast
    have t: "typed p = chunk" using c read assms by (simp add: typed_def)
    obtain fl su where g: "relay_guard e chunk (rp_read_now p) r = (fl, su)" by fastforce
    have "conveys ?Q e r1 [] (flow_relay (if su then run_ctrlz_x1_action e (rp_suspended p) (rp_input_rows p) r1 else Go r1))" for r1
      by (auto intro!: quiet_conveys quiet_intros)
    from conveys_bind [OF conveys_mono [OF relay_guard_conveys(1) [OF g]], of chunk ?Q, OF _ _ this] read c g t True show ?thesis
      by (simp add: relay_input_def)
  qed
qed

lemma relay_input_leader [simp]: "rl_leader (flow_relay (relay_input e p r)) = rl_leader r"
proof -
  have "rl_leader (flow_relay (relay_bind fl (\<lambda>r1. if su then run_ctrlz_x1_action e s rows r1 else Go r1))) = rl_leader r"
    if "relay_guard e chunk now r = (fl, su)" for chunk now fl su s rows
    using relay_guard_conveys(2) [OF that] by (cases fl) simp_all
  then show ?thesis
    by (auto simp: relay_input_def split: input_read.splits input_focus.splits option.splits prod.splits)
qed
subsection \<open>The pass\<close>

definition pass_may_send :: "relay_pass \<Rightarrow> bool \<Rightarrow> control_message \<Rightarrow> bool" where
  "pass_may_send p leader m \<longleftrightarrow> plain m \<or> resizing leader m \<or> deliberate p m"

lemma may_send_mono: "plain m \<Longrightarrow> pass_may_send p l m" "resizing l' m \<Longrightarrow> (l' \<Longrightarrow> l) \<Longrightarrow> pass_may_send p l m" "deliberate p m \<Longrightarrow> pass_may_send p l m"
  by (auto simp: pass_may_send_def resizing_def)

text \<open>The daemon's turn and the terminal's turn of a pass.\<close>

definition relay_ready :: "relay_params \<Rightarrow> relay_pass \<Rightarrow> relay \<Rightarrow> relay_flow" where
  "relay_ready e p r = relay_bind (relay_socket e p (relay_winch e p r)) (relay_input e p)"

lemma relay_ready_leader: "rl_leader (flow_relay (relay_ready e p r)) = rl_leader (flow_relay (relay_socket e p (relay_winch e p r)))"
  by (cases "relay_socket e p (relay_winch e p r)") (simp_all add: relay_ready_def)

lemma relay_socket_winch_quiet:
  "quiet (pass_may_send p (rl_leader r \<or> rl_leader (flow_relay (relay_ready e p r)))) e r (flow_relay (relay_socket e p (relay_winch e p r)))"
proof -
  let ?l = "rl_leader r \<or> rl_leader (flow_relay (relay_ready e p r))"
  have w: "quiet (pass_may_send p ?l) e r (relay_winch e p r)"
    by (rule quiet_mono [OF relay_winch_quiet]) (auto intro: may_send_mono)
  have "quiet (pass_may_send p ?l) e (relay_winch e p r) (flow_relay (relay_socket e p (relay_winch e p r)))"
    by (rule quiet_mono [OF relay_socket_quiet]) (auto simp: relay_ready_leader intro: may_send_mono)
  with w show ?thesis by (rule quiet_trans)
qed

lemma relay_ready_conveys:
  assumes "rp_poll p = CpReady"
  shows "conveys (pass_may_send p (rl_leader r \<or> rl_leader (flow_relay (relay_ready e p r)))) e r (typed p) (flow_relay (relay_ready e p r))"
proof -
  let ?l = "rl_leader r \<or> rl_leader (flow_relay (relay_ready e p r))"
  have i: "conveys (pass_may_send p ?l) e r1 (typed p) (flow_relay (relay_input e p r1))" for r1
    by (rule conveys_mono [OF relay_input_conveys [OF assms]]) (auto intro: may_send_mono)
  from conveys_bind [OF quiet_conveys [OF relay_socket_winch_quiet] i] show ?thesis by (simp add: relay_ready_def)
qed

lemma relay_step_cases:
  "relay_step e p r =
     (case rp_poll p of
        CpInterrupted \<Rightarrow> Again r
      | CpFailed \<Rightarrow> Leave (Inl ErrIo) r
      | CpTimeout \<Rightarrow> relay_bind (relay_deadline e p r) Again
      | CpReady \<Rightarrow> relay_bind (relay_deadline e p r) (relay_ready e p))"
  by (simp add: relay_step_def relay_ready_def [abs_def] split: client_poll.splits)

lemma relay_step_conveys:
  "conveys (pass_may_send p (rl_leader r \<or> rl_leader (flow_relay (relay_step e p r)))) e r (typed p) (flow_relay (relay_step e p r))"
proof -
  let ?l = "rl_leader r \<or> rl_leader (flow_relay (relay_step e p r))"
  have d: "conveys (pass_may_send p ?l) e r [] (flow_relay (relay_deadline e p r))"
    by (rule conveys_mono [OF relay_deadline_conveys]) (auto intro: may_send_mono)
  have stay: "conveys (pass_may_send p ?l) e r [] r" by (intro quiet_conveys quiet_refl) simp_all
  show ?thesis
  proof (cases "rp_poll p")
    case CpReady
    show ?thesis
    proof (cases "relay_deadline e p r")
      case (Go r1)
      have l: "rl_leader r1 = rl_leader r" using relay_deadline_leader [of e p r] Go by simp
      have "relay_step e p r = relay_ready e p r1" using CpReady Go by (simp add: relay_step_cases)
      then have "conveys (pass_may_send p ?l) e r1 (typed p) (flow_relay (relay_step e p r))"
        using relay_ready_conveys [OF CpReady, of r1 e] l by simp
      with conveys_trans [OF d] Go show ?thesis by fastforce
    qed (use d CpReady in \<open>auto simp: relay_step_cases intro: conveys_mono\<close>)
  next
    case CpTimeout
    with d show ?thesis by (auto simp: relay_step_cases flow_relay_Again intro: conveys_mono)
  qed (use stay in \<open>auto simp: relay_step_cases intro: conveys_mono\<close>)
qed

text \<open>An operation surface stays open, or closes without input for the child, unless output of the child closes the menu.\<close>

definition surface_open :: "relay_pass \<Rightarrow> relay \<Rightarrow> bool" where
  "surface_open p r \<longleftrightarrow> rl_focus r = FocusX1Prompt \<or> rl_focus r = FocusChildMenu \<and> \<not> rv_in (rp_sock p)"

lemma relay_control_focus: "rl_focus r \<noteq> FocusChild \<Longrightarrow> rl_focus (flow_relay (relay_control e p body r)) \<noteq> FocusChild"
  by (auto simp: relay_control_def relay_child_stopped_def relay_leader_notify_def Let_def
      split: option.splits control_message.splits stopped_child_action.splits prod.splits bool.splits dest: menu_drawn_quiet)

lemma relay_socket_focus:
  assumes "surface_open p r" "relay_socket e p r = Go r1"
  shows "rl_focus r1 \<noteq> FocusChild"
proof (cases "rv_in (rp_sock p)")
  case True
  with assms(1) have f: "rl_focus r = FocusX1Prompt" by (simp add: surface_open_def)
  have "relay_raw_data e p body r2 \<noteq> Go r1" if "rl_focus r2 = FocusX1Prompt" for body r2 using that by (simp add: relay_raw_data_def Let_def)
  moreover have "rl_focus r1 \<noteq> FocusChild" if "relay_control e p body r2 = Go r1" "rl_focus r2 = FocusX1Prompt" for body r2
    using relay_control_focus [of r2 e p body] that by simp
  ultimately show ?thesis using assms(2) True f
    by (auto simp: relay_socket_def Let_def split: sum.splits prod.splits frame_error.splits protocol_error.splits if_splits)
next
  case False
  with assms show ?thesis by (auto simp: relay_socket_def surface_open_def split: if_splits)
qed

lemma relay_step_surface:
  assumes "surface_open p r"
  shows "quiet (pass_may_send p (rl_leader r \<or> rl_leader (flow_relay (relay_step e p r)))) e r (flow_relay (relay_step e p r))"
proof -
  have d: "relay_deadline e p r = Go r" using assms by (auto simp: relay_deadline_def surface_open_def)
  show ?thesis
  proof (cases "rp_poll p")
    case CpReady
    with d have s: "relay_step e p r = relay_ready e p r" by (simp add: relay_step_cases)
    let ?l = "rl_leader r \<or> rl_leader (flow_relay (relay_ready e p r))"
    have w: "surface_open p (relay_winch e p r)" using assms by (simp add: surface_open_def)
    show ?thesis
    proof (cases "relay_socket e p (relay_winch e p r)")
      case (Go r1)
      have "quiet (pass_may_send p ?l) e r1 (flow_relay (relay_input e p r1))"
        by (rule quiet_mono [OF relay_input_surface [OF CpReady relay_socket_focus [OF w Go]]]) (auto intro: may_send_mono)
      with quiet_trans [OF relay_socket_winch_quiet [of p r e]] Go s show ?thesis by (simp add: relay_ready_def)
    qed (use relay_socket_winch_quiet [of p r e] s in \<open>simp_all add: relay_ready_def\<close>)
  qed (auto simp: relay_step_cases d intro!: quiet_refl)
qed
text \<open>A run of the loop: its result, if it has left, and the state.\<close>

fun relay_run :: "relay_params \<Rightarrow> relay_pass list \<Rightarrow> relay \<Rightarrow> (client_error + run_outcome) option \<times> relay" where
  "relay_run e [] r = (None, r)"
| "relay_run e (p # ps) r =
     (case relay_step e p r of
        Leave o1 r' \<Rightarrow> (Some o1, r')
      | fl \<Rightarrow> relay_run e ps (flow_relay fl))"

lemma relay_run_conveys: "relay_run e ps r = (res, r') \<Longrightarrow> conveys (\<lambda>m. True) e r (concat (map typed ps)) r'"
proof (induction ps arbitrary: r)
  case Nil
  then show ?case by (auto intro!: quiet_conveys quiet_refl)
next
  case (Cons p ps)
  have s: "conveys (\<lambda>m. True) e r (typed p) (flow_relay (relay_step e p r))"
    by (rule conveys_mono [OF relay_step_conveys]) simp_all
  show ?case
  proof (cases "relay_step e p r")
    case (Leave o1 r1)
    with Cons.prems conveys_mono [OF s subseq_rev_drop_many [OF subseq_order.refl], of "\<lambda>m. True" "concat (map typed ps)"] show ?thesis by simp
  qed (use Cons s conveys_trans [OF s] in auto)
qed

lemma relay_start_same: "rl_conn (relay_start e st md ld rows c) = c" "rl_guard (relay_start e st md ld rows c) = cg_default"
  by (auto simp: relay_start_def Let_def dest: menu_drawn_quiet split: prod.splits bool.splits)


subsection \<open>A prompt that polls\<close>

text \<open>The comment above the poll says that no deadline of the guard is pending while a surface is open, because the guard was reset
  on the way; the prompt of a single Ctrl-Z does not reset it. With bytes held back at that moment (an escape typed right after the
  Ctrl-Z) the deadline is never served while the prompt is open: once it has passed, every poll of the prompt waits one
  millisecond, and any number of such timeouts leaves the loop exactly where it was.\<close>

theorem prompt_polls_without_rest:
  assumes "rl_focus r = FocusX1Prompt" "kd_hold_deadline (cg_decoder (rl_guard r)) = Some d"
    and "\<forall>p \<in> set ps. rp_poll p = CpTimeout \<and> d \<le> rp_now p"
  shows "relay_run e ps r = (None, r) \<and> (\<forall>p \<in> set ps. ctrlz_guard_poll_timeout (rl_guard r) (rp_now p) = Some 1)"
proof -
  have "relay_step e p r = Again r" if "rp_poll p = CpTimeout" for p
    using that assms(1) by (simp add: relay_step_cases relay_deadline_def)
  then have "relay_run e ps r = (None, r)" using assms(3) by (induction ps) simp_all
  moreover have "ctrlz_guard_poll_timeout (rl_guard r) now = Some 1" if "d \<le> now" for now
    using that assms(2) by (auto simp: ctrlz_guard_poll_timeout_def Let_def split: guard_state.splits)
  ultimately show ?thesis using assms(3) by blast
qed

definition example_relay_params :: relay_params where
  "example_relay_params = \<lparr>ry_enc = (\<lambda>_. Some [7]), ry_dec = (\<lambda>_. None),
     ry_config = \<lparr>ac_ctrlz_guard = True, ac_ctrlz_guard_delay = 0, ac_ctrlz_x1_action = X1ActSelect\<rparr>,
     ry_on_child_suspend = AutoResumeOnAttached, ry_outer_tty_raw = True, ry_tty_guard = True, ry_client_id = 1, ry_input = True, ry_winch = False\<rparr>"

definition example_key_pass :: "nat \<Rightarrow> bytes \<Rightarrow> relay_pass" where
  "example_key_pass now chunk = \<lparr>rp_now = now, rp_poll = CpReady, rp_deadline_now = now, rp_deadline_rows = Some 24, rp_sock = no_events,
     rp_in = no_events\<lparr>rv_in := True\<rparr>, rp_winch = no_events, rp_size = None, rp_promoted_size = None, rp_sock_rows = Some 24,
     rp_stdout_ok = True, rp_read = RdBytes chunk, rp_read_now = now, rp_input_rows = Some 24, rp_suspended = True\<rparr>"

definition example_idle_pass :: "nat \<Rightarrow> relay_pass" where
  "example_idle_pass now = (example_key_pass now [])\<lparr>rp_poll := CpTimeout\<rparr>"

definition example_relay :: relay where
  "example_relay = relay_start example_relay_params False Rw True (Some 24) example_connection"

definition prompted_relay :: relay where
  "prompted_relay = flow_relay (relay_step example_relay_params (example_key_pass 0 [0x61, 0x1a, 0x1b]) example_relay)"

lemma example_feed: "kd_feed [0x61, 0x1a, 0x1b] 0 kd_default = ([Passthrough [0x61], CtrlZ [0x1a]], \<lparr>kd_partial = [0x1b], kd_hold_deadline = Some 20\<rparr>)"
  by code_simp

lemma prompted_relay_eq:
  "relay_step example_relay_params (example_key_pass 0 [0x61, 0x1a, 0x1b]) example_relay = Go prompted_relay"
  "rl_focus prompted_relay = FocusX1Prompt" "rl_guard prompted_relay = \<lparr>cg_state = GuardIdle, cg_decoder = \<lparr>kd_partial = [0x1b], kd_hold_deadline = Some 20\<rparr>\<rparr>"
  by (simp_all add: prompted_relay_def relay_step_def relay_deadline_def relay_guard_def process_ctrlz_guard_def example_relay_def relay_start_def
      example_relay_params_def example_key_pass_def example_connection_def cg_default_def guard_expired_def example_feed relay_winch_def
      relay_socket_def relay_input_def input_revents_is_eof_def no_events_def Let_def cc_send_frame_def cc_write_def encode_to_def raw_data_def
      MAX_FRAME_SIZE_def run_ctrlz_x1_action_def emit_outer_tty_reset_def outer_def)

theorem prompt_polls_without_rest_witness:
  "relay_run example_relay_params [example_idle_pass 20, example_idle_pass 21, example_idle_pass 22] prompted_relay = (None, prompted_relay)
   \<and> ctrlz_guard_poll_timeout (rl_guard prompted_relay) 22 = Some 1"
  using prompt_polls_without_rest [of prompted_relay 20 "[example_idle_pass 20, example_idle_pass 21, example_idle_pass 22]" example_relay_params]
  by (simp add: prompted_relay_eq example_idle_pass_def example_key_pass_def)

lemma example_relay_usable: "usable example_connection" "usable (rl_conn example_relay)"
  by (simp_all add: example_relay_def relay_start_same usable_def example_connection_def)



end
