(* ===== verification/Ordered.thy ===== *)
theory Ordered
  imports Prelude "HOL-Library.List_Lexorder" "HOL-Library.Char_ord"
begin

text \<open>
  The ordered map the state files and the registry of the web side are made of
  (\<open>std::collections::BTreeMap\<close>). A map is the list of its entries in iteration order, so
  that \<open>values()\<close>, \<open>iter_mut().find\<close> and \<open>retain\<close> are the list functions and their order is
  the key order of the source (strings compare bytewise). The interface \<open>ordered_map\<close> states
  what its clients rely on: what a lookup returns after an insert, a removal, an in-place
  change and a \<open>retain\<close>, and that every operation keeps the entries sorted by key.
\<close>

type_synonym ('k, 'v) btree = "('k \<times> 'v) list"

subsection \<open>Operations\<close>

definition bt_get :: "'k \<Rightarrow> ('k, 'v) btree \<Rightarrow> 'v option" where
  "bt_get k m = map_of m k"

fun bt_insert :: "'k::linorder \<Rightarrow> 'v \<Rightarrow> ('k, 'v) btree \<Rightarrow> ('k, 'v) btree" where
  "bt_insert k v [] = [(k, v)]"
| "bt_insert k v ((k', v') # m) =
     (if k < k' then (k, v) # (k', v') # m
      else if k = k' then (k, v) # m
      else (k', v') # bt_insert k v m)"

definition bt_remove :: "'k \<Rightarrow> ('k, 'v) btree \<Rightarrow> ('k, 'v) btree" where
  "bt_remove k m = filter (\<lambda>e. fst e \<noteq> k) m"

text \<open>A change through \<open>get_mut\<close>, and through \<open>entry(k).or_default()\<close>.\<close>

definition bt_modify :: "'k \<Rightarrow> ('v \<Rightarrow> 'v) \<Rightarrow> ('k, 'v) btree \<Rightarrow> ('k, 'v) btree" where
  "bt_modify k f m = map (\<lambda>e. if fst e = k then (fst e, f (snd e)) else e) m"

definition bt_entry :: "'v \<Rightarrow> 'k::linorder \<Rightarrow> ('v \<Rightarrow> 'v) \<Rightarrow> ('k, 'v) btree \<Rightarrow> ('k, 'v) btree" where
  "bt_entry d k f m = bt_insert k (f (case bt_get k m of Some v \<Rightarrow> v | None \<Rightarrow> d)) m"

definition bt_retain :: "('k \<Rightarrow> 'v \<Rightarrow> bool) \<Rightarrow> ('k, 'v) btree \<Rightarrow> ('k, 'v) btree" where
  "bt_retain P m = filter (\<lambda>e. P (fst e) (snd e)) m"

definition bt_map :: "('v \<Rightarrow> 'v) \<Rightarrow> ('k, 'v) btree \<Rightarrow> ('k, 'v) btree" where
  "bt_map f m = map (\<lambda>e. (fst e, f (snd e))) m"

definition bt_values :: "('k, 'v) btree \<Rightarrow> 'v list" where
  "bt_values m = map snd m"

definition bt_sorted :: "('k::linorder, 'v) btree \<Rightarrow> bool" where
  "bt_sorted m \<longleftrightarrow> sorted_wrt (<) (map fst m)"

subsection \<open>Interface\<close>

locale ordered_map =
  fixes get :: "'k::linorder \<Rightarrow> 'm \<Rightarrow> 'v option"
    and insert :: "'k \<Rightarrow> 'v \<Rightarrow> 'm \<Rightarrow> 'm"
    and remove :: "'k \<Rightarrow> 'm \<Rightarrow> 'm"
    and modify :: "'k \<Rightarrow> ('v \<Rightarrow> 'v) \<Rightarrow> 'm \<Rightarrow> 'm"
    and retain :: "('k \<Rightarrow> 'v \<Rightarrow> bool) \<Rightarrow> 'm \<Rightarrow> 'm"
    and inv :: "'m \<Rightarrow> bool"
  assumes get_insert: "inv m \<Longrightarrow> get j (insert k v m) = (if j = k then Some v else get j m)"
    and get_remove: "inv m \<Longrightarrow> get j (remove k m) = (if j = k then None else get j m)"
    and get_modify: "get j (modify k f m) = (if j = k then map_option f (get j m) else get j m)"
    and get_retain: "inv m \<Longrightarrow> get j (retain P m) = (case get j m of
          Some v \<Rightarrow> if P j v then Some v else None | None \<Rightarrow> None)"
    and inv_insert: "inv m \<Longrightarrow> inv (insert k v m)"
    and inv_remove: "inv m \<Longrightarrow> inv (remove k m)"
    and inv_modify: "inv m \<Longrightarrow> inv (modify k f m)"
    and inv_retain: "inv m \<Longrightarrow> inv (retain P m)"
begin

lemma remove_is_final:
  "inv m \<Longrightarrow> k \<noteq> j \<Longrightarrow> get k (insert j v (remove k m)) = None"
  by (simp add: get_insert get_remove inv_remove)

lemma retain_only_forgets:
  "inv m \<Longrightarrow> get k (retain P m) = Some v \<Longrightarrow> get k m = Some v \<and> P k v"
  by (auto simp: get_retain split: option.splits if_splits)

end

subsection \<open>The list representation implements it\<close>

lemma bt_sorted_Nil [simp]: "bt_sorted []"
  by (simp add: bt_sorted_def)

lemma bt_sorted_Cons [simp]:
  "bt_sorted (e # m) \<longleftrightarrow> (\<forall>k \<in> fst ` set m. fst e < k) \<and> bt_sorted m"
  by (auto simp: bt_sorted_def)

lemma set_bt_insert_subset: "set (bt_insert k v m) \<subseteq> insert (k, v) (set m)"
  by (induction k v m rule: bt_insert.induct) auto

lemma keys_bt_insert [simp]: "fst ` set (bt_insert k v m) = insert k (fst ` set m)"
  by (induction k v m rule: bt_insert.induct) auto

lemma bt_sorted_insert: "bt_sorted m \<Longrightarrow> bt_sorted (bt_insert k v m)"
  by (induction k v m rule: bt_insert.induct) force+

lemma bt_sorted_filter: "bt_sorted m \<Longrightarrow> bt_sorted (filter P m)"
  by (induction m) auto

lemma bt_get_filter:
  "bt_sorted m \<Longrightarrow> map_of (filter P m) j = (case map_of m j of
     Some v \<Rightarrow> if P (j, v) then Some v else None | None \<Rightarrow> None)"
  by (induction m) (force split: option.splits dest: map_of_SomeD)+

lemma fst_comp_modify: "fst \<circ> (\<lambda>e. if fst e = k then (fst e, f (snd e)) else e) = fst"
  by auto

interpretation bt: ordered_map bt_get bt_insert bt_remove bt_modify bt_retain bt_sorted
proof unfold_locales
  fix m :: "('a, 'b) btree" and j k v
  show "bt_sorted m \<Longrightarrow> bt_get j (bt_insert k v m) = (if j = k then Some v else bt_get j m)"
    unfolding bt_get_def by (induction k v m rule: bt_insert.induct) auto
next
  fix m :: "('a, 'b) btree" and j k
  show "bt_sorted m \<Longrightarrow> bt_get j (bt_remove k m) = (if j = k then None else bt_get j m)"
    by (auto simp: bt_get_def bt_remove_def bt_get_filter split: option.splits)
next
  fix m :: "('a, 'b) btree" and j k f
  show "bt_get j (bt_modify k f m) = (if j = k then map_option f (bt_get j m) else bt_get j m)"
    unfolding bt_get_def bt_modify_def by (induction m) auto
next
  fix m :: "('a, 'b) btree" and j P
  show "bt_sorted m \<Longrightarrow> bt_get j (bt_retain P m) = (case bt_get j m of
          Some v \<Rightarrow> if P j v then Some v else None | None \<Rightarrow> None)"
    by (auto simp: bt_get_def bt_retain_def bt_get_filter split: option.splits)
next
  fix m :: "('a, 'b) btree" and k v f P
  show "bt_sorted m \<Longrightarrow> bt_sorted (bt_insert k v m)"
    by (rule bt_sorted_insert)
  show "bt_sorted m \<Longrightarrow> bt_sorted (bt_remove k m)" "bt_sorted m \<Longrightarrow> bt_sorted (bt_retain P m)"
    by (auto simp: bt_remove_def bt_retain_def intro: bt_sorted_filter)
  show "bt_sorted m \<Longrightarrow> bt_sorted (bt_modify k f m)"
    by (simp add: bt_sorted_def bt_modify_def fst_comp_modify)
qed

subsection \<open>Derived facts\<close>

lemma bt_get_entry:
  "bt_sorted m \<Longrightarrow> bt_get j (bt_entry d k f m) =
     (if j = k then Some (f (case bt_get k m of Some v \<Rightarrow> v | None \<Rightarrow> d)) else bt_get j m)"
  by (simp add: bt_entry_def bt.get_insert)

lemma bt_sorted_entry: "bt_sorted m \<Longrightarrow> bt_sorted (bt_entry d k f m)"
  by (simp add: bt_entry_def bt.inv_insert)

lemma bt_get_map: "bt_get k (bt_map f m) = map_option f (bt_get k m)"
  unfolding bt_get_def bt_map_def by (induction m) auto

lemma bt_sorted_map [simp]: "bt_sorted (bt_map f m) = bt_sorted m"
  by (simp add: bt_sorted_def bt_map_def comp_def)

lemma bt_get_in: "bt_sorted m \<Longrightarrow> bt_get k m = Some v \<longleftrightarrow> (k, v) \<in> set m"
  unfolding bt_get_def bt_sorted_def
  by (meson map_of_SomeD map_of_is_SomeI strict_sorted_iff)

lemma bt_values_get: "bt_sorted m \<Longrightarrow> v \<in> set (bt_values m) \<longleftrightarrow> (\<exists>k. bt_get k m = Some v)"
  by (force simp: bt_values_def bt_get_in)

lemma bt_get_Nil [simp]: "bt_get k [] = None"
  by (simp add: bt_get_def)

lemmas bt_get_simps = bt.get_insert bt.get_remove bt.get_modify bt.get_retain bt_get_entry bt_get_map
lemmas bt_sorted_simps = bt.inv_insert bt.inv_remove bt.inv_modify bt.inv_retain bt_sorted_entry

end
