(* ===== verification/Endpoints.thy ===== *)
theory Endpoints
  imports Ordered
begin

text \<open>
  The canonical form of an endpoint, the key of every record of the web side
  (\<open>hyoui-web/src/contract.rs\<close>, \<open>Endpoint\<close>), and the string functions of the standard
  library the web modules share. Texts are ASCII here: \<open>trim\<close> drops the ASCII white space.

  An endpoint is only ever built by \<open>endpoint_parse\<close>. The lemmas show that the form it builds
  is a fixed point of parsing, so that the browser, the command line and the gateway reach
  the same key, and that the origin and the cookie path read from it put it back together.
\<close>

subsection \<open>String functions\<close>

definition is_space :: "char \<Rightarrow> bool" where
  "is_space c \<longleftrightarrow> c = CHR '' '' \<or> (9 \<le> (of_char c :: nat) \<and> (of_char c :: nat) \<le> 13)"

definition trim_start_by :: "('a \<Rightarrow> bool) \<Rightarrow> 'a list \<Rightarrow> 'a list" where
  "trim_start_by P s = dropWhile P s"

definition trim_end_by :: "('a \<Rightarrow> bool) \<Rightarrow> 'a list \<Rightarrow> 'a list" where
  "trim_end_by P s = rev (dropWhile P (rev s))"

definition trim :: "string \<Rightarrow> string" where
  "trim s = trim_end_by is_space (trim_start_by is_space s)"

fun split_once :: "'a list \<Rightarrow> 'a list \<Rightarrow> ('a list \<times> 'a list) option" where
  "split_once pat [] = (if pat = [] then Some ([], []) else None)"
| "split_once pat (c # s) =
     (if prefix pat (c # s) then Some ([], drop (length pat) (c # s))
      else map_option (\<lambda>(a, b). (c # a, b)) (split_once pat s))"

fun split_on :: "'a \<Rightarrow> 'a list \<Rightarrow> 'a list list" where
  "split_on d [] = [[]]"
| "split_on d (c # s) =
     (if c = d then [] # split_on d s
      else (c # hd (split_on d s)) # tl (split_on d s))"

text \<open>\<open>rsplit_once\<close> and \<open>rfind\<close> look for the last occurrence of one character.\<close>

definition rsplit_once :: "'a \<Rightarrow> 'a list \<Rightarrow> ('a list \<times> 'a list) option" where
  "rsplit_once d s = map_option (\<lambda>(a, b). (rev b, rev a)) (split_once [d] (rev s))"

lemma split_once_SomeD: "split_once pat s = Some (a, b) \<Longrightarrow> s = a @ pat @ b"
proof (induction s arbitrary: a b)
  case Nil
  then show ?case by (simp split: if_splits)
next
  case (Cons c s)
  show ?case
  proof (cases "prefix pat (c # s)")
    case True
    then obtain t where "c # s = pat @ t" by (rule prefixE)
    moreover from True Cons.prems have "a = []" "b = drop (length pat) (c # s)"
      by simp_all
    ultimately show ?thesis by simp
  next
    case False
    with Cons.prems obtain a' where "a = c # a'" "split_once pat s = Some (a', b)"
      by auto
    with Cons.IH show ?thesis by simp
  qed
qed

lemma split_once_char:
  "split_once [d] s = Some (a, b) \<longleftrightarrow> s = a @ d # b \<and> d \<notin> set a"
proof (induction s arbitrary: a)
  case Nil
  then show ?case by simp
next
  case (Cons c s)
  show ?case
  proof (cases "c = d")
    case True
    then show ?thesis by (cases a) auto
  next
    case False
    then show ?thesis using Cons.IH by (cases a) auto
  qed
qed

lemma split_once_char_None: "split_once [d] s = None \<longleftrightarrow> d \<notin> set s"
  by (induction s) auto

lemma rsplit_once_char:
  "rsplit_once d s = Some (a, b) \<longleftrightarrow> s = a @ d # b \<and> d \<notin> set b"
proof -
  have "rsplit_once d s = Some (a, b) \<longleftrightarrow> split_once [d] (rev s) = Some (rev b, rev a)"
    by (auto simp: rsplit_once_def)
  also have "\<dots> \<longleftrightarrow> s = a @ d # b \<and> d \<notin> set b"
    by (simp only: split_once_char) (auto simp: rev_swap)
  finally show ?thesis .
qed

lemma trim_end_id: "s = [] \<or> \<not> P (last s) \<Longrightarrow> trim_end_by P s = s"
  by (cases s rule: rev_cases) (auto simp: trim_end_by_def)

lemma trim_end_snoc [simp]: "trim_end_by P (s @ [c]) = (if P c then trim_end_by P s else s @ [c])"
  by (simp add: trim_end_by_def)

lemma trim_end_result: "trim_end_by P s = [] \<or> \<not> P (last (trim_end_by P s))"
  by (induction s rule: rev_induct) (auto simp: trim_end_by_def)

lemma trim_end_prefix: "prefix (trim_end_by P s) s"
  by (induction s rule: rev_induct) (auto simp: trim_end_by_def)

lemma set_trim_end: "set (trim_end_by P s) \<subseteq> set s"
  by (meson trim_end_prefix set_mono_prefix)

lemma set_trim: "set (trim s) \<subseteq> set s"
  by (metis set_dropWhileD set_trim_end subset_code(1) trim_def trim_start_by_def)

lemma trim_id: "\<not> is_space (hd s) \<Longrightarrow> \<not> is_space (last s) \<Longrightarrow> trim s = s"
  by (cases s) (auto simp: trim_def trim_start_by_def trim_end_id)

lemma split_on_ne [simp]: "split_on d s \<noteq> []"
  by (cases s) auto

lemma split_on_snoc: "split_on d (s @ [d]) = split_on d s @ [[]]"
  by (induction s) auto

subsection \<open>Endpoint\<close>

datatype endpoint = Endpoint (as_str: string)

datatype endpoint_error = UnsupportedScheme | MissingHost | HasQueryOrFragment | Malformed

instantiation endpoint :: linorder
begin

definition less_eq_endpoint :: "endpoint \<Rightarrow> endpoint \<Rightarrow> bool" where
  "less_eq_endpoint a b \<longleftrightarrow> as_str a \<le> as_str b"

definition less_endpoint :: "endpoint \<Rightarrow> endpoint \<Rightarrow> bool" where
  "less_endpoint a b \<longleftrightarrow> as_str a < as_str b"

instance
  by standard (auto simp: less_eq_endpoint_def less_endpoint_def endpoint.expand)

end

definition canonical_endpoint :: "string \<Rightarrow> string \<Rightarrow> string \<Rightarrow> string" where
  "canonical_endpoint scheme authority path =
     (let path = trim_end_by ((=) CHR ''/'') path in
      if path = [] then scheme @ ''://'' @ authority @ ''/''
      else scheme @ ''://'' @ authority @ ''/'' @ path @ ''/'')"

definition endpoint_parse :: "string \<Rightarrow> endpoint_error + endpoint" where
  "endpoint_parse raw =
     (let raw = trim raw in
      if CHR ''?'' \<in> set raw \<or> CHR ''#'' \<in> set raw then Inl HasQueryOrFragment
      else case split_once ''://'' raw of
        None \<Rightarrow> Inl Malformed
      | Some (scheme, rest) \<Rightarrow>
          if scheme \<noteq> ''http'' \<and> scheme \<noteq> ''https'' then Inl UnsupportedScheme
          else
            let (authority, path) = (case split_once ''/'' rest of
                                       Some (authority, path) \<Rightarrow> (authority, path)
                                     | None \<Rightarrow> (rest, [])) in
            if authority = [] then Inl MissingHost
            else if list_ex (\<lambda>c. c = ''.'' \<or> c = ''..'')
                      (filter (\<lambda>c. c \<noteq> []) (split_on CHR ''/'' path))
            then Inl Malformed
            else Inr (Endpoint (canonical_endpoint scheme authority path)))"

text \<open>The offset just after the scheme separator, 0 when there is none.\<close>

definition after_scheme :: "string \<Rightarrow> nat" where
  "after_scheme s = (case split_once ''://'' s of Some (a, _) \<Rightarrow> length a + 3 | None \<Rightarrow> 0)"

definition endpoint_origin :: "endpoint \<Rightarrow> string" where
  "endpoint_origin e =
     (let s = as_str e; n = after_scheme s in
      case split_once ''/'' (drop n s) of
        Some (a, _) \<Rightarrow> take (n + length a) s
      | None \<Rightarrow> s)"

definition endpoint_rp_id :: "endpoint \<Rightarrow> string" where
  "endpoint_rp_id e =
     (let origin = endpoint_origin e; host = drop (after_scheme origin) origin in
      case rsplit_once CHR '':'' host of
        Some (h, port) \<Rightarrow> if CHR '']'' \<notin> set (CHR '':'' # port) then h else host
      | None \<Rightarrow> host)"

definition endpoint_cookie_path :: "endpoint \<Rightarrow> string" where
  "endpoint_cookie_path e =
     (let path = drop (length (endpoint_origin e)) (as_str e);
          trimmed = trim_end_by ((=) CHR ''/'') path in
      if trimmed = [] then ''/'' else trimmed)"

subsection \<open>Canonical form\<close>

text \<open>The parts every canonical endpoint is made of.\<close>

definition endpoint_parts :: "string \<Rightarrow> string \<Rightarrow> string \<Rightarrow> bool" where
  "endpoint_parts scheme authority path \<longleftrightarrow>
     scheme \<in> {''http'', ''https''} \<and> authority \<noteq> [] \<and> CHR ''/'' \<notin> set authority
   \<and> CHR ''?'' \<notin> set (authority @ path) \<and> CHR ''#'' \<notin> set (authority @ path)
   \<and> (path = [] \<or> last path \<noteq> CHR ''/'')
   \<and> (\<forall>c \<in> set (split_on CHR ''/'' path). c \<noteq> ''.'' \<and> c \<noteq> ''..'')"

lemma canonical_endpoint_slashless:
  "path = [] \<or> last path \<noteq> CHR ''/'' \<Longrightarrow>
   canonical_endpoint scheme authority path =
     scheme @ ''://'' @ authority @ ''/'' @ (if path = [] then [] else path @ ''/'')"
  by (subgoal_tac "trim_end_by ((=) CHR ''/'') path = path")
     (auto simp: canonical_endpoint_def Let_def intro!: trim_end_id)

lemma split_on_trim_end:
  "set (split_on d (trim_end_by ((=) d) s)) \<subseteq> set (split_on d s)"
proof (induction s rule: rev_induct)
  case (snoc c s)
  then show ?case by (cases "c = d") (auto simp: split_on_snoc)
qed (simp add: trim_end_by_def)

lemma split_scheme:
  "scheme \<in> {''http'', ''https''} \<Longrightarrow> split_once ''://'' (scheme @ ''://'' @ s) = Some (scheme, s)"
  by auto

lemma endpoint_parse_parts:
  assumes "endpoint_parse raw = Inr e"
  obtains scheme authority path where "endpoint_parts scheme authority path"
    and "as_str e = canonical_endpoint scheme authority path"
proof -
  let ?t = "trim raw"
  from assms obtain scheme rest where s: "split_once ''://'' ?t = Some (scheme, rest)"
      and sch: "scheme \<in> {''http'', ''https''}"
      and no: "CHR ''?'' \<notin> set ?t" "CHR ''#'' \<notin> set ?t"
    by (auto simp: endpoint_parse_def Let_def split: option.splits if_splits)
  obtain authority path where ap: "(case split_once ''/'' rest of
        Some (authority, path) \<Rightarrow> (authority, path) | None \<Rightarrow> (rest, [])) = (authority, path)"
    by fastforce
  from split_once_SomeD [OF s] no have rest: "CHR ''?'' \<notin> set rest" "CHR ''#'' \<notin> set rest"
    by auto
  from ap have a: "CHR ''/'' \<notin> set authority" and sub: "set (authority @ path) \<subseteq> set rest"
    by (auto split: option.splits simp: split_once_char split_once_char_None)
  let ?p = "trim_end_by ((=) CHR ''/'') path"
  from assms s sch no ap have ne: "authority \<noteq> []"
      and dots: "\<forall>c \<in> set (split_on CHR ''/'' path). c \<noteq> ''.'' \<and> c \<noteq> ''..''"
      and e: "as_str e = canonical_endpoint scheme authority path"
    by (auto simp: endpoint_parse_def Let_def list_ex_iff split: option.splits if_splits)
  have "endpoint_parts scheme authority ?p"
    using sch ne a sub rest dots split_on_trim_end [of "CHR ''/''" path]
      trim_end_result [of "(=) CHR ''/''" path] set_trim_end [of "(=) CHR ''/''" path]
    unfolding endpoint_parts_def by (auto simp: eq_commute [of "CHR ''/''"])
  moreover have "canonical_endpoint scheme authority ?p = canonical_endpoint scheme authority path"
    using trim_end_result [of "(=) CHR ''/''" path]
    by (simp add: canonical_endpoint_def trim_end_id)
  ultimately show thesis using that e by metis
qed

lemma endpoint_parts_chars:
  assumes "endpoint_parts scheme authority path"
  shows "CHR ''?'' \<notin> set (scheme @ ''://'' @ authority @ ''/'' @ (if path = [] then [] else path @ ''/''))"
    and "CHR ''#'' \<notin> set (scheme @ ''://'' @ authority @ ''/'' @ (if path = [] then [] else path @ ''/''))"
    and "path \<noteq> [] \<Longrightarrow> last (''/'' @ path) \<noteq> CHR ''/''"
proof -
  from assms have a: "scheme = ''http'' \<or> scheme = ''https''"
      "CHR ''?'' \<notin> set authority" "CHR ''?'' \<notin> set path"
      "CHR ''#'' \<notin> set authority" "CHR ''#'' \<notin> set path"
      "path = [] \<or> last path \<noteq> CHR ''/''"
    by (simp_all add: endpoint_parts_def)
  then have "CHR ''?'' \<notin> set scheme" "CHR ''#'' \<notin> set scheme" by (elim disjE; simp)+
  with a show "CHR ''?'' \<notin> set (scheme @ ''://'' @ authority @ ''/'' @ (if path = [] then [] else path @ ''/''))"
    "CHR ''#'' \<notin> set (scheme @ ''://'' @ authority @ ''/'' @ (if path = [] then [] else path @ ''/''))"
    "path \<noteq> [] \<Longrightarrow> last (''/'' @ path) \<noteq> CHR ''/''"
    by simp_all
qed

lemma not_space: "\<not> is_space CHR ''h''" "\<not> is_space CHR ''/''"
  by (simp_all add: is_space_def of_char_def)

lemma endpoint_parse_canonical:
  assumes "endpoint_parts scheme authority path"
  shows "endpoint_parse (canonical_endpoint scheme authority path) =
         Inr (Endpoint (canonical_endpoint scheme authority path))"
proof -
  let ?tail = "if path = [] then [] else path @ ''/''"
  let ?s = "scheme @ ''://'' @ authority @ ''/'' @ ?tail"
  note p = assms [unfolded endpoint_parts_def]
  have c: "canonical_endpoint scheme authority path = ?s"
    using p by (intro canonical_endpoint_slashless) auto
  have hd: "hd ?s = CHR ''h''" using p by (elim conjE insertE) simp_all
  have last: "last ?s = CHR ''/''" by simp
  have t: "trim ?s = ?s" using not_space by (intro trim_id) (simp_all only: hd last not_False_eq_True)
  note q = endpoint_parts_chars(1,2) [OF assms]
  have sp: "split_once ''://'' ?s = Some (scheme, authority @ ''/'' @ ?tail)"
    using p by (intro split_scheme) auto
  have ap: "split_once ''/'' (authority @ ''/'' @ ?tail) = Some (authority, ?tail)"
    using p by (simp add: split_once_char)
  have dots: "\<not> list_ex (\<lambda>c. c = ''.'' \<or> c = ''..'') (filter (\<lambda>c. c \<noteq> []) (split_on CHR ''/'' ?tail))"
    using p by (auto simp: list_ex_iff split_on_snoc)
  have tail: "canonical_endpoint scheme authority ?tail = canonical_endpoint scheme authority path"
    using p by (auto simp: canonical_endpoint_def trim_end_id)
  have ok: "\<not> (scheme \<noteq> ''http'' \<and> scheme \<noteq> ''https'')" "authority \<noteq> []" using p by simp_all
  have "endpoint_parse ?s = Inr (Endpoint (canonical_endpoint scheme authority ?tail))"
    unfolding endpoint_parse_def t Let_def sp option.case prod.case ap
    using ok q dots by (simp only: if_False simp_thms)
  then show ?thesis by (simp only: c tail)
qed

lemma take_of_append: "take (length xs) (xs @ ys) = xs"
  by simp

lemma drop_of_append: "drop (length xs) (xs @ ys) = ys"
  by simp

lemma canonical_cut:
  assumes "endpoint_parts scheme authority path"
  shows "canonical_endpoint scheme authority path =
         (scheme @ ''://'' @ authority) @ ''/'' @ (if path = [] then [] else path @ ''/'')"
  using assms canonical_endpoint_slashless [of path scheme authority]
  by (simp only: endpoint_parts_def append.assoc)

lemma endpoint_origin_canonical:
  assumes "endpoint_parts scheme authority path"
    and "as_str e = canonical_endpoint scheme authority path"
  shows "endpoint_origin e = scheme @ ''://'' @ authority"
proof -
  let ?tail = "if path = [] then [] else path @ ''/''"
  note p = assms(1) [unfolded endpoint_parts_def]
  have s: "as_str e = scheme @ ''://'' @ authority @ ''/'' @ ?tail"
    using p assms(2) by (simp add: canonical_endpoint_slashless)
  have n: "after_scheme (as_str e) = length scheme + 3"
    using p split_scheme [of scheme "authority @ ''/'' @ ?tail"]
    by (simp add: after_scheme_def s)
  have d: "drop (length scheme + 3) (as_str e) = authority @ CHR ''/'' # ?tail"
    by (simp add: s)
  have "split_once ''/'' (drop (length scheme + 3) (as_str e)) = Some (authority, ?tail)"
    unfolding d split_once_char using p by simp
  then have "endpoint_origin e = take (length (scheme @ ''://'' @ authority)) (as_str e)"
    by (simp add: endpoint_origin_def Let_def n numeral_3_eq_3)
  moreover have "as_str e = (scheme @ ''://'' @ authority) @ ''/'' @ ?tail"
    unfolding assms(2) by (rule canonical_cut [OF assms(1)])
  ultimately show ?thesis by (simp only: take_of_append)
qed

lemma endpoint_cookie_path_canonical:
  assumes "endpoint_parts scheme authority path"
    and "as_str e = canonical_endpoint scheme authority path"
  shows "endpoint_cookie_path e = ''/'' @ path"
proof -
  note p = assms(1) [unfolded endpoint_parts_def]
  have "drop (length (endpoint_origin e)) (as_str e) = ''/'' @ (if path = [] then [] else path @ ''/'')"
    unfolding endpoint_origin_canonical [OF assms] assms(2) canonical_cut [OF assms(1)]
    by (rule drop_of_append)
  moreover have "trim_end_by ((=) CHR ''/'') (''/'' @ (if path = [] then [] else path @ ''/''))
      = (if path = [] then [] else ''/'' @ path)"
  proof (cases "path = []")
    case True
    then show ?thesis by (simp add: trim_end_by_def)
  next
    case False
    then have "trim_end_by ((=) CHR ''/'') (''/'' @ path) = ''/'' @ path"
      using endpoint_parts_chars(3) [OF assms(1)] by (intro trim_end_id) simp
    with False show ?thesis
      using trim_end_snoc [of "(=) CHR ''/''" "''/'' @ path" "CHR ''/''"] by simp
  qed
  ultimately show ?thesis by (simp add: endpoint_cookie_path_def)
qed

subsection \<open>Properties\<close>

text \<open>C35. Whatever text an endpoint was parsed from, its canonical form parses to itself, so the
  browser, the command line and the gateway reach the same key; it carries no query and no
  fragment; and its origin and its cookie path are a cut of it: joined by the closing slash
  they are the canonical text again.\<close>
theorem endpoint_canonical:
  assumes "endpoint_parse raw = Inr e"
  shows "endpoint_parse (as_str e) = Inr e
       \<and> CHR ''?'' \<notin> set (as_str e) \<and> CHR ''#'' \<notin> set (as_str e)
       \<and> as_str e = endpoint_origin e @ endpoint_cookie_path e
                    @ (if endpoint_cookie_path e = ''/'' then [] else ''/'')"
proof -
  from assms obtain scheme authority path where p: "endpoint_parts scheme authority path"
      and e: "as_str e = canonical_endpoint scheme authority path"
    by (rule endpoint_parse_parts)
  have s: "as_str e = scheme @ ''://'' @ authority @ ''/'' @ (if path = [] then [] else path @ ''/'')"
    unfolding e canonical_cut [OF p] by (simp only: append.assoc)
  have "endpoint_parse (as_str e) = Inr e"
    using endpoint_parse_canonical [OF p] e by (metis endpoint.collapse)
  moreover have "CHR ''?'' \<notin> set (as_str e)" "CHR ''#'' \<notin> set (as_str e)"
    unfolding s by (rule endpoint_parts_chars [OF p])+
  moreover have "as_str e = endpoint_origin e @ endpoint_cookie_path e
      @ (if endpoint_cookie_path e = ''/'' then [] else ''/'')"
    by (simp add: endpoint_origin_canonical [OF p e] endpoint_cookie_path_canonical [OF p e] s)
  ultimately show ?thesis by blast
qed

theorem endpoint_canonical_witness:
  "endpoint_parse '' https://example.jp/hyoui'' = Inr (Endpoint ''https://example.jp/hyoui/'')
 \<and> endpoint_parse ''https://example.jp/hyoui/'' = Inr (Endpoint ''https://example.jp/hyoui/'')"
proof -
  have "endpoint_parse '' https://example.jp/hyoui'' = Inr (Endpoint ''https://example.jp/hyoui/'')"
    by code_simp
  with endpoint_canonical [OF this] show ?thesis by simp
qed

text \<open>Two texts that differ by a doubled slash only are two endpoints.\<close>

lemma doubled_slash_is_another_endpoint:
  "endpoint_parse ''https://h/a'' = Inr (Endpoint ''https://h/a/'')
 \<and> endpoint_parse ''https://h//a'' = Inr (Endpoint ''https://h//a/'')"
  by code_simp

end
