(* ===== verification/AuthRecord.thy ===== *)
theory AuthRecord
  imports Endpoints
begin

text \<open>
  The records of the two state files of the web gateway
  (\<open>hyoui-web/src/auth/record.rs\<close>, \<open>store.rs\<close>): credentials and token families of
  \<open>auth.json\<close>, registrations and challenges of \<open>pending.json\<close>, and every operation on them.

  The maps are the ordered maps of \<open>Ordered\<close>, times are milliseconds since the epoch.
  SHA-256 is a parameter \<open>sha\<close> of the operations that use it; what is assumed of it, where
  it matters, is that it does not collide on the values at hand. The part of a WebAuthn
  credential the gateway never looks into is an opaque byte string.
\<close>

subsection \<open>Comparison and digests\<close>

definition as_bytes :: "string \<Rightarrow> bytes" where
  "as_bytes s = map of_char s"

definition constant_time_eq :: "bytes \<Rightarrow> bytes \<Rightarrow> bool" where
  "constant_time_eq a b =
     (if length a \<noteq> length b then False
      else foldl (\<lambda>diff (x, y). or diff (xor x y)) 0 (zip a b) = 0)"

definition sha256_hex :: "(bytes \<Rightarrow> bytes) \<Rightarrow> bytes \<Rightarrow> string" where
  "sha256_hex sha bs = concat (map hex_byte (sha bs))"

subsection \<open>Records of \<open>auth.json\<close>\<close>

datatype access = AccessRw | AccessRo

record webauthn_credential =
  cred_id :: bytes
  cred_counter :: "32 word"
  cred_backup_eligible :: bool
  cred_backup_state :: bool
  cred_rest :: bytes

record credential_record =
  cr_sub :: string
  cr_user_id :: bytes
  cr_access :: access
  cr_credential :: webauthn_credential
  cr_sign_count :: "32 word"
  cr_backup_eligible :: bool
  cr_backup_state :: bool
  cr_issued_label :: "string option"
  cr_device_label :: "string option"
  cr_registered_at :: nat
  cr_registered_user_agent :: "string option"
  cr_last_used_at :: "nat option"
  cr_last_used_user_agent :: "string option"
  cr_tombstoned_at :: "nat option"

record token_generation =
  tg_value :: string
  tg_expires_at :: nat

record retired_refresh =
  rr_digest :: string
  rr_expires_at :: nat
  rr_retired_at :: nat

record family_record =
  fam_id :: string
  fam_sub :: string
  fam_endpoint :: endpoint
  fam_access :: token_generation
  fam_refresh :: token_generation
  fam_retired :: "retired_refresh list"
  fam_tombstoned_at :: "nat option"

record auth_file =
  credentials :: "(endpoint, (string, (string, credential_record) btree) btree) btree"
  families :: "(endpoint, (string, family_record) btree) btree"

definition REFRESH_REPLAY_GRACE_MS :: nat where "REFRESH_REPLAY_GRACE_MS = 60000"
definition REFRESH_TTL_MS :: nat where "REFRESH_TTL_MS = 7 * 24 * 60 * 60 * 1000"
definition ACCESS_TTL_MS :: nat where "ACCESS_TTL_MS = 4 * 60 * 60 * 1000"

subsection \<open>Credentials\<close>

definition cr_is_tombstoned :: "credential_record \<Rightarrow> bool" where
  "cr_is_tombstoned r \<longleftrightarrow> cr_tombstoned_at r \<noteq> None"

text \<open>What the WebAuthn library reports of a verified assertion.\<close>

record authentication_result =
  ar_counter :: "32 word"
  ar_backup_eligible :: bool
  ar_backup_state :: bool
  ar_needs_update :: bool

definition record_use ::
  "authentication_result \<Rightarrow> nat \<Rightarrow> string option \<Rightarrow> credential_record \<Rightarrow> credential_record" where
  "record_use result now agent r =
     (let r = r\<lparr>cr_sign_count := ar_counter result,
                cr_backup_eligible := ar_backup_eligible result,
                cr_backup_state := ar_backup_state result,
                cr_last_used_at := Some now,
                cr_last_used_user_agent := agent\<rparr> in
      if ar_needs_update result
      then r\<lparr>cr_credential := (cr_credential r)\<lparr>cred_counter := ar_counter result,
               cred_backup_eligible := ar_backup_eligible result,
               cred_backup_state := ar_backup_state result\<rparr>\<rparr>
      else r)"

text \<open>All credentials of an endpoint in iteration order, with the keys they are filed under.\<close>

definition credential_entries ::
  "endpoint \<Rightarrow> auth_file \<Rightarrow> (string \<times> string \<times> credential_record) list" where
  "credential_entries e file =
     (case bt_get e (credentials file) of
        None \<Rightarrow> []
      | Some subs \<Rightarrow> concat (map (\<lambda>(sub, by_id). map (\<lambda>(i, r). (sub, i, r)) by_id) subs))"

definition live_credentials :: "endpoint \<Rightarrow> auth_file \<Rightarrow> credential_record list" where
  "live_credentials e file =
     filter (\<lambda>r. \<not> cr_is_tombstoned r) (map (snd \<circ> snd) (credential_entries e file))"

definition find_live_credential ::
  "endpoint \<Rightarrow> bytes \<Rightarrow> auth_file \<Rightarrow> (string \<times> string \<times> credential_record) option" where
  "find_live_credential e presented file =
     find (\<lambda>(_, _, r). \<not> cr_is_tombstoned r \<and> constant_time_eq (cred_id (cr_credential r)) presented)
       (credential_entries e file)"

text \<open>A change through the reference \<open>find_live_credential_mut\<close> returned.\<close>

definition modify_credential ::
  "endpoint \<Rightarrow> string \<Rightarrow> string \<Rightarrow> (credential_record \<Rightarrow> credential_record) \<Rightarrow> auth_file \<Rightarrow> auth_file" where
  "modify_credential e sub i f file =
     file\<lparr>credentials := bt_modify e (bt_modify sub (bt_modify i f)) (credentials file)\<rparr>"

definition insert_credential ::
  "(bytes \<Rightarrow> string) \<Rightarrow> endpoint \<Rightarrow> credential_record \<Rightarrow> auth_file \<Rightarrow> auth_file" where
  "insert_credential base64url e r file =
     (let i = base64url (cred_id (cr_credential r)) in
      file\<lparr>credentials := bt_entry [] e (bt_entry [] (cr_sub r) (bt_insert i r)) (credentials file)\<rparr>)"

subsection \<open>Token generations and families\<close>

definition tg_is_live :: "nat \<Rightarrow> token_generation \<Rightarrow> bool" where
  "tg_is_live now t \<longleftrightarrow> now < tg_expires_at t"

definition has_half_life_left :: "nat \<Rightarrow> nat \<Rightarrow> token_generation \<Rightarrow> bool" where
  "has_half_life_left now ttl t \<longleftrightarrow> (tg_expires_at t - now) * 2 \<ge> ttl"

datatype refresh_outcome = Current | Replay | Reused | Unknown

definition fam_is_tombstoned :: "family_record \<Rightarrow> bool" where
  "fam_is_tombstoned f \<longleftrightarrow> fam_tombstoned_at f \<noteq> None"

definition holds_live_access :: "string \<Rightarrow> nat \<Rightarrow> family_record \<Rightarrow> bool" where
  "holds_live_access presented now f \<longleftrightarrow>
     \<not> fam_is_tombstoned f \<and> tg_is_live now (fam_access f)
   \<and> constant_time_eq (as_bytes (tg_value (fam_access f))) (as_bytes presented)"

definition classify_refresh ::
  "(bytes \<Rightarrow> bytes) \<Rightarrow> string \<Rightarrow> nat \<Rightarrow> family_record \<Rightarrow> refresh_outcome" where
  "classify_refresh sha presented now f =
     (if constant_time_eq (as_bytes (tg_value (fam_refresh f))) (as_bytes presented) then Current
      else
        let digest = sha256_hex sha (as_bytes presented) in
        if fam_retired f \<noteq> []
           \<and> constant_time_eq (as_bytes (rr_digest (last (fam_retired f)))) (as_bytes digest)
           \<and> now - rr_retired_at (last (fam_retired f)) \<le> REFRESH_REPLAY_GRACE_MS
        then Replay
        else if list_ex (\<lambda>r. constant_time_eq (as_bytes (rr_digest r)) (as_bytes digest)) (fam_retired f)
        then Reused
        else Unknown)"

definition rotate_refresh ::
  "(bytes \<Rightarrow> bytes) \<Rightarrow> string \<Rightarrow> string \<Rightarrow> nat \<Rightarrow> family_record \<Rightarrow> family_record" where
  "rotate_refresh sha new_refresh new_access now f =
     (let retired = fam_retired f @
            [\<lparr>rr_digest = sha256_hex sha (as_bytes (tg_value (fam_refresh f))),
              rr_expires_at = tg_expires_at (fam_refresh f), rr_retired_at = now\<rparr>];
          f = f\<lparr>fam_retired := filter (\<lambda>r. now < rr_expires_at r) retired,
                fam_refresh := \<lparr>tg_value = new_refresh, tg_expires_at = now + REFRESH_TTL_MS\<rparr>\<rparr> in
      if \<not> tg_is_live now (fam_access f) \<or> \<not> has_half_life_left now ACCESS_TTL_MS (fam_access f)
      then f\<lparr>fam_access := \<lparr>tg_value = new_access, tg_expires_at = now + ACCESS_TTL_MS\<rparr>\<rparr>
      else f)"

definition find_live_family_by_access :: "string \<Rightarrow> nat \<Rightarrow> auth_file \<Rightarrow> family_record option" where
  "find_live_family_by_access presented now file =
     find (holds_live_access presented now) (concat (map bt_values (bt_values (families file))))"

definition get_family :: "endpoint \<Rightarrow> string \<Rightarrow> auth_file \<Rightarrow> family_record option" where
  "get_family e i file =
     (case bt_get e (families file) of None \<Rightarrow> None | Some by_id \<Rightarrow> bt_get i by_id)"

definition modify_family ::
  "endpoint \<Rightarrow> string \<Rightarrow> (family_record \<Rightarrow> family_record) \<Rightarrow> auth_file \<Rightarrow> auth_file" where
  "modify_family e i f file = file\<lparr>families := bt_modify e (bt_modify i f) (families file)\<rparr>"

definition new_family ::
  "endpoint \<Rightarrow> string \<Rightarrow> string \<Rightarrow> string \<Rightarrow> string \<Rightarrow> nat \<Rightarrow> family_record" where
  "new_family e sub i access refresh now =
     \<lparr>fam_id = i, fam_sub = sub, fam_endpoint = e,
      fam_access = \<lparr>tg_value = access, tg_expires_at = now + ACCESS_TTL_MS\<rparr>,
      fam_refresh = \<lparr>tg_value = refresh, tg_expires_at = now + REFRESH_TTL_MS\<rparr>,
      fam_retired = [], fam_tombstoned_at = None\<rparr>"

definition mint_family ::
  "endpoint \<Rightarrow> string \<Rightarrow> string \<Rightarrow> string \<Rightarrow> string \<Rightarrow> nat \<Rightarrow> auth_file \<Rightarrow> auth_file \<times> family_record" where
  "mint_family e sub i access refresh now file =
     (let r = new_family e sub i access refresh now in
      (file\<lparr>families := bt_entry [] e (bt_insert i r) (families file)\<rparr>, r))"

definition tombstone_credential :: "nat \<Rightarrow> credential_record \<Rightarrow> credential_record" where
  "tombstone_credential now r =
     (if cr_is_tombstoned r then r else r\<lparr>cr_tombstoned_at := Some now\<rparr>)"

definition tombstone_family :: "string \<Rightarrow> nat \<Rightarrow> family_record \<Rightarrow> family_record" where
  "tombstone_family sub now f =
     (if fam_sub f = sub \<and> \<not> fam_is_tombstoned f then f\<lparr>fam_tombstoned_at := Some now\<rparr> else f)"

definition tombstone_sub :: "string \<Rightarrow> nat \<Rightarrow> auth_file \<Rightarrow> auth_file \<times> (nat \<times> nat)" where
  "tombstone_sub sub now file =
     (file\<lparr>credentials := bt_map (bt_modify sub (bt_map (tombstone_credential now))) (credentials file),
           families := bt_map (bt_map (tombstone_family sub now)) (families file)\<rparr>,
      (length (filter (\<lambda>r. \<not> cr_is_tombstoned r)
         (concat (map (\<lambda>subs. case bt_get sub subs of None \<Rightarrow> [] | Some by_id \<Rightarrow> bt_values by_id)
            (bt_values (credentials file))))),
       length (filter (\<lambda>f. fam_sub f = sub \<and> \<not> fam_is_tombstoned f)
         (concat (map bt_values (bt_values (families file)))))))"

subsection \<open>Records of \<open>pending.json\<close>\<close>

datatype challenge_purpose = Assert | Register

record pending_registration =
  pr_jti :: string
  pr_sub :: string
  pr_user_id :: bytes
  pr_access :: access
  pr_hmac_secret :: bytes
  pr_code_hash :: string
  pr_code_attempts :: nat
  pr_issued_label :: "string option"
  pr_expires_at :: nat

record pending_challenge =
  pc_id :: string
  pc_endpoint :: endpoint
  pc_purpose :: challenge_purpose
  pc_jti :: "string option"
  pc_state :: bytes
  pc_expires_at :: nat

record pending_file =
  registrations :: "(endpoint, (string, pending_registration) btree) btree"
  challenges :: "(endpoint, (string, pending_challenge) btree) btree"

definition REGISTRATION_TTL_MS :: nat where "REGISTRATION_TTL_MS = 10 * 60 * 1000"
definition CODE_ATTEMPT_LIMIT :: nat where "CODE_ATTEMPT_LIMIT = 5"

datatype code_outcome = Accepted | Rejected (remaining: nat) | Burned

definition pr_is_live :: "nat \<Rightarrow> pending_registration \<Rightarrow> bool" where
  "pr_is_live now r \<longleftrightarrow> now < pr_expires_at r"

text \<open>\<open>code_attempts\<close> is a \<open>u32\<close> that saturates.\<close>

definition check_code ::
  "(bytes \<Rightarrow> bytes) \<Rightarrow> string \<Rightarrow> pending_registration \<Rightarrow> pending_registration \<times> code_outcome" where
  "check_code sha presented r =
     (if constant_time_eq (as_bytes (pr_code_hash r)) (as_bytes (sha256_hex sha (as_bytes presented)))
      then (r, Accepted)
      else
        let attempts = min (pr_code_attempts r + 1) (2 ^ 32 - 1);
            r = r\<lparr>pr_code_attempts := attempts\<rparr> in
        if attempts \<ge> CODE_ATTEMPT_LIMIT then (r, Burned)
        else (r, Rejected (CODE_ATTEMPT_LIMIT - attempts)))"

definition sweep_expired :: "nat \<Rightarrow> pending_file \<Rightarrow> pending_file" where
  "sweep_expired now p =
     p\<lparr>registrations := bt_retain (\<lambda>_ m. m \<noteq> [])
                         (bt_map (bt_retain (\<lambda>_ r. pr_is_live now r)) (registrations p)),
       challenges := bt_retain (\<lambda>_ m. m \<noteq> [])
                      (bt_map (bt_retain (\<lambda>_ c. now < pc_expires_at c)) (challenges p))\<rparr>"

definition challenge ::
  "endpoint \<Rightarrow> string \<Rightarrow> challenge_purpose \<Rightarrow> nat \<Rightarrow> pending_file \<Rightarrow> pending_challenge option" where
  "challenge e i purpose now p =
     (case bt_get e (challenges p) of
        None \<Rightarrow> None
      | Some by_id \<Rightarrow>
          (case bt_get i by_id of
             None \<Rightarrow> None
           | Some c \<Rightarrow>
               if pc_purpose c \<noteq> purpose \<or> now \<ge> pc_expires_at c \<or> pc_endpoint c \<noteq> e
               then None else Some c))"

definition consume_challenge ::
  "endpoint \<Rightarrow> string \<Rightarrow> challenge_purpose \<Rightarrow> nat \<Rightarrow> pending_file
   \<Rightarrow> pending_file \<times> pending_challenge option" where
  "consume_challenge e i purpose now p =
     (case challenge e i purpose now p of
        None \<Rightarrow> (p, None)
      | Some _ \<Rightarrow>
          (p\<lparr>challenges := bt_modify e (bt_remove i) (challenges p)\<rparr>,
           case bt_get e (challenges p) of None \<Rightarrow> None | Some by_id \<Rightarrow> bt_get i by_id))"

subsection \<open>State files\<close>

text \<open>
  One \<open>StateFile::update\<close>: lock, read, change, write beside, rename. The file system's answer
  to each of the three fallible parts is an argument; the content changes only when all three
  succeed, because the rename is the last step. The value the closure returned is handed on
  whether it is a success or a refusal, so a refusal may still have changed the file.
\<close>

datatype store_error = IoError | CorruptError | LockError

record update_io =
  io_lock :: "store_error option"
  io_read :: "store_error option"
  io_write :: "store_error option"

definition store_update ::
  "update_io \<Rightarrow> ('f \<Rightarrow> 'f \<times> 'r) \<Rightarrow> 'f \<Rightarrow> 'f \<times> (store_error + 'r)" where
  "store_update io mutate file =
     (case io_lock io of
        Some err \<Rightarrow> (file, Inl err)
      | None \<Rightarrow>
          (case io_read io of
             Some err \<Rightarrow> (file, Inl err)
           | None \<Rightarrow>
               let (file', outcome) = mutate file in
               (case io_write io of
                  Some err \<Rightarrow> (file, Inl err)
                | None \<Rightarrow> (file', Inr outcome))))"

subsection \<open>The timing-safe comparison is equality\<close>

lemma or_xor_fold:
  fixes d :: "8 word"
  assumes "length a = length b"
  shows "foldl (\<lambda>diff (x, y). or diff (xor x y)) d (zip a b) = 0 \<longleftrightarrow> d = 0 \<and> a = b"
  using assms
proof (induction a b arbitrary: d rule: list_induct2)
  case (Cons x xs y ys)
  have "or d (xor x y) = 0 \<longleftrightarrow> d = 0 \<and> x = y"
  proof -
    have "or d e = 0 \<longleftrightarrow> d = 0 \<and> e = 0" for e :: "8 word"
      by (auto simp: bit_eq_iff bit_simps)
    moreover have "xor x y = 0 \<longleftrightarrow> x = y"
      by (auto simp: bit_eq_iff bit_simps)
    ultimately show ?thesis by simp
  qed
  with Cons.IH [of "or d (xor x y)"] show ?case by auto
qed simp

lemma ct_eq_iff [simp]: "constant_time_eq a b \<longleftrightarrow> a = b"
  using or_xor_fold [of a b 0] by (auto simp: constant_time_eq_def)

lemma text_bytes_inj [simp]: "as_bytes s = as_bytes t \<longleftrightarrow> s = t"
proof -
  have "(of_char c :: byte) = of_char d \<longleftrightarrow> c = d" for c d
  proof
    assume "(of_char c :: byte) = of_char d"
    then have "unat (of_nat (of_char c) :: byte) = unat (of_nat (of_char d) :: byte)"
      by (simp only: of_nat_of_char)
    then have "(of_char c :: nat) mod 256 = of_char d mod 256"
      by (simp add: unat_of_nat)
    then show "c = d" by simp
  qed simp
  then show ?thesis unfolding as_bytes_def by (intro inj_map_eq_map injI) simp
qed

lemma sha256_hex_eq [simp]: "sha256_hex sha a = sha256_hex sha b \<longleftrightarrow> sha a = sha b"
  by (auto simp: sha256_hex_def dest: hex_bytes_inj)

subsection \<open>The history of a family\<close>

text \<open>A rotation brings a new refresh value, a new access value and the time. The superseded
  generations of a run of rotations, each with the time it was replaced, and the generation
  left current.\<close>

type_synonym rotation = "string \<times> string \<times> nat"

fun rotations :: "(bytes \<Rightarrow> bytes) \<Rightarrow> rotation list \<Rightarrow> family_record \<Rightarrow> family_record" where
  "rotations sha [] f = f"
| "rotations sha ((r, a, t) # rs) f = rotations sha rs (rotate_refresh sha r a t f)"

fun superseded :: "token_generation \<Rightarrow> rotation list \<Rightarrow> (token_generation \<times> nat) list" where
  "superseded g [] = []"
| "superseded g ((r, a, t) # rs) =
     (g, t) # superseded \<lparr>tg_value = r, tg_expires_at = t + REFRESH_TTL_MS\<rparr> rs"

fun left_current :: "token_generation \<Rightarrow> rotation list \<Rightarrow> token_generation" where
  "left_current g [] = g"
| "left_current g ((r, a, t) # rs) =
     left_current \<lparr>tg_value = r, tg_expires_at = t + REFRESH_TTL_MS\<rparr> rs"

abbreviation rotation_times :: "rotation list \<Rightarrow> nat list" where
  "rotation_times rs \<equiv> map (\<lambda>(_, _, t). t) rs"

definition retired_entry :: "(bytes \<Rightarrow> bytes) \<Rightarrow> token_generation \<times> nat \<Rightarrow> retired_refresh" where
  "retired_entry sha gt =
     \<lparr>rr_digest = sha256_hex sha (as_bytes (tg_value (fst gt))),
      rr_expires_at = tg_expires_at (fst gt), rr_retired_at = snd gt\<rparr>"

lemma rotations_append [simp]: "rotations sha (rs @ qs) f = rotations sha qs (rotations sha rs f)"
  by (induction sha rs f rule: rotations.induct) auto

lemma superseded_snoc:
  "superseded g (rs @ [(r, a, t)]) = superseded g rs @ [(left_current g rs, t)]"
  by (induction g rs rule: superseded.induct) auto

lemma left_current_snoc [simp]:
  "left_current g (rs @ [(r, a, t)]) = \<lparr>tg_value = r, tg_expires_at = t + REFRESH_TTL_MS\<rparr>"
  by (induction g rs rule: left_current.induct) auto

lemma fam_refresh_rotate [simp]:
  "fam_refresh (rotate_refresh sha r a t f) = \<lparr>tg_value = r, tg_expires_at = t + REFRESH_TTL_MS\<rparr>"
  by (simp add: rotate_refresh_def Let_def)

lemma fam_refresh_rotations:
  "fam_refresh (rotations sha rs f) = left_current (fam_refresh f) rs"
  by (induction sha rs f rule: rotations.induct) auto

lemma rr_expires_retired_entry [simp]: "rr_expires_at (retired_entry sha gt) = tg_expires_at (fst gt)"
  by (simp add: retired_entry_def)

lemma fam_retired_rotate:
  "fam_retired (rotate_refresh sha r a t f) =
     filter (\<lambda>e. t < rr_expires_at e) (fam_retired f @ [retired_entry sha (fam_refresh f, t)])"
  by (simp add: rotate_refresh_def Let_def retired_entry_def)

lemma rotate_unchanged [simp]:
  "fam_id (rotate_refresh sha r a t f) = fam_id f"
  "fam_sub (rotate_refresh sha r a t f) = fam_sub f"
  "fam_endpoint (rotate_refresh sha r a t f) = fam_endpoint f"
  "fam_tombstoned_at (rotate_refresh sha r a t f) = fam_tombstoned_at f"
  by (simp_all add: rotate_refresh_def Let_def)

lemma fam_retired_rotations:
  assumes "sorted (rotation_times rs)" "fam_retired f = []" "rs \<noteq> []"
  shows "fam_retired (rotations sha rs f) = map (retired_entry sha)
           (filter (\<lambda>gt. last (rotation_times rs) < tg_expires_at (fst gt)) (superseded (fam_refresh f) rs))"
  using assms
proof (induction rs rule: rev_induct)
  case (snoc x rs)
  obtain r a t where x: "x = (r, a, t)" by (cases x)
  let ?S = "superseded (fam_refresh f) rs"
  have "filter (\<lambda>e. t < rr_expires_at e) (fam_retired (rotations sha rs f)) =
        map (retired_entry sha) (filter (\<lambda>gt. t < tg_expires_at (fst gt)) ?S)"
  proof (cases "rs = []")
    case True
    with snoc.prems show ?thesis by simp
  next
    case False
    then have "last (rotation_times rs) \<le> t"
      using snoc.prems(1) x by (simp add: sorted_append last_map)
    then have keep: "filter (\<lambda>gt. last (rotation_times rs) < tg_expires_at (fst gt)
          \<and> t < tg_expires_at (fst gt)) ?S = filter (\<lambda>gt. t < tg_expires_at (fst gt)) ?S"
      by (intro filter_cong) auto
    have "fam_retired (rotations sha rs f) = map (retired_entry sha)
        (filter (\<lambda>gt. last (rotation_times rs) < tg_expires_at (fst gt)) ?S)"
      using snoc False by (simp add: sorted_append)
    then show ?thesis by (simp add: filter_map comp_def keep)
  qed
  then show ?case
    by (simp add: x fam_retired_rotate superseded_snoc fam_refresh_rotations)
qed simp

lemma set_superseded_values:
  "tg_value ` fst ` set (superseded g rs) \<union> {tg_value (left_current g rs)} =
   insert (tg_value g) (set (map fst rs))"
  by (induction g rs rule: superseded.induct) auto

lemma superseded_values:
  "map (tg_value \<circ> fst) (superseded g rs) @ [tg_value (left_current g rs)] = tg_value g # map fst rs"
  by (induction g rs rule: superseded.induct) auto

lemma superseded_Nil [simp]: "superseded g rs = [] \<longleftrightarrow> rs = []"
  by (cases rs) auto

lemma superseded_expiries_sorted:
  assumes "sorted (now # rotation_times rs)" "tg_expires_at g \<le> now + REFRESH_TTL_MS"
  shows "sorted (map (tg_expires_at \<circ> fst) (superseded g rs) @ [tg_expires_at (left_current g rs)])
       \<and> (\<forall>x \<in> set (superseded g rs). tg_expires_at g \<le> tg_expires_at (fst x))
       \<and> tg_expires_at g \<le> tg_expires_at (left_current g rs)"
  using assms
proof (induction rs arbitrary: g now)
  case (Cons x rs)
  obtain r a t where x: "x = (r, a, t)" by (cases x)
  let ?h = "\<lparr>tg_value = r, tg_expires_at = t + REFRESH_TTL_MS\<rparr>"
  have "sorted (t # rotation_times rs)" and le: "tg_expires_at g \<le> tg_expires_at ?h"
    using Cons.prems x by auto
  from Cons.IH [OF this(1), of ?h] le show ?case
    by (auto simp: x intro: order_trans)
qed simp

lemma classify_refresh_simp:
  "classify_refresh sha v now f =
     (if tg_value (fam_refresh f) = v then Current
      else if fam_retired f \<noteq> []
           \<and> rr_digest (last (fam_retired f)) = sha256_hex sha (as_bytes v)
           \<and> now - rr_retired_at (last (fam_retired f)) \<le> REFRESH_REPLAY_GRACE_MS then Replay
      else if sha256_hex sha (as_bytes v) \<in> rr_digest ` set (fam_retired f) then Reused
      else Unknown)"
proof -
  have "list_ex (\<lambda>r. rr_digest r = sha256_hex sha (as_bytes v)) (fam_retired f) \<longleftrightarrow>
        sha256_hex sha (as_bytes v) \<in> rr_digest ` set (fam_retired f)"
    by (force simp: list_ex_iff)
  then show ?thesis by (simp add: classify_refresh_def Let_def)
qed

lemma fam_refresh_new [simp]:
  "fam_refresh (new_family e sub i access refresh now) =
     \<lparr>tg_value = refresh, tg_expires_at = now + REFRESH_TTL_MS\<rparr>"
  "fam_retired (new_family e sub i access refresh now) = []"
  "fam_tombstoned_at (new_family e sub i access refresh now) = None"
  by (simp_all add: new_family_def)

lemma last_filter_sorted:
  assumes "sorted (map k xs)" "x \<in> set xs" "c < k x"
  shows "filter (\<lambda>x. c < k x) xs \<noteq> [] \<and> last (filter (\<lambda>x. c < k x) xs) = last xs"
  using assms
proof (induction xs rule: rev_induct)
  case (snoc y xs)
  then have "c < k y" by (auto simp: sorted_append)
  then show ?case by simp
qed simp

lemma rr_digest_retired_entry:
  "rr_digest (retired_entry sha x) = sha256_hex sha (as_bytes v) \<longleftrightarrow>
   sha (as_bytes (tg_value (fst x))) = sha (as_bytes v)"
  by (simp add: retired_entry_def)

lemma rr_retired_at_entry [simp]: "rr_retired_at (retired_entry sha x) = snd x"
  by (simp add: retired_entry_def)

text \<open>The verdict on a superseded and on a foreign value, for a family that retains the
  generations of its history \<open>S\<close> that were alive at its last rotation \<open>T\<close>.\<close>

lemma classify_superseded:
  assumes ret: "fam_retired f = map (retired_entry sha) (filter (\<lambda>gt. T < tg_expires_at (fst gt)) S)"
    and sorted: "sorted (map (tg_expires_at \<circ> fst) S)"
    and dist: "distinct (map (tg_value \<circ> fst) S)" "tg_value (fam_refresh f) \<notin> tg_value ` fst ` set S"
    and sha: "inj_on (\<lambda>v. sha (as_bytes v)) (tg_value ` fst ` set S)"
    and gt: "(g, t) \<in> set S" and live: "now < tg_expires_at g" and T: "T \<le> now"
  shows "classify_refresh sha (tg_value g) now f =
      (if (g, t) = last S \<and> now - t \<le> REFRESH_REPLAY_GRACE_MS then Replay else Reused)"
proof -
  let ?keep = "filter (\<lambda>gt. T < tg_expires_at (fst gt)) S"
  have k: "(g, t) \<in> set ?keep" using gt live T by simp
  have l: "?keep \<noteq> []" "last ?keep = last S" "last S \<in> set S"
    using last_filter_sorted [of "tg_expires_at \<circ> fst" S "(g, t)" T] sorted gt live T
    by (auto intro: last_in_set)
  have same: "sha (as_bytes (tg_value (fst x))) = sha (as_bytes (tg_value g)) \<longleftrightarrow> x = (g, t)"
    if "x \<in> set S" for x
    using inj_onD [OF sha, of "tg_value (fst x)" "tg_value g"] filter_cong_unique [OF dist(1) that gt]
      that gt by (metis comp_apply fst_conv image_eqI)
  have "tg_value (fam_refresh f) \<noteq> tg_value g" using dist(2) gt by force
  moreover have "sha256_hex sha (as_bytes (tg_value g)) \<in> rr_digest ` set (fam_retired f)"
    using k unfolding ret by (force simp: retired_entry_def)
  moreover have "fam_retired f \<noteq> []" "last (fam_retired f) = retired_entry sha (last S)"
    using l by (simp_all add: ret last_map)
  moreover have "rr_digest (retired_entry sha (last S)) = sha256_hex sha (as_bytes (tg_value g))
      \<longleftrightarrow> (g, t) = last S"
    using same [OF l(3)] rr_digest_retired_entry [of sha "last S" "tg_value g"] by metis
  ultimately show ?thesis
    by (cases "(g, t) = last S") (simp_all add: classify_refresh_simp, metis snd_conv)
qed

lemma classify_unissued:
  assumes ret: "fam_retired f = map (retired_entry sha) keep"
    and no: "\<forall>u \<in> insert (tg_value (fam_refresh f)) (tg_value ` fst ` set keep).
               sha (as_bytes u) \<noteq> sha (as_bytes v)"
  shows "classify_refresh sha v now f = Unknown"
proof -
  have "rr_digest r \<noteq> sha256_hex sha (as_bytes v)" if "r \<in> set (fam_retired f)" for r
    using that no unfolding ret by (auto simp: rr_digest_retired_entry)
  then have "sha256_hex sha (as_bytes v) \<notin> rr_digest ` set (fam_retired f)"
    "fam_retired f \<noteq> [] \<longrightarrow> rr_digest (last (fam_retired f)) \<noteq> sha256_hex sha (as_bytes v)"
    by (metis imageE, metis last_in_set)
  moreover have "tg_value (fam_refresh f) \<noteq> v" using no by auto
  ultimately show ?thesis
    by (cases "fam_retired f = []") (simp_all add: classify_refresh_simp)
qed

text \<open>Reuse detection. After any run of rotations in time order, a superseded refresh value
  that is presented before its own expiry is always recognised: it is a replay exactly when it
  is the value superseded last and at most 60 seconds have passed since then, and a reuse
  otherwise; the value left current is recognised as such, and a value that was never issued
  (and whose digest is that of no issued value) belongs to no generation.\<close>
theorem refresh_reuse_detected:
  assumes order: "sorted (now0 # rotation_times rs)" "last (now0 # rotation_times rs) \<le> now"
    and fresh: "distinct (refresh # map fst rs)"
    and sha: "inj_on (\<lambda>v. sha (as_bytes v)) (set (refresh # map fst rs))"
    and f: "f = rotations sha rs (new_family e sub i access refresh now0)"
    and S: "S = superseded \<lparr>tg_value = refresh, tg_expires_at = now0 + REFRESH_TTL_MS\<rparr> rs"
  shows "(\<forall>(g, t) \<in> set S. now < tg_expires_at g \<longrightarrow>
            classify_refresh sha (tg_value g) now f =
              (if (g, t) = last S \<and> now - t \<le> REFRESH_REPLAY_GRACE_MS then Replay else Reused))
       \<and> classify_refresh sha (tg_value (fam_refresh f)) now f = Current
       \<and> (\<forall>v. sha (as_bytes v) \<notin> (\<lambda>u. sha (as_bytes u)) ` set (refresh # map fst rs) \<longrightarrow>
            classify_refresh sha v now f = Unknown)"
proof (cases "rs = []")
  case True
  then show ?thesis by (auto simp: f S classify_refresh_simp)
next
  case False
  define g0 where "g0 = \<lparr>tg_value = refresh, tg_expires_at = now0 + REFRESH_TTL_MS\<rparr>"
  let ?T = "last (rotation_times rs)"
  have ret: "fam_retired f = map (retired_entry sha) (filter (\<lambda>gt. ?T < tg_expires_at (fst gt)) S)"
    using fam_retired_rotations [of rs "new_family e sub i access refresh now0" sha] order(1) False
    by (simp add: f S)
  have vals: "map (tg_value \<circ> fst) S @ [tg_value (fam_refresh f)] = refresh # map fst rs"
    using superseded_values [of g0 rs] by (simp add: S f fam_refresh_rotations g0_def)
  have issued: "set (refresh # map fst rs) = insert (tg_value (fam_refresh f)) (tg_value ` fst ` set S)"
    unfolding vals [symmetric] by auto
  have "distinct (map (tg_value \<circ> fst) S)" "tg_value (fam_refresh f) \<notin> tg_value ` fst ` set S"
    using fresh unfolding vals [symmetric] by auto
  moreover have "sorted (map (tg_expires_at \<circ> fst) S)"
    using superseded_expiries_sorted [OF order(1), of g0] by (simp add: S g0_def sorted_append)
  moreover have "inj_on (\<lambda>v. sha (as_bytes v)) (tg_value ` fst ` set S)"
    using sha unfolding issued by (rule inj_on_subset) auto
  moreover have "?T \<le> now" using order(2) False by simp
  moreover have "\<forall>v. sha (as_bytes v) \<notin> (\<lambda>u. sha (as_bytes u)) ` set (refresh # map fst rs) \<longrightarrow>
      classify_refresh sha v now f = Unknown"
    unfolding issued by (intro allI impI classify_unissued [OF ret]) (auto simp: image_iff)
  moreover have "classify_refresh sha (tg_value (fam_refresh f)) now f = Current"
    by (simp add: classify_refresh_simp)
  ultimately show ?thesis using classify_superseded [OF ret] by blast
qed

theorem refresh_reuse_detected_witness:
  "classify_refresh id ''r0'' 200000 (rotations id [(''r1'', ''a1'', 1000), (''r2'', ''a2'', 190000)]
     (new_family (Endpoint ''https://h/'') ''me'' ''f'' ''a0'' ''r0'' 0)) = Reused
 \<and> classify_refresh id ''r1'' 200000 (rotations id [(''r1'', ''a1'', 1000), (''r2'', ''a2'', 190000)]
     (new_family (Endpoint ''https://h/'') ''me'' ''f'' ''a0'' ''r0'' 0)) = Replay"
  using refresh_reuse_detected [of 0 "[(''r1'', ''a1'', 1000), (''r2'', ''a2'', 190000)]" 200000
      "''r0''" id _ "Endpoint ''https://h/''" "''me''" "''f''" "''a0''", OF _ _ _ _ refl refl]
  by (simp add: REFRESH_TTL_MS_def REFRESH_REPLAY_GRACE_MS_def inj_on_def)

end
