(* ===== verification/AuthToken.thy ===== *)
theory AuthToken
  imports AuthRecord
begin

text \<open>
  The registration token and the refresh cookie (\<open>hyoui-web/src/auth/token.rs\<close>).

  SHA-256, HMAC, base64url and the JSON reader and writer are third-party code: they are the
  fields of the record \<open>primitives\<close>, an argument of every function that uses them. What the
  theorems rely on is the predicate \<open>primitives_ok\<close>: base64url decodes what it encoded and its
  alphabet has no full stop, and JSON reads back the header; that JSON reads back the claims is
  a hypothesis of its own, stated for the claims at hand.
\<close>

subsection \<open>Third-party primitives\<close>

record registration_claims =
  cl_sub :: string
  cl_endpoint :: endpoint
  cl_rp_id :: string
  cl_user_id :: string
  cl_access :: access
  cl_exp :: nat
  cl_jti :: string

record primitives =
  sha256 :: "bytes \<Rightarrow> bytes"
  hmac_sha256 :: "bytes \<Rightarrow> bytes \<Rightarrow> bytes"
  base64url :: "bytes \<Rightarrow> string"
  base64url_decode :: "string \<Rightarrow> bytes option"
  claims_to_json :: "registration_claims \<Rightarrow> bytes"
  claims_of_json :: "bytes \<Rightarrow> registration_claims option"
  header_alg_of_json :: "bytes \<Rightarrow> string option"

definition quoted :: "string \<Rightarrow> string" where
  "quoted s = [CHR 0x22] @ s @ [CHR 0x22]"

definition jwt_header :: string where
  "jwt_header = ''{'' @ quoted ''alg'' @ '':'' @ quoted ''HS256'' @ '',''
                    @ quoted ''typ'' @ '':'' @ quoted ''JWT'' @ ''}''"

definition primitives_ok :: "primitives \<Rightarrow> bool" where
  "primitives_ok pr \<longleftrightarrow>
     (\<forall>bs. base64url_decode pr (base64url pr bs) = Some bs)
   \<and> (\<forall>bs. CHR ''.'' \<notin> set (base64url pr bs))
   \<and> header_alg_of_json pr (as_bytes jwt_header) = Some ''HS256''"

subsection \<open>Refresh cookie\<close>

definition cookie_name :: "primitives \<Rightarrow> endpoint \<Rightarrow> string" where
  "cookie_name pr e = ''__Secure-hyoui-'' @ take 16 (sha256_hex (sha256 pr) (as_bytes (as_str e)))"

definition set_cookie :: "primitives \<Rightarrow> endpoint \<Rightarrow> string \<Rightarrow> nat \<Rightarrow> string" where
  "set_cookie pr e refresh max_age =
     cookie_name pr e @ ''='' @ refresh @ ''; Max-Age='' @ decimal max_age @ ''; Path=''
     @ endpoint_cookie_path e @ ''; HttpOnly; Secure; SameSite=Strict''"

definition clear_cookie :: "primitives \<Rightarrow> endpoint \<Rightarrow> string" where
  "clear_cookie pr e =
     cookie_name pr e @ ''=; Max-Age=0; Path='' @ endpoint_cookie_path e
     @ ''; HttpOnly; Secure; SameSite=Strict''"

definition cookie_pair :: "string \<Rightarrow> string \<Rightarrow> string option" where
  "cookie_pair name pair =
     (case split_once ''='' pair of
        None \<Rightarrow> None
      | Some (key, val) \<Rightarrow> if trim key = name then Some (trim val) else None)"

fun find_map :: "('a \<Rightarrow> 'b option) \<Rightarrow> 'a list \<Rightarrow> 'b option" where
  "find_map f [] = None"
| "find_map f (x # xs) = (case f x of Some y \<Rightarrow> Some y | None \<Rightarrow> find_map f xs)"

definition refresh_from_cookie_header :: "primitives \<Rightarrow> string \<Rightarrow> endpoint \<Rightarrow> string option" where
  "refresh_from_cookie_header pr header e =
     find_map (cookie_pair (cookie_name pr e)) (split_on CHR '';'' header)"

subsection \<open>Registration token\<close>

datatype jwt_error = JwtMalformed | JwtUnexpectedAlgorithm | JwtBadSignature | JwtExpired

definition encode_registration :: "primitives \<Rightarrow> registration_claims \<Rightarrow> bytes \<Rightarrow> string" where
  "encode_registration pr claims secret =
     (let header = base64url pr (as_bytes jwt_header);
          payload = base64url pr (claims_to_json pr claims);
          signing_input = header @ ''.'' @ payload;
          signature = base64url pr (hmac_sha256 pr secret (as_bytes signing_input)) in
      signing_input @ ''.'' @ signature)"

definition decode_segment :: "primitives \<Rightarrow> string \<Rightarrow> jwt_error + bytes" where
  "decode_segment pr s = (case base64url_decode pr s of None \<Rightarrow> Inl JwtMalformed | Some bs \<Rightarrow> Inr bs)"

definition decode_payload :: "primitives \<Rightarrow> string \<Rightarrow> jwt_error + registration_claims" where
  "decode_payload pr jwt =
     (case split_on CHR ''.'' jwt of
        [_, payload, _] \<Rightarrow>
          (case decode_segment pr payload of
             Inl e \<Rightarrow> Inl e
           | Inr bs \<Rightarrow> (case claims_of_json pr bs of None \<Rightarrow> Inl JwtMalformed | Some c \<Rightarrow> Inr c))
      | _ \<Rightarrow> Inl JwtMalformed)"

definition peek_jti :: "primitives \<Rightarrow> string \<Rightarrow> jwt_error + string" where
  "peek_jti pr jwt = (case decode_payload pr jwt of Inl e \<Rightarrow> Inl e | Inr c \<Rightarrow> Inr (cl_jti c))"

definition verify_registration ::
  "primitives \<Rightarrow> string \<Rightarrow> bytes \<Rightarrow> nat \<Rightarrow> jwt_error + registration_claims" where
  "verify_registration pr jwt secret now =
     (case rsplit_once CHR ''.'' jwt of
        None \<Rightarrow> Inl JwtMalformed
      | Some (signing_input, signature) \<Rightarrow>
          (case decode_segment pr (hd (split_on CHR ''.'' signing_input)) of
             Inl e \<Rightarrow> Inl e
           | Inr header \<Rightarrow>
               (case header_alg_of_json pr header of
                  None \<Rightarrow> Inl JwtMalformed
                | Some alg \<Rightarrow>
                    if alg \<noteq> ''HS256'' then Inl JwtUnexpectedAlgorithm
                    else
                      let expected = base64url pr (hmac_sha256 pr secret (as_bytes signing_input)) in
                      if \<not> constant_time_eq (as_bytes expected) (as_bytes signature)
                      then Inl JwtBadSignature
                      else
                        (case decode_payload pr jwt of
                           Inl e \<Rightarrow> Inl e
                         | Inr claims \<Rightarrow>
                             if min (cl_exp claims * 1000) (2 ^ 64 - 1) \<le> now
                             then Inl JwtExpired else Inr claims))))"

subsection \<open>Lemmas\<close>

lemma split_on_no_sep: "d \<notin> set s \<Longrightarrow> split_on d s = [s]"
  by (induction s) auto

lemma split_on_append: "d \<notin> set a \<Longrightarrow> split_on d (a @ d # b) = a # split_on d b"
  by (induction a) auto

lemma concat_split_on:
  "split_on d s = xs \<Longrightarrow> (\<forall>x \<in> set xs. d \<notin> set x)"
  by (induction s arbitrary: xs) (auto split: if_splits simp: list.set_sel dest: in_set_dropD)

text \<open>C25. A registration token the command line encoded is accepted by every gateway that holds
  the same secret until it expires, and gives back the claims it was made of. Conversely a
  token is accepted only if its last segment is the HMAC, under that secret, of everything
  before it, and only until the expiry its own claims state.\<close>
theorem registration_token_sound:
  assumes "primitives_ok pr" and json: "claims_of_json pr (claims_to_json pr claims) = Some claims"
  shows "verify_registration pr (encode_registration pr claims secret) secret now =
           (if min (cl_exp claims * 1000) (2 ^ 64 - 1) \<le> now then Inl JwtExpired else Inr claims)
       \<and> peek_jti pr (encode_registration pr claims secret) = Inr (cl_jti claims)
       \<and> (verify_registration pr jwt secret now = Inr c \<longrightarrow>
            (\<exists>signing_input. jwt = signing_input @ ''.''
                @ base64url pr (hmac_sha256 pr secret (as_bytes signing_input)))
          \<and> now < cl_exp c * 1000)"
proof -
  let ?h = "base64url pr (as_bytes jwt_header)" and ?p = "base64url pr (claims_to_json pr claims)"
  let ?si = "?h @ ''.'' @ ?p"
  let ?sig = "base64url pr (hmac_sha256 pr secret (as_bytes ?si))"
  have no: "CHR ''.'' \<notin> set (base64url pr bs)"
      and rt: "base64url_decode pr (base64url pr bs) = Some bs" for bs
    using assms by (auto simp: primitives_ok_def)
  have enc: "encode_registration pr claims secret = ?si @ CHR ''.'' # ?sig"
    by (simp add: encode_registration_def Let_def)
  have r: "rsplit_once CHR ''.'' (?si @ CHR ''.'' # ?sig) = Some (?si, ?sig)"
    by (simp only: rsplit_once_char) (simp add: no)
  have s: "split_on CHR ''.'' (?si @ CHR ''.'' # ?sig) = [?h, ?p, ?sig]"
    "hd (split_on CHR ''.'' ?si) = ?h"
    by (simp_all add: split_on_append split_on_no_sep no)
  have pl: "decode_payload pr (encode_registration pr claims secret) = Inr claims"
    using json unfolding enc decode_payload_def s(1)
    by (simp add: decode_segment_def rt)
  have "verify_registration pr (encode_registration pr claims secret) secret now =
      (if min (cl_exp claims * 1000) (2 ^ 64 - 1) \<le> now then Inl JwtExpired else Inr claims)"
    using assms pl unfolding enc verify_registration_def r
    by (simp add: s(2) [simplified] decode_segment_def rt primitives_ok_def)
  moreover have "peek_jti pr (encode_registration pr claims secret) = Inr (cl_jti claims)"
    by (simp add: peek_jti_def pl)
  moreover have "(\<exists>si. jwt = si @ ''.'' @ base64url pr (hmac_sha256 pr secret (as_bytes si)))
      \<and> now < cl_exp c * 1000" if "verify_registration pr jwt secret now = Inr c"
    using that unfolding verify_registration_def
    by (auto simp: Let_def rsplit_once_char split: option.splits sum.splits if_splits)
  ultimately show ?thesis by blast
qed

text \<open>Concrete primitives for the witnesses: hexadecimal for base64url, key and message side by
  side for the HMAC, and one JSON text.\<close>

definition unhex_digit :: "char \<Rightarrow> nat option" where
  "unhex_digit c = find (\<lambda>n. hex_digit n = c) [0..<16]"

fun unhex :: "string \<Rightarrow> bytes option" where
  "unhex [] = Some []"
| "unhex (c # d # s) =
     (case (unhex_digit c, unhex_digit d, unhex s) of
        (Some m, Some n, Some bs) \<Rightarrow> Some (of_nat (16 * m + n) # bs)
      | _ \<Rightarrow> None)"
| "unhex [c] = None"

lemma unhex_digit_hex: "n < 16 \<Longrightarrow> unhex_digit (hex_digit n) = Some n"
proof -
  assume n: "n < 16"
  then obtain m where "unhex_digit (hex_digit n) = Some m"
    by (cases "unhex_digit (hex_digit n)") (auto simp: unhex_digit_def find_None_iff)
  moreover from this have "m < 16" "hex_digit m = hex_digit n"
    by (auto simp: unhex_digit_def find_Some_iff)
  ultimately show ?thesis using hex_digit_inj n by metis
qed

lemma unhex_hex: "unhex (concat (map hex_byte bs)) = Some bs"
proof (induction bs)
  case (Cons b bs)
  have lt: "unat b < 256" using unsigned_less [of b, where ?'a = nat] by simp
  then have "unhex_digit (hex_digit (unat b div 16)) = Some (unat b div 16)"
    "unhex_digit (hex_digit (unat b mod 16)) = Some (unat b mod 16)"
    by (auto intro!: unhex_digit_hex)
  with Cons show ?case by (simp add: hex_byte_def)
qed simp

lemma dot_not_hex: "CHR ''.'' \<notin> set ''0123456789abcdef''"
  by simp

lemma hex_byte_no_stop: "CHR ''.'' \<notin> set (hex_byte b)"
proof -
  have "''0123456789abcdef'' ! (n mod 16) \<in> set ''0123456789abcdef''" for n :: nat
    by (rule nth_mem) simp
  then have "hex_digit n \<noteq> CHR ''.''" for n
    unfolding hex_digit_def by (metis (full_types) dot_not_hex)
  then show ?thesis by (auto simp: hex_byte_def eq_commute [of "CHR ''.''"])
qed

definition example_primitives :: "registration_claims \<Rightarrow> primitives" where
  "example_primitives c =
     \<lparr>sha256 = id, hmac_sha256 = (\<lambda>k m. k @ m), base64url = (\<lambda>bs. concat (map hex_byte bs)),
      base64url_decode = unhex, claims_to_json = (\<lambda>_. [1]), claims_of_json = (\<lambda>_. Some c),
      header_alg_of_json = (\<lambda>_. Some ''HS256'')\<rparr>"

lemma example_primitives_ok: "primitives_ok (example_primitives c)"
  by (simp add: primitives_ok_def example_primitives_def unhex_hex hex_byte_no_stop)

definition example_claims :: registration_claims where
  "example_claims = \<lparr>cl_sub = ''h-1'', cl_endpoint = Endpoint ''https://h/'', cl_rp_id = ''h'',
     cl_user_id = ''0a'', cl_access = AccessRw, cl_exp = 600, cl_jti = ''j''\<rparr>"

theorem registration_token_sound_witness:
  "verify_registration (example_primitives example_claims)
     (encode_registration (example_primitives example_claims) example_claims [7]) [7] 599999
   = Inr example_claims"
  using registration_token_sound [of "example_primitives example_claims" example_claims "[7]" 599999,
      OF example_primitives_ok]
  by (simp add: example_primitives_def example_claims_def)

end
