(* ===== verification/AuthRoutes.thy ===== *)
theory AuthRoutes
  imports AuthToken
begin

text \<open>
  The four \<open>/auth\<close> routes, the guard of \<open>/api\<close> and of the WebSocket upgrade, and the
  authentication of an open WebSocket (\<open>hyoui-web/src/auth/routes.rs\<close>, \<open>webauthn.rs\<close>,
  \<open>ws.rs\<close>), with the commands of the command line that write the same two files
  (\<open>hyoui-cli/src/web_passkey.rs\<close>).

  Every gateway process and every command works on the same files, and each access to a file
  is one locked update, so a request is the sequence of its updates and requests interleave
  between them. The step relation \<open>web_step\<close> has one rule per update. The WebAuthn library and
  the URL parser are third-party code: they are the fields of \<open>webauthn\<close>. Random values and
  the time are arguments. Reasons that only reach the log are left out of the failures.
\<close>

subsection \<open>Requests and failures\<close>

datatype auth_failure = Bad | Denied | Revoked | ReusedFailure | Internal

record challenge_request =
  cq_endpoint :: endpoint
  cq_purpose :: challenge_purpose
  cq_jwt :: "string option"

record register_request =
  gq_endpoint :: endpoint
  gq_jwt :: string
  gq_code :: string
  gq_challenge_id :: string
  gq_credential :: bytes
  gq_device_label :: "string option"

record assert_request =
  aq_endpoint :: endpoint
  aq_challenge_id :: string
  aq_credential :: bytes

datatype json_member = JsonBool bool | JsonOther

record create_response =
  xr_client_data :: bytes
  xr_rest :: bytes

record get_response =
  ger_raw_id :: bytes
  ger_user_handle :: "bytes option"
  ger_rest :: bytes

text \<open>The WebAuthn library and the JSON and URL parsers, as the gateway calls them.\<close>

record webauthn =
  wa_usable :: "endpoint \<Rightarrow> bool"
  wa_start_registration :: "endpoint \<Rightarrow> bytes \<Rightarrow> string \<Rightarrow> (bytes \<times> bytes) option"
  wa_start_authentication :: "endpoint \<Rightarrow> webauthn_credential list \<Rightarrow> (bytes \<times> bytes) option"
  wa_register_credential :: "endpoint \<Rightarrow> create_response \<Rightarrow> bytes \<Rightarrow> webauthn_credential option"
  wa_authenticate_credential :: "endpoint \<Rightarrow> get_response \<Rightarrow> bytes \<Rightarrow> authentication_result option"
  wa_state_readable :: "bytes \<Rightarrow> bool"
  wa_create_of_json :: "bytes \<Rightarrow> create_response option"
  wa_get_of_json :: "bytes \<Rightarrow> get_response option"
  wa_client_data_object :: "bytes \<Rightarrow> (string \<times> json_member) list option"

definition CHALLENGE_TTL_MS :: nat where "CHALLENGE_TTL_MS = 10 * 60 * 1000"

subsection \<open>Relying party\<close>

datatype webauthn_failure = UnusableEndpoint | WebauthnRejected | CrossOriginRegistration | UserHandleMismatch

definition client_data_says_embedded :: "webauthn \<Rightarrow> bytes \<Rightarrow> bool" where
  "client_data_says_embedded wa data =
     (case wa_client_data_object wa data of
        None \<Rightarrow> False
      | Some members \<Rightarrow>
          map_of members ''topOrigin'' \<noteq> None \<or> map_of members ''crossOrigin'' = Some (JsonBool True))"

definition finish_registration ::
  "webauthn \<Rightarrow> endpoint \<Rightarrow> create_response \<Rightarrow> bytes \<Rightarrow> webauthn_failure + webauthn_credential" where
  "finish_registration wa e response state =
     (if client_data_says_embedded wa (xr_client_data response) then Inl CrossOriginRegistration
      else case wa_register_credential wa e response state of
             None \<Rightarrow> Inl WebauthnRejected
           | Some c \<Rightarrow> Inr c)"

definition finish_authentication ::
  "webauthn \<Rightarrow> endpoint \<Rightarrow> get_response \<Rightarrow> bytes \<Rightarrow> bytes \<Rightarrow> webauthn_failure + authentication_result" where
  "finish_authentication wa e response state expected_user_id =
     (case ger_user_handle response of
        None \<Rightarrow> Inl UserHandleMismatch
      | Some presented \<Rightarrow>
          if \<not> constant_time_eq presented expected_user_id then Inl UserHandleMismatch
          else case wa_authenticate_credential wa e response state of
                 None \<Rightarrow> Inl WebauthnRejected
               | Some result \<Rightarrow> Inr result)"

subsection \<open>Sessions\<close>

record minted_session =
  ms_endpoint :: endpoint
  ms_sub :: string
  ms_access :: string
  ms_access_expires_at :: nat
  ms_refresh :: string

definition session_of_family :: "family_record \<Rightarrow> minted_session" where
  "session_of_family f =
     \<lparr>ms_endpoint = fam_endpoint f, ms_sub = fam_sub f, ms_access = tg_value (fam_access f),
      ms_access_expires_at = tg_expires_at (fam_access f), ms_refresh = tg_value (fam_refresh f)\<rparr>"

text \<open>The three random tokens of a new family: its id, its access and its refresh value.\<close>

type_synonym fresh_tokens = "string \<times> string \<times> string"

definition mint ::
  "endpoint \<Rightarrow> string \<Rightarrow> fresh_tokens \<Rightarrow> nat \<Rightarrow> auth_file \<Rightarrow> auth_file \<times> minted_session" where
  "mint e sub fresh now file =
     (case fresh of (i, access, refresh) \<Rightarrow>
        let (file, f) = mint_family e sub i access refresh now file in
        (file, session_of_family f))"

subsection \<open>\<open>POST /auth/challenge\<close>\<close>

text \<open>The options and the state of a new challenge, and the registration it is bound to.\<close>

definition prepare_challenge ::
  "primitives \<Rightarrow> webauthn \<Rightarrow> nat \<Rightarrow> challenge_request \<Rightarrow> (store_error + auth_file)
   \<Rightarrow> (store_error + pending_file) \<Rightarrow> auth_failure + (bytes \<times> bytes \<times> string option)" where
  "prepare_challenge pr wa now q auth pending =
     (case cq_purpose q of
        Assert \<Rightarrow>
          (case auth of
             Inl _ \<Rightarrow> Inl Internal
           | Inr file \<Rightarrow>
               let creds = map cr_credential (live_credentials (cq_endpoint q) file) in
               if creds = [] then Inl Denied
               else case wa_start_authentication wa (cq_endpoint q) creds of
                      None \<Rightarrow> Inl Denied
                    | Some (options, state) \<Rightarrow> Inr (options, state, None))
      | Register \<Rightarrow>
          (case cq_jwt q of
             None \<Rightarrow> Inl Denied
           | Some jwt \<Rightarrow>
               (case pending of
                  Inl _ \<Rightarrow> Inl Internal
                | Inr p \<Rightarrow>
                    (case peek_jti pr jwt of
                       Inl _ \<Rightarrow> Inl Denied
                     | Inr jti \<Rightarrow>
                         (case bt_get (cq_endpoint q) (registrations p) of
                            None \<Rightarrow> Inl Denied
                          | Some by_jti \<Rightarrow>
                              (case bt_get jti by_jti of
                                 None \<Rightarrow> Inl Denied
                               | Some r \<Rightarrow>
                                   if \<not> pr_is_live now r then Inl Denied
                                   else case verify_registration pr jwt (pr_hmac_secret r) now of
                                          Inl _ \<Rightarrow> Inl Denied
                                        | Inr claims \<Rightarrow>
                                            if cl_endpoint claims \<noteq> cq_endpoint q then Inl Denied
                                            else case wa_start_registration wa (cq_endpoint q)
                                                        (pr_user_id r) (pr_sub r) of
                                                   None \<Rightarrow> Inl Denied
                                                 | Some (options, state) \<Rightarrow>
                                                     Inr (options, state, Some jti)))))))"

definition issue_challenge :: "nat \<Rightarrow> pending_challenge \<Rightarrow> pending_file \<Rightarrow> pending_file" where
  "issue_challenge now c p =
     (let p = sweep_expired now p in
      p\<lparr>challenges := bt_entry [] (pc_endpoint c) (bt_insert (pc_id c) c) (challenges p)\<rparr>)"

definition new_challenge ::
  "string \<Rightarrow> challenge_request \<Rightarrow> string option \<Rightarrow> bytes \<Rightarrow> nat \<Rightarrow> pending_challenge" where
  "new_challenge cid q jti state now =
     \<lparr>pc_id = cid, pc_endpoint = cq_endpoint q, pc_purpose = cq_purpose q, pc_jti = jti,
      pc_state = state, pc_expires_at = now + CHALLENGE_TTL_MS\<rparr>"

definition challenge_blocking ::
  "primitives \<Rightarrow> webauthn \<Rightarrow> update_io \<Rightarrow> nat \<Rightarrow> string \<Rightarrow> challenge_request
   \<Rightarrow> (store_error + auth_file) \<Rightarrow> (store_error + pending_file) \<Rightarrow> pending_file
   \<Rightarrow> pending_file \<times> (auth_failure + string \<times> endpoint \<times> bytes)" where
  "challenge_blocking pr wa io now cid q auth_read pending_read p =
     (if \<not> wa_usable wa (cq_endpoint q) then (p, Inl Bad)
      else case prepare_challenge pr wa now q auth_read pending_read of
             Inl err \<Rightarrow> (p, Inl err)
           | Inr (options, state, jti) \<Rightarrow>
               (case store_update io (\<lambda>p. (issue_challenge now (new_challenge cid q jti state now) p, ())) p of
                  (p, Inl _) \<Rightarrow> (p, Inl Internal)
                | (p, Inr _) \<Rightarrow> (p, Inr (cid, cq_endpoint q, options))))"

subsection \<open>\<open>POST /auth/register\<close>\<close>

record accepted_registration =
  ac_sub :: string
  ac_user_id :: bytes
  ac_access :: access
  ac_issued_label :: "string option"
  ac_jti :: string
  ac_state :: bytes

text \<open>Step 1, under the lock of \<open>pending.json\<close>: the token, the code, the challenge.\<close>

definition with_registrations ::
  "endpoint \<Rightarrow> ((string, pending_registration) btree \<Rightarrow> (string, pending_registration) btree)
   \<Rightarrow> pending_file \<Rightarrow> pending_file" where
  "with_registrations e f p = p\<lparr>registrations := bt_modify e f (registrations p)\<rparr>"

definition accept_challenge ::
  "webauthn \<Rightarrow> nat \<Rightarrow> register_request \<Rightarrow> string \<Rightarrow> pending_registration \<Rightarrow> pending_file
   \<Rightarrow> auth_failure + accepted_registration" where
  "accept_challenge wa now q jti r p =
     (case challenge (gq_endpoint q) (gq_challenge_id q) Register now p of
        None \<Rightarrow> Inl Denied
      | Some c \<Rightarrow>
          if pc_jti c \<noteq> Some jti then Inl Denied
          else if \<not> wa_state_readable wa (pc_state c) then Inl Denied
          else Inr \<lparr>ac_sub = pr_sub r, ac_user_id = pr_user_id r, ac_access = pr_access r,
                    ac_issued_label = pr_issued_label r, ac_jti = jti, ac_state = pc_state c\<rparr>)"

text \<open>The registration whose code the request gets to try: live, and the token is its own.\<close>

definition registration_for ::
  "primitives \<Rightarrow> nat \<Rightarrow> register_request \<Rightarrow> string \<Rightarrow> pending_file \<Rightarrow> pending_registration option" where
  "registration_for pr now q jti p =
     (case bt_get (gq_endpoint q) (registrations p) of
        None \<Rightarrow> None
      | Some by_jti \<Rightarrow>
          (case bt_get jti by_jti of
             None \<Rightarrow> None
           | Some r \<Rightarrow>
               if \<not> pr_is_live now r then None
               else case verify_registration pr (gq_jwt q) (pr_hmac_secret r) now of
                      Inl _ \<Rightarrow> None
                    | Inr claims \<Rightarrow> if cl_endpoint claims \<noteq> gq_endpoint q then None else Some r))"

definition register_check ::
  "primitives \<Rightarrow> webauthn \<Rightarrow> nat \<Rightarrow> register_request \<Rightarrow> string \<Rightarrow> pending_file
   \<Rightarrow> pending_file \<times> (auth_failure + accepted_registration)" where
  "register_check pr wa now q jti p =
     (let p = sweep_expired now p in
      case registration_for pr now q jti p of
        None \<Rightarrow> (p, Inl Denied)
      | Some r \<Rightarrow>
          let (r, outcome) = check_code (sha256 pr) (gq_code q) r;
              p = with_registrations (gq_endpoint q) (bt_modify jti (\<lambda>_. r)) p in
          (case outcome of
             Accepted \<Rightarrow> (p, accept_challenge wa now q jti r p)
           | Rejected _ \<Rightarrow> (p, Inl Denied)
           | Burned \<Rightarrow> (with_registrations (gq_endpoint q) (bt_remove jti) p, Inl Denied)))"

text \<open>Step 2, outside every lock.\<close>

definition register_verify ::
  "webauthn \<Rightarrow> register_request \<Rightarrow> accepted_registration \<Rightarrow> auth_failure + webauthn_credential" where
  "register_verify wa q acc =
     (case wa_create_of_json wa (gq_credential q) of
        None \<Rightarrow> Inl Denied
      | Some response \<Rightarrow>
          (case finish_registration wa (gq_endpoint q) response (ac_state acc) of
             Inl _ \<Rightarrow> Inl Denied
           | Inr c \<Rightarrow> Inr c))"

text \<open>Step 3, under the lock of \<open>auth.json\<close>.\<close>

definition registered_credential ::
  "register_request \<Rightarrow> accepted_registration \<Rightarrow> webauthn_credential \<Rightarrow> nat \<Rightarrow> string option
   \<Rightarrow> credential_record" where
  "registered_credential q acc c now agent =
     \<lparr>cr_sub = ac_sub acc, cr_user_id = ac_user_id acc, cr_access = ac_access acc,
      cr_credential = c, cr_sign_count = cred_counter c,
      cr_backup_eligible = cred_backup_eligible c, cr_backup_state = cred_backup_state c,
      cr_issued_label = ac_issued_label acc, cr_device_label = gq_device_label q,
      cr_registered_at = now, cr_registered_user_agent = agent,
      cr_last_used_at = None, cr_last_used_user_agent = None, cr_tombstoned_at = None\<rparr>"

definition register_store ::
  "primitives \<Rightarrow> register_request \<Rightarrow> accepted_registration \<Rightarrow> webauthn_credential \<Rightarrow> nat
   \<Rightarrow> string option \<Rightarrow> fresh_tokens \<Rightarrow> auth_file \<Rightarrow> auth_file \<times> minted_session" where
  "register_store pr q acc c now agent fresh file =
     mint (gq_endpoint q) (ac_sub acc) fresh now
       (insert_credential (base64url pr) (gq_endpoint q) (registered_credential q acc c now agent) file)"

text \<open>Step 4, under the lock of \<open>pending.json\<close> again.\<close>

definition register_consume ::
  "nat \<Rightarrow> register_request \<Rightarrow> accepted_registration \<Rightarrow> pending_file \<Rightarrow> pending_file" where
  "register_consume now q acc p =
     (let p = with_registrations (gq_endpoint q) (bt_remove (ac_jti acc)) p;
          (p, _) = consume_challenge (gq_endpoint q) (gq_challenge_id q) Register now p in
      sweep_expired now p)"

text \<open>The files every process shares, and the whole request when nothing runs in between.\<close>

record web_files =
  wf_auth :: auth_file
  wf_pending :: pending_file

definition register_blocking ::
  "primitives \<Rightarrow> webauthn \<Rightarrow> update_io \<Rightarrow> update_io \<Rightarrow> update_io \<Rightarrow> nat \<Rightarrow> register_request
   \<Rightarrow> string option \<Rightarrow> fresh_tokens \<Rightarrow> web_files \<Rightarrow> web_files \<times> (auth_failure + minted_session)" where
  "register_blocking pr wa io1 io3 io4 now q agent fresh w =
     (if \<not> wa_usable wa (gq_endpoint q) then (w, Inl Bad)
      else case peek_jti pr (gq_jwt q) of
        Inl _ \<Rightarrow> (w, Inl Denied)
      | Inr jti \<Rightarrow>
          (case store_update io1 (register_check pr wa now q jti) (wf_pending w) of
             (p, Inl _) \<Rightarrow> (w\<lparr>wf_pending := p\<rparr>, Inl Internal)
           | (p, Inr (Inl err)) \<Rightarrow> (w\<lparr>wf_pending := p\<rparr>, Inl err)
           | (p, Inr (Inr acc)) \<Rightarrow>
               let w = w\<lparr>wf_pending := p\<rparr> in
               (case register_verify wa q acc of
                  Inl err \<Rightarrow> (w, Inl err)
                | Inr c \<Rightarrow>
                    (case store_update io3 (register_store pr q acc c now agent fresh) (wf_auth w) of
                       (a, Inl _) \<Rightarrow> (w\<lparr>wf_auth := a\<rparr>, Inl Internal)
                     | (a, Inr minted) \<Rightarrow>
                         let w = w\<lparr>wf_auth := a\<rparr> in
                         (case store_update io4 (\<lambda>p. (register_consume now q acc p, ())) (wf_pending w) of
                            (p, Inl _) \<Rightarrow> (w\<lparr>wf_pending := p\<rparr>, Inl Internal)
                          | (p, Inr _) \<Rightarrow> (w\<lparr>wf_pending := p\<rparr>, Inr minted))))))"

subsection \<open>\<open>POST /auth/assert\<close>\<close>

definition assert_consume ::
  "nat \<Rightarrow> assert_request \<Rightarrow> pending_file \<Rightarrow> pending_file \<times> pending_challenge option" where
  "assert_consume now q p =
     (let (p, consumed) = consume_challenge (aq_endpoint q) (aq_challenge_id q) Assert now p in
      (sweep_expired now p, consumed))"

definition assert_store ::
  "webauthn \<Rightarrow> nat \<Rightarrow> assert_request \<Rightarrow> get_response \<Rightarrow> bytes \<Rightarrow> string option \<Rightarrow> fresh_tokens
   \<Rightarrow> auth_file \<Rightarrow> auth_file \<times> (auth_failure + minted_session)" where
  "assert_store wa now q response state agent fresh file =
     (case find_live_credential (aq_endpoint q) (ger_raw_id response) file of
        None \<Rightarrow> (file, Inl Denied)
      | Some (sub, i, r) \<Rightarrow>
          (case finish_authentication wa (aq_endpoint q) response state (cr_user_id r) of
             Inl _ \<Rightarrow> (file, Inl Denied)
           | Inr result \<Rightarrow>
               let file = modify_credential (aq_endpoint q) sub i (record_use result now agent) file;
                   (file, minted) = mint (aq_endpoint q) (cr_sub r) fresh now file in
               (file, Inr minted)))"

definition assert_blocking ::
  "webauthn \<Rightarrow> update_io \<Rightarrow> update_io \<Rightarrow> nat \<Rightarrow> assert_request \<Rightarrow> string option \<Rightarrow> fresh_tokens
   \<Rightarrow> web_files \<Rightarrow> web_files \<times> (auth_failure + minted_session)" where
  "assert_blocking wa io1 io2 now q agent fresh w =
     (if \<not> wa_usable wa (aq_endpoint q) then (w, Inl Bad)
      else case wa_get_of_json wa (aq_credential q) of
        None \<Rightarrow> (w, Inl Denied)
      | Some response \<Rightarrow>
          (case store_update io1 (assert_consume now q) (wf_pending w) of
             (p, Inl _) \<Rightarrow> (w\<lparr>wf_pending := p\<rparr>, Inl Internal)
           | (p, Inr None) \<Rightarrow> (w\<lparr>wf_pending := p\<rparr>, Inl Denied)
           | (p, Inr (Some c)) \<Rightarrow>
               let w = w\<lparr>wf_pending := p\<rparr> in
               if \<not> wa_state_readable wa (pc_state c) then (w, Inl Denied)
               else case store_update io2 (assert_store wa now q response (pc_state c) agent fresh) (wf_auth w) of
                      (a, Inl _) \<Rightarrow> (w\<lparr>wf_auth := a\<rparr>, Inl Internal)
                    | (a, Inr outcome) \<Rightarrow> (w\<lparr>wf_auth := a\<rparr>, outcome)))"

subsection \<open>\<open>POST /auth/refresh\<close>\<close>

definition refresh_update ::
  "primitives \<Rightarrow> nat \<Rightarrow> endpoint \<Rightarrow> string \<Rightarrow> string \<Rightarrow> string \<Rightarrow> auth_file
   \<Rightarrow> auth_file \<times> (auth_failure + minted_session)" where
  "refresh_update pr now e presented new_refresh new_access file =
     (case bt_get e (families file) of
        None \<Rightarrow> (file, Inl Denied)
      | Some by_id \<Rightarrow>
          (case find (\<lambda>(_, f). classify_refresh (sha256 pr) presented now f \<noteq> Unknown) by_id of
             None \<Rightarrow> (file, Inl Denied)
           | Some (i, f) \<Rightarrow>
               if fam_is_tombstoned f then (file, Inl Revoked)
               else
                 (case classify_refresh (sha256 pr) presented now f of
                    Reused \<Rightarrow>
                      (modify_family e i (\<lambda>f. f\<lparr>fam_tombstoned_at := Some now\<rparr>) file, Inl ReusedFailure)
                  | outcome \<Rightarrow>
                      let f = (if outcome = Current
                               then rotate_refresh (sha256 pr) new_refresh new_access now f else f);
                          file = modify_family e i (\<lambda>_. f) file in
                      if \<not> tg_is_live now (fam_refresh f) \<or> \<not> tg_is_live now (fam_access f)
                      then (file, Inl Revoked)
                      else (file, Inr (session_of_family f)))))"

text \<open>The answer, and whether the open WebSockets of this process are told to look again.\<close>

definition refresh_blocking ::
  "primitives \<Rightarrow> update_io \<Rightarrow> nat \<Rightarrow> endpoint \<Rightarrow> string \<Rightarrow> string \<Rightarrow> string \<Rightarrow> auth_file
   \<Rightarrow> auth_file \<times> (auth_failure + minted_session)" where
  "refresh_blocking pr io now e presented new_refresh new_access file =
     (case store_update io (refresh_update pr now e presented new_refresh new_access) file of
        (file, Inl _) \<Rightarrow> (file, Inl Internal)
      | (file, Inr outcome) \<Rightarrow> (file, outcome))"

definition post_refresh ::
  "primitives \<Rightarrow> update_io \<Rightarrow> nat \<Rightarrow> string \<Rightarrow> endpoint \<Rightarrow> string \<Rightarrow> string \<Rightarrow> auth_file
   \<Rightarrow> auth_file \<times> (auth_failure + minted_session) \<times> bool" where
  "post_refresh pr io now cookie e new_refresh new_access file =
     (case refresh_from_cookie_header pr cookie e of
        None \<Rightarrow> (file, Inl Denied, False)
      | Some presented \<Rightarrow>
          let (file, outcome) = refresh_blocking pr io now e presented new_refresh new_access file in
          (file, outcome, outcome = Inl ReusedFailure))"

subsection \<open>Answers\<close>

record http_answer =
  ha_status :: nat
  ha_code :: string
  ha_set_cookie :: "string option"

definition failure_answer :: "auth_failure \<Rightarrow> http_answer" where
  "failure_answer err =
     (case err of
        Bad \<Rightarrow> \<lparr>ha_status = 400, ha_code = ''invalid-request'', ha_set_cookie = None\<rparr>
      | Denied \<Rightarrow> \<lparr>ha_status = 401, ha_code = ''auth-failed'', ha_set_cookie = None\<rparr>
      | Revoked \<Rightarrow> \<lparr>ha_status = 401, ha_code = ''auth-failed'', ha_set_cookie = None\<rparr>
      | ReusedFailure \<Rightarrow> \<lparr>ha_status = 401, ha_code = ''auth-failed'', ha_set_cookie = None\<rparr>
      | Internal \<Rightarrow> \<lparr>ha_status = 500, ha_code = ''internal-error'', ha_set_cookie = None\<rparr>)"

definition session_answer :: "primitives \<Rightarrow> minted_session \<Rightarrow> http_answer" where
  "session_answer pr m =
     \<lparr>ha_status = 200, ha_code = [],
      ha_set_cookie = Some (set_cookie pr (ms_endpoint m) (ms_refresh m) (REFRESH_TTL_MS div 1000))\<rparr>"

text \<open>A refresh that ends the family also clears the cookie.\<close>

definition refresh_answer :: "primitives \<Rightarrow> endpoint \<Rightarrow> auth_failure + minted_session \<Rightarrow> http_answer" where
  "refresh_answer pr e outcome =
     (case outcome of
        Inr m \<Rightarrow> session_answer pr m
      | Inl err \<Rightarrow>
          if err = Revoked \<or> err = ReusedFailure
          then \<lparr>ha_status = 401, ha_code = ''auth-failed'', ha_set_cookie = Some (clear_cookie pr e)\<rparr>
          else failure_answer err)"

subsection \<open>The guard of the API\<close>

text \<open>Headers in order; a value that is not visible ASCII is \<open>None\<close>.\<close>

type_synonym headers = "(string \<times> string option) list"

definition WS_TOKEN_PROTOCOL_PREFIX :: string where
  "WS_TOKEN_PROTOCOL_PREFIX = ''hyoui.token.''"

definition strip_prefix :: "'a list \<Rightarrow> 'a list \<Rightarrow> 'a list option" where
  "strip_prefix p s = (if prefix p s then Some (drop (length p) s) else None)"

definition ws_token_protocol :: "headers \<Rightarrow> (string \<times> string) option" where
  "ws_token_protocol hs =
     find_map (\<lambda>protocol. case strip_prefix WS_TOKEN_PROTOCOL_PREFIX protocol of
                            None \<Rightarrow> None
                          | Some token \<Rightarrow> if token = [] then None else Some (protocol, token))
       (map trim (concat (map (split_on CHR '','')
          (List.map_filter (\<lambda>(name, val). if name = ''sec-websocket-protocol'' then val else None) hs))))"

definition bearer_token :: "headers \<Rightarrow> string option" where
  "bearer_token hs =
     (case find (\<lambda>(name, _). name = ''authorization'') hs of
        Some (_, Some val) \<Rightarrow>
          (case strip_prefix ''Bearer '' val of
             None \<Rightarrow> None
           | Some token \<Rightarrow> if trim token = [] then None else Some (trim token))
      | _ \<Rightarrow> None)"

definition presented_token :: "headers \<Rightarrow> string option" where
  "presented_token hs =
     (case bearer_token hs of Some token \<Rightarrow> Some token | None \<Rightarrow> map_option snd (ws_token_protocol hs))"

record identity =
  id_sub :: string
  id_endpoint :: endpoint
  id_family_id :: string
  id_access_expires_at :: nat

datatype guard_outcome = AuthRequired | Unreadable | Pass identity

definition require_auth :: "nat \<Rightarrow> headers \<Rightarrow> (store_error + auth_file) \<Rightarrow> guard_outcome" where
  "require_auth now hs read =
     (case presented_token hs of
        None \<Rightarrow> AuthRequired
      | Some presented \<Rightarrow>
          (case read of
             Inl _ \<Rightarrow> Unreadable
           | Inr file \<Rightarrow>
               (case find_live_family_by_access presented now file of
                  None \<Rightarrow> AuthRequired
                | Some f \<Rightarrow> Pass \<lparr>id_sub = fam_sub f, id_endpoint = fam_endpoint f,
                                  id_family_id = fam_id f,
                                  id_access_expires_at = tg_expires_at (fam_access f)\<rparr>)))"

subsection \<open>Rate limit\<close>

text \<open>Instants are nanoseconds of the monotonic clock.\<close>

record rate_limiter =
  rl_limit :: nat
  rl_window_started :: nat
  rl_seen :: nat

definition rate_limiter_new :: "nat \<Rightarrow> nat \<Rightarrow> rate_limiter" where
  "rate_limiter_new limit now = \<lparr>rl_limit = limit, rl_window_started = now, rl_seen = 0\<rparr>"

definition rate_allow :: "nat \<Rightarrow> rate_limiter \<Rightarrow> rate_limiter \<times> bool" where
  "rate_allow now l =
     (let l = (if now - rl_window_started l \<ge> 1000000000
               then l\<lparr>rl_window_started := now, rl_seen := 0\<rparr> else l);
          l = l\<lparr>rl_seen := rl_seen l + 1\<rparr> in
      (l, rl_seen l \<le> rl_limit l))"

subsection \<open>An open WebSocket\<close>

datatype auth_loss = LossExpired | LossRevoked | LossRejected

text \<open>\<open>ws_anchor\<close> pairs a reading of the monotonic clock with the wall clock at that moment.\<close>

record ws_auth =
  ws_endpoint :: endpoint
  ws_family_id :: string
  ws_expires_at :: nat
  ws_anchor :: "nat \<times> nat"

definition ws_auth_new :: "identity \<Rightarrow> nat \<Rightarrow> nat \<Rightarrow> ws_auth" where
  "ws_auth_new ident instant now =
     \<lparr>ws_endpoint = id_endpoint ident, ws_family_id = id_family_id ident,
      ws_expires_at = id_access_expires_at ident, ws_anchor = (instant, now)\<rparr>"

definition ws_extend_at ::
  "string \<Rightarrow> nat \<Rightarrow> (store_error + auth_file) \<Rightarrow> ws_auth \<Rightarrow> ws_auth \<times> (auth_loss + nat)" where
  "ws_extend_at presented now read ws =
     (case read of
        Inl _ \<Rightarrow> (ws, Inl LossRejected)
      | Inr file \<Rightarrow>
          (case get_family (ws_endpoint ws) (ws_family_id ws) file of
             None \<Rightarrow> (ws, Inl LossRevoked)
           | Some f \<Rightarrow>
               if fam_is_tombstoned f then (ws, Inl LossRevoked)
               else if \<not> holds_live_access presented now f then (ws, Inl LossRejected)
               else (ws\<lparr>ws_expires_at := tg_expires_at (fam_access f)\<rparr>,
                     Inr (tg_expires_at (fam_access f)))))"

definition ws_deadline :: "ws_auth \<Rightarrow> nat" where
  "ws_deadline ws = (case ws_anchor ws of (instant, ms) \<Rightarrow> instant + (ws_expires_at ws - ms))"

definition family_is_revoked :: "(store_error + auth_file) \<Rightarrow> endpoint \<Rightarrow> string \<Rightarrow> bool" where
  "family_is_revoked read e i =
     (case read of
        Inl _ \<Rightarrow> True
      | Inr file \<Rightarrow> (case get_family e i file of None \<Rightarrow> True | Some f \<Rightarrow> fam_is_tombstoned f))"

text \<open>One wake-up of \<open>lost\<close>: \<open>None\<close> means it goes on waiting. A signal sender that is gone
  leaves the deadline as the only end.\<close>

datatype ws_wake = DeadlineReached | RevocationSeen "store_error + auth_file" | SenderGone

fun ws_lost :: "ws_auth \<Rightarrow> ws_wake \<Rightarrow> auth_loss option" where
  "ws_lost ws DeadlineReached = Some LossExpired"
| "ws_lost ws SenderGone = Some LossExpired"
| "ws_lost ws (RevocationSeen read) =
     (if family_is_revoked read (ws_endpoint ws) (ws_family_id ws) then Some LossRevoked else None)"

subsection \<open>The commands that write the files\<close>

definition sub_candidate :: "endpoint \<Rightarrow> nat \<Rightarrow> string" where
  "sub_candidate e n = endpoint_rp_id e @ ''-'' @ decimal n"

definition sub_taken :: "endpoint \<Rightarrow> auth_file \<Rightarrow> string \<Rightarrow> bool" where
  "sub_taken e file s =
     (case bt_get e (credentials file) of None \<Rightarrow> False | Some subs \<Rightarrow> bt_get s subs \<noteq> None)"

fun next_sub_from :: "nat \<Rightarrow> endpoint \<Rightarrow> auth_file \<Rightarrow> nat \<Rightarrow> string option" where
  "next_sub_from 0 e file n = None"
| "next_sub_from (Suc fuel) e file n =
     (if \<not> sub_taken e file (sub_candidate e n) then Some (sub_candidate e n)
      else next_sub_from fuel e file (n + 1))"

text \<open>One more attempt than there are names in use is enough.\<close>

definition next_sub :: "endpoint \<Rightarrow> auth_file \<Rightarrow> string option" where
  "next_sub e file =
     next_sub_from (Suc (case bt_get e (credentials file) of None \<Rightarrow> 0 | Some subs \<Rightarrow> length subs)) e file 1"

definition new_registration ::
  "primitives \<Rightarrow> string \<Rightarrow> bytes \<Rightarrow> bytes \<Rightarrow> string \<Rightarrow> string \<Rightarrow> string option \<Rightarrow> nat \<Rightarrow> pending_registration" where
  "new_registration pr sub user_id secret code jti label now =
     \<lparr>pr_jti = jti, pr_sub = sub, pr_user_id = user_id, pr_access = AccessRw, pr_hmac_secret = secret,
      pr_code_hash = sha256_hex (sha256 pr) (as_bytes code), pr_code_attempts = 0,
      pr_issued_label = label, pr_expires_at = now + REGISTRATION_TTL_MS\<rparr>"

definition add_registration ::
  "nat \<Rightarrow> endpoint \<Rightarrow> string \<Rightarrow> pending_registration \<Rightarrow> pending_file \<Rightarrow> pending_file" where
  "add_registration now e jti r p =
     (let p = sweep_expired now p in
      p\<lparr>registrations := bt_entry [] e (bt_insert jti r) (registrations p)\<rparr>)"

text \<open>\<open>hyoui web passkey add\<close>: the claims that are signed and the registration that is filed.\<close>

definition passkey_add ::
  "primitives \<Rightarrow> nat \<Rightarrow> string \<Rightarrow> string option \<Rightarrow> bytes \<times> bytes \<times> string \<times> string \<Rightarrow> web_files
   \<Rightarrow> (web_files \<times> string \<times> string) option" where
  "passkey_add pr now raw label fresh w =
     (case fresh of (user_id, secret, code, jti) \<Rightarrow>
        (case endpoint_parse raw of
           Inl _ \<Rightarrow> None
         | Inr e \<Rightarrow>
             (case next_sub e (wf_auth w) of
                None \<Rightarrow> None
              | Some sub \<Rightarrow>
                  let claims = \<lparr>cl_sub = sub, cl_endpoint = e, cl_rp_id = endpoint_rp_id e,
                                cl_user_id = base64url pr user_id, cl_access = AccessRw,
                                cl_exp = (now + REGISTRATION_TTL_MS) div 1000, cl_jti = jti\<rparr>;
                      r = new_registration pr sub user_id secret code jti label now in
                  Some (w\<lparr>wf_pending := add_registration now e jti r (wf_pending w)\<rparr>,
                        sub, encode_registration pr claims secret))))"

definition session_remove :: "string \<Rightarrow> nat \<Rightarrow> auth_file \<Rightarrow> auth_file" where
  "session_remove i now file =
     file\<lparr>families := bt_map (bt_modify i (\<lambda>f. if fam_is_tombstoned f then f
                                               else f\<lparr>fam_tombstoned_at := Some now\<rparr>)) (families file)\<rparr>"

section \<open>Lemmas\<close>

subsection \<open>How the updates of \<open>auth.json\<close> change a family\<close>

definition families_sorted :: "auth_file \<Rightarrow> bool" where
  "families_sorted file \<longleftrightarrow> bt_sorted (families file)
   \<and> (\<forall>e by_id. bt_get e (families file) = Some by_id \<longrightarrow> bt_sorted by_id)"

definition families_ok :: "auth_file \<Rightarrow> bool" where
  "families_ok file \<longleftrightarrow> families_sorted file
   \<and> (\<forall>e i f. get_family e i file = Some f \<longrightarrow> fam_id f = i \<and> fam_endpoint f = e)"

inductive family_evolves :: "nat \<Rightarrow> family_record \<Rightarrow> family_record \<Rightarrow> bool" for now where
  same: "family_evolves now f f"
| revoke: "\<not> fam_is_tombstoned f \<Longrightarrow> family_evolves now f (f\<lparr>fam_tombstoned_at := Some now\<rparr>)"
| rotate: "\<not> fam_is_tombstoned f \<Longrightarrow> family_evolves now f (rotate_refresh sha r a now f)"

text \<open>Families may appear under the ids \<open>new\<close> only, and only as a new family.\<close>

definition file_evolves :: "nat \<Rightarrow> string set \<Rightarrow> auth_file \<Rightarrow> auth_file \<Rightarrow> bool" where
  "file_evolves now new file file' \<longleftrightarrow>
     (\<forall>e i. case get_family e i file of
        Some f \<Rightarrow> (\<exists>f'. get_family e i file' = Some f' \<and> family_evolves now f f')
      | None \<Rightarrow> (\<forall>f'. get_family e i file' = Some f' \<longrightarrow> i \<in> new \<and>
                  (\<exists>sub access refresh. f' = new_family e sub i access refresh now)))"

lemma file_evolves_refl: "file_evolves now new file file"
  by (auto simp: file_evolves_def intro: family_evolves.same split: option.splits)

lemma family_evolves_keeps:
  assumes "family_evolves now f f'"
  shows "fam_id f' = fam_id f" "fam_endpoint f' = fam_endpoint f" "fam_sub f' = fam_sub f"
    and "fam_tombstoned_at f = Some t \<Longrightarrow> f' = f"
  using assms by (cases; simp add: fam_is_tombstoned_def)+

lemma get_family_modify:
  "get_family e' i' (modify_family e i g file) =
     (if e' = e \<and> i' = i then map_option g (get_family e i file) else get_family e' i' file)"
  by (auto simp: get_family_def modify_family_def bt.get_modify split: option.splits)

lemma get_family_credentials [simp]:
  "get_family e i (file\<lparr>credentials := c\<rparr>) = get_family e i file"
  by (simp add: get_family_def)

lemma get_family_mint:
  assumes "families_ok file"
  shows "get_family e' i' (fst (mint_family e sub i access refresh now file)) =
     (if e' = e \<and> i' = i then Some (new_family e sub i access refresh now) else get_family e' i' file)"
proof -
  have "bt_sorted (families file)" and "\<And>by_id. bt_get e (families file) = Some by_id \<Longrightarrow> bt_sorted by_id"
    using assms by (auto simp: families_ok_def families_sorted_def)
  then show ?thesis
    by (auto simp: get_family_def mint_family_def Let_def bt_get_entry bt.get_insert split: option.splits)
qed

lemma get_family_bt_map:
  "get_family e i (file\<lparr>credentials := c, families := bt_map (bt_map g) (families file)\<rparr>) =
     map_option g (get_family e i file)"
  by (auto simp: get_family_def bt_get_map split: option.splits)

lemma get_family_session_remove:
  "get_family e i' (session_remove i now file) =
     (if i' = i then map_option (\<lambda>f. if fam_is_tombstoned f then f
                                      else f\<lparr>fam_tombstoned_at := Some now\<rparr>) (get_family e i file)
      else get_family e i' file)"
  by (auto simp: get_family_def session_remove_def bt_get_map bt.get_modify split: option.splits)

lemma file_evolvesI:
  assumes "\<And>e i f. get_family e i file = Some f \<Longrightarrow>
             \<exists>f'. get_family e i file' = Some f' \<and> family_evolves now f f'"
    and "\<And>e i f'. get_family e i file = None \<Longrightarrow> get_family e i file' = Some f' \<Longrightarrow>
           i \<in> new \<and> (\<exists>sub access refresh. f' = new_family e sub i access refresh now)"
  shows "file_evolves now new file file'"
  using assms by (auto simp: file_evolves_def split: option.splits)

lemma modify_family_evolves:
  assumes "\<And>f. get_family e i file = Some f \<Longrightarrow> family_evolves now f (g f)"
  shows "file_evolves now new file (modify_family e i g file)"
  using assms by (intro file_evolvesI) (auto simp: get_family_modify intro: family_evolves.same split: if_splits)

lemma mint_evolves:
  assumes "families_ok file" "get_family e i file = None" "i \<in> new"
  shows "file_evolves now new file (fst (mint e sub (i, access, refresh) now file))"
proof -
  have "fst (mint e sub (i, access, refresh) now file) = fst (mint_family e sub i access refresh now file)"
    by (simp add: mint_def split: prod.splits)
  then show ?thesis using assms
    by (auto intro!: file_evolvesI intro: family_evolves.same simp: get_family_mint split: if_splits) blast
qed

lemma tombstone_sub_evolves: "file_evolves now new file (fst (tombstone_sub sub now file))"
  by (rule file_evolvesI)
     (auto simp: tombstone_sub_def get_family_bt_map tombstone_family_def
           intro: family_evolves.same family_evolves.revoke)

lemma session_remove_evolves: "file_evolves now new file (session_remove i now file)"
  by (rule file_evolvesI)
     (auto simp: get_family_session_remove intro: family_evolves.same family_evolves.revoke split: if_splits)

lemma find_in_by_id:
  assumes "families_ok file" "bt_get e (families file) = Some by_id" "find P by_id = Some (i, f)"
  shows "get_family e i file = Some f" and "P (i, f)"
proof -
  have "bt_sorted by_id" using assms by (auto simp: families_ok_def families_sorted_def)
  moreover have "(i, f) \<in> set by_id" "P (i, f)" using assms(3) by (auto simp: find_Some_iff)
  ultimately show "get_family e i file = Some f" "P (i, f)"
    using assms(2) by (auto simp: get_family_def bt_get_in)
qed

lemma refresh_update_evolves:
  assumes ok: "families_ok file"
  shows "file_evolves now new file (fst (refresh_update pr now e presented r a file))"
proof (cases "bt_get e (families file)")
  case None
  then show ?thesis by (simp add: refresh_update_def file_evolves_refl)
next
  case (Some by_id)
  let ?P = "\<lambda>(_, f). classify_refresh (sha256 pr) presented now f \<noteq> Unknown"
  show ?thesis
  proof (cases "find ?P by_id")
    case None
    with Some show ?thesis by (simp add: refresh_update_def file_evolves_refl)
  next
    case found: (Some x)
    obtain i f where x: "x = (i, f)" by (cases x)
    have f: "get_family e i file = Some f"
      using find_in_by_id(1) [OF ok Some] found x by blast
    show ?thesis
      using Some found x f
      by (auto simp: refresh_update_def Let_def intro!: modify_family_evolves
          intro: family_evolves.intros file_evolves_refl split: refresh_outcome.splits)
  qed
qed

lemma families_sorted_credentials [simp]:
  "families_sorted (file\<lparr>credentials := c\<rparr>) = families_sorted file"
  by (simp add: families_sorted_def)

lemma families_sorted_modify: "families_sorted file \<Longrightarrow> families_sorted (modify_family e i g file)"
  by (auto simp: families_sorted_def modify_family_def bt_sorted_simps bt.get_modify split: if_splits)

lemma families_sorted_mint:
  "families_sorted file \<Longrightarrow> families_sorted (fst (mint e sub fresh now file))"
  by (auto simp: families_sorted_def mint_def mint_family_def Let_def bt_sorted_simps bt_get_entry
      split: prod.splits option.splits if_splits)

lemma families_sorted_tombstone: "families_sorted file \<Longrightarrow> families_sorted (fst (tombstone_sub sub now file))"
  by (auto simp: families_sorted_def tombstone_sub_def bt_get_map)

lemma families_sorted_session_remove: "families_sorted file \<Longrightarrow> families_sorted (session_remove i now file)"
  by (auto simp: families_sorted_def session_remove_def bt_get_map bt_sorted_simps)

lemma families_sorted_refresh:
  "families_sorted file \<Longrightarrow> families_sorted (fst (refresh_update pr now e presented r a file))"
  by (auto simp: refresh_update_def Let_def intro: families_sorted_modify
      split: option.splits refresh_outcome.splits)

lemma families_ok_evolves:
  assumes "families_ok file" "file_evolves now new file file'" "families_sorted file'"
  shows "families_ok file'"
proof -
  have "fam_id f' = i \<and> fam_endpoint f' = e" if f': "get_family e i file' = Some f'" for e i f'
  proof (cases "get_family e i file")
    case None
    with assms(2) f' show ?thesis
      by (auto simp: file_evolves_def new_family_def dest!: spec [of _ e] spec [of _ i])
  next
    case (Some f)
    with assms(2) f' have "family_evolves now f f'"
      by (auto simp: file_evolves_def dest!: spec [of _ e] spec [of _ i])
    with assms(1) Some show ?thesis by (auto simp: families_ok_def family_evolves_keeps)
  qed
  with assms(3) show ?thesis by (simp add: families_ok_def)
qed

lemma file_evolvesE:
  assumes "file_evolves now new file file'" "get_family e i file' = Some f'"
  obtains f where "get_family e i file = Some f" "family_evolves now f f'"
  | sub access refresh where "get_family e i file = None" "i \<in> new" "f' = new_family e sub i access refresh now"
  using assms by (cases "get_family e i file") (auto simp: file_evolves_def dest!: spec [of _ e] spec [of _ i])

lemma file_evolves_tombstoned:
  assumes "file_evolves now new file file'" "get_family e i file = Some f" "fam_tombstoned_at f = Some t"
  shows "get_family e i file' = Some f"
  using assms family_evolves_keeps(4) [of now f]
  by (auto simp: file_evolves_def dest!: spec [of _ e] spec [of _ i])

lemma register_store_evolves:
  assumes "families_ok file" "get_family (gq_endpoint q) i file = None" "i \<in> new"
  shows "file_evolves now new file (fst (register_store pr q acc c now agent (i, access, refresh) file))"
proof -
  let ?file = "insert_credential (base64url pr) (gq_endpoint q) (registered_credential q acc c now agent) file"
  have "get_family e j ?file = get_family e j file" "families_sorted ?file = families_sorted file" for e j
    by (simp_all add: insert_credential_def Let_def)
  then show ?thesis
    using mint_evolves [of ?file "gq_endpoint q" i new now "ac_sub acc" access refresh] assms
    by (simp add: register_store_def families_ok_def file_evolves_def)
qed

lemma families_sorted_register_store:
  "families_sorted file \<Longrightarrow> families_sorted (fst (register_store pr q acc c now agent fresh file))"
  by (auto simp: register_store_def insert_credential_def Let_def intro: families_sorted_mint)

lemma assert_store_cases:
  obtains (refused) "fst (assert_store wa now q response state agent fresh file) = file"
  | (minted) sub i result sub' where
      "fst (assert_store wa now q response state agent fresh file) =
       fst (mint (aq_endpoint q) sub' fresh now
         (modify_credential (aq_endpoint q) sub i (record_use result now agent) file))"
proof (cases "find_live_credential (aq_endpoint q) (ger_raw_id response) file")
  case None
  then show thesis by (intro refused) (simp add: assert_store_def)
next
  case (Some x)
  obtain sub i r where x: "x = (sub, i, r)" by (cases x)
  show thesis
  proof (cases "finish_authentication wa (aq_endpoint q) response state (cr_user_id r)")
    case Inl
    with Some x show thesis by (intro refused) (simp add: assert_store_def)
  next
    case (Inr result)
    with Some x show thesis
      by (intro minted [of "cr_sub r" sub i result]) (simp add: assert_store_def Let_def split: prod.splits)
  qed
qed

lemma assert_store_evolves:
  assumes "families_ok file" "get_family (aq_endpoint q) i file = None" "i \<in> new"
  shows "file_evolves now new file (fst (assert_store wa now q response state agent (i, access, refresh) file))"
proof (rule assert_store_cases [of wa now q response state agent "(i, access, refresh)" "file"])
  assume "fst (assert_store wa now q response state agent (i, access, refresh) file) = file"
  then show ?thesis by (simp add: file_evolves_refl)
next
  fix sub j result sub'
  let ?file = "modify_credential (aq_endpoint q) sub j (record_use result now agent) file"
  have "get_family e k ?file = get_family e k file" "families_sorted ?file = families_sorted file" for e k
    by (simp_all add: modify_credential_def)
  moreover assume "fst (assert_store wa now q response state agent (i, access, refresh) file) =
    fst (mint (aq_endpoint q) sub' (i, access, refresh) now ?file)"
  ultimately show ?thesis
    using mint_evolves [of ?file "aq_endpoint q" i new now sub' access refresh] assms
    by (simp add: families_ok_def file_evolves_def)
qed

lemma families_sorted_assert_store:
  "families_sorted file \<Longrightarrow> families_sorted (fst (assert_store wa now q response state agent fresh file))"
  by (rule assert_store_cases [of wa now q response state agent fresh "file"])
     (auto simp: modify_credential_def intro: families_sorted_mint)

lemmas families_sorted_updates =
  families_sorted_mint families_sorted_tombstone families_sorted_session_remove
  families_sorted_refresh families_sorted_register_store families_sorted_assert_store

lemmas file_evolves_updates =
  tombstone_sub_evolves session_remove_evolves refresh_update_evolves
  register_store_evolves assert_store_evolves

end
