(* ===== verification/AuthSystem.thy ===== *)
theory AuthSystem
  imports AuthRoutes
begin

text \<open>
  All processes together: the gateways, the command line and the open WebSockets on the two
  state files. A system state is the clock, the two files, the open sockets, the random values
  drawn so far and a log of what happened. One step is one locked update of one file, or the
  clock, or one read by a socket; it takes its arguments from any request. Random values are
  fresh (they were never drawn before) and the clock does not go back.

  The invariants show what holds in every reachable state, whatever the requests and however
  they interleave; the properties are at the end.
\<close>

section \<open>The files under the updates\<close>

definition get_registration :: "endpoint \<Rightarrow> string \<Rightarrow> pending_file \<Rightarrow> pending_registration option" where
  "get_registration e j p =
     (case bt_get e (registrations p) of None \<Rightarrow> None | Some by_jti \<Rightarrow> bt_get j by_jti)"

definition get_challenge :: "endpoint \<Rightarrow> string \<Rightarrow> pending_file \<Rightarrow> pending_challenge option" where
  "get_challenge e i p =
     (case bt_get e (challenges p) of None \<Rightarrow> None | Some by_id \<Rightarrow> bt_get i by_id)"

definition pending_ok :: "pending_file \<Rightarrow> bool" where
  "pending_ok p \<longleftrightarrow> bt_sorted (registrations p) \<and> bt_sorted (challenges p)
   \<and> (\<forall>e m. bt_get e (registrations p) = Some m \<longrightarrow> bt_sorted m)
   \<and> (\<forall>e m. bt_get e (challenges p) = Some m \<longrightarrow> bt_sorted m)"

lemma pending_okD:
  assumes "pending_ok p"
  shows "bt_sorted (registrations p)" "bt_sorted (challenges p)"
    "bt_get e (registrations p) = Some m \<Longrightarrow> bt_sorted m"
    "bt_get e (challenges p) = Some n \<Longrightarrow> bt_sorted n"
  using assms by (auto simp: pending_ok_def)

lemma bt_retain_NilD: "bt_retain P m = [] \<Longrightarrow> bt_get j m = Some v \<Longrightarrow> \<not> P j v"
  by (auto simp: bt_retain_def bt_get_def filter_empty_conv dest!: map_of_SomeD)

lemma sweep_registrations:
  assumes "pending_ok p"
  shows "get_registration e j (sweep_expired now p) =
     (case get_registration e j p of Some r \<Rightarrow> if pr_is_live now r then Some r else None | None \<Rightarrow> None)"
  using pending_okD [OF assms]
  by (auto simp: get_registration_def sweep_expired_def bt.get_retain bt_get_map bt_sorted_simps
      split: option.splits dest: bt_retain_NilD)

lemma sweep_challenges:
  assumes "pending_ok p"
  shows "get_challenge e i (sweep_expired now p) =
     (case get_challenge e i p of Some c \<Rightarrow> if now < pc_expires_at c then Some c else None | None \<Rightarrow> None)"
  using pending_okD [OF assms]
  by (auto simp: get_challenge_def sweep_expired_def bt.get_retain bt_get_map bt_sorted_simps
      split: option.splits dest: bt_retain_NilD)

lemma pending_ok_sweep: "pending_ok p \<Longrightarrow> pending_ok (sweep_expired now p)"
  by (auto simp: pending_ok_def sweep_expired_def bt.get_retain bt_get_map bt_sorted_simps
      split: option.splits if_splits)

lemma pending_ok_with_registrations:
  assumes "pending_ok p" "\<And>m. bt_sorted m \<Longrightarrow> bt_sorted (f m)"
  shows "pending_ok (with_registrations e f p)"
  using assms by (auto simp: pending_ok_def with_registrations_def bt_sorted_simps bt.get_modify split: if_splits)

lemma with_registrations_challenges [simp]:
  "challenges (with_registrations e f p) = challenges p"
  "get_challenge e' i (with_registrations e f p) = get_challenge e' i p"
  "challenge e' i u now (with_registrations e f p) = challenge e' i u now p"
  by (simp_all add: with_registrations_def get_challenge_def challenge_def)

lemma get_registration_modify:
  "get_registration e' j' (with_registrations e (bt_modify j g) p) =
     (if e' = e \<and> j' = j then map_option g (get_registration e j p) else get_registration e' j' p)"
  by (auto simp: get_registration_def with_registrations_def bt.get_modify split: option.splits)

lemma get_registration_remove:
  assumes "pending_ok p"
  shows "get_registration e' j' (with_registrations e (bt_remove j) p) =
     (if e' = e \<and> j' = j then None else get_registration e' j' p)"
  using pending_okD [OF assms]
  by (auto simp: get_registration_def with_registrations_def bt.get_modify bt.get_remove split: option.splits)

lemma get_registration_add:
  assumes "pending_ok p"
  shows "get_registration e' j' (add_registration now e j r p) =
     (if e' = e \<and> j' = j then Some r else get_registration e' j' (sweep_expired now p))"
  using pending_okD [OF pending_ok_sweep [OF assms, of now]]
  by (auto simp: get_registration_def add_registration_def Let_def bt_get_entry bt.get_insert
      split: option.splits)

lemma get_challenge_issue:
  assumes "pending_ok p"
  shows "get_challenge e i (issue_challenge now c p) =
     (if e = pc_endpoint c \<and> i = pc_id c then Some c else get_challenge e i (sweep_expired now p))"
  using pending_okD [OF pending_ok_sweep [OF assms, of now]]
  by (auto simp: get_challenge_def issue_challenge_def Let_def bt_get_entry bt.get_insert
      split: option.splits)

lemma get_challenge_add [simp]:
  "get_challenge e i (add_registration now e' j r p) = get_challenge e i (sweep_expired now p)"
  by (simp add: get_challenge_def add_registration_def Let_def)

lemma get_registration_issue [simp]:
  "get_registration e j (issue_challenge now c p) = get_registration e j (sweep_expired now p)"
  by (simp add: get_registration_def issue_challenge_def Let_def)

lemma pending_ok_add: "pending_ok p \<Longrightarrow> pending_ok (add_registration now e j r p)"
  using pending_ok_sweep [of p now]
  by (auto simp: pending_ok_def add_registration_def Let_def bt_sorted_simps bt_get_entry
      split: if_splits option.splits)

lemma pending_ok_issue: "pending_ok p \<Longrightarrow> pending_ok (issue_challenge now c p)"
  using pending_ok_sweep [of p now]
  by (auto simp: pending_ok_def issue_challenge_def Let_def bt_sorted_simps bt_get_entry
      split: if_splits option.splits)

lemma challenge_get:
  "challenge e i u now p =
     (case get_challenge e i p of
        Some c \<Rightarrow> if pc_purpose c \<noteq> u \<or> now \<ge> pc_expires_at c \<or> pc_endpoint c \<noteq> e then None else Some c
      | None \<Rightarrow> None)"
  by (simp add: challenge_def get_challenge_def split: option.splits)

lemma consume_challenge_snd: "snd (consume_challenge e i u now p) = challenge e i u now p"
  by (auto simp: consume_challenge_def challenge_def split: option.splits if_splits)

lemma consume_challenge_registrations [simp]:
  "get_registration e' j (fst (consume_challenge e i u now p)) = get_registration e' j p"
  by (simp add: consume_challenge_def get_registration_def split: option.splits)

lemma get_challenge_consume:
  assumes "pending_ok p"
  shows "get_challenge e' i' (fst (consume_challenge e i u now p)) =
     (if e' = e \<and> i' = i \<and> challenge e i u now p \<noteq> None then None else get_challenge e' i' p)"
  using pending_okD [OF assms]
  by (auto simp: consume_challenge_def get_challenge_def bt.get_modify bt.get_remove split: option.splits)

lemma pending_ok_consume: "pending_ok p \<Longrightarrow> pending_ok (fst (consume_challenge e i u now p))"
  by (auto simp: pending_ok_def consume_challenge_def bt_sorted_simps bt.get_modify split: option.splits if_splits)

lemma registration_for_get:
  "registration_for pr now q jti p = Some r \<longleftrightarrow>
     get_registration (gq_endpoint q) jti p = Some r \<and> pr_is_live now r
   \<and> (\<exists>claims. verify_registration pr (gq_jwt q) (pr_hmac_secret r) now = Inr claims
        \<and> cl_endpoint claims = gq_endpoint q)"
  by (auto simp: registration_for_def get_registration_def split: option.splits sum.splits)

section \<open>The system\<close>

text \<open>A request between two of its updates: a registration whose code was accepted, one whose
  credential is stored, an assertion whose challenge is consumed. Each carries the time it
  read when it came in, which the lock may have made older than the clock.\<close>

datatype request =
    Verifying nat register_request accepted_registration
  | Storing nat register_request accepted_registration webauthn_credential
  | Consuming nat register_request accepted_registration
  | Asserting nat assert_request get_response pending_challenge

datatype web_event =
    CodeTried endpoint string bool
  | AssertConsumed endpoint string
  | Minted endpoint string

record web_system =
  sy_now :: nat
  sy_files :: web_files
  sy_requests :: "request list"
  sy_upgrading :: "identity list"
  sy_sockets :: "ws_auth list"
  sy_used :: "string set"
  sy_log :: "web_event list"

definition put_auth :: "auth_file \<Rightarrow> web_system \<Rightarrow> web_system" where
  "put_auth a s = s\<lparr>sy_files := (sy_files s)\<lparr>wf_auth := a\<rparr>\<rparr>"

definition put_pending :: "pending_file \<Rightarrow> web_system \<Rightarrow> web_system" where
  "put_pending p s = s\<lparr>sy_files := (sy_files s)\<lparr>wf_pending := p\<rparr>\<rparr>"

definition draw :: "string \<Rightarrow> web_system \<Rightarrow> web_system" where
  "draw x s = s\<lparr>sy_used := insert x (sy_used s)\<rparr>"

definition note_event :: "web_event \<Rightarrow> web_system \<Rightarrow> web_system" where
  "note_event ev s = s\<lparr>sy_log := ev # sy_log s\<rparr>"

definition swap_request :: "request \<Rightarrow> request list \<Rightarrow> web_system \<Rightarrow> web_system" where
  "swap_request r rs s = s\<lparr>sy_requests := rs @ remove1 r (sy_requests s)\<rparr>"

abbreviation the_auth :: "web_system \<Rightarrow> auth_file" where "the_auth s \<equiv> wf_auth (sy_files s)"
abbreviation the_pending :: "web_system \<Rightarrow> pending_file" where "the_pending s \<equiv> wf_pending (sy_files s)"

text \<open>\<open>now\<close> is the time the request or command read, at most the clock.\<close>

inductive web_step :: "primitives \<Rightarrow> webauthn \<Rightarrow> web_system \<Rightarrow> web_system \<Rightarrow> bool" for pr wa where
  tick: "web_step pr wa s (s\<lparr>sy_now := sy_now s + d\<rparr>)"
| abandon: "web_step pr wa s (s\<lparr>sy_requests := remove1 r (sy_requests s)\<rparr>)"
| challenge_issued:
    "now \<le> sy_now s \<Longrightarrow> cid \<notin> sy_used s \<Longrightarrow>
     challenge_blocking pr wa io now cid q auth_read pending_read (the_pending s) = (p, answer) \<Longrightarrow>
     web_step pr wa s (draw cid (put_pending p s))"
| code_refused:
    "now \<le> sy_now s \<Longrightarrow> peek_jti pr (gq_jwt q) = Inr jti \<Longrightarrow>
     register_check pr wa now q jti (the_pending s) = (p, Inl err) \<Longrightarrow>
     registration_for pr now q jti (sweep_expired now (the_pending s)) = r \<Longrightarrow>
     s' = put_pending p s \<Longrightarrow>
     web_step pr wa s (case r of None \<Rightarrow> s'
                       | Some r \<Rightarrow> note_event (CodeTried (gq_endpoint q) jti
                                     (snd (check_code (sha256 pr) (gq_code q) r) = Accepted)) s')"
| code_accepted:
    "now \<le> sy_now s \<Longrightarrow> peek_jti pr (gq_jwt q) = Inr jti \<Longrightarrow>
     register_check pr wa now q jti (the_pending s) = (p, Inr acc) \<Longrightarrow>
     web_step pr wa s (note_event (CodeTried (gq_endpoint q) jti True)
                        (put_pending p (s\<lparr>sy_requests := Verifying now q acc # sy_requests s\<rparr>)))"
| credential_verified:
    "Verifying now q acc \<in> set (sy_requests s) \<Longrightarrow> register_verify wa q acc = Inr c \<Longrightarrow>
     web_step pr wa s (swap_request (Verifying now q acc) [Storing now q acc c] s)"
| credential_stored:
    "Storing now q acc c \<in> set (sy_requests s) \<Longrightarrow> i \<notin> sy_used s \<Longrightarrow>
     register_store pr q acc c now agent (i, access, refresh) (the_auth s) = (a, minted) \<Longrightarrow>
     web_step pr wa s (note_event (Minted (gq_endpoint q) i) (draw i (put_auth a
                        (swap_request (Storing now q acc c) [Consuming now q acc] s))))"
| registration_consumed:
    "Consuming now q acc \<in> set (sy_requests s) \<Longrightarrow>
     web_step pr wa s (put_pending (register_consume now q acc (the_pending s))
                        (swap_request (Consuming now q acc) [] s))"
| challenge_refused:
    "now \<le> sy_now s \<Longrightarrow> assert_consume now q (the_pending s) = (p, None) \<Longrightarrow>
     web_step pr wa s (put_pending p s)"
| challenge_consumed:
    "now \<le> sy_now s \<Longrightarrow> wa_get_of_json wa (aq_credential q) = Some response \<Longrightarrow>
     assert_consume now q (the_pending s) = (p, Some c) \<Longrightarrow>
     web_step pr wa s (note_event (AssertConsumed (aq_endpoint q) (aq_challenge_id q))
                        (put_pending p (s\<lparr>sy_requests := Asserting now q response c # sy_requests s\<rparr>)))"
| assertion_refused:
    "Asserting now q response c \<in> set (sy_requests s) \<Longrightarrow>
     assert_store wa now q response (pc_state c) agent fresh (the_auth s) = (a, Inl err) \<Longrightarrow>
     web_step pr wa s (put_auth a (swap_request (Asserting now q response c) [] s))"
| assertion_accepted:
    "Asserting now q response c \<in> set (sy_requests s) \<Longrightarrow> i \<notin> sy_used s \<Longrightarrow>
     assert_store wa now q response (pc_state c) agent (i, access, refresh) (the_auth s) = (a, Inr minted) \<Longrightarrow>
     web_step pr wa s (note_event (Minted (aq_endpoint q) i) (draw i (put_auth a
                        (swap_request (Asserting now q response c) [] s))))"
| refreshed:
    "now \<le> sy_now s \<Longrightarrow>
     refresh_update pr now e presented new_refresh new_access (the_auth s) = (a, outcome) \<Longrightarrow>
     web_step pr wa s (put_auth a s)"
| passkey_added:
    "now \<le> sy_now s \<Longrightarrow> jti \<notin> sy_used s \<Longrightarrow>
     passkey_add pr now raw label (user_id, secret, code, jti) (sy_files s) = Some (w, sub, jwt) \<Longrightarrow>
     web_step pr wa s (draw jti (s\<lparr>sy_files := w\<rparr>))"
| passkey_removed:
    "now \<le> sy_now s \<Longrightarrow> web_step pr wa s (put_auth (fst (tombstone_sub sub now (the_auth s))) s)"
| session_removed:
    "now \<le> sy_now s \<Longrightarrow> web_step pr wa s (put_auth (session_remove i now (the_auth s)) s)"
| upgrade_passed:
    "now \<le> sy_now s \<Longrightarrow> require_auth now hs (Inr (the_auth s)) = Pass ident \<Longrightarrow>
     web_step pr wa s (s\<lparr>sy_upgrading := ident # sy_upgrading s\<rparr>)"
| socket_opened:
    "now \<le> sy_now s \<Longrightarrow> ident \<in> set (sy_upgrading s) \<Longrightarrow>
     web_step pr wa s (s\<lparr>sy_sockets := ws_auth_new ident instant now # sy_sockets s\<rparr>)"
| socket_extended:
    "now \<le> sy_now s \<Longrightarrow> ws \<in> set (sy_sockets s) \<Longrightarrow>
     ws_extend_at presented now (Inr (the_auth s)) ws = (ws', Inr t) \<Longrightarrow>
     web_step pr wa s (s\<lparr>sy_sockets := ws' # remove1 ws (sy_sockets s)\<rparr>)"
| socket_closed: "web_step pr wa s (s\<lparr>sy_sockets := remove1 ws (sy_sockets s)\<rparr>)"

definition web_init :: "nat \<Rightarrow> web_system" where
  "web_init now =
     \<lparr>sy_now = now, sy_files = \<lparr>wf_auth = \<lparr>credentials = [], families = []\<rparr>,
                                wf_pending = \<lparr>registrations = [], challenges = []\<rparr>\<rparr>,
      sy_requests = [], sy_upgrading = [], sy_sockets = [], sy_used = {}, sy_log = []\<rparr>"

abbreviation web_reachable :: "primitives \<Rightarrow> webauthn \<Rightarrow> nat \<Rightarrow> web_system \<Rightarrow> bool" where
  "web_reachable pr wa now s \<equiv> (web_step pr wa)\<^sup>*\<^sup>* (web_init now) s"

section \<open>What each update leaves\<close>

lemma system_simps [simp]:
  "sy_now (put_auth a s) = sy_now s" "sy_now (put_pending p s) = sy_now s"
  "sy_now (draw x s) = sy_now s" "sy_now (note_event ev s) = sy_now s" "sy_now (swap_request r rs s) = sy_now s"
  "the_auth (put_auth a s) = a" "the_auth (put_pending p s) = the_auth s"
  "the_auth (draw x s) = the_auth s" "the_auth (note_event ev s) = the_auth s"
  "the_auth (swap_request r rs s) = the_auth s"
  "the_pending (put_auth a s) = the_pending s" "the_pending (put_pending p s) = p"
  "the_pending (draw x s) = the_pending s" "the_pending (note_event ev s) = the_pending s"
  "the_pending (swap_request r rs s) = the_pending s"
  "sy_requests (put_auth a s) = sy_requests s" "sy_requests (put_pending p s) = sy_requests s"
  "sy_requests (draw x s) = sy_requests s" "sy_requests (note_event ev s) = sy_requests s"
  "sy_requests (swap_request r rs s) = rs @ remove1 r (sy_requests s)"
  "sy_upgrading (put_auth a s) = sy_upgrading s" "sy_upgrading (put_pending p s) = sy_upgrading s"
  "sy_upgrading (draw x s) = sy_upgrading s" "sy_upgrading (note_event ev s) = sy_upgrading s"
  "sy_upgrading (swap_request r rs s) = sy_upgrading s"
  "sy_sockets (put_auth a s) = sy_sockets s" "sy_sockets (put_pending p s) = sy_sockets s"
  "sy_sockets (draw x s) = sy_sockets s" "sy_sockets (note_event ev s) = sy_sockets s"
  "sy_sockets (swap_request r rs s) = sy_sockets s"
  "sy_used (put_auth a s) = sy_used s" "sy_used (put_pending p s) = sy_used s"
  "sy_used (draw x s) = insert x (sy_used s)" "sy_used (note_event ev s) = sy_used s"
  "sy_used (swap_request r rs s) = sy_used s"
  "sy_log (put_auth a s) = sy_log s" "sy_log (put_pending p s) = sy_log s"
  "sy_log (draw x s) = sy_log s" "sy_log (note_event ev s) = ev # sy_log s"
  "sy_log (swap_request r rs s) = sy_log s"
  by (simp_all add: put_auth_def put_pending_def draw_def note_event_def swap_request_def)

definition code_accepted_for :: "primitives \<Rightarrow> register_request \<Rightarrow> pending_registration \<Rightarrow> bool" where
  "code_accepted_for pr q r \<longleftrightarrow> pr_code_hash r = sha256_hex (sha256 pr) (as_bytes (gq_code q))"

lemma check_code_outcome:
  "snd (check_code (sha256 pr) (gq_code q) r) = Accepted \<longleftrightarrow> code_accepted_for pr q r"
  by (simp add: check_code_def code_accepted_for_def Let_def)

text \<open>The registration after one try.\<close>

definition after_try :: "primitives \<Rightarrow> register_request \<Rightarrow> pending_registration \<Rightarrow> pending_registration option" where
  "after_try pr q r =
     (if code_accepted_for pr q r then Some r
      else let n = min (pr_code_attempts r + 1) (2 ^ 32 - 1) in
           if n \<ge> CODE_ATTEMPT_LIMIT then None else Some (r\<lparr>pr_code_attempts := n\<rparr>))"

lemma register_check_pending:
  assumes "pending_ok p" "register_check pr wa now q jti p = (p', res)"
  shows "pending_ok p'" and "get_challenge e i p' = get_challenge e i (sweep_expired now p)"
    and "get_registration e j p' =
      (case registration_for pr now q jti (sweep_expired now p) of
         Some r \<Rightarrow> if e = gq_endpoint q \<and> j = jti then after_try pr q r
                   else get_registration e j (sweep_expired now p)
       | None \<Rightarrow> get_registration e j (sweep_expired now p))"
proof -
  let ?p = "sweep_expired now p"
  have ok: "pending_ok ?p" using assms(1) by (rule pending_ok_sweep)
  note mod = pending_ok_with_registrations [OF ok bt.inv_modify, where e = "gq_endpoint q"]
  have "pending_ok p' \<and> get_challenge e i p' = get_challenge e i ?p \<and> get_registration e j p' =
      (case registration_for pr now q jti ?p of
         Some r \<Rightarrow> if e = gq_endpoint q \<and> j = jti then after_try pr q r else get_registration e j ?p
       | None \<Rightarrow> get_registration e j ?p)"
  proof (cases "registration_for pr now q jti ?p")
    case None
    with assms(2) ok show ?thesis by (auto simp: register_check_def Let_def)
  next
    case (Some r)
    then have get: "get_registration (gq_endpoint q) jti ?p = Some r"
      by (simp add: registration_for_get)
    show ?thesis
      using assms(2) Some get ok mod
      by (auto simp: register_check_def Let_def check_code_def after_try_def code_accepted_for_def
          get_registration_modify get_registration_remove
          intro: pending_ok_with_registrations bt.inv_remove split: if_splits)
  qed
  then show "pending_ok p'" "get_challenge e i p' = get_challenge e i ?p"
    "get_registration e j p' =
      (case registration_for pr now q jti ?p of
         Some r \<Rightarrow> if e = gq_endpoint q \<and> j = jti then after_try pr q r else get_registration e j ?p
       | None \<Rightarrow> get_registration e j ?p)"
    by blast+
qed

lemma register_check_accepted:
  assumes "register_check pr wa now q jti p = (p', Inr acc)"
  obtains r where "registration_for pr now q jti (sweep_expired now p) = Some r" "code_accepted_for pr q r"
  using assms by (auto simp: register_check_def Let_def check_code_def code_accepted_for_def
      split: option.splits if_splits)

lemma register_consume_pending:
  assumes "pending_ok p"
  shows "pending_ok (register_consume now q acc p)"
    and "get_registration e j (register_consume now q acc p) = Some r \<Longrightarrow> get_registration e j p = Some r"
    and "get_challenge e i (register_consume now q acc p) = Some c \<Longrightarrow> get_challenge e i p = Some c"
    and "get_registration (gq_endpoint q) (ac_jti acc) (register_consume now q acc p) = None"
proof -
  let ?p = "with_registrations (gq_endpoint q) (bt_remove (ac_jti acc)) p"
  let ?p' = "fst (consume_challenge (gq_endpoint q) (gq_challenge_id q) Register now ?p)"
  have ok: "pending_ok ?p" "pending_ok ?p'"
    using assms by (auto intro: pending_ok_with_registrations bt.inv_remove pending_ok_consume)
  have eq: "register_consume now q acc p = sweep_expired now ?p'"
    by (simp add: register_consume_def Let_def split: prod.splits)
  show "pending_ok (register_consume now q acc p)"
    unfolding eq by (rule pending_ok_sweep [OF ok(2)])
  show "get_registration e j (register_consume now q acc p) = Some r \<Longrightarrow> get_registration e j p = Some r"
    using ok assms by (auto simp: eq sweep_registrations get_registration_remove split: option.splits if_splits)
  show "get_challenge e i (register_consume now q acc p) = Some c \<Longrightarrow> get_challenge e i p = Some c"
    using ok by (auto simp: eq sweep_challenges get_challenge_consume split: option.splits if_splits)
  show "get_registration (gq_endpoint q) (ac_jti acc) (register_consume now q acc p) = None"
    using ok assms by (simp add: eq sweep_registrations get_registration_remove)
qed

lemma assert_consume_pending:
  assumes "pending_ok p" "assert_consume now q p = (p', res)"
  shows "pending_ok p'" and "res = challenge (aq_endpoint q) (aq_challenge_id q) Assert now p"
    and "get_registration e j p' = Some r \<Longrightarrow> get_registration e j p = Some r"
    and "get_challenge e i p' = Some c \<Longrightarrow> get_challenge e i p = Some c
           \<and> \<not> (e = aq_endpoint q \<and> i = aq_challenge_id q \<and> res \<noteq> None)"
proof -
  let ?p = "fst (consume_challenge (aq_endpoint q) (aq_challenge_id q) Assert now p)"
  have eq: "p' = sweep_expired now ?p"
    and res: "res = snd (consume_challenge (aq_endpoint q) (aq_challenge_id q) Assert now p)"
    using assms(2) by (simp_all add: assert_consume_def Let_def split: prod.splits)
  have ok: "pending_ok ?p" by (rule pending_ok_consume [OF assms(1)])
  show "pending_ok p'" unfolding eq by (rule pending_ok_sweep [OF ok])
  show r: "res = challenge (aq_endpoint q) (aq_challenge_id q) Assert now p"
    unfolding res by (rule consume_challenge_snd)
  show "get_registration e j p' = Some r \<Longrightarrow> get_registration e j p = Some r"
    using ok by (auto simp: eq sweep_registrations split: option.splits if_splits)
  show "get_challenge e i p' = Some c \<Longrightarrow> get_challenge e i p = Some c
           \<and> \<not> (e = aq_endpoint q \<and> i = aq_challenge_id q \<and> res \<noteq> None)"
    using ok assms(1) unfolding r
    by (auto simp: eq sweep_challenges get_challenge_consume split: option.splits if_splits)
qed

lemma challenge_blocking_pending:
  assumes "pending_ok p" "challenge_blocking pr wa io now cid q auth_read pending_read p = (p', answer)"
  shows "pending_ok p'" and "get_registration e j p' = Some r \<Longrightarrow> get_registration e j p = Some r"
    and "get_challenge e i p' = Some c \<Longrightarrow> get_challenge e i p = Some c \<or> i = cid"
proof -
  have "p' = p \<or> (\<exists>jti state. p' = issue_challenge now (new_challenge cid q jti state now) p)"
    using assms(2)
    by (auto simp: challenge_blocking_def store_update_def split: if_splits sum.splits option.splits) blast
  then show "pending_ok p'" "get_registration e j p' = Some r \<Longrightarrow> get_registration e j p = Some r"
    "get_challenge e i p' = Some c \<Longrightarrow> get_challenge e i p = Some c \<or> i = cid"
    using assms(1)
    by (auto simp: pending_ok_issue sweep_registrations sweep_challenges get_challenge_issue new_challenge_def
        split: option.splits if_splits)
qed

lemma passkey_add_files:
  assumes "passkey_add pr now raw label (user_id, secret, code, jti) w = Some (w', sub, jwt)"
  obtains e r where "wf_auth w' = wf_auth w" "wf_pending w' = add_registration now e jti r (wf_pending w)"
    "pr_code_attempts r = 0"
  using assms by (auto simp: passkey_add_def Let_def new_registration_def split: sum.splits option.splits)

section \<open>Invariants\<close>

fun request_now :: "request \<Rightarrow> nat" where
  "request_now (Verifying now q acc) = now"
| "request_now (Storing now q acc c) = now"
| "request_now (Consuming now q acc) = now"
| "request_now (Asserting now q response c) = now"

definition web_wf :: "web_system \<Rightarrow> bool" where
  "web_wf s \<longleftrightarrow> pending_ok (the_pending s) \<and> families_ok (the_auth s)
   \<and> (\<forall>e i f. get_family e i (the_auth s) = Some f \<longrightarrow> i \<in> sy_used s)
   \<and> (\<forall>e j r. get_registration e j (the_pending s) = Some r \<longrightarrow> j \<in> sy_used s)
   \<and> (\<forall>e i c. get_challenge e i (the_pending s) = Some c \<longrightarrow> i \<in> sy_used s)
   \<and> (\<forall>r \<in> set (sy_requests s). request_now r \<le> sy_now s)"

lemma web_wfD:
  assumes "web_wf s"
  shows "pending_ok (the_pending s)" "families_ok (the_auth s)" "families_sorted (the_auth s)"
    "i \<notin> sy_used s \<Longrightarrow> get_family e i (the_auth s) = None"
    "get_registration e j (the_pending s) = Some r \<Longrightarrow> j \<in> sy_used s"
    "get_challenge e i' (the_pending s) = Some c \<Longrightarrow> i' \<in> sy_used s"
    "q \<in> set (sy_requests s) \<Longrightarrow> request_now q \<le> sy_now s"
  using assms by (simp_all add: web_wf_def families_ok_def) (meson not_Some_eq, blast+)

text \<open>Every step changes \<open>auth.json\<close> the way \<open>file_evolves\<close> allows, at a time not after the clock.\<close>

lemma web_step_monotone:
  "web_step pr wa s s' \<Longrightarrow> sy_now s \<le> sy_now s' \<and> sy_used s \<subseteq> sy_used s'"
  by (cases rule: web_step.cases) (auto split: option.splits)

definition auth_step :: "web_system \<Rightarrow> web_system \<Rightarrow> bool" where
  "auth_step s s' \<longleftrightarrow> (\<exists>now \<le> sy_now s. file_evolves now (sy_used s') (the_auth s) (the_auth s'))
     \<and> families_sorted (the_auth s')"

lemma auth_stepI:
  "now \<le> sy_now s \<Longrightarrow> file_evolves now (sy_used s') (the_auth s) (the_auth s') \<Longrightarrow>
   families_sorted (the_auth s') \<Longrightarrow> auth_step s s'"
  by (auto simp: auth_step_def)

lemma auth_step_same: "families_sorted (the_auth s) \<Longrightarrow> the_auth s' = the_auth s \<Longrightarrow> auth_step s s'"
  by (rule auth_stepI [of "sy_now s"]) (simp_all add: file_evolves_refl)

lemma assert_store_refused:
  "assert_store wa now q response state agent fresh file = (a, Inl err) \<Longrightarrow> a = file"
  by (auto simp: assert_store_def Let_def split: option.splits sum.splits prod.splits)

lemma web_step_auth:
  assumes "web_wf s" "web_step pr wa s s'"
  shows "auth_step s s'"
proof -
  note wf = web_wfD [OF assms(1)]
  note same = auth_step_same [OF wf(3)]
  show ?thesis
    using assms(2)
  proof cases
    case (credential_stored now q acc c i agent access refresh a minted)
    have "now \<le> sy_now s" using wf(7) credential_stored(2) by fastforce
    then show ?thesis
      using credential_stored
        register_store_evolves [OF wf(2) wf(4), of i "insert i (sy_used s)" now pr q acc c agent access refresh]
        families_sorted_register_store [OF wf(3), of pr q acc c now agent "(i, access, refresh)"]
      by (intro auth_stepI [of now]) auto
  next
    case (assertion_accepted now q response c i agent access refresh a minted)
    have "now \<le> sy_now s" using wf(7) assertion_accepted(2) by fastforce
    then show ?thesis
      using assertion_accepted
        assert_store_evolves [OF wf(2) wf(4), of i "insert i (sy_used s)" now wa q response
          "pc_state c" agent access refresh]
        families_sorted_assert_store [OF wf(3), of wa now q response "pc_state c" agent "(i, access, refresh)"]
      by (intro auth_stepI [of now]) auto
  next
    case (refreshed now e presented new_refresh new_access a outcome)
    then show ?thesis
      using refresh_update_evolves [OF wf(2), of now "sy_used s" pr e presented new_refresh new_access]
        families_sorted_refresh [OF wf(3), of pr now e presented new_refresh new_access]
      by (intro auth_stepI [of now]) auto
  next
    case (passkey_removed now sub)
    then show ?thesis
      using wf(3) by (intro auth_stepI [of now]) (auto intro: tombstone_sub_evolves families_sorted_tombstone)
  next
    case (session_removed now i)
    then show ?thesis
      using wf(3) by (intro auth_stepI [of now]) (auto intro: session_remove_evolves families_sorted_session_remove)
  next
    case (passkey_added now jti raw label user_id secret code w sub jwt)
    then show ?thesis by (intro same) (auto elim!: passkey_add_files)
  next
    case (assertion_refused now q response c agent fresh a err)
    then show ?thesis by (intro same) (auto dest: assert_store_refused)
  next
    case (code_refused now q jti p err r s2)
    then show ?thesis by (intro same) (auto split: option.splits)
  qed (auto intro!: same)
qed

text \<open>And \<open>pending.json\<close> only ever gains entries under freshly drawn ids.\<close>

definition pending_step :: "web_system \<Rightarrow> web_system \<Rightarrow> bool" where
  "pending_step s s' \<longleftrightarrow> pending_ok (the_pending s')
   \<and> (\<forall>e j r. get_registration e j (the_pending s') = Some r \<longrightarrow>
        get_registration e j (the_pending s) \<noteq> None \<or> j \<in> sy_used s' - sy_used s)
   \<and> (\<forall>e i c. get_challenge e i (the_pending s') = Some c \<longrightarrow>
        get_challenge e i (the_pending s) = Some c \<or> i \<in> sy_used s' - sy_used s)"

lemma pending_stepI:
  assumes "pending_ok (the_pending s')"
    and "\<And>e j r. get_registration e j (the_pending s') = Some r \<Longrightarrow>
           (\<exists>r'. get_registration e j (the_pending s) = Some r') \<or> j \<in> sy_used s' - sy_used s"
    and "\<And>e i c. get_challenge e i (the_pending s') = Some c \<Longrightarrow>
           get_challenge e i (the_pending s) = Some c \<or> i \<in> sy_used s' - sy_used s"
  shows "pending_step s s'"
  using assms by (auto simp: pending_step_def)

lemma register_check_only_keeps:
  assumes "pending_ok p" "register_check pr wa now q jti p = (p', res)"
  shows "pending_ok p'"
    and "get_registration e j p' = Some r \<Longrightarrow> \<exists>r'. get_registration e j p = Some r'"
    and "get_challenge e i p' = Some c \<Longrightarrow> get_challenge e i p = Some c"
  using register_check_pending [OF assms] assms(1)
  by (auto simp: sweep_registrations sweep_challenges registration_for_get split: option.splits if_splits)

lemma web_step_pending:
  assumes "web_wf s" "web_step pr wa s s'"
  shows "pending_step s s'"
proof -
  note ok = web_wfD(1) [OF assms(1)]
  show ?thesis
    using assms(2)
  proof cases
    case (challenge_issued now cid io q auth_read pending_read p answer)
    then show ?thesis
      using challenge_blocking_pending [OF ok] by (intro pending_stepI) fastforce+
  next
    case (code_refused now q jti p err r s2)
    then show ?thesis
      using register_check_only_keeps [OF ok code_refused(4)] by (intro pending_stepI) (auto split: option.splits)
  next
    case (code_accepted now q jti p acc)
    then show ?thesis
      using register_check_only_keeps [OF ok code_accepted(4)] by (intro pending_stepI) auto
  next
    case (registration_consumed now q acc)
    then show ?thesis
      using register_consume_pending [OF ok] by (intro pending_stepI) auto
  next
    case (challenge_refused now q p)
    then show ?thesis
      using assert_consume_pending [OF ok challenge_refused(3)] by (intro pending_stepI) auto
  next
    case (challenge_consumed now q response p c)
    then show ?thesis
      using assert_consume_pending [OF ok challenge_consumed(4)] by (intro pending_stepI) auto
  next
    case (passkey_added now jti raw label user_id secret code w sub jwt)
    from passkey_added(4) obtain e r where "wf_pending w = add_registration now e jti r (the_pending s)"
      by (rule passkey_add_files)
    then show ?thesis
      using passkey_added ok
      by (intro pending_stepI)
         (auto simp: pending_ok_add get_registration_add sweep_registrations sweep_challenges
           split: option.splits if_splits)
  qed (use ok in \<open>auto intro!: pending_stepI\<close>)
qed

lemma in_remove1: "x \<in> set (remove1 y xs) \<Longrightarrow> x \<in> set xs"
  using set_remove1_subset by fast

lemma web_step_requests:
  assumes "\<forall>r \<in> set (sy_requests s). request_now r \<le> sy_now s" "web_step pr wa s s'"
  shows "\<forall>r \<in> set (sy_requests s'). request_now r \<le> sy_now s'"
  using assms(2,1)
proof cases
  case (credential_verified now q acc c)
  then show ?thesis using assms(1) by (fastforce dest: bspec in_remove1)
next
  case (credential_stored now q acc c i agent access refresh a minted)
  then show ?thesis using assms(1) by (fastforce dest: bspec in_remove1)
qed (use assms(1) in \<open>auto dest: in_remove1 split: option.splits intro: trans_le_add1\<close>)

lemma web_wf_step:
  assumes wf: "web_wf s" and step: "web_step pr wa s s'"
  shows "web_wf s'"
proof -
  from web_step_auth [OF wf step] obtain now where
    ev: "file_evolves now (sy_used s') (the_auth s) (the_auth s')" "families_sorted (the_auth s')"
    by (auto simp: auth_step_def)
  note p = web_step_pending [OF wf step, unfolded pending_step_def]
  have used: "sy_used s \<subseteq> sy_used s'" using web_step_monotone [OF step] by simp
  have "i \<in> sy_used s'" if "get_family e i (the_auth s') = Some f" for e i f
    using ev(1) that
  proof (rule file_evolvesE)
    fix f assume "get_family e i (the_auth s) = Some f"
    then show ?thesis using wf used by (auto simp: web_wf_def)
  qed
  moreover have "j \<in> sy_used s'" if "get_registration e j (the_pending s') = Some r" for e j r
    using p that wf used unfolding web_wf_def by (metis DiffD1 not_Some_eq subsetD)
  moreover have "i \<in> sy_used s'" if "get_challenge e i (the_pending s') = Some c" for e i c
    using p that wf used unfolding web_wf_def by (metis DiffD1 subsetD)
  moreover have "\<forall>r \<in> set (sy_requests s'). request_now r \<le> sy_now s'"
    using web_step_requests [OF _ step] wf by (simp add: web_wf_def)
  ultimately show ?thesis
    using families_ok_evolves [OF web_wfD(2) [OF wf] ev] p by (auto simp: web_wf_def)
qed

lemma web_wf_init: "web_wf (web_init now)"
  by (simp add: web_wf_def web_init_def pending_ok_def families_ok_def families_sorted_def
      get_family_def get_registration_def get_challenge_def)

lemma web_steps_wf: "(web_step pr wa)\<^sup>*\<^sup>* s s' \<Longrightarrow> web_wf s \<Longrightarrow> web_wf s'"
  by (induction rule: rtranclp_induct) (auto intro: web_wf_step)

lemma web_reachable_wf: "web_reachable pr wa now s \<Longrightarrow> web_wf s"
  by (rule web_steps_wf [OF _ web_wf_init])

subsection \<open>Expiry times are bounded\<close>

lemma find_live_family_get:
  assumes "families_ok file" "find_live_family_by_access presented now file = Some f"
  shows "get_family (fam_endpoint f) (fam_id f) file = Some f" "holds_live_access presented now f"
proof -
  from assms(2) have "f \<in> set (concat (map bt_values (bt_values (families file))))"
      and live: "holds_live_access presented now f"
    by (auto simp: find_live_family_by_access_def find_Some_iff simp del: set_concat)
  then obtain by_id where "by_id \<in> set (bt_values (families file))" "f \<in> set (bt_values by_id)" by auto
  then obtain e i where "bt_get e (families file) = Some by_id" "bt_get i by_id = Some f"
    using assms(1) by (auto simp: families_ok_def families_sorted_def bt_values_get)
  then have "get_family e i file = Some f" by (simp add: get_family_def)
  moreover from this assms(1) have "fam_endpoint f = e" "fam_id f = i" by (auto simp: families_ok_def)
  ultimately show "get_family (fam_endpoint f) (fam_id f) file = Some f" by simp
  show "holds_live_access presented now f" by (rule live)
qed

lemma require_auth_pass:
  assumes "families_ok file" "require_auth now hs (Inr file) = Pass ident"
  obtains f where "get_family (id_endpoint ident) (id_family_id ident) file = Some f"
    "\<not> fam_is_tombstoned f" "id_access_expires_at ident = tg_expires_at (fam_access f)"
proof -
  from assms(2) obtain presented f where "find_live_family_by_access presented now file = Some f"
      and "ident = \<lparr>id_sub = fam_sub f, id_endpoint = fam_endpoint f, id_family_id = fam_id f,
                    id_access_expires_at = tg_expires_at (fam_access f)\<rparr>"
    by (auto simp: require_auth_def split: option.splits)
  with find_live_family_get [OF assms(1)] that show thesis
    by (simp add: holds_live_access_def)
qed

lemma ws_extend_ok:
  assumes "ws_extend_at presented now (Inr file) ws = (ws', Inr t)"
  obtains f where "get_family (ws_endpoint ws) (ws_family_id ws) file = Some f"
    "\<not> fam_is_tombstoned f" "ws' = ws\<lparr>ws_expires_at := tg_expires_at (fam_access f)\<rparr>"
  using assms by (auto simp: ws_extend_at_def split: option.splits if_splits)

lemma family_evolves_access:
  "family_evolves now f f' \<Longrightarrow>
   tg_expires_at (fam_access f') \<le> max (tg_expires_at (fam_access f)) (now + ACCESS_TTL_MS)"
  by (induction rule: family_evolves.induct) (auto simp: rotate_refresh_def Let_def)

text \<open>The sockets and the upgrades in progress, as sets of (endpoint, family, expiry).\<close>

definition holders :: "web_system \<Rightarrow> (endpoint \<times> string \<times> nat) set" where
  "holders s = (\<lambda>x. (id_endpoint x, id_family_id x, id_access_expires_at x)) ` set (sy_upgrading s)
             \<union> (\<lambda>ws. (ws_endpoint ws, ws_family_id ws, ws_expires_at ws)) ` set (sy_sockets s)"

lemma web_step_holders:
  assumes wf: "web_wf s" and step: "web_step pr wa s s'" and "(e, i, t) \<in> holders s'"
  shows "(e, i, t) \<in> holders s
       \<or> (\<exists>f. get_family e i (the_auth s) = Some f \<and> \<not> fam_is_tombstoned f \<and> t = tg_expires_at (fam_access f))"
  using step assms(3)
proof cases
  case (upgrade_passed now hs ident)
  from require_auth_pass [OF web_wfD(2) [OF wf] upgrade_passed(3)] obtain f where
    "get_family (id_endpoint ident) (id_family_id ident) (the_auth s) = Some f"
    "\<not> fam_is_tombstoned f" "id_access_expires_at ident = tg_expires_at (fam_access f)" by metis
  with upgrade_passed assms(3) show ?thesis by (auto simp: holders_def)
next
  case (socket_extended now ws presented ws' t')
  from ws_extend_ok [OF socket_extended(4)] obtain f where
    "get_family (ws_endpoint ws) (ws_family_id ws) (the_auth s) = Some f"
    "\<not> fam_is_tombstoned f" "ws' = ws\<lparr>ws_expires_at := tg_expires_at (fam_access f)\<rparr>" by metis
  with socket_extended assms(3) show ?thesis by (auto simp: holders_def dest: in_remove1)
qed (auto simp: holders_def ws_auth_new_def dest: in_remove1 split: option.splits)

definition holders_bounded :: "web_system \<Rightarrow> bool" where
  "holders_bounded s \<longleftrightarrow>
     (\<forall>e i f. get_family e i (the_auth s) = Some f \<longrightarrow> tg_expires_at (fam_access f) \<le> sy_now s + ACCESS_TTL_MS)
   \<and> (\<forall>(e, i, t) \<in> holders s. t \<le> sy_now s + ACCESS_TTL_MS)"

lemma holders_bounded_step:
  assumes wf: "web_wf s" and step: "web_step pr wa s s'" and b: "holders_bounded s"
  shows "holders_bounded s'"
proof -
  from web_step_auth [OF wf step] obtain now where now: "now \<le> sy_now s"
      and ev: "file_evolves now (sy_used s') (the_auth s) (the_auth s')"
    by (auto simp: auth_step_def)
  have mono: "sy_now s \<le> sy_now s'" using web_step_monotone [OF step] by simp
  have "tg_expires_at (fam_access f) \<le> sy_now s' + ACCESS_TTL_MS"
    if "get_family e i (the_auth s') = Some f" for e i f
    using ev that
  proof (rule file_evolvesE)
    fix g assume "get_family e i (the_auth s) = Some g" "family_evolves now g f"
    moreover from this b have "tg_expires_at (fam_access g) \<le> sy_now s + ACCESS_TTL_MS"
      unfolding holders_bounded_def by blast
    ultimately show ?thesis using now mono family_evolves_access [of now g f] by linarith
  next
    fix sub access refresh assume "f = new_family e sub i access refresh now"
    then show ?thesis using now mono by (simp add: new_family_def)
  qed
  moreover have "t \<le> sy_now s' + ACCESS_TTL_MS" if "(e, i, t) \<in> holders s'" for e i t
    using web_step_holders [OF wf step that] b mono unfolding holders_bounded_def by force
  ultimately show ?thesis unfolding holders_bounded_def by blast
qed

text \<open>A revoked family: it stays in the file as it is, and nobody gains time through it.\<close>

lemma revoked_step:
  assumes wf: "web_wf s" and step: "web_step pr wa s s'"
    and f: "get_family e i (the_auth s) = Some f" "fam_tombstoned_at f = Some t"
  shows "get_family e i (the_auth s') = Some f"
    and "(e, i, x) \<in> holders s' \<Longrightarrow> (e, i, x) \<in> holders s"
proof -
  from web_step_auth [OF wf step] obtain now where
    "file_evolves now (sy_used s') (the_auth s) (the_auth s')" by (auto simp: auth_step_def)
  from file_evolves_tombstoned [OF this f] show "get_family e i (the_auth s') = Some f" .
  show "(e, i, x) \<in> holders s' \<Longrightarrow> (e, i, x) \<in> holders s"
    using web_step_holders [OF wf step, of e i x] f by (auto simp: fam_is_tombstoned_def)
qed

lemma revoked_steps:
  assumes "(web_step pr wa)\<^sup>*\<^sup>* s s'" "web_wf s"
    and "get_family e i (the_auth s) = Some f" "fam_tombstoned_at f = Some t"
  shows "get_family e i (the_auth s') = Some f \<and> (\<forall>x. (e, i, x) \<in> holders s' \<longrightarrow> (e, i, x) \<in> holders s)"
  using assms
proof (induction rule: rtranclp_induct)
  case (step y z)
  have "web_wf y" using web_steps_wf [OF step.hyps(1)] step.prems by blast
  with revoked_step [OF this step.hyps(2)] step show ?case by blast
qed simp

lemma web_reachable_bounded: "web_reachable pr wa now s \<Longrightarrow> holders_bounded s"
proof (induction rule: rtranclp_induct)
  case base
  show ?case by (simp add: holders_bounded_def web_init_def get_family_def holders_def)
next
  case (step y z)
  then show ?case using holders_bounded_step [OF web_reachable_wf] by blast
qed

section \<open>Properties\<close>


subsection \<open>Counting\<close>

definition wrong_codes :: "endpoint \<Rightarrow> string \<Rightarrow> web_event list \<Rightarrow> nat" where
  "wrong_codes e j evs = length (filter ((=) (CodeTried e j False)) evs)"

definition consumptions :: "endpoint \<Rightarrow> string \<Rightarrow> web_event list \<Rightarrow> nat" where
  "consumptions e i evs = length (filter ((=) (AssertConsumed e i)) evs)"

lemma count_simps [simp]:
  "wrong_codes e j [] = 0" "consumptions e i [] = 0"
  "wrong_codes e j (ev # evs) = (if ev = CodeTried e j False then 1 else 0) + wrong_codes e j evs"
  "consumptions e i (ev # evs) = (if ev = AssertConsumed e i then 1 else 0) + consumptions e i evs"
  by (auto simp: wrong_codes_def consumptions_def)

definition code_inv :: "web_system \<Rightarrow> bool" where
  "code_inv s \<longleftrightarrow> (\<forall>e j. wrong_codes e j (sy_log s) \<le> CODE_ATTEMPT_LIMIT
   \<and> (\<forall>r. get_registration e j (the_pending s) = Some r \<longrightarrow>
        pr_code_attempts r = wrong_codes e j (sy_log s) \<and> wrong_codes e j (sy_log s) < CODE_ATTEMPT_LIMIT)
   \<and> (j \<notin> sy_used s \<longrightarrow> wrong_codes e j (sy_log s) = 0))"

definition registrations_from :: "web_system \<Rightarrow> web_system \<Rightarrow> bool" where
  "registrations_from s s' \<longleftrightarrow> (\<forall>e j r. get_registration e j (the_pending s') = Some r \<longrightarrow>
     get_registration e j (the_pending s) = Some r \<or> (j \<notin> sy_used s \<and> pr_code_attempts r = 0))"

lemma code_inv_quiet:
  assumes "code_inv s" "registrations_from s s'" "sy_used s \<subseteq> sy_used s'"
    and "\<And>e j. wrong_codes e j (sy_log s') = wrong_codes e j (sy_log s)"
  shows "code_inv s'"
proof -
  have lim: "0 < CODE_ATTEMPT_LIMIT" by (simp add: CODE_ATTEMPT_LIMIT_def)
  have "pr_code_attempts r = wrong_codes e j (sy_log s) \<and> wrong_codes e j (sy_log s) < CODE_ATTEMPT_LIMIT"
    if "get_registration e j (the_pending s') = Some r" for e j r
    using assms(1,2) that lim unfolding registrations_from_def code_inv_def by metis
  moreover have "wrong_codes e j (sy_log s) = 0" if "j \<notin> sy_used s'" for e j
    using assms(1,3) that unfolding code_inv_def by blast
  ultimately show ?thesis using assms(1) unfolding code_inv_def assms(4) by blast
qed

lemma sweep_only_forgets:
  "pending_ok p \<Longrightarrow> get_registration e j (sweep_expired now p) = Some r \<Longrightarrow> get_registration e j p = Some r"
  by (auto simp: sweep_registrations split: option.splits if_splits)

lemma code_inv_tried:
  assumes inv: "code_inv s" and ok: "pending_ok (the_pending s)"
    and check: "register_check pr wa now q jti (the_pending s) = (p, res)"
    and r: "registration_for pr now q jti (sweep_expired now (the_pending s)) = Some r"
    and s': "the_pending s' = p" "sy_used s' = sy_used s"
      "sy_log s' = CodeTried (gq_endpoint q) jti (code_accepted_for pr q r) # sy_log s"
    and used: "jti \<in> sy_used s"
  shows "code_inv s'"
proof -
  note get = register_check_pending(3) [OF ok check, unfolded r option.case]
  have "get_registration (gq_endpoint q) jti (the_pending s) = Some r"
    using r sweep_only_forgets [OF ok] by (auto simp: registration_for_get)
  then have w: "pr_code_attempts r = wrong_codes (gq_endpoint q) jti (sy_log s)"
      "pr_code_attempts r < CODE_ATTEMPT_LIMIT"
    using inv by (auto simp: code_inv_def)
  have small: "min (pr_code_attempts r + 1) (2 ^ 32 - 1) = pr_code_attempts r + 1"
    using w(2) by (simp add: CODE_ATTEMPT_LIMIT_def)
  have "wrong_codes e j (sy_log s') \<le> CODE_ATTEMPT_LIMIT
      \<and> (\<forall>r'. get_registration e j p = Some r' \<longrightarrow>
           pr_code_attempts r' = wrong_codes e j (sy_log s') \<and> wrong_codes e j (sy_log s') < CODE_ATTEMPT_LIMIT)
      \<and> (j \<notin> sy_used s \<longrightarrow> wrong_codes e j (sy_log s') = 0)" for e j
  proof (cases "e = gq_endpoint q \<and> j = jti")
    case True
    then show ?thesis
      using w used small by (auto simp: get after_try_def s' Let_def split: if_splits)
  next
    case False
    then have "wrong_codes e j (sy_log s') = wrong_codes e j (sy_log s)" by (auto simp: s')
    moreover have "get_registration e j p = Some r' \<Longrightarrow> get_registration e j (the_pending s) = Some r'" for r'
      using False sweep_only_forgets [OF ok] by (auto simp: get)
    ultimately show ?thesis using inv unfolding code_inv_def by metis
  qed
  then show ?thesis unfolding code_inv_def s'(1,2) by blast
qed

lemma code_inv_step:
  assumes wf: "web_wf s" and step: "web_step pr wa s s'" and inv: "code_inv s"
  shows "code_inv s'"
proof -
  note ok = web_wfD(1) [OF wf]
  have used: "sy_used s \<subseteq> sy_used s'" using web_step_monotone [OF step] by simp
  have known: "jti \<in> sy_used s" if "registration_for pr now q jti (sweep_expired now (the_pending s)) = Some r"
    for now q jti r
    using that web_wfD(5) [OF wf] sweep_only_forgets [OF ok] unfolding registration_for_get by blast
  note quiet = code_inv_quiet [OF inv _ used]
  show ?thesis
    using step
  proof cases
    case (challenge_issued now cid io q auth_read pending_read p answer)
    then show ?thesis
      using challenge_blocking_pending(2) [OF ok] by (intro quiet) (auto simp: registrations_from_def)
  next
    case (code_refused now q jti p err r s2)
    show ?thesis
    proof (cases r)
      case None
      then show ?thesis
        using code_refused register_check_pending(3) [OF ok code_refused(4)] sweep_only_forgets [OF ok]
        by (intro quiet) (auto simp: registrations_from_def)
    next
      case (Some r0)
      then show ?thesis
        using code_refused known by (intro code_inv_tried [OF inv ok code_refused(4), of r0])
          (auto simp: check_code_outcome)
    qed
  next
    case (code_accepted now q jti p acc)
    from code_accepted(4) obtain r where "registration_for pr now q jti (sweep_expired now (the_pending s)) = Some r"
      "code_accepted_for pr q r" by (rule register_check_accepted)
    then show ?thesis
      using code_accepted known by (intro code_inv_tried [OF inv ok code_accepted(4), of r]) auto
  next
    case (registration_consumed now q acc)
    then show ?thesis
      using register_consume_pending(2) [OF ok] by (intro quiet) (auto simp: registrations_from_def)
  next
    case (challenge_refused now q p)
    then show ?thesis
      using assert_consume_pending(3) [OF ok challenge_refused(3)] by (intro quiet) (auto simp: registrations_from_def)
  next
    case (challenge_consumed now q response p c)
    then show ?thesis
      using assert_consume_pending(3) [OF ok challenge_consumed(4)] by (intro quiet) (auto simp: registrations_from_def)
  next
    case (passkey_added now jti raw label user_id secret code w sub jwt)
    from passkey_added(4) obtain e r where "wf_pending w = add_registration now e jti r (the_pending s)"
      "pr_code_attempts r = 0" by (rule passkey_add_files)
    then show ?thesis
      using passkey_added ok sweep_only_forgets [OF ok]
      by (intro quiet) (auto simp: registrations_from_def get_registration_add split: if_splits)
  qed (rule quiet; auto simp: registrations_from_def)+
qed

text \<open>C23. Code guessing is bounded. In every reachable state, however the requests of all
  gateways interleave, at most five wrong codes have been answered for a registration, a
  registration still on file has had fewer than five, and its counter is exact.\<close>
theorem code_guesses_bounded:
  assumes "web_reachable pr wa now0 s"
  shows "wrong_codes e jti (sy_log s) \<le> 5
       \<and> (\<forall>r. get_registration e jti (the_pending s) = Some r \<longrightarrow>
            pr_code_attempts r = wrong_codes e jti (sy_log s) \<and> wrong_codes e jti (sy_log s) < 5)"
proof -
  from assms have "code_inv s"
  proof (induction rule: rtranclp_induct)
    case base
    show ?case by (simp add: code_inv_def web_init_def get_registration_def)
  next
    case (step y z)
    then show ?case using code_inv_step [OF web_reachable_wf] by blast
  qed
  then show ?thesis unfolding code_inv_def CODE_ATTEMPT_LIMIT_def by blast
qed

definition proof_inv :: "web_system \<Rightarrow> bool" where
  "proof_inv s \<longleftrightarrow> (\<forall>e i. consumptions e i (sy_log s) \<le> 1
   \<and> (get_challenge e i (the_pending s) \<noteq> None \<or> i \<notin> sy_used s \<longrightarrow> consumptions e i (sy_log s) = 0))"

lemma proof_inv_quiet:
  assumes "proof_inv s" "pending_step s s'" "sy_used s \<subseteq> sy_used s'"
    and log: "\<And>e i. consumptions e i (sy_log s') = consumptions e i (sy_log s)"
  shows "proof_inv s'"
proof -
  have "consumptions e i (sy_log s) = 0"
    if "get_challenge e i (the_pending s') \<noteq> None \<or> i \<notin> sy_used s'" for e i
    using assms(1-3) that unfolding pending_step_def proof_inv_def by blast
  then show ?thesis using assms(1) unfolding proof_inv_def log by blast
qed

lemma proof_inv_step:
  assumes wf: "web_wf s" and step: "web_step pr wa s s'" and inv: "proof_inv s"
  shows "proof_inv s'"
proof -
  note ok = web_wfD(1) [OF wf]
  have used: "sy_used s \<subseteq> sy_used s'" using web_step_monotone [OF step] by simp
  note quiet = proof_inv_quiet [OF inv web_step_pending [OF wf step] used]
  show ?thesis
    using step
  proof cases
    case (challenge_consumed now q response p c)
    note p = assert_consume_pending [OF ok challenge_consumed(4)]
    have "get_challenge (aq_endpoint q) (aq_challenge_id q) (the_pending s) = Some c"
      using p(2) by (auto simp: challenge_get split: option.splits if_splits)
    then have zero: "consumptions (aq_endpoint q) (aq_challenge_id q) (sy_log s) = 0"
        "aq_challenge_id q \<in> sy_used s"
      using inv web_wfD(6) [OF wf] unfolding proof_inv_def by blast+
    have gone: "get_challenge (aq_endpoint q) (aq_challenge_id q) p = None"
      using p(4) [of "aq_endpoint q" "aq_challenge_id q"] by (metis not_Some_eq option.distinct(1))
    have "consumptions e i (sy_log s') \<le> 1 \<and>
        (get_challenge e i (the_pending s') \<noteq> None \<or> i \<notin> sy_used s' \<longrightarrow> consumptions e i (sy_log s') = 0)" for e i
    proof (cases "e = aq_endpoint q \<and> i = aq_challenge_id q")
      case True
      then show ?thesis using challenge_consumed zero gone by simp
    next
      case False
      then have "consumptions e i (sy_log s') = consumptions e i (sy_log s)"
        using challenge_consumed by auto
      moreover have "get_challenge e i p \<noteq> None \<Longrightarrow> get_challenge e i (the_pending s) \<noteq> None"
        using p(4) [of e i] by auto
      ultimately show ?thesis using inv challenge_consumed unfolding proof_inv_def by simp
    qed
    then show ?thesis unfolding proof_inv_def by blast
  qed (rule quiet; auto split: option.splits)+
qed

text \<open>Proofs of identity given, sessions minted, and requests that hold an unspent proof.\<close>

fun is_proof :: "web_event \<Rightarrow> bool" where
  "is_proof (CodeTried e j right) = right"
| "is_proof (AssertConsumed e i) = True"
| "is_proof (Minted e i) = False"

fun holds_proof :: "request \<Rightarrow> bool" where
  "holds_proof (Consuming now q acc) = False"
| "holds_proof _ = True"

definition proofs_given :: "web_event list \<Rightarrow> nat" where
  "proofs_given evs = length (filter is_proof evs)"

definition sessions_minted :: "web_event list \<Rightarrow> nat" where
  "sessions_minted evs = length (filter (\<lambda>ev. \<exists>e i. ev = Minted e i) evs)"

definition unspent :: "request list \<Rightarrow> nat" where
  "unspent rs = length (filter holds_proof rs)"

lemma accounting_simps [simp]:
  "proofs_given [] = 0" "proofs_given (ev # evs) = of_bool (is_proof ev) + proofs_given evs"
  "sessions_minted [] = 0"
  "sessions_minted (Minted e i # evs) = Suc (sessions_minted evs)"
  "sessions_minted (CodeTried e i b # evs) = sessions_minted evs"
  "sessions_minted (AssertConsumed e i # evs) = sessions_minted evs"
  "unspent [] = 0" "unspent (r # rs) = of_bool (holds_proof r) + unspent rs"
  by (auto simp: proofs_given_def sessions_minted_def unspent_def)

lemma unspent_remove1_le: "unspent (remove1 r rs) \<le> unspent rs"
  by (induction rs) auto

lemma unspent_remove1: "r \<in> set rs \<Longrightarrow> unspent rs = of_bool (holds_proof r) + unspent (remove1 r rs)"
  by (induction rs) auto

lemma accounting_step:
  assumes "web_step pr wa s s'" "sessions_minted (sy_log s) + unspent (sy_requests s) \<le> proofs_given (sy_log s)"
  shows "sessions_minted (sy_log s') + unspent (sy_requests s') \<le> proofs_given (sy_log s')"
  using assms
proof cases
  case (abandon r)
  then show ?thesis using assms(2) unspent_remove1_le [of r "sy_requests s"] by simp
qed (auto dest!: unspent_remove1 split: option.splits)

lemma web_step_new_family:
  assumes wf: "web_wf s" and step: "web_step pr wa s s'"
    and new: "get_family e j (the_auth s') = Some f" "get_family e j (the_auth s) = None"
  shows "\<exists>e'. Minted e' j \<in> set (sy_log s')"
proof -
  note wf' = web_wfD [OF wf]
  have none: False if "file_evolves now {} (the_auth s) (the_auth s')" for now
    using that new by (auto elim!: file_evolvesE)
  show ?thesis
    using step
  proof cases
    case (credential_stored now q acc c i agent access refresh a minted)
    then have "file_evolves now {i} (the_auth s) (the_auth s')"
      using register_store_evolves [OF wf'(2) wf'(4), of i "{i}" now pr q acc c agent access refresh] by simp
    then show ?thesis using new credential_stored by (auto elim!: file_evolvesE)
  next
    case (assertion_accepted now q response c i agent access refresh a minted)
    then have "file_evolves now {i} (the_auth s) (the_auth s')"
      using assert_store_evolves [OF wf'(2) wf'(4), of i "{i}" now wa q response
          "pc_state c" agent access refresh] by simp
    then show ?thesis using new assertion_accepted by (auto elim!: file_evolvesE)
  next
    case (refreshed now e presented new_refresh new_access a outcome)
    then show ?thesis
      using none refresh_update_evolves [OF wf'(2), of now "{}" pr e presented new_refresh new_access]
      by fastforce
  next
    case (passkey_removed now sub)
    then show ?thesis using none tombstone_sub_evolves by fastforce
  next
    case (session_removed now i)
    then show ?thesis using none session_remove_evolves by fastforce
  next
    case (passkey_added now jti raw label user_id secret code w sub jwt)
    then show ?thesis using new by (auto elim!: passkey_add_files)
  next
    case (assertion_refused now q response c agent fresh a err)
    then show ?thesis using new by (auto dest: assert_store_refused)
  next
    case (code_refused now q jti p err r s2)
    then show ?thesis using new by (auto split: option.splits)
  qed (use new in auto)
qed

lemma sy_log_grows: "web_step pr wa s s' \<Longrightarrow> set (sy_log s) \<subseteq> set (sy_log s')"
  by (cases rule: web_step.cases) (auto split: option.splits)


subsection \<open>Refreshing\<close>

text \<open>The family a presented value selects: the first of the endpoint that knows it.\<close>

definition selected_family :: "primitives \<Rightarrow> nat \<Rightarrow> endpoint \<Rightarrow> string \<Rightarrow> auth_file \<Rightarrow> (string \<times> family_record) option" where
  "selected_family pr now e presented file =
     (case bt_get e (families file) of
        None \<Rightarrow> None
      | Some by_id \<Rightarrow> find (\<lambda>(_, f). classify_refresh (sha256 pr) presented now f \<noteq> Unknown) by_id)"

lemma refresh_update_selected:
  assumes "selected_family pr now e presented file = Some (i, f)"
  shows "refresh_update pr now e presented r a file =
    (if fam_is_tombstoned f then (file, Inl Revoked)
     else case classify_refresh (sha256 pr) presented now f of
       Reused \<Rightarrow> (modify_family e i (\<lambda>f. f\<lparr>fam_tombstoned_at := Some now\<rparr>) file, Inl ReusedFailure)
     | outcome \<Rightarrow>
         let f = (if outcome = Current then rotate_refresh (sha256 pr) r a now f else f);
             file = modify_family e i (\<lambda>_. f) file in
         if \<not> tg_is_live now (fam_refresh f) \<or> \<not> tg_is_live now (fam_access f)
         then (file, Inl Revoked) else (file, Inr (session_of_family f)))"
proof -
  from assms obtain by_id where "bt_get e (families file) = Some by_id"
      "find (\<lambda>(_, f). classify_refresh (sha256 pr) presented now f \<noteq> Unknown) by_id = Some (i, f)"
    by (auto simp: selected_family_def split: option.splits)
  then show ?thesis by (simp add: refresh_update_def)
qed

lemma selected_family_get:
  assumes "families_ok file" "selected_family pr now e presented file = Some (i, f)"
  shows "get_family e i file = Some f" "classify_refresh (sha256 pr) presented now f \<noteq> Unknown"
  using assms find_in_by_id [of "file" e] by (force simp: selected_family_def split: option.splits)+

lemma rotated_access_live: "tg_is_live now (fam_access (rotate_refresh sha r a now f))"
  by (auto simp: rotate_refresh_def Let_def tg_is_live_def ACCESS_TTL_MS_def)

lemma refresh_update_simp:
  assumes ok: "families_ok file" and sel: "selected_family pr now e presented file = Some (i, f)"
  shows "refresh_update pr now e presented r a file =
    (if fam_is_tombstoned f then (file, Inl Revoked)
     else if tg_value (fam_refresh f) = presented
     then (modify_family e i (\<lambda>_. rotate_refresh (sha256 pr) r a now f) file,
           Inr (session_of_family (rotate_refresh (sha256 pr) r a now f)))
     else if classify_refresh (sha256 pr) presented now f = Reused
     then (modify_family e i (\<lambda>f. f\<lparr>fam_tombstoned_at := Some now\<rparr>) file, Inl ReusedFailure)
     else (modify_family e i (\<lambda>_. f) file,
           if tg_is_live now (fam_refresh f) \<and> tg_is_live now (fam_access f)
           then Inr (session_of_family f) else Inl Revoked))"
proof -
  have "tg_is_live now (fam_refresh (rotate_refresh (sha256 pr) r a now f))"
    by (simp add: tg_is_live_def REFRESH_TTL_MS_def)
  then show ?thesis
    using selected_family_get(2) [OF ok sel]
    by (simp add: refresh_update_selected [OF sel] rotated_access_live Let_def
        split: refresh_outcome.splits) (auto simp: classify_refresh_simp split: if_splits)
qed


text \<open>The lifetime of a refresh value is not enforced on the current generation: however long
  ago the refresh value of a family expired, presenting it rotates the family and answers with
  a new session, because the liveness check looks at the generation the rotation just made.\<close>
theorem expired_refresh_still_rotates:
  assumes "families_ok file" "selected_family pr now e presented file = Some (i, f)"
    and "\<not> fam_is_tombstoned f" "presented = tg_value (fam_refresh f)"
    and "tg_expires_at (fam_refresh f) \<le> now"
  shows "\<exists>file' m. refresh_update pr now e presented new_refresh new_access file = (file', Inr m)
       \<and> ms_refresh m = new_refresh \<and> now < ms_access_expires_at m"
  using assms rotated_access_live [of now "sha256 pr" new_refresh new_access f]
  by (simp add: refresh_update_simp session_of_family_def tg_is_live_def)

subsection \<open>Registering\<close>

lemma sweep_sweep_registration:
  "pending_ok p \<Longrightarrow> get_registration e j (sweep_expired now (sweep_expired now p)) =
   get_registration e j (sweep_expired now p)"
  by (auto simp: sweep_registrations pending_ok_sweep split: option.splits)

lemma register_check_denied:
  assumes "pending_ok p" "get_registration (gq_endpoint q) jti p = None"
  shows "snd (register_check pr wa now q jti p) = Inl Denied"
proof -
  have "registration_for pr now q jti (sweep_expired now p) = None"
    using assms by (cases "registration_for pr now q jti (sweep_expired now p)")
      (auto simp: registration_for_get sweep_registrations)
  then show ?thesis by (simp add: register_check_def)
qed

lemma register_blocking_Inr:
  assumes "register_blocking pr wa io1 io3 io4 now q agent fresh w = (w', Inr m)"
  obtains jti p acc where "peek_jti pr (gq_jwt q) = Inr jti"
    "register_check pr wa now q jti (wf_pending w) = (p, Inr acc)"
    "wf_pending w' = register_consume now q acc p"
  using assms
  by (auto simp: register_blocking_def store_update_def Let_def
      split: if_splits sum.splits option.splits prod.splits)

lemma register_check_jti:
  "register_check pr wa now q jti p = (p', Inr acc) \<Longrightarrow> ac_jti acc = jti"
  by (auto simp: register_check_def Let_def accept_challenge_def split: option.splits prod.splits
      code_outcome.splits if_splits)

lemma get_family_register_store:
  assumes "families_ok file"
  shows "get_family e j (fst (register_store pr q acc c now agent (i, access, refresh) file)) =
    (if e = gq_endpoint q \<and> j = i then Some (new_family (gq_endpoint q) (ac_sub acc) i access refresh now)
     else get_family e j file)"
proof -
  let ?file = "insert_credential (base64url pr) (gq_endpoint q) (registered_credential q acc c now agent) file"
  have same: "get_family e j ?file = get_family e j file" "families_sorted ?file = families_sorted file" for e j
    by (simp_all add: insert_credential_def Let_def)
  then have "families_ok ?file" using assms by (simp add: families_ok_def)
  from get_family_mint [OF this] same show ?thesis
    by (simp add: register_store_def mint_def split: prod.splits) (metis fst_conv)
qed


lemma register_check_right_code:
  assumes "registration_for pr now q jti (sweep_expired now p) = Some r" "code_accepted_for pr q r"
  shows "snd (register_check pr wa now q jti p) = accept_challenge wa now q jti r (sweep_expired now p)"
  using assms by (simp add: register_check_def Let_def check_code_def code_accepted_for_def accept_challenge_def)

lemma accept_challenge_cong:
  assumes "\<And>e j. get_challenge e j p = get_challenge e j p'"
    and "gq_endpoint q2 = gq_endpoint q1" "gq_challenge_id q2 = gq_challenge_id q1"
  shows "accept_challenge wa now q2 jti r p = accept_challenge wa now q1 jti r p'"
  by (simp add: accept_challenge_def challenge_get assms)

text \<open>Two registration requests that overlap spend one URL, one code and one challenge twice.
  When the first request passed its check and has not consumed the registration yet, the check
  of a second request with the same token, code and challenge passes too; when both browser
  responses verify, both store their credential and both sessions are in the file.\<close>
theorem overlapping_registrations_both_succeed:
  assumes ok: "pending_ok (wf_pending w)" "families_ok (wf_auth w)"
    and check: "register_check pr wa now q1 jti (wf_pending w) = (p1, Inr acc)"
    and same: "gq_endpoint q2 = gq_endpoint q1" "gq_jwt q2 = gq_jwt q1" "gq_code q2 = gq_code q1"
      "gq_challenge_id q2 = gq_challenge_id q1"
    and fresh: "get_family (gq_endpoint q1) i1 (wf_auth w) = None"
      "get_family (gq_endpoint q1) i2 (wf_auth w) = None" "i1 \<noteq> i2"
    and a1: "a1 = fst (register_store pr q1 acc c1 now agent1 (i1, x1, r1) (wf_auth w))"
    and a2: "a2 = fst (register_store pr q2 acc c2 now agent2 (i2, x2, r2) a1)"
  shows "snd (register_check pr wa now q2 jti p1) = Inr acc
       \<and> get_family (gq_endpoint q1) i1 a2 \<noteq> None \<and> get_family (gq_endpoint q1) i2 a2 \<noteq> None"
proof -
  let ?p = "sweep_expired now (wf_pending w)"
  from check obtain r where r: "registration_for pr now q1 jti ?p = Some r" "code_accepted_for pr q1 r"
    by (rule register_check_accepted)
  have p1: "pending_ok p1" by (rule register_check_pending(1) [OF ok(1) check])
  have get: "get_registration e j p1 = get_registration e j ?p" "get_challenge e j p1 = get_challenge e j ?p" for e j
    using register_check_pending(2,3) [OF ok(1) check] r by (auto simp: after_try_def registration_for_get)
  have sweep: "get_registration e j (sweep_expired now p1) = get_registration e j ?p"
      "get_challenge e j (sweep_expired now p1) = get_challenge e j ?p" for e j
    unfolding sweep_registrations [OF p1] sweep_challenges [OF p1] get
      sweep_registrations [OF ok(1)] sweep_challenges [OF ok(1)]
    by (auto split: option.splits)
  have "registration_for pr now q2 jti (sweep_expired now p1) = Some r"
    using r(1) unfolding registration_for_get sweep same .
  moreover have "code_accepted_for pr q2 r" using r(2) same(3) by (simp add: code_accepted_for_def)
  ultimately have "snd (register_check pr wa now q2 jti p1) =
      accept_challenge wa now q2 jti r (sweep_expired now p1)"
    by (rule register_check_right_code)
  also have "\<dots> = accept_challenge wa now q1 jti r ?p"
    by (rule accept_challenge_cong [OF sweep(2) same(1,4)])
  also have "\<dots> = Inr acc"
    using register_check_right_code [OF r, of wa] check by simp
  finally have "snd (register_check pr wa now q2 jti p1) = Inr acc" .
  moreover have e1: "file_evolves now {i1} (wf_auth w) a1" "families_sorted a1"
    unfolding a1 using ok(2) fresh
    by (auto intro!: register_store_evolves families_sorted_register_store simp: families_ok_def)
  have ok1: "families_ok a1" by (rule families_ok_evolves [OF ok(2) e1])
  have g1: "get_family (gq_endpoint q1) i1 a1 \<noteq> None" and g2: "get_family (gq_endpoint q1) i2 a1 = None"
    using fresh ok(2) unfolding a1 by (simp_all add: get_family_register_store)
  have "get_family (gq_endpoint q1) i1 a2 \<noteq> None" "get_family (gq_endpoint q1) i2 a2 \<noteq> None"
    using g1 g2 ok1 same(1) unfolding a2 by (simp_all add: get_family_register_store)
  ultimately show ?thesis by blast
qed

subsection \<open>Names\<close>

lemma next_sub_from_Some:
  assumes "\<exists>m < fuel. \<not> sub_taken e file (sub_candidate e (n + m))"
  shows "\<exists>s. next_sub_from fuel e file n = Some s \<and> \<not> sub_taken e file s"
  using assms
proof (induction fuel e "file" n rule: next_sub_from.induct)
  case (2 fuel e "file" n)
  show ?case
  proof (cases "sub_taken e file (sub_candidate e n)")
    case True
    with 2 obtain m where "m < Suc fuel" "\<not> sub_taken e file (sub_candidate e (n + m))" by blast
    with True have "\<not> sub_taken e file (sub_candidate e ((n + 1) + (m - 1)))" "m - 1 < fuel"
      by (cases m; auto)+
    with 2 True show ?thesis by auto
  qed simp
qed simp

lemma fresh_index:
  fixes g :: "nat \<Rightarrow> 'a" and xs :: "('a \<times> 'b) list"
  assumes "inj g"
  shows "\<exists>m < Suc (length xs). g m \<notin> fst ` set xs"
proof (rule ccontr)
  assume "\<not> ?thesis"
  then have "g ` {..< Suc (length xs)} \<subseteq> fst ` set xs" by auto
  then have "card (g ` {..< Suc (length xs)}) \<le> card (fst ` set xs)" by (intro card_mono) auto
  moreover have "card (g ` {..< Suc (length xs)}) = Suc (length xs)"
    using assms by (subst card_image) (auto intro: inj_on_subset)
  moreover have "card (fst ` set xs) \<le> length xs" by (metis card_length length_map set_map)
  ultimately show False by simp
qed

text \<open>The search for a name ends, with a name no registered credential of the endpoint uses.\<close>

lemma next_sub_free: "\<exists>s. next_sub e file = Some s \<and> \<not> sub_taken e file s"
proof -
  let ?subs = "case bt_get e (credentials file) of None \<Rightarrow> [] | Some subs \<Rightarrow> subs"
  have "inj (\<lambda>m. sub_candidate e (1 + m))"
    by (auto simp: inj_on_def sub_candidate_def dest: decimal_inj)
  from fresh_index [OF this] obtain m where m: "m < Suc (length ?subs)"
      "sub_candidate e (1 + m) \<notin> fst ` set ?subs" by blast
  have "\<not> sub_taken e file (sub_candidate e (1 + m))"
    using m(2) by (auto simp: sub_taken_def bt_get_def map_of_eq_None_iff split: option.splits)
  then show ?thesis
    unfolding next_sub_def using m(1) by (intro next_sub_from_Some) (auto split: option.splits)
qed

text \<open>Invitations that are open at the same time share one name. The name comes from the
  registered credentials only, so two invitations issued for an endpoint before either is used
  get the same name although each has its own user handle, and both are on file.\<close>
theorem open_invitations_share_name:
  assumes "pending_ok (wf_pending w)" "endpoint_parse raw = Inr e"
    and "jti1 \<noteq> jti2" "now2 < now1 + REGISTRATION_TTL_MS"
  shows "\<exists>w1 w2 sub jwt1 jwt2 g1 g2.
           passkey_add pr now1 raw label1 (user1, secret1, code1, jti1) w = Some (w1, sub, jwt1)
         \<and> passkey_add pr now2 raw label2 (user2, secret2, code2, jti2) w1 = Some (w2, sub, jwt2)
         \<and> get_registration e jti1 (wf_pending w2) = Some g1 \<and> pr_sub g1 = sub \<and> pr_user_id g1 = user1
         \<and> get_registration e jti2 (wf_pending w2) = Some g2 \<and> pr_sub g2 = sub \<and> pr_user_id g2 = user2"
proof -
  obtain sub where sub: "next_sub e (wf_auth w) = Some sub" using next_sub_free by blast
  let ?r1 = "new_registration pr sub user1 secret1 code1 jti1 label1 now1"
  let ?r2 = "new_registration pr sub user2 secret2 code2 jti2 label2 now2"
  define p1 where "p1 = add_registration now1 e jti1 ?r1 (wf_pending w)"
  define p2 where "p2 = add_registration now2 e jti2 ?r2 p1"
  have ok1: "pending_ok p1" using assms(1) by (simp add: p1_def pending_ok_add)
  have "get_registration e jti2 p2 = Some ?r2" by (simp add: p2_def get_registration_add [OF ok1])
  moreover have "get_registration e jti1 p1 = Some ?r1" by (simp add: p1_def get_registration_add [OF assms(1)])
  then have "get_registration e jti1 p2 = Some ?r1"
    using assms(3,4) by (simp add: p2_def get_registration_add [OF ok1] sweep_registrations [OF ok1]
        pr_is_live_def new_registration_def)
  moreover obtain jwt1 where
    "passkey_add pr now1 raw label1 (user1, secret1, code1, jti1) w = Some (w\<lparr>wf_pending := p1\<rparr>, sub, jwt1)"
    by (simp add: passkey_add_def assms(2) sub Let_def p1_def)
  moreover obtain jwt2 where
    "passkey_add pr now2 raw label2 (user2, secret2, code2, jti2) (w\<lparr>wf_pending := p1\<rparr>)
     = Some (w\<lparr>wf_pending := p2\<rparr>, sub, jwt2)"
    by (simp add: passkey_add_def assms(2) sub Let_def p2_def)
  ultimately show ?thesis by (fastforce simp: new_registration_def)
qed

section \<open>Witnesses\<close>

text \<open>One device registers at \<open>https://h/\<close>: invitation, challenge, code, credential, session.\<close>

abbreviation toy_e :: endpoint where "toy_e \<equiv> Endpoint ''https://h/''"

definition toy_claims :: registration_claims where
  "toy_claims = \<lparr>cl_sub = ''h-1'', cl_endpoint = toy_e, cl_rp_id = ''h'',
     cl_user_id = [], cl_access = AccessRw, cl_exp = 600, cl_jti = ''j''\<rparr>"

definition toy_pr :: primitives where
  "toy_pr = \<lparr>sha256 = id, hmac_sha256 = (\<lambda>_ _. []), base64url = (\<lambda>_. []),
      base64url_decode = (\<lambda>_. Some []), claims_to_json = (\<lambda>_. []),
      claims_of_json = (\<lambda>_. Some toy_claims), header_alg_of_json = (\<lambda>_. Some ''HS256'')\<rparr>"

definition toy_credential :: webauthn_credential where
  "toy_credential = \<lparr>cred_id = [1], cred_counter = 0, cred_backup_eligible = False,
     cred_backup_state = False, cred_rest = []\<rparr>"

definition toy_wa :: webauthn where
  "toy_wa = \<lparr>wa_usable = (\<lambda>_. True), wa_start_registration = (\<lambda>_ _ _. Some ([], [])),
     wa_start_authentication = (\<lambda>_ _. Some ([], [])),
     wa_register_credential = (\<lambda>_ _ _. Some toy_credential),
     wa_authenticate_credential = (\<lambda>_ _ _. None), wa_state_readable = (\<lambda>_. True),
     wa_create_of_json = (\<lambda>_. Some \<lparr>xr_client_data = [], xr_rest = []\<rparr>),
     wa_get_of_json = (\<lambda>_. None), wa_client_data_object = (\<lambda>_. None)\<rparr>"

definition toy_io :: update_io where
  "toy_io = \<lparr>io_lock = None, io_read = None, io_write = None\<rparr>"

definition toy_auth0 :: auth_file where
  "toy_auth0 = \<lparr>credentials = [], families = []\<rparr>"

definition toy_registration :: pending_registration where
  "toy_registration = \<lparr>pr_jti = ''j'', pr_sub = ''h-1'', pr_user_id = [], pr_access = AccessRw,
     pr_hmac_secret = [], pr_code_hash = sha256_hex id (as_bytes ''c''), pr_code_attempts = 0,
     pr_issued_label = None, pr_expires_at = 600000\<rparr>"

definition toy_challenge :: pending_challenge where
  "toy_challenge = \<lparr>pc_id = ''k'', pc_endpoint = toy_e, pc_purpose = Register, pc_jti = Some ''j'',
     pc_state = [], pc_expires_at = 600000\<rparr>"

definition toy_pending1 :: pending_file where
  "toy_pending1 = \<lparr>registrations = [(toy_e, [(''j'', toy_registration)])], challenges = []\<rparr>"

definition toy_pending2 :: pending_file where
  "toy_pending2 = \<lparr>registrations = [(toy_e, [(''j'', toy_registration)])],
     challenges = [(toy_e, [(''k'', toy_challenge)])]\<rparr>"

definition toy_request :: "string \<Rightarrow> register_request" where
  "toy_request code = \<lparr>gq_endpoint = toy_e, gq_jwt = ''..'', gq_code = code, gq_challenge_id = ''k'',
     gq_credential = [], gq_device_label = None\<rparr>"

definition toy_accepted :: accepted_registration where
  "toy_accepted = \<lparr>ac_sub = ''h-1'', ac_user_id = [], ac_access = AccessRw, ac_issued_label = None,
     ac_jti = ''j'', ac_state = []\<rparr>"

definition toy_family :: family_record where
  "toy_family = new_family toy_e ''h-1'' ''f'' ''a'' ''r'' 0"

definition toy_auth1 :: auth_file where
  "toy_auth1 = \<lparr>credentials = [(toy_e, [(''h-1'', [([], registered_credential (toy_request ''c'')
       toy_accepted toy_credential 0 None)])])],
     families = [(toy_e, [(''f'', toy_family)])]\<rparr>"

lemmas btree_eval = bt_get_def bt_entry_def bt_modify_def bt_remove_def bt_retain_def bt_map_def bt_values_def

lemma toy_endpoint: "endpoint_parse ''https://h/'' = Inr toy_e"
  by code_simp

lemma toy_step1:
  "passkey_add toy_pr 0 ''https://h/'' None ([], [], ''c'', ''j'') (sy_files (web_init 0)) =
     Some (\<lparr>wf_auth = toy_auth0, wf_pending = toy_pending1\<rparr>, ''h-1'', ''..'')"
  by (simp add: passkey_add_def toy_endpoint next_sub_def sub_taken_def sub_candidate_def decimal.simps
      endpoint_rp_id_def endpoint_origin_def after_scheme_def rsplit_once_def add_registration_def
      new_registration_def encode_registration_def sweep_expired_def btree_eval Let_def web_init_def
      REGISTRATION_TTL_MS_def toy_pr_def toy_auth0_def toy_pending1_def toy_registration_def)

lemma toy_verify: "verify_registration toy_pr ''..'' [] 0 = Inr toy_claims" "peek_jti toy_pr ''..'' = Inr ''j''"
  by (simp_all add: verify_registration_def peek_jti_def decode_payload_def decode_segment_def
      rsplit_once_def toy_pr_def toy_claims_def)

lemma toy_step2:
  "challenge_blocking toy_pr toy_wa toy_io 0 ''k''
     \<lparr>cq_endpoint = toy_e, cq_purpose = Register, cq_jwt = Some ''..''\<rparr>
     (Inr toy_auth0) (Inr toy_pending1) toy_pending1 = (toy_pending2, Inr (''k'', toy_e, []))"
  by (simp add: challenge_blocking_def prepare_challenge_def toy_verify toy_pending1_def toy_registration_def
      pr_is_live_def toy_claims_def toy_wa_def toy_io_def store_update_def issue_challenge_def
      new_challenge_def CHALLENGE_TTL_MS_def sweep_expired_def btree_eval Let_def toy_pending2_def
      toy_challenge_def)

lemma toy_registration_for:
  "registration_for toy_pr 0 (toy_request code) ''j'' (sweep_expired 0 toy_pending2) = Some toy_registration"
  by (simp add: registration_for_def toy_request_def sweep_expired_def btree_eval toy_pending2_def
      toy_registration_def pr_is_live_def toy_challenge_def toy_verify toy_claims_def)

lemma toy_step3:
  "register_check toy_pr toy_wa 0 (toy_request ''c'') ''j'' toy_pending2 = (toy_pending2, Inr toy_accepted)"
  by (simp add: register_check_def toy_registration_for check_code_def toy_registration_def Let_def)
     (simp add: toy_pr_def toy_request_def with_registrations_def sweep_expired_def btree_eval
       toy_pending2_def toy_registration_def pr_is_live_def toy_challenge_def accept_challenge_def
       challenge_def toy_wa_def toy_accepted_def)

lemma toy_step4: "register_verify toy_wa (toy_request ''c'') toy_accepted = Inr toy_credential"
  by (simp add: register_verify_def toy_wa_def finish_registration_def client_data_says_embedded_def)

lemma toy_step5:
  "register_store toy_pr (toy_request ''c'') toy_accepted toy_credential 0 None (''f'', ''a'', ''r'') toy_auth0
   = (toy_auth1, session_of_family toy_family)"
  by (simp add: register_store_def insert_credential_def registered_credential_def mint_def mint_family_def
      toy_auth0_def toy_auth1_def toy_family_def toy_accepted_def toy_request_def toy_pr_def btree_eval Let_def)

text \<open>The same run as steps of the system, up to the session and its revocation.\<close>

definition toy_s1 :: web_system where
  "toy_s1 = draw ''j'' ((web_init 0)\<lparr>sy_files := \<lparr>wf_auth = toy_auth0, wf_pending = toy_pending1\<rparr>\<rparr>)"

definition toy_s2 :: web_system where
  "toy_s2 = draw ''k'' (put_pending toy_pending2 toy_s1)"

definition toy_s3 :: web_system where
  "toy_s3 = note_event (CodeTried toy_e ''j'' True) (put_pending toy_pending2
     (toy_s2\<lparr>sy_requests := [Verifying 0 (toy_request ''c'') toy_accepted]\<rparr>))"

definition toy_s4 :: web_system where
  "toy_s4 = swap_request (Verifying 0 (toy_request ''c'') toy_accepted)
     [Storing 0 (toy_request ''c'') toy_accepted toy_credential] toy_s3"

definition toy_s5 :: web_system where
  "toy_s5 = note_event (Minted toy_e ''f'') (draw ''f'' (put_auth toy_auth1
     (swap_request (Storing 0 (toy_request ''c'') toy_accepted toy_credential)
        [Consuming 0 (toy_request ''c'') toy_accepted] toy_s4)))"

definition toy_s6 :: web_system where
  "toy_s6 = put_auth (session_remove ''f'' 0 toy_auth1) toy_s5"

lemmas toy_systems = toy_s1_def toy_s2_def toy_s3_def toy_s4_def toy_s5_def

lemma toy_reach2: "web_reachable toy_pr toy_wa 0 toy_s2"
proof -
  have "web_step toy_pr toy_wa (web_init 0) toy_s1"
    unfolding toy_s1_def by (rule passkey_added [OF _ _ toy_step1]) (simp_all add: web_init_def)
  moreover have "web_step toy_pr toy_wa toy_s1 toy_s2"
    unfolding toy_s2_def
    using toy_step2 by (intro challenge_issued [of 0 toy_s1 "''k''"]) (auto simp: toy_s1_def web_init_def)
  ultimately show ?thesis by (metis converse_rtranclp_into_rtranclp r_into_rtranclp)
qed

lemma toy_reach5: "web_reachable toy_pr toy_wa 0 toy_s5"
proof -
  have "web_step toy_pr toy_wa toy_s2 toy_s3"
    using code_accepted [of 0 toy_s2 toy_pr "toy_request ''c''" "''j''" toy_wa toy_pending2 toy_accepted]
      toy_step3 toy_verify(2)
    by (simp add: toy_s3_def toy_s2_def toy_s1_def web_init_def toy_request_def)
  moreover have "web_step toy_pr toy_wa toy_s3 toy_s4"
    unfolding toy_s4_def by (rule credential_verified [OF _ toy_step4]) (simp add: toy_s3_def)
  moreover have "web_step toy_pr toy_wa toy_s4 toy_s5"
    using credential_stored [of 0 "toy_request ''c''" toy_accepted toy_credential toy_s4 "''f''" toy_pr None
        "''a''" "''r''" toy_auth1 "session_of_family toy_family" toy_wa] toy_step5
    by (simp add: toy_systems web_init_def toy_request_def)
  ultimately show ?thesis using toy_reach2 by (meson rtranclp.rtrancl_into_rtrancl)
qed

lemma toy_reach6: "web_reachable toy_pr toy_wa 0 toy_s6"
proof -
  have "the_auth toy_s5 = toy_auth1" by (simp add: toy_s5_def)
  then have "web_step toy_pr toy_wa toy_s5 toy_s6"
    unfolding toy_s6_def using session_removed [of 0 toy_s5 toy_pr toy_wa "''f''"] by simp
  with toy_reach5 show ?thesis by (rule rtranclp.rtrancl_into_rtrancl)
qed

lemma toy_family_filed: "get_family toy_e ''f'' toy_auth1 = Some toy_family" "\<not> fam_is_tombstoned toy_family"
  by (simp_all add: get_family_def toy_auth1_def btree_eval toy_family_def fam_is_tombstoned_def)

lemma toy_revoked:
  "get_family toy_e ''f'' (the_auth toy_s6) = Some (toy_family\<lparr>fam_tombstoned_at := Some 0\<rparr>)"
  by (simp add: toy_s6_def get_family_session_remove toy_family_filed)


theorem code_guesses_bounded_witness: "wrong_codes toy_e ''j'' (sy_log toy_s5) \<le> 5"
  using code_guesses_bounded [OF toy_reach5] by blast


lemma toy_auth1_ok: "families_ok toy_auth1"
  using web_wfD(2) [OF web_reachable_wf [OF toy_reach5]] by (simp add: toy_s5_def)

lemma toy_selected: "selected_family toy_pr now toy_e ''r'' toy_auth1 = Some (''f'', toy_family)"
  by (simp add: selected_family_def toy_auth1_def btree_eval toy_family_def classify_refresh_simp)


theorem expired_refresh_still_rotates_witness:
  "\<exists>file' m. refresh_update toy_pr (1000 * REFRESH_TTL_MS) toy_e ''r'' ''r2'' ''a2'' toy_auth1 = (file', Inr m)"
proof -
  have "''r'' = tg_value (fam_refresh toy_family)"
    "tg_expires_at (fam_refresh toy_family) \<le> 1000 * REFRESH_TTL_MS"
    by (simp_all add: toy_family_def)
  from expired_refresh_still_rotates [OF toy_auth1_ok toy_selected toy_family_filed(2) this] show ?thesis
    by blast
qed

lemma toy_pending2_ok: "pending_ok toy_pending2"
  by (simp add: pending_ok_def toy_pending2_def bt_get_def)


theorem overlapping_registrations_both_succeed_witness:
  "snd (register_check toy_pr toy_wa 0 (toy_request ''c'') ''j'' toy_pending2) = Inr toy_accepted"
  using overlapping_registrations_both_succeed
    [of "\<lparr>wf_auth = toy_auth0, wf_pending = toy_pending2\<rparr>" toy_pr toy_wa 0 "toy_request ''c''" "''j''"
      toy_pending2 toy_accepted "toy_request ''c''" "''f''" "''g''" _ toy_credential None "''a''" "''r''" _
      toy_credential None "''b''" "''s''", OF _ _ _ _ _ _ _ _ _ _ refl refl]
    toy_step3 toy_pending2_ok
  by (simp add: families_ok_def families_sorted_def toy_auth0_def get_family_def bt_get_def)

theorem open_invitations_share_name_witness:
  "\<exists>w1 w2 sub jwt1 jwt2.
     passkey_add toy_pr 0 ''https://h/'' None ([1], [2], ''c'', ''j'') (sy_files (web_init 0)) = Some (w1, sub, jwt1)
   \<and> passkey_add toy_pr 5 ''https://h/'' None ([3], [4], ''d'', ''k'') w1 = Some (w2, sub, jwt2)"
  using open_invitations_share_name [of "sy_files (web_init 0)" "''https://h/''" toy_e "''j''" "''k''" 5 0
      toy_pr None "[1]" "[2]" "''c''" None "[3]" "[4]" "''d''", OF _ toy_endpoint]
  by (auto simp: web_init_def pending_ok_def REGISTRATION_TTL_MS_def bt_get_def)

end
