(* ===== verification/Supervisor.thy ===== *)
theory Supervisor
  imports Endpoints
begin

text \<open>
  The supervisor of the web gateways and its unit registry
  (\<open>hyoui-cli/src/web_daemon/supervisor.rs\<close>, \<open>registry.rs\<close>).

  The state is a record \<open>supervisor\<close>; its last fields are the world: the clock (in
  nanoseconds), what the channel delivers next, what the next spawns, registry accesses and
  health probes answer, which address a unit's configuration says, whether the next writes to
  the streams of log clients succeed, the signals sent so far, and the children that were spawned and whose
  end has not been reported. The clock moves when the channel is waited on. The world is
  normalised where it is read: a child that is not running cannot end, a pid in use is not
  handed out again, and a wait does not time out before its timeout; an impossible entry
  counts as the end of the channel.

  \<open>apply_restart\<close> waits for a child to end by handling events itself, so handling is
  recursive: the waiting functions take the handler as an argument and \<open>handle\<close> ties the knot.
  The loops take fuel, and every theorem holds for any fuel.
\<close>

subsection \<open>Registry\<close>

record unit_entry =
  un_config :: string
  un_binary_path :: string
  un_enabled :: bool
  un_added_at :: string

datatype registry_error = BadName string | UnknownUnit string | AlreadyRegistered string | Busy | Storage

type_synonym registry = "(string, unit_entry) btree"

definition name_char :: "char \<Rightarrow> bool" where
  "name_char c \<longleftrightarrow> (CHR ''a'' \<le> c \<and> c \<le> CHR ''z'') \<or> (CHR ''A'' \<le> c \<and> c \<le> CHR ''Z'')
     \<or> (CHR ''0'' \<le> c \<and> c \<le> CHR ''9'') \<or> c = CHR ''_'' \<or> c = CHR ''-''"

definition validate_name :: "string \<Rightarrow> registry_error + unit" where
  "validate_name name =
     (if name \<noteq> [] \<and> length name \<le> 32 \<and> list_all name_char name then Inr () else Inl (BadName name))"

text \<open>The file system's answer to the access is the argument \<open>io\<close>, \<open>None\<close> when it succeeds.\<close>

definition registry_add ::
  "registry_error option \<Rightarrow> string \<Rightarrow> unit_entry \<Rightarrow> registry \<Rightarrow> registry \<times> (registry_error + unit)" where
  "registry_add io name u reg =
     (case validate_name name of
        Inl e \<Rightarrow> (reg, Inl e)
      | Inr _ \<Rightarrow>
          if bt_get name reg \<noteq> None then (reg, Inl (AlreadyRegistered name))
          else case io of Some e \<Rightarrow> (reg, Inl e) | None \<Rightarrow> (bt_insert name u reg, Inr ()))"

definition registry_remove ::
  "registry_error option \<Rightarrow> string \<Rightarrow> registry \<Rightarrow> registry \<times> (registry_error + unit)" where
  "registry_remove io name reg =
     (case validate_name name of
        Inl e \<Rightarrow> (reg, Inl e)
      | Inr _ \<Rightarrow>
          if bt_get name reg = None then (reg, Inl (UnknownUnit name))
          else case io of Some e \<Rightarrow> (reg, Inl e) | None \<Rightarrow> (bt_remove name reg, Inr ()))"

definition registry_get :: "string \<Rightarrow> registry \<Rightarrow> registry_error + unit_entry" where
  "registry_get name reg =
     (case validate_name name of
        Inl e \<Rightarrow> Inl e
      | Inr _ \<Rightarrow> (case bt_get name reg of None \<Rightarrow> Inl (UnknownUnit name) | Some u \<Rightarrow> Inr u))"

definition registry_set_enabled ::
  "registry_error option \<Rightarrow> string \<Rightarrow> bool \<Rightarrow> registry \<Rightarrow> registry \<times> (registry_error + unit_entry)" where
  "registry_set_enabled io name enabled reg =
     (case registry_get name reg of
        Inl e \<Rightarrow> (reg, Inl e)
      | Inr u \<Rightarrow>
          if un_enabled u \<noteq> enabled
          then (case io of
                  Some e \<Rightarrow> (reg, Inl e)
                | None \<Rightarrow> let u = u\<lparr>un_enabled := enabled\<rparr> in (bt_insert name u reg, Inr u))
          else (reg, Inr u))"

subsection \<open>Listen addresses\<close>

text \<open>Name resolution is the argument \<open>resolve\<close>, \<open>None\<close> when it fails or finds nothing.\<close>

record socket_addr =
  sa_ip :: string
  sa_port :: nat
  sa_unspecified :: bool

datatype listen_conflict = SameListen string string | Overlapping string string bool

definition parse_u16_zero :: "string \<Rightarrow> bool" where
  "parse_u16_zero s \<longleftrightarrow>
     (let digits = (if s \<noteq> [] \<and> hd s = CHR ''+'' then tl s else s) in
      digits \<noteq> [] \<and> list_all ((=) CHR ''0'') digits)"

definition listen_is_ephemeral :: "string \<Rightarrow> bool" where
  "listen_is_ephemeral listen =
     (case rsplit_once CHR '':'' listen of None \<Rightarrow> False | Some (_, port) \<Rightarrow> parse_u16_zero port)"

definition ports_overlap_on_wildcard :: "socket_addr list \<Rightarrow> socket_addr list \<Rightarrow> bool" where
  "ports_overlap_on_wildcard left right \<longleftrightarrow>
     list_ex (\<lambda>l. list_ex (\<lambda>r. sa_port l = sa_port r \<and> (sa_unspecified l \<or> sa_unspecified r)) right) left"

fun find_conflict_from ::
  "(string \<Rightarrow> socket_addr list option) \<Rightarrow> string \<Rightarrow> listen_conflict option \<Rightarrow> (string \<times> string) list
   \<Rightarrow> listen_conflict option" where
  "find_conflict_from resolve listen overlapping [] = overlapping"
| "find_conflict_from resolve listen overlapping ((name, unit_listen) # units) =
     (if listen_is_ephemeral unit_listen then find_conflict_from resolve listen overlapping units
      else case (resolve listen, resolve unit_listen) of
        (Some wanted, Some existing) \<Rightarrow>
          if list_ex (\<lambda>a. a \<in> set existing) wanted then Some (SameListen name unit_listen)
          else find_conflict_from resolve listen
                 (if overlapping = None \<and> ports_overlap_on_wildcard wanted existing
                  then Some (Overlapping name unit_listen True) else overlapping) units
      | _ \<Rightarrow>
          if unit_listen = listen then Some (SameListen name unit_listen)
          else find_conflict_from resolve listen
                 (if overlapping = None then Some (Overlapping name unit_listen False) else overlapping) units)"

definition find_listen_conflict ::
  "(string \<Rightarrow> socket_addr list option) \<Rightarrow> (string \<times> string) list \<Rightarrow> string \<Rightarrow> listen_conflict option" where
  "find_listen_conflict resolve units listen =
     (if listen_is_ephemeral listen then None else find_conflict_from resolve listen None units)"

subsection \<open>Supervisor state\<close>

record timings =
  tm_initial_backoff :: nat
  tm_max_backoff :: nat
  tm_grace :: nat
  tm_health_interval :: nat
  tm_health_timeout :: nat

definition default_timings :: timings where
  "default_timings = \<lparr>tm_initial_backoff = 1000000000, tm_max_backoff = 60 * 1000000000,
     tm_grace = 10 * 1000000000, tm_health_interval = 200000000, tm_health_timeout = 30 * 1000000000\<rparr>"

datatype child_state = Down | Running (running_pid: nat) | Stopping nat nat bool

record runtime =
  rt_unit :: unit_entry
  rt_state :: child_state
  rt_next_start :: "nat option"
  rt_backoff :: nat
  rt_restarts :: nat
  rt_last_exit :: "string option"

definition runtime_new :: "unit_entry \<Rightarrow> nat \<Rightarrow> runtime" where
  "runtime_new u backoff = \<lparr>rt_unit = u, rt_state = Down, rt_next_start = None, rt_backoff = backoff,
     rt_restarts = 0, rt_last_exit = None\<rparr>"

definition rt_pid :: "runtime \<Rightarrow> nat option" where
  "rt_pid rt = (case rt_state rt of Down \<Rightarrow> None | Running pid \<Rightarrow> Some pid | Stopping pid _ _ \<Rightarrow> Some pid)"

definition is_running :: "runtime \<Rightarrow> bool" where
  "is_running rt = (case rt_state rt of Running _ \<Rightarrow> True | _ \<Rightarrow> False)"

type_synonym target = "string option"

datatype request =
    ReqList target | ReqStatus target | ReqStart target | ReqStop target | ReqRestart target
  | ReqReload | ReqLog target bool

text \<open>A request whose line could not be read is \<open>Request None\<close>.\<close>

datatype event = Request "request option" | ChildExited string nat string | LogLine string string | Signal nat

datatype remark = NotRecorded string | DidNotStop string | Skipped string | DidNotStopAll string | Unhealthy string

record unit_status =
  us_name :: string
  us_enabled :: bool
  us_running :: bool
  us_pid :: "nat option"
  us_restarts :: nat
  us_last_exit :: "string option"

datatype response = Units "unit_status list" "remark list" | ErrorUnknownUnit string | ErrorMalformed | LogAnswer bool

datatype kill_signal = SIGTERM | SIGKILL

record supervisor =
  sv_registry :: registry
  sv_timings :: timings
  sv_units :: "(string, runtime) btree"
  sv_followers :: "target list"
  sv_shutting_down :: bool
  sv_now :: nat
  sv_polls :: "(nat \<times> event option) list"
  sv_spawns :: "(string + nat) list"
  sv_registry_io :: "registry_error option list"
  sv_health :: "bool list"
  sv_listens :: "string list"
  sv_writes :: "bool list"
  sv_delivered :: "(target \<times> string \<times> string) list"
  sv_answers :: "response list"
  sv_signals :: "(nat \<times> kill_signal) list"
  sv_children :: "(string \<times> nat) list"

subsection \<open>The world\<close>

text \<open>Waiting on the channel: \<open>None\<close> is a closed channel, \<open>Some None\<close> a timeout.\<close>

definition recv :: "nat option \<Rightarrow> supervisor \<Rightarrow> supervisor \<times> event option option" where
  "recv wait sv =
     (case sv_polls sv of
        [] \<Rightarrow> (sv, None)
      | (t, ev) # polls \<Rightarrow>
          let sv' = sv\<lparr>sv_polls := polls, sv_now := t\<rparr>;
              possible = (sv_now sv \<le> t \<and> (case ev of
                None \<Rightarrow> (case wait of None \<Rightarrow> False | Some w \<Rightarrow> sv_now sv + w \<le> t)
              | Some (ChildExited name pid _) \<Rightarrow> (name, pid) \<in> set (sv_children sv)
              | Some _ \<Rightarrow> True)) in
          if \<not> possible then (sv\<lparr>sv_polls := []\<rparr>, None)
          else (case ev of
                  Some (ChildExited name pid _) \<Rightarrow>
                    (sv'\<lparr>sv_children := remove1 (name, pid) (sv_children sv)\<rparr>, Some ev)
                | _ \<Rightarrow> (sv', Some ev)))"

definition spawn :: "string \<Rightarrow> supervisor \<Rightarrow> supervisor \<times> (string + nat)" where
  "spawn name sv =
     (case sv_spawns sv of
        [] \<Rightarrow> (sv, Inl [])
      | r # rs \<Rightarrow>
          let sv = sv\<lparr>sv_spawns := rs\<rparr> in
          (case r of
             Inl err \<Rightarrow> (sv, Inl err)
           | Inr pid \<Rightarrow>
               if pid \<in> snd ` set (sv_children sv) then (sv, Inl [])
               else (sv\<lparr>sv_children := (name, pid) # sv_children sv\<rparr>, Inr pid)))"

definition send_signal :: "nat \<Rightarrow> kill_signal \<Rightarrow> supervisor \<Rightarrow> supervisor" where
  "send_signal pid sig sv = sv\<lparr>sv_signals := sv_signals sv @ [(pid, sig)]\<rparr>"

definition take_registry_io :: "supervisor \<Rightarrow> supervisor \<times> registry_error option" where
  "take_registry_io sv =
     (case sv_registry_io sv of [] \<Rightarrow> (sv, None) | r # rs \<Rightarrow> (sv\<lparr>sv_registry_io := rs\<rparr>, r))"

definition healthz_is_ok :: "supervisor \<Rightarrow> supervisor \<times> bool" where
  "healthz_is_ok sv = (case sv_health sv of [] \<Rightarrow> (sv, False) | h # hs \<Rightarrow> (sv\<lparr>sv_health := hs\<rparr>, h))"

definition load_listen :: "string \<Rightarrow> supervisor \<Rightarrow> supervisor \<times> string" where
  "load_listen name sv =
     (if bt_get name (sv_units sv) = None then (sv, [])
      else case sv_listens sv of [] \<Rightarrow> (sv, []) | l # ls \<Rightarrow> (sv\<lparr>sv_listens := ls\<rparr>, l))"

definition write_line :: "supervisor \<Rightarrow> supervisor \<times> bool" where
  "write_line sv = (case sv_writes sv of [] \<Rightarrow> (sv, True) | w # ws \<Rightarrow> (sv\<lparr>sv_writes := ws\<rparr>, w))"

definition answer :: "response \<Rightarrow> supervisor \<Rightarrow> supervisor" where
  "answer r sv = sv\<lparr>sv_answers := sv_answers sv @ [r]\<rparr>"

subsection \<open>Operations\<close>

definition set_runtime :: "string \<Rightarrow> (runtime \<Rightarrow> runtime) \<Rightarrow> supervisor \<Rightarrow> supervisor" where
  "set_runtime name f sv = sv\<lparr>sv_units := bt_modify name f (sv_units sv)\<rparr>"

definition back_off :: "timings \<Rightarrow> nat \<Rightarrow> runtime \<Rightarrow> runtime" where
  "back_off tm now rt =
     rt\<lparr>rt_restarts := rt_restarts rt + 1, rt_next_start := Some (now + rt_backoff rt),
        rt_backoff := min (rt_backoff rt * 2) (tm_max_backoff tm)\<rparr>"

definition finished :: "supervisor \<Rightarrow> bool" where
  "finished sv \<longleftrightarrow> sv_shutting_down sv \<and> list_all (\<lambda>rt. rt_state rt = Down) (bt_values (sv_units sv))"

definition deadline_of :: "bool \<Rightarrow> runtime \<Rightarrow> nat option" where
  "deadline_of shutting_down rt =
     (case rt_state rt of
        Stopping _ deadline _ \<Rightarrow> Some deadline
      | Down \<Rightarrow> if \<not> shutting_down \<and> un_enabled (rt_unit rt) then rt_next_start rt else None
      | Running _ \<Rightarrow> None)"

fun earliest :: "nat option \<Rightarrow> nat option list \<Rightarrow> nat option" where
  "earliest e [] = e"
| "earliest e (c # cs) =
     earliest (case c of
                 None \<Rightarrow> e
               | Some t \<Rightarrow> (case e of None \<Rightarrow> Some t | Some u \<Rightarrow> if t < u then Some t else e)) cs"

definition next_deadline :: "supervisor \<Rightarrow> nat option" where
  "next_deadline sv =
     map_option (\<lambda>d. d - sv_now sv)
       (earliest None (map (deadline_of (sv_shutting_down sv)) (bt_values (sv_units sv))))"

definition start :: "string \<Rightarrow> supervisor \<Rightarrow> supervisor" where
  "start name sv =
     (case bt_get name (sv_units sv) of
        None \<Rightarrow> sv
      | Some rt \<Rightarrow>
          if is_running rt then sv
          else case spawn name sv of
            (sv, Inl err) \<Rightarrow>
              set_runtime name (\<lambda>rt. back_off (sv_timings sv) (sv_now sv) (rt\<lparr>rt_last_exit := Some err\<rparr>)) sv
          | (sv, Inr pid) \<Rightarrow>
              set_runtime name (\<lambda>rt. rt\<lparr>rt_state := Running pid, rt_next_start := None\<rparr>) sv)"

definition stop :: "string \<Rightarrow> supervisor \<Rightarrow> supervisor" where
  "stop name sv =
     (case bt_get name (sv_units sv) of
        None \<Rightarrow> sv
      | Some rt \<Rightarrow>
          let sv = set_runtime name (\<lambda>rt. rt\<lparr>rt_next_start := None\<rparr>) sv in
          (case rt_state rt of
             Running pid \<Rightarrow>
               send_signal pid SIGTERM
                 (set_runtime name (\<lambda>rt. rt\<lparr>rt_state := Stopping pid (sv_now sv + tm_grace (sv_timings sv)) False\<rparr>) sv)
           | _ \<Rightarrow> sv))"

definition tick_one :: "string \<Rightarrow> supervisor \<Rightarrow> supervisor" where
  "tick_one name sv =
     (case bt_get name (sv_units sv) of
        None \<Rightarrow> sv
      | Some rt \<Rightarrow>
          (case rt_state rt of
             Stopping pid deadline killed \<Rightarrow>
               if deadline \<le> sv_now sv \<and> \<not> killed
               then send_signal pid SIGKILL
                      (set_runtime name
                        (\<lambda>rt. rt\<lparr>rt_state := Stopping pid (sv_now sv + tm_grace (sv_timings sv)) True\<rparr>) sv)
               else sv
           | Down \<Rightarrow>
               if \<not> sv_shutting_down sv \<and> un_enabled (rt_unit rt)
                  \<and> (case rt_next_start rt of None \<Rightarrow> False | Some t \<Rightarrow> t \<le> sv_now sv)
               then start name sv else sv
           | Running _ \<Rightarrow> sv))"

definition tick :: "supervisor \<Rightarrow> supervisor" where
  "tick sv = fold tick_one (map fst (sv_units sv)) sv"

definition child_exited :: "string \<Rightarrow> nat \<Rightarrow> string \<Rightarrow> supervisor \<Rightarrow> supervisor" where
  "child_exited name pid summary sv =
     (case bt_get name (sv_units sv) of
        None \<Rightarrow> sv
      | Some rt \<Rightarrow>
          if (case rt_pid rt of None \<Rightarrow> False | Some current \<Rightarrow> current \<noteq> pid) then sv
          else
            let was_stopping = (case rt_state rt of Stopping _ _ _ \<Rightarrow> True | _ \<Rightarrow> False);
                rt = rt\<lparr>rt_state := Down, rt_last_exit := Some summary\<rparr>;
                rt = (if was_stopping \<or> \<not> un_enabled (rt_unit rt) \<or> sv_shutting_down sv
                      then rt\<lparr>rt_next_start := None\<rparr>
                      else back_off (sv_timings sv) (sv_now sv) rt) in
            set_runtime name (\<lambda>_. rt) sv)"

definition begin_shutdown :: "supervisor \<Rightarrow> supervisor" where
  "begin_shutdown sv =
     (if sv_shutting_down sv then sv
      else fold stop (map fst (sv_units sv)) (sv\<lparr>sv_shutting_down := True\<rparr>))"

definition drop_unit :: "string \<Rightarrow> supervisor \<Rightarrow> supervisor" where
  "drop_unit name sv =
     (let sv = stop name sv in
      case bt_get name (sv_units sv) of
        None \<Rightarrow> sv
      | Some rt \<Rightarrow> if rt_state rt = Down then sv\<lparr>sv_units := bt_remove name (sv_units sv)\<rparr> else sv)"

definition adopt_unit :: "string \<times> unit_entry \<Rightarrow> supervisor \<Rightarrow> supervisor" where
  "adopt_unit entry sv =
     (case entry of (name, u) \<Rightarrow>
        let sv = (case bt_get name (sv_units sv) of
                    Some _ \<Rightarrow> set_runtime name (\<lambda>rt. rt\<lparr>rt_unit := u\<rparr>) sv
                  | None \<Rightarrow> sv\<lparr>sv_units := bt_insert name
                              (runtime_new u (tm_initial_backoff (sv_timings sv))) (sv_units sv)\<rparr>);
            running = (case bt_get name (sv_units sv) of None \<Rightarrow> False | Some rt \<Rightarrow> is_running rt) in
        if sv_shutting_down sv then sv
        else if un_enabled u \<and> \<not> running
        then set_runtime name (\<lambda>rt. if rt_next_start rt = None
                                    then rt\<lparr>rt_next_start := Some (sv_now sv)\<rparr> else rt) sv
        else if \<not> un_enabled u \<and> running then stop name sv
        else sv)"

definition reload :: "supervisor \<Rightarrow> supervisor" where
  "reload sv =
     (case take_registry_io sv of
        (sv, Some _) \<Rightarrow> sv
      | (sv, None) \<Rightarrow>
          let listed = filter (\<lambda>e. validate_name (fst e) = Inr ()) (sv_registry sv);
              dropped = filter (\<lambda>n. n \<notin> fst ` set listed) (map fst (sv_units sv)) in
          fold adopt_unit listed (fold drop_unit dropped sv))"

definition resolve :: "target \<Rightarrow> supervisor \<Rightarrow> string + string list" where
  "resolve t sv =
     (case t of
        None \<Rightarrow> Inr (map fst (sv_units sv))
      | Some name \<Rightarrow> if bt_get name (sv_units sv) \<noteq> None then Inr [name] else Inl name)"

definition set_enabled :: "string \<Rightarrow> bool \<Rightarrow> supervisor \<Rightarrow> supervisor \<times> bool" where
  "set_enabled name enabled sv =
     (let (sv, io) = take_registry_io sv in
      case registry_set_enabled io name enabled (sv_registry sv) of
        (reg, Inl _) \<Rightarrow> (sv\<lparr>sv_registry := reg\<rparr>, False)
      | (reg, Inr u) \<Rightarrow> (set_runtime name (\<lambda>rt. rt\<lparr>rt_unit := u\<rparr>) (sv\<lparr>sv_registry := reg\<rparr>), True))"

definition describe :: "string \<Rightarrow> runtime \<Rightarrow> unit_status" where
  "describe name rt = \<lparr>us_name = name, us_enabled = un_enabled (rt_unit rt), us_running = is_running rt,
     us_pid = rt_pid rt, us_restarts = rt_restarts rt, us_last_exit = rt_last_exit rt\<rparr>"

definition status_response :: "target \<Rightarrow> remark list \<Rightarrow> supervisor \<Rightarrow> response" where
  "status_response t notes sv =
     (case resolve t sv of
        Inl name \<Rightarrow> ErrorUnknownUnit name
      | Inr names \<Rightarrow>
          Units (List.map_filter (\<lambda>n. map_option (describe n) (bt_get n (sv_units sv))) names) notes)"

text \<open>An explicit start does not wait for the backoff.\<close>

definition request_start :: "bool \<Rightarrow> string \<Rightarrow> supervisor \<Rightarrow> supervisor" where
  "request_start always name sv =
     set_runtime name (\<lambda>rt. let rt = rt\<lparr>rt_backoff := tm_initial_backoff (sv_timings sv)\<rparr> in
        if always \<or> \<not> is_running rt then rt\<lparr>rt_next_start := Some (sv_now sv)\<rparr> else rt) sv"

fun start_each :: "string list \<Rightarrow> remark list \<Rightarrow> supervisor \<Rightarrow> supervisor \<times> remark list" where
  "start_each [] notes sv = (sv, notes)"
| "start_each (name # names) notes sv =
     (let (sv, ok) = set_enabled name True sv in
      if ok then start_each names notes (request_start False name sv)
      else start_each names (notes @ [NotRecorded name]) sv)"

definition apply_start :: "target \<Rightarrow> supervisor \<Rightarrow> supervisor \<times> response" where
  "apply_start t sv =
     (case resolve t sv of
        Inl name \<Rightarrow> (sv, ErrorUnknownUnit name)
      | Inr names \<Rightarrow>
          let (sv, notes) = start_each names [] sv; sv = tick sv in
          (sv, status_response t notes sv))"

fun stop_each :: "string list \<Rightarrow> remark list \<Rightarrow> supervisor \<Rightarrow> supervisor \<times> remark list" where
  "stop_each [] notes sv = (sv, notes)"
| "stop_each (name # names) notes sv =
     (let (sv, ok) = set_enabled name False sv in
      if ok then stop_each names notes (stop name sv)
      else stop_each names (notes @ [NotRecorded name]) sv)"

definition apply_stop :: "target \<Rightarrow> supervisor \<Rightarrow> supervisor \<times> response" where
  "apply_stop t sv =
     (case resolve t sv of
        Inl name \<Rightarrow> (sv, ErrorUnknownUnit name)
      | Inr names \<Rightarrow>
          let (sv, notes) = stop_each names [] sv in
          (sv, status_response t notes sv))"

definition unit_is_down :: "string \<Rightarrow> supervisor \<Rightarrow> bool" where
  "unit_is_down name sv =
     (case bt_get name (sv_units sv) of None \<Rightarrow> False | Some rt \<Rightarrow> rt_state rt = Down)"

definition unit_is_running :: "string \<Rightarrow> supervisor \<Rightarrow> bool" where
  "unit_is_running name sv =
     (case bt_get name (sv_units sv) of None \<Rightarrow> False | Some rt \<Rightarrow> is_running rt)"

definition unit_is_enabled :: "string \<Rightarrow> supervisor \<Rightarrow> bool" where
  "unit_is_enabled name sv =
     (case bt_get name (sv_units sv) of None \<Rightarrow> False | Some rt \<Rightarrow> un_enabled (rt_unit rt))"

text \<open>What \<open>pump_until\<close> waits for: a unit to be down, or only its time limit.\<close>

datatype goal = UntilDown string | TimeLimit

definition reached :: "goal \<Rightarrow> supervisor \<Rightarrow> bool" where
  "reached g sv = (case g of UntilDown name \<Rightarrow> unit_is_down name sv | TimeLimit \<Rightarrow> False)"

definition pump_wait :: "nat \<Rightarrow> supervisor \<Rightarrow> nat" where
  "pump_wait deadline sv =
     (let remaining = deadline - sv_now sv in
      case next_deadline sv of None \<Rightarrow> remaining | Some d \<Rightarrow> min d remaining)"

text \<open>Waiting handles events with \<open>hdl\<close>; a loop that runs out of fuel stops waiting.\<close>

fun pump_until ::
  "(event \<Rightarrow> supervisor \<Rightarrow> supervisor) \<Rightarrow> nat \<Rightarrow> nat \<Rightarrow> goal \<Rightarrow> supervisor \<Rightarrow> supervisor \<times> bool" where
  "pump_until hdl 0 deadline g sv = (sv, reached g sv)"
| "pump_until hdl (Suc fuel) deadline g sv =
     (if reached g sv then (sv, True)
      else if deadline - sv_now sv = 0 then (sv, reached g sv)
      else case recv (Some (pump_wait deadline sv)) sv of
             (sv, None) \<Rightarrow> (sv, reached g sv)
           | (sv, Some None) \<Rightarrow> pump_until hdl fuel deadline g (tick sv)
           | (sv, Some (Some ev)) \<Rightarrow> pump_until hdl fuel deadline g (tick (hdl ev sv)))"

fun healthz_loop ::
  "(event \<Rightarrow> supervisor \<Rightarrow> supervisor) \<Rightarrow> nat \<Rightarrow> nat \<Rightarrow> supervisor \<Rightarrow> supervisor \<times> bool" where
  "healthz_loop hdl 0 deadline sv = (sv, False)"
| "healthz_loop hdl (Suc fuel) deadline sv =
     (let (sv, ok) = healthz_is_ok sv in
      if ok then (sv, True)
      else if sv_now sv \<ge> deadline then (sv, False)
      else
        let (sv, _) = pump_until hdl fuel (sv_now sv + tm_health_interval (sv_timings sv)) TimeLimit sv in
        healthz_loop hdl fuel deadline sv)"

definition wait_for_healthz ::
  "(event \<Rightarrow> supervisor \<Rightarrow> supervisor) \<Rightarrow> nat \<Rightarrow> string \<Rightarrow> supervisor \<Rightarrow> supervisor \<times> bool" where
  "wait_for_healthz hdl fuel listen sv =
     (if listen = [] then (sv, False)
      else healthz_loop hdl fuel (sv_now sv + tm_health_timeout (sv_timings sv)) sv)"

text \<open>Stop a unit and wait until it is down, twice the grace at most.\<close>

definition stop_and_wait ::
  "(event \<Rightarrow> supervisor \<Rightarrow> supervisor) \<Rightarrow> nat \<Rightarrow> string \<Rightarrow> supervisor \<Rightarrow> supervisor \<times> bool" where
  "stop_and_wait hdl fuel name sv =
     (let sv = stop name sv in
      pump_until hdl fuel (sv_now sv + tm_grace (sv_timings sv) * 2) (UntilDown name) sv)"

fun restart_each ::
  "(event \<Rightarrow> supervisor \<Rightarrow> supervisor) \<Rightarrow> nat \<Rightarrow> string list \<Rightarrow> remark list \<Rightarrow> supervisor
   \<Rightarrow> supervisor \<times> remark list" where
  "restart_each hdl fuel [] remarks sv = (sv, remarks)"
| "restart_each hdl fuel (name # names) remarks sv =
     (if \<not> unit_is_enabled name sv then restart_each hdl fuel names (remarks @ [Skipped name]) sv
      else
        let (sv, down) = stop_and_wait hdl fuel name sv in
        if \<not> down then (sv, remarks @ [DidNotStopAll name])
        else
          let sv = tick (request_start True name sv);
              (sv, listen) = load_listen name sv;
              (sv, healthy) = wait_for_healthz hdl fuel listen sv in
          if healthy then restart_each hdl fuel names remarks sv
          else (sv, remarks @ [Unhealthy name]))"

definition restart_named ::
  "(event \<Rightarrow> supervisor \<Rightarrow> supervisor) \<Rightarrow> nat \<Rightarrow> string \<Rightarrow> supervisor \<Rightarrow> supervisor \<times> remark list" where
  "restart_named hdl fuel name sv =
     (let (sv, ok) = set_enabled name True sv in
      if \<not> ok then (sv, [NotRecorded name])
      else
        let (sv, down) = (if unit_is_running name sv then stop_and_wait hdl fuel name sv else (sv, True)) in
        if \<not> down then (sv, [DidNotStop name])
        else (tick (request_start False name sv), []))"

definition apply_restart ::
  "(event \<Rightarrow> supervisor \<Rightarrow> supervisor) \<Rightarrow> nat \<Rightarrow> target \<Rightarrow> supervisor \<Rightarrow> supervisor \<times> response" where
  "apply_restart hdl fuel t sv =
     (case resolve t sv of
        Inl name \<Rightarrow> (sv, ErrorUnknownUnit name)
      | Inr names \<Rightarrow>
          let (sv, remarks) = (case t of
                Some name \<Rightarrow> restart_named hdl fuel name sv
              | None \<Rightarrow> restart_each hdl fuel names [] sv) in
          (sv, status_response t remarks sv))"

definition serve_request ::
  "(event \<Rightarrow> supervisor \<Rightarrow> supervisor) \<Rightarrow> nat \<Rightarrow> request \<Rightarrow> supervisor \<Rightarrow> supervisor" where
  "serve_request hdl fuel q sv =
     (case q of
        ReqList t \<Rightarrow> answer (status_response t [] sv) sv
      | ReqStatus t \<Rightarrow> answer (status_response t [] sv) sv
      | ReqStart t \<Rightarrow> let (sv, r) = apply_start t sv in answer r sv
      | ReqStop t \<Rightarrow> let (sv, r) = apply_stop t sv in answer r sv
      | ReqRestart t \<Rightarrow> let (sv, r) = apply_restart hdl fuel t sv in answer r sv
      | ReqReload \<Rightarrow> let sv = reload sv in answer (status_response None [] sv) sv
      | ReqLog t follow \<Rightarrow>
          (case resolve t sv of
             Inl name \<Rightarrow> answer (ErrorUnknownUnit name) sv
           | Inr _ \<Rightarrow>
               let (sv, ok) = write_line (answer (LogAnswer follow) sv) in
               if ok \<and> follow then sv\<lparr>sv_followers := sv_followers sv @ [t]\<rparr> else sv))"

text \<open>A line of a child goes to every log client that follows the unit; one that cannot be
  written to is dropped.\<close>

fun fan_out :: "string \<Rightarrow> string \<Rightarrow> target list \<Rightarrow> supervisor \<Rightarrow> supervisor \<times> target list" where
  "fan_out name line [] sv = (sv, [])"
| "fan_out name line (follower # rest) sv =
     (if (case follower of None \<Rightarrow> False | Some wanted \<Rightarrow> wanted \<noteq> name)
      then let (sv, kept) = fan_out name line rest sv in (sv, follower # kept)
      else
        let (sv, ok) = write_line sv in
        if ok then
          let (sv, kept) = fan_out name line rest (sv\<lparr>sv_delivered := sv_delivered sv @ [(follower, name, line)]\<rparr>) in
          (sv, follower # kept)
        else fan_out name line rest sv)"

definition fan_out_log :: "string \<Rightarrow> string \<Rightarrow> supervisor \<Rightarrow> supervisor" where
  "fan_out_log name line sv =
     (let (sv', kept) = fan_out name line (sv_followers sv) sv in sv'\<lparr>sv_followers := kept\<rparr>)"

definition handle_event :: "(request \<Rightarrow> supervisor \<Rightarrow> supervisor) \<Rightarrow> event \<Rightarrow> supervisor \<Rightarrow> supervisor" where
  "handle_event serve ev sv =
     (case ev of
        Request None \<Rightarrow> answer ErrorMalformed sv
      | Request (Some q) \<Rightarrow> serve q sv
      | ChildExited name pid summary \<Rightarrow> child_exited name pid summary sv
      | LogLine name line \<Rightarrow> fan_out_log name line sv
      | Signal _ \<Rightarrow> begin_shutdown sv)"

text \<open>A request that arrives while a restart waits is served inside that wait; the fuel bounds
  how deep such waits nest, and a request nested deeper is not served.\<close>

primrec handle :: "nat \<Rightarrow> event \<Rightarrow> supervisor \<Rightarrow> supervisor" where
  "handle 0 = handle_event (\<lambda>_ sv. sv)"
| "handle (Suc fuel) = handle_event (serve_request (handle fuel) fuel)"

text \<open>The main loop.\<close>

fun supervise_loop :: "nat \<Rightarrow> supervisor \<Rightarrow> supervisor" where
  "supervise_loop 0 sv = sv"
| "supervise_loop (Suc fuel) sv =
     (if finished sv then sv
      else case recv (next_deadline sv) sv of
             (sv, None) \<Rightarrow> sv
           | (sv, Some None) \<Rightarrow> supervise_loop fuel (tick sv)
           | (sv, Some (Some ev)) \<Rightarrow> supervise_loop fuel (tick (handle fuel ev sv)))"

definition supervise :: "nat \<Rightarrow> supervisor \<Rightarrow> supervisor" where
  "supervise fuel sv = supervise_loop fuel (reload sv)"

text \<open>A new supervisor: no units, nothing answered, nothing running.\<close>

definition supervisor_new :: "registry \<Rightarrow> timings \<Rightarrow> supervisor \<Rightarrow> bool" where
  "supervisor_new reg tm sv \<longleftrightarrow> sv_registry sv = reg \<and> sv_timings sv = tm \<and> sv_units sv = []
   \<and> sv_followers sv = [] \<and> \<not> sv_shutting_down sv \<and> sv_answers sv = [] \<and> sv_signals sv = []
   \<and> sv_children sv = []"

section \<open>Invariant\<close>

text \<open>The children the units know of, and what holds of every unit.\<close>

definition tracked :: "supervisor \<Rightarrow> (string \<times> nat) set" where
  "tracked sv = {(name, pid). \<exists>rt. bt_get name (sv_units sv) = Some rt \<and> rt_pid rt = Some pid}"

definition rt_ok :: "timings \<Rightarrow> bool \<Rightarrow> runtime \<Rightarrow> bool" where
  "rt_ok tm shutting_down rt \<longleftrightarrow> (is_running rt \<longrightarrow> rt_next_start rt = None \<and> \<not> shutting_down)
   \<and> tm_initial_backoff tm \<le> rt_backoff rt \<and> rt_backoff rt \<le> tm_max_backoff tm"

definition units_ok :: "supervisor \<Rightarrow> bool" where
  "units_ok sv \<longleftrightarrow> bt_sorted (sv_units sv) \<and> tm_initial_backoff (sv_timings sv) \<le> tm_max_backoff (sv_timings sv)
   \<and> (\<forall>name rt. bt_get name (sv_units sv) = Some rt \<longrightarrow> rt_ok (sv_timings sv) (sv_shutting_down sv) rt)"

definition sup_inv :: "supervisor \<Rightarrow> bool" where
  "sup_inv sv \<longleftrightarrow> units_ok sv \<and> set (sv_children sv) = tracked sv
   \<and> distinct (sv_children sv) \<and> inj_on snd (tracked sv)"

text \<open>After an event was received and before it is handled: the child whose end is reported is
  still tracked but no longer among the children.\<close>

definition event_ready :: "event \<Rightarrow> supervisor \<Rightarrow> bool" where
  "event_ready ev sv \<longleftrightarrow> units_ok sv \<and> distinct (sv_children sv) \<and> inj_on snd (tracked sv)
   \<and> (case ev of
        ChildExited name pid _ \<Rightarrow> (name, pid) \<notin> set (sv_children sv)
          \<and> tracked sv = insert (name, pid) (set (sv_children sv))
      | _ \<Rightarrow> tracked sv = set (sv_children sv))"

lemma get_set_runtime:
  "bt_get n (sv_units (set_runtime name f sv)) =
     (if n = name then map_option f (bt_get name (sv_units sv)) else bt_get n (sv_units sv))"
  by (simp add: set_runtime_def bt.get_modify)

lemma set_runtime_simps [simp]:
  "sv_timings (set_runtime name f sv) = sv_timings sv"
  "sv_shutting_down (set_runtime name f sv) = sv_shutting_down sv"
  "sv_now (set_runtime name f sv) = sv_now sv"
  "sv_children (set_runtime name f sv) = sv_children sv"
  "bt_sorted (sv_units (set_runtime name f sv)) = bt_sorted (sv_units sv)"
  by (simp_all add: set_runtime_def bt_sorted_def bt_modify_def fst_comp_modify)

lemma send_signal_simps [simp]:
  "sv_units (send_signal pid sig sv) = sv_units sv" "sv_timings (send_signal pid sig sv) = sv_timings sv"
  "sv_shutting_down (send_signal pid sig sv) = sv_shutting_down sv"
  "sv_children (send_signal pid sig sv) = sv_children sv" "sv_now (send_signal pid sig sv) = sv_now sv"
  by (simp_all add: send_signal_def)

lemma inv_cong:
  assumes "sv_units sv' = sv_units sv" "sv_timings sv' = sv_timings sv"
    "sv_shutting_down sv' = sv_shutting_down sv" "sv_children sv' = sv_children sv"
  shows "units_ok sv' = units_ok sv" "tracked sv' = tracked sv" "sup_inv sv' = sup_inv sv"
  using assms by (simp_all add: units_ok_def tracked_def sup_inv_def)

lemma sup_inv_send_signal [simp]: "sup_inv (send_signal pid sig sv) = sup_inv sv"
  by (rule inv_cong(3)) simp_all

lemma units_ok_set_runtime:
  assumes "units_ok sv"
    and "\<And>rt. bt_get name (sv_units sv) = Some rt \<Longrightarrow> rt_ok (sv_timings sv) (sv_shutting_down sv) rt \<Longrightarrow>
           rt_ok (sv_timings sv) (sv_shutting_down sv) (f rt)"
  shows "units_ok (set_runtime name f sv)"
  using assms by (auto simp: units_ok_def get_set_runtime split: if_splits)

lemma tracked_set_runtime:
  assumes "\<And>rt. bt_get name (sv_units sv) = Some rt \<Longrightarrow> rt_pid (f rt) = rt_pid rt"
  shows "tracked (set_runtime name f sv) = tracked sv"
  using assms by (auto simp: tracked_def get_set_runtime split: if_splits)

text \<open>A change of one unit that leaves its child alone.\<close>

lemma sup_inv_set_runtime:
  assumes "sup_inv sv"
    and "\<And>rt. bt_get name (sv_units sv) = Some rt \<Longrightarrow> rt_ok (sv_timings sv) (sv_shutting_down sv) rt \<Longrightarrow>
           rt_pid (f rt) = rt_pid rt \<and> rt_ok (sv_timings sv) (sv_shutting_down sv) (f rt)"
  shows "sup_inv (set_runtime name f sv)"
proof -
  have ok: "rt_ok (sv_timings sv) (sv_shutting_down sv) rt" if "bt_get name (sv_units sv) = Some rt" for rt
    using assms(1) that by (auto simp: sup_inv_def units_ok_def)
  have "tracked (set_runtime name f sv) = tracked sv"
    using assms(2) ok by (intro tracked_set_runtime) blast
  moreover have "units_ok (set_runtime name f sv)"
    using assms by (intro units_ok_set_runtime) (auto simp: sup_inv_def)
  ultimately show ?thesis using assms(1) unfolding sup_inv_def by simp
qed

lemmas rt_simps = rt_ok_def rt_pid_def is_running_def

lemma back_off_keeps:
  "tm_initial_backoff tm \<le> tm_max_backoff tm \<Longrightarrow> rt_state rt = Down \<Longrightarrow> rt_ok tm sd rt \<Longrightarrow>
   rt_ok tm sd (back_off tm now rt) \<and> rt_pid (back_off tm now rt) = rt_pid rt"
  by (auto simp: back_off_def rt_simps)

lemma stop_keeps:
  assumes "sup_inv sv"
  shows "sup_inv (stop name sv)"
proof (cases "bt_get name (sv_units sv)")
  case None
  then show ?thesis using assms by (simp add: stop_def)
next
  case (Some rt)
  let ?sv = "set_runtime name (\<lambda>rt. rt\<lparr>rt_next_start := None\<rparr>) sv"
  have "sup_inv ?sv" using assms by (rule sup_inv_set_runtime) (auto simp: rt_simps)
  moreover have "bt_get name (sv_units ?sv) = Some (rt\<lparr>rt_next_start := None\<rparr>)"
    by (simp add: get_set_runtime Some)
  ultimately show ?thesis
    using Some by (auto simp: stop_def Let_def rt_simps intro!: sup_inv_set_runtime split: child_state.splits)
qed

lemma start_keeps:
  assumes inv: "sup_inv sv" and rt: "bt_get name (sv_units sv) = Some rt" "rt_state rt = Down"
    and quiet: "\<not> sv_shutting_down sv"
  shows "sup_inv (start name sv)"
proof -
  obtain sv' res where sp: "spawn name sv = (sv', res)" by fastforce
  have same: "sv_units sv' = sv_units sv" "sv_timings sv' = sv_timings sv"
      "sv_shutting_down sv' = sv_shutting_down sv" "sv_now sv' = sv_now sv"
    using sp by (auto simp: spawn_def Let_def split: list.splits sum.splits if_splits)
  have le: "tm_initial_backoff (sv_timings sv) \<le> tm_max_backoff (sv_timings sv)"
    using inv by (simp add: sup_inv_def units_ok_def)
  show ?thesis
  proof (cases res)
    case (Inl err)
    then have "sv_children sv' = sv_children sv"
      using sp by (auto simp: spawn_def Let_def split: list.splits sum.splits if_splits)
    then have "sup_inv sv'" using inv same by (simp add: inv_cong(3) [OF same(1-3)])
    then have "sup_inv (set_runtime name
        (\<lambda>rt. back_off (sv_timings sv') (sv_now sv') (rt\<lparr>rt_last_exit := Some err\<rparr>)) sv')"
      using rt le same by (intro sup_inv_set_runtime) (auto simp: back_off_def rt_simps)
    then show ?thesis using rt sp Inl by (simp add: start_def is_running_def)
  next
    case (Inr pid)
    then have ch: "sv_children sv' = (name, pid) # sv_children sv" and fresh: "pid \<notin> snd ` set (sv_children sv)"
      using sp by (auto simp: spawn_def Let_def split: list.splits sum.splits if_splits)
    let ?f = "\<lambda>rt. rt\<lparr>rt_state := Running pid, rt_next_start := None\<rparr>"
    have "tracked (set_runtime name ?f sv') = insert (name, pid) (tracked sv)"
      using rt same by (auto simp: tracked_def get_set_runtime rt_pid_def split: if_splits)
    moreover have "units_ok (set_runtime name ?f sv')"
      using inv quiet same by (auto simp: sup_inv_def units_ok_def get_set_runtime rt_simps split: if_splits)
    moreover have "inj_on snd (insert (name, pid) (tracked sv))" "(name, pid) \<notin> tracked sv"
      using inv fresh by (force simp: sup_inv_def inj_on_def)+
    ultimately have "sup_inv (set_runtime name ?f sv')"
      using inv ch by (simp add: sup_inv_def)
    then show ?thesis using rt sp Inr by (simp add: start_def is_running_def)
  qed
qed

lemma fold_keeps: "P s \<Longrightarrow> (\<And>x s. P s \<Longrightarrow> P (f x s)) \<Longrightarrow> P (fold f xs s)"
  by (induction xs arbitrary: s) auto

lemma tick_one_keeps: "sup_inv sv \<Longrightarrow> sup_inv (tick_one name sv)"
  by (auto simp: tick_one_def rt_simps intro!: sup_inv_set_runtime intro: start_keeps
      split: option.splits child_state.splits)

lemma tick_keeps: "sup_inv sv \<Longrightarrow> sup_inv (tick sv)"
  unfolding tick_def by (rule fold_keeps) (auto intro: tick_one_keeps)

lemma child_exited_keeps:
  assumes "event_ready (ChildExited name pid summary) sv"
  shows "sup_inv (child_exited name pid summary sv)"
proof -
  have ok: "units_ok sv" and tr: "tracked sv = insert (name, pid) (set (sv_children sv))"
      and fresh: "(name, pid) \<notin> set (sv_children sv)"
    using assms by (auto simp: event_ready_def)
  from tr obtain rt where rt: "bt_get name (sv_units sv) = Some rt" "rt_pid rt = Some pid"
    by (auto simp: tracked_def set_eq_iff)
  have rtok: "rt_ok (sv_timings sv) (sv_shutting_down sv) rt" using ok rt by (auto simp: units_ok_def)
  define rt' where "rt' = (let rt' = rt\<lparr>rt_state := Down, rt_last_exit := Some summary\<rparr> in
      if (case rt_state rt of Stopping _ _ _ \<Rightarrow> True | _ \<Rightarrow> False) \<or> \<not> un_enabled (rt_unit rt) \<or> sv_shutting_down sv
      then rt'\<lparr>rt_next_start := None\<rparr> else back_off (sv_timings sv) (sv_now sv) rt')"
  have ce: "child_exited name pid summary sv = set_runtime name (\<lambda>_. rt') sv"
    using rt by (simp add: child_exited_def rt'_def Let_def)
  have d: "rt_state rt' = Down" "rt_ok (sv_timings sv) (sv_shutting_down sv) rt'"
    using rtok ok by (auto simp: rt'_def Let_def back_off_def rt_ok_def is_running_def units_ok_def)
  have "tracked (set_runtime name (\<lambda>_. rt') sv) = {x \<in> tracked sv. fst x \<noteq> name}"
    using d by (auto simp: tracked_def get_set_runtime rt_pid_def split: if_splits)
  also have "\<dots> = set (sv_children sv)"
  proof -
    have "fst x \<noteq> name" if "x \<in> set (sv_children sv)" for x
    proof
      assume "fst x = name"
      then have "(name, snd x) \<in> tracked sv" using that tr by (metis insertI2 prod.collapse)
      then have "snd x = pid" using rt by (auto simp: tracked_def)
      with \<open>fst x = name\<close> that fresh show False by (metis prod.collapse)
    qed
    then show ?thesis unfolding tr by auto
  qed
  moreover have "units_ok (set_runtime name (\<lambda>_. rt') sv)" using ok d by (intro units_ok_set_runtime) auto
  moreover have "inj_on snd (set (sv_children sv))"
    using assms tr by (auto simp: event_ready_def)
  ultimately show ?thesis using assms by (simp add: ce sup_inv_def event_ready_def)
qed

lemma stop_running:
  assumes "bt_get n (sv_units (stop name sv)) = Some rt"
  shows "is_running rt \<Longrightarrow> n \<noteq> name \<and> bt_get n (sv_units sv) = Some rt"
  using assms by (auto simp: stop_def Let_def get_set_runtime is_running_def split: option.splits child_state.splits if_splits)

lemma stop_simps [simp]:
  "sv_shutting_down (stop name sv) = sv_shutting_down sv" "sv_timings (stop name sv) = sv_timings sv"
  "sv_now (stop name sv) = sv_now sv" "sv_registry (stop name sv) = sv_registry sv"
  by (simp_all add: stop_def Let_def set_runtime_def send_signal_def split: option.splits child_state.splits)

lemma fold_stop_running:
  "bt_get n (sv_units (fold stop names sv)) = Some rt \<Longrightarrow> is_running rt \<Longrightarrow>
   n \<notin> set names \<and> bt_get n (sv_units sv) = Some rt"
proof (induction names arbitrary: sv)
  case (Cons name names)
  then have "n \<notin> set names" "bt_get n (sv_units (stop name sv)) = Some rt" by auto
  with stop_running [of n name sv rt] Cons.prems(2) show ?case by auto
qed simp

lemma fold_stop_simps [simp]:
  "sv_shutting_down (fold stop names sv) = sv_shutting_down sv"
  "sv_timings (fold stop names sv) = sv_timings sv"
  by (induction names arbitrary: sv) auto

lemma stop_shutdown: "stop name (sv\<lparr>sv_shutting_down := b\<rparr>) = (stop name sv)\<lparr>sv_shutting_down := b\<rparr>"
  by (auto simp: stop_def Let_def set_runtime_def send_signal_def split: option.splits child_state.splits)

lemma fold_stop_shutdown:
  "fold stop names (sv\<lparr>sv_shutting_down := b\<rparr>) = (fold stop names sv)\<lparr>sv_shutting_down := b\<rparr>"
  by (induction names arbitrary: sv) (auto simp: stop_shutdown)

lemma begin_shutdown_keeps:
  assumes "sup_inv sv"
  shows "sup_inv (begin_shutdown sv)"
proof (cases "sv_shutting_down sv")
  case True
  then show ?thesis using assms by (simp add: begin_shutdown_def)
next
  case False
  let ?sv = "fold stop (map fst (sv_units sv)) sv"
  have inv: "sup_inv ?sv" using assms by (rule fold_keeps) (rule stop_keeps)
  have "\<not> is_running rt" if "bt_get n (sv_units ?sv) = Some rt" for n rt
    using fold_stop_running [OF that] by (force simp: bt_get_def dest: map_of_SomeD)
  with inv have "units_ok (?sv\<lparr>sv_shutting_down := True\<rparr>)"
    by (auto simp: sup_inv_def units_ok_def rt_ok_def)
  with inv have "sup_inv (?sv\<lparr>sv_shutting_down := True\<rparr>)"
    by (auto simp: sup_inv_def tracked_def)
  then show ?thesis using False by (simp add: begin_shutdown_def fold_stop_shutdown)
qed

lemma drop_unit_keeps: "sup_inv sv \<Longrightarrow> sup_inv (drop_unit name sv)"
proof -
  assume "sup_inv sv"
  then have inv: "sup_inv (stop name sv)" by (rule stop_keeps)
  let ?sv = "stop name sv"
  show ?thesis
  proof (cases "unit_is_down name ?sv")
    case False
    then show ?thesis using inv by (auto simp: drop_unit_def Let_def unit_is_down_def split: option.splits)
  next
    case True
    have s: "bt_sorted (sv_units ?sv)" using inv by (simp add: sup_inv_def units_ok_def)
    have "tracked (?sv\<lparr>sv_units := bt_remove name (sv_units ?sv)\<rparr>) = tracked ?sv"
      using True s by (auto simp: tracked_def bt.get_remove unit_is_down_def rt_pid_def split: option.splits if_splits)
    moreover have "units_ok (?sv\<lparr>sv_units := bt_remove name (sv_units ?sv)\<rparr>)"
      using inv s by (auto simp: sup_inv_def units_ok_def bt.get_remove bt.inv_remove split: if_splits)
    ultimately have "sup_inv (?sv\<lparr>sv_units := bt_remove name (sv_units ?sv)\<rparr>)"
      using inv unfolding sup_inv_def by simp
    then show ?thesis using True by (auto simp: drop_unit_def Let_def unit_is_down_def split: option.splits)
  qed
qed

lemma insert_unit_keeps:
  assumes inv: "sup_inv sv" and new: "bt_get name (sv_units sv) = None"
  shows "sup_inv (sv\<lparr>sv_units := bt_insert name (runtime_new u (tm_initial_backoff (sv_timings sv))) (sv_units sv)\<rparr>)"
    (is "sup_inv ?sv")
proof -
  have s: "bt_sorted (sv_units sv)" using inv by (simp add: sup_inv_def units_ok_def)
  have "tracked ?sv = tracked sv"
    using new s by (auto simp: tracked_def bt.get_insert runtime_new_def rt_pid_def split: if_splits)
  moreover have "units_ok ?sv"
    using inv s by (auto simp: sup_inv_def units_ok_def bt.get_insert bt.inv_insert runtime_new_def rt_simps split: if_splits)
  ultimately show ?thesis using inv unfolding sup_inv_def by simp
qed

lemma adopt_unit_keeps: "sup_inv sv \<Longrightarrow> sup_inv (adopt_unit entry sv)"
proof -
  assume inv: "sup_inv sv"
  obtain name u where e: "entry = (name, u)" by (cases entry)
  let ?sv = "case bt_get name (sv_units sv) of
               Some _ \<Rightarrow> set_runtime name (\<lambda>rt. rt\<lparr>rt_unit := u\<rparr>) sv
             | None \<Rightarrow> sv\<lparr>sv_units := bt_insert name (runtime_new u (tm_initial_backoff (sv_timings sv))) (sv_units sv)\<rparr>"
  have inv': "sup_inv ?sv"
    using inv by (cases "bt_get name (sv_units sv)")
      (auto intro: insert_unit_keeps intro!: sup_inv_set_runtime simp: rt_simps)
  have "sup_inv (set_runtime name (\<lambda>rt. if rt_next_start rt = None
          then rt\<lparr>rt_next_start := Some (sv_now ?sv)\<rparr> else rt) ?sv)"
    if "\<not> (case bt_get name (sv_units ?sv) of None \<Rightarrow> False | Some rt \<Rightarrow> is_running rt)"
    using inv' that by (intro sup_inv_set_runtime) (auto simp: rt_simps)
  then show ?thesis
    using inv' stop_keeps [OF inv'] by (simp add: adopt_unit_def e Let_def)
qed

lemma reload_keeps: "sup_inv sv \<Longrightarrow> sup_inv (reload sv)"
proof -
  assume inv: "sup_inv sv"
  obtain sv' io where io: "take_registry_io sv = (sv', io)" by fastforce
  then have "sup_inv sv' = sup_inv sv"
    by (intro inv_cong(3)) (auto simp: take_registry_io_def split: list.splits)
  with inv show ?thesis
    by (auto simp: reload_def io Let_def split: option.splits intro!: fold_keeps adopt_unit_keeps drop_unit_keeps)
qed

lemma set_enabled_keeps: "sup_inv sv \<Longrightarrow> sup_inv (fst (set_enabled name enabled sv))"
proof -
  assume inv: "sup_inv sv"
  obtain sv' io where io: "take_registry_io sv = (sv', io)" by fastforce
  obtain reg res where r: "registry_set_enabled io name enabled (sv_registry sv') = (reg, res)" by fastforce
  have "sup_inv (sv'\<lparr>sv_registry := reg\<rparr>) = sup_inv sv"
    using io by (intro inv_cong(3)) (auto simp: take_registry_io_def split: list.splits)
  then show ?thesis
    using inv by (cases res) (auto simp: set_enabled_def io r Let_def rt_simps intro!: sup_inv_set_runtime)
qed

lemma request_start_keeps:
  "sup_inv sv \<Longrightarrow> (always \<Longrightarrow> unit_is_down name sv) \<Longrightarrow> sup_inv (request_start always name sv)"
  unfolding request_start_def
  by (rule sup_inv_set_runtime) (auto simp: rt_simps Let_def unit_is_down_def sup_inv_def units_ok_def
      split: child_state.splits option.splits)

lemma recv_keeps:
  assumes "sup_inv sv" "recv wait sv = (sv', res)"
  shows "res = Some (Some ev) \<Longrightarrow> event_ready ev sv'" and "res = None \<or> res = Some None \<Longrightarrow> sup_inv sv'"
proof -
  have same: "sv_units sv' = sv_units sv" "sv_timings sv' = sv_timings sv"
      "sv_shutting_down sv' = sv_shutting_down sv"
    using assms(2) by (auto simp: recv_def Let_def split: list.splits if_splits option.splits event.splits)
  show "res = None \<or> res = Some None \<Longrightarrow> sup_inv sv'"
    using assms inv_cong(3) [OF same]
    by (auto simp: recv_def Let_def split: list.splits if_splits option.splits event.splits)
  have tr: "units_ok sv'" "tracked sv' = tracked sv"
    using assms(1) same by (auto simp: sup_inv_def units_ok_def tracked_def)
  show "event_ready ev sv'" if ev: "res = Some (Some ev)"
  proof (cases "\<exists>name pid summary. ev = ChildExited name pid summary")
    case True
    then obtain name pid summary where c: "ev = ChildExited name pid summary" by blast
    then have "(name, pid) \<in> set (sv_children sv)" "sv_children sv' = remove1 (name, pid) (sv_children sv)"
      using assms(2) ev by (auto simp: recv_def Let_def split: list.splits if_splits option.splits event.splits)
    then show ?thesis using assms(1) tr c by (auto simp: event_ready_def sup_inv_def)
  next
    case False
    then have "sv_children sv' = sv_children sv"
      using assms(2) ev by (auto simp: recv_def Let_def split: list.splits if_splits option.splits event.splits)
    then show ?thesis
      using assms(1) tr False by (auto simp: event_ready_def sup_inv_def split: event.splits)
  qed
qed

section \<open>Invariants of the event loop\<close>

text \<open>
  What an invariant of the single operations has to satisfy to hold of everything that is built
  from them: the requests, the waits that handle events, the handler and the main loop.
  \<open>ready\<close> is what holds between receiving an event and handling it.
\<close>

locale supervised =
  fixes P :: "supervisor \<Rightarrow> bool" and ready :: "event \<Rightarrow> supervisor \<Rightarrow> bool"
  assumes stop: "P sv \<Longrightarrow> P (stop name sv)"
    and tick: "P sv \<Longrightarrow> P (tick sv)"
    and request_start: "P sv \<Longrightarrow> (always \<Longrightarrow> unit_is_down name sv) \<Longrightarrow> P (request_start always name sv)"
    and set_enabled: "P sv \<Longrightarrow> P (fst (set_enabled name enabled sv))"
    and reload: "P sv \<Longrightarrow> P (reload sv)"
    and begin_shutdown: "P sv \<Longrightarrow> P (begin_shutdown sv)"
    and answer: "P sv \<Longrightarrow> P (answer r sv)"
    and followers: "P sv \<Longrightarrow> P (sv\<lparr>sv_followers := fs\<rparr>)"
    and listens: "P sv \<Longrightarrow> P (sv\<lparr>sv_listens := ls\<rparr>)"
    and writes: "P sv \<Longrightarrow> P (sv\<lparr>sv_writes := ws\<rparr>)"
    and delivered: "P sv \<Longrightarrow> P (sv\<lparr>sv_delivered := ds\<rparr>)"
    and health: "P sv \<Longrightarrow> P (sv\<lparr>sv_health := hs\<rparr>)"
    and child_exited: "ready (ChildExited name pid summary) sv \<Longrightarrow> P (child_exited name pid summary sv)"
    and recv_event: "P sv \<Longrightarrow> recv wait sv = (sv', Some (Some ev)) \<Longrightarrow> ready ev sv'"
    and recv_none: "P sv \<Longrightarrow> recv wait sv = (sv', None) \<Longrightarrow> P sv'"
    and recv_timeout: "P sv \<Longrightarrow> recv wait sv = (sv', Some None) \<Longrightarrow> P sv'"
    and other_event: "ready ev sv \<Longrightarrow> \<nexists>n p s. ev = ChildExited n p s \<Longrightarrow> P sv"
begin

lemma start_each_keeps: "P sv \<Longrightarrow> P (fst (start_each names remarks sv))"
proof (induction names remarks sv rule: start_each.induct)
  case (2 name names remarks sv)
  obtain sv' ok where e: "set_enabled name True sv = (sv', ok)" by fastforce
  with set_enabled [OF 2(3), of name True] have "P sv'" by simp
  then show ?case using 2(1,2) [OF e [symmetric] refl] e by (auto intro: request_start)
qed simp

lemma stop_each_keeps: "P sv \<Longrightarrow> P (fst (stop_each names remarks sv))"
proof (induction names remarks sv rule: stop_each.induct)
  case (2 name names remarks sv)
  obtain sv' ok where e: "set_enabled name False sv = (sv', ok)" by fastforce
  with set_enabled [OF 2(3), of name False] have "P sv'" by simp
  then show ?case using 2(1,2) [OF e [symmetric] refl] e by (auto intro: stop)
qed simp

lemma apply_start_keeps: "P sv \<Longrightarrow> P (fst (apply_start t sv))"
  using start_each_keeps [of sv]
  by (auto simp: apply_start_def Let_def split: sum.splits prod.splits intro!: tick) (metis fst_conv)

lemma apply_stop_keeps: "P sv \<Longrightarrow> P (fst (apply_stop t sv))"
  using stop_each_keeps [of sv]
  by (auto simp: apply_stop_def Let_def split: sum.splits prod.splits) (metis fst_conv)

text \<open>A handler keeps the invariant when it turns a state ready for an event into a good one.\<close>

definition good_handler :: "(event \<Rightarrow> supervisor \<Rightarrow> supervisor) \<Rightarrow> bool" where
  "good_handler hdl \<longleftrightarrow> (\<forall>ev sv. ready ev sv \<longrightarrow> P (hdl ev sv))"

lemma pump_until_keeps:
  assumes "good_handler hdl" "P sv"
  shows "P (fst (pump_until hdl fuel deadline g sv))"
  using assms(2)
proof (induction fuel arbitrary: sv)
  case (Suc fuel)
  obtain sv' res where r: "recv (Some (pump_wait deadline sv)) sv = (sv', res)" by fastforce
  show ?case
  proof (cases res)
    case None
    then show ?thesis using Suc.prems r recv_none by auto
  next
    case (Some ev)
    show ?thesis
    proof (cases ev)
      case None
      then have "P sv'" using recv_timeout [OF Suc.prems] r \<open>res = Some ev\<close> by blast
      then show ?thesis using Suc r None \<open>res = Some ev\<close> by (auto intro: tick)
    next
      case (Some e)
      then have "P (hdl e sv')"
        using recv_event [OF Suc.prems] r \<open>res = Some ev\<close> assms(1) unfolding good_handler_def by blast
      then show ?thesis using Suc r Some \<open>res = Some ev\<close> by (auto intro: tick)
    qed
  qed
qed simp

lemma pump_until_reached:
  "pump_until hdl fuel deadline g sv = (sv', True) \<Longrightarrow> reached g sv'"
proof (induction hdl fuel deadline g sv rule: pump_until.induct)
  case (2 hdl fuel deadline g sv)
  then show ?case
    by (auto split: if_splits prod.splits option.splits)
qed simp

lemma healthz_loop_keeps:
  assumes "good_handler hdl" "P sv"
  shows "P (fst (healthz_loop hdl fuel deadline sv))"
  using assms(2)
proof (induction fuel arbitrary: sv)
  case (Suc fuel)
  obtain sv' ok where h: "healthz_is_ok sv = (sv', ok)" by fastforce
  then have inv: "P sv'"
    using Suc.prems health by (auto simp: healthz_is_ok_def split: list.splits)
  obtain sv'' x where p: "pump_until hdl fuel (sv_now sv' + tm_health_interval (sv_timings sv')) TimeLimit sv' = (sv'', x)"
    by fastforce
  with pump_until_keeps [OF assms(1) inv] have "P sv''" by (metis fst_conv)
  then show ?case using Suc inv h p by simp
qed simp

lemma wait_for_healthz_keeps: "good_handler hdl \<Longrightarrow> P sv \<Longrightarrow> P (fst (wait_for_healthz hdl fuel listen sv))"
  by (simp add: wait_for_healthz_def healthz_loop_keeps)

lemma load_listen_keeps: "P sv \<Longrightarrow> P (fst (load_listen name sv))"
  using listens by (auto simp: load_listen_def split: list.splits)

lemma write_line_keeps: "P sv \<Longrightarrow> P (fst (write_line sv))"
  using writes by (auto simp: write_line_def split: list.splits)

lemma fan_out_keeps: "P sv \<Longrightarrow> P (fst (fan_out name line fs sv))"
proof (induction fs arbitrary: sv)
  case (Cons f fs)
  obtain sv' ok where w: "write_line sv = (sv', ok)" by fastforce
  with write_line_keeps [OF Cons.prems] have "P sv'" by simp
  then show ?case using Cons w delivered by (auto split: prod.splits) (metis fst_conv)+
qed simp

lemma fan_out_log_keeps: "P sv \<Longrightarrow> P (fan_out_log name line sv)"
  using fan_out_keeps [of sv name line "sv_followers sv"]
  by (auto simp: fan_out_log_def intro: followers split: prod.splits)

lemma stop_and_wait_keeps:
  assumes "good_handler hdl" "P sv" "stop_and_wait hdl fuel name sv = (sv', down)"
  shows "P sv'" and "down \<Longrightarrow> unit_is_down name sv'"
proof -
  show "P sv'"
    using pump_until_keeps [OF assms(1) stop [OF assms(2)]] assms(3)
    by (metis fst_conv stop_and_wait_def)
  show "down \<Longrightarrow> unit_is_down name sv'"
    using pump_until_reached assms(3) by (fastforce simp: stop_and_wait_def Let_def reached_def)
qed

lemma restart_each_keeps:
  assumes "good_handler hdl" "P sv"
  shows "P (fst (restart_each hdl fuel names remarks sv))"
  using assms(2)
proof (induction names arbitrary: remarks sv)
  case (Cons name names)
  obtain sv1 down where sw: "stop_and_wait hdl fuel name sv = (sv1, down)" by fastforce
  note k1 = stop_and_wait_keeps [OF assms(1) Cons.prems sw]
  let ?sv2 = "tick (request_start True name sv1)"
  obtain sv3 listen where l: "load_listen name ?sv2 = (sv3, listen)" by fastforce
  obtain sv4 healthy where h: "wait_for_healthz hdl fuel listen sv3 = (sv4, healthy)" by fastforce
  have "P sv3" if down
    using load_listen_keeps [OF tick [OF request_start]] k1 that l by (metis fst_conv)
  then have "P sv4" if down
    using wait_for_healthz_keeps [OF assms(1)] that h by (metis fst_conv)
  then show ?case using Cons sw l h k1(1) by (auto simp: Let_def)
qed simp

lemma restart_named_keeps:
  assumes "good_handler hdl" "P sv"
  shows "P (fst (restart_named hdl fuel name sv))"
proof -
  obtain sv1 ok where e: "set_enabled name True sv = (sv1, ok)" by fastforce
  have i1: "P sv1" using set_enabled [OF assms(2), of name True] e by simp
  obtain sv2 down where w: "(if unit_is_running name sv1 then stop_and_wait hdl fuel name sv1 else (sv1, True)) = (sv2, down)"
    by fastforce
  then have "P sv2" using i1 stop_and_wait_keeps(1) [OF assms(1) i1] by (auto split: if_splits)
  then show ?thesis
    using i1 e w by (auto simp: restart_named_def Let_def intro: tick request_start)
qed

lemma apply_restart_keeps:
  assumes "good_handler hdl" "P sv"
  shows "P (fst (apply_restart hdl fuel t sv))"
  using assms(2) restart_each_keeps [OF assms] restart_named_keeps [OF assms]
  by (auto simp: apply_restart_def Let_def split: sum.splits option.splits prod.splits) (metis fst_conv)+

lemma serve_request_keeps:
  assumes "good_handler hdl" "P sv"
  shows "P (serve_request hdl fuel q sv)"
  using assms(2) apply_start_keeps [OF assms(2)] apply_stop_keeps [OF assms(2)]
    apply_restart_keeps [OF assms, of fuel] reload [OF assms(2)]
    write_line_keeps [OF answer [OF assms(2)]]
  by (auto simp: serve_request_def Let_def intro!: answer followers split: request.splits prod.splits sum.splits)
     (metis fst_conv)+

lemma handle_event_keeps:
  assumes "\<And>q sv. P sv \<Longrightarrow> P (serve q sv)"
  shows "good_handler (handle_event serve)"
  unfolding good_handler_def
proof (intro allI impI)
  fix ev sv assume r: "ready ev sv"
  have inv: "P sv" if "\<nexists>n p s. ev = ChildExited n p s"
    using r that by (rule other_event)
  show "P (handle_event serve ev sv)"
    using r inv assms child_exited answer fan_out_log_keeps
    by (cases ev) (auto simp: handle_event_def intro: begin_shutdown split: option.splits)
qed

lemma handle_keeps: "good_handler (handle fuel)"
  by (induction fuel) (auto intro!: handle_event_keeps serve_request_keeps)

lemma supervise_loop_keeps: "P sv \<Longrightarrow> P (supervise_loop fuel sv)"
proof (induction fuel arbitrary: sv)
  case (Suc fuel)
  obtain sv' res where r: "recv (next_deadline sv) sv = (sv', res)" by fastforce
  show ?case
  proof (cases res)
    case None
    then show ?thesis using Suc.prems r recv_none by auto
  next
    case (Some ev)
    show ?thesis
    proof (cases ev)
      case None
      then have "P sv'" using recv_timeout [OF Suc.prems] r \<open>res = Some ev\<close> by blast
      then show ?thesis using Suc r None \<open>res = Some ev\<close> by (auto intro: tick)
    next
      case (Some e)
      then have "P (handle fuel e sv')"
        using recv_event [OF Suc.prems] r \<open>res = Some ev\<close> handle_keeps unfolding good_handler_def by blast
      then show ?thesis using Suc r Some \<open>res = Some ev\<close> by (auto intro: tick)
    qed
  qed
qed simp

lemma supervise_keeps: "P sv \<Longrightarrow> P (supervise fuel sv)"
  unfolding supervise_def by (rule supervise_loop_keeps) (rule reload)

end

end
