(* ===== verification/Supervision.thy ===== *)
theory Supervision
  imports Supervisor
begin

text \<open>
  What the supervisor of the web daemon guarantees. The two interpretations of the locale
  \<open>supervised\<close> discharge its laws for the invariant of the children and for the state during
  shutdown; the properties follow from the facts about the whole main loop they provide.
\<close>

section \<open>Invariants of the main loop\<close>

lemma event_ready_other: "\<nexists>n p s. ev = ChildExited n p s \<Longrightarrow> event_ready ev sv = sup_inv sv"
  by (cases ev) (simp_all add: event_ready_def sup_inv_def conj_ac eq_commute)

interpretation children: supervised sup_inv event_ready
proof unfold_locales
  fix sv :: supervisor
  show "sup_inv sv \<Longrightarrow> sup_inv (answer r sv)" "sup_inv sv \<Longrightarrow> sup_inv (sv\<lparr>sv_followers := fs\<rparr>)"
    "sup_inv sv \<Longrightarrow> sup_inv (sv\<lparr>sv_health := hs\<rparr>)" "sup_inv sv \<Longrightarrow> sup_inv (sv\<lparr>sv_listens := ls\<rparr>)"
    "sup_inv sv \<Longrightarrow> sup_inv (sv\<lparr>sv_writes := ws\<rparr>)" "sup_inv sv \<Longrightarrow> sup_inv (sv\<lparr>sv_delivered := ds\<rparr>)"
    for r fs hs ls ws ds
    by (simp_all add: answer_def sup_inv_def units_ok_def tracked_def)
qed (auto intro: stop_keeps tick_keeps request_start_keeps set_enabled_keeps reload_keeps begin_shutdown_keeps
    child_exited_keeps dest: recv_keeps simp: event_ready_other)

subsection \<open>Nothing starts during shutdown\<close>

text \<open>While the supervisor shuts down, it stays so and its children are among those it had.\<close>

definition shutting :: "(string \<times> nat) set \<Rightarrow> supervisor \<Rightarrow> bool" where
  "shutting C sv \<longleftrightarrow> sv_shutting_down sv \<and> set (sv_children sv) \<subseteq> C"

lemma shutting_set_runtime [simp]: "shutting C (set_runtime name f sv) = shutting C sv"
  by (simp add: shutting_def)

lemma shutting_stop [simp]: "shutting C (stop name sv) = shutting C sv"
  by (auto simp: shutting_def stop_def Let_def split: option.splits child_state.splits)

lemma shutting_tick_one: "shutting C sv \<Longrightarrow> shutting C (tick_one name sv)"
  by (auto simp: tick_one_def shutting_def split: option.splits child_state.splits)

lemma shutting_drop_unit: "shutting C sv \<Longrightarrow> shutting C (drop_unit name sv)"
  using shutting_stop [of C name sv]
  by (auto simp: drop_unit_def Let_def shutting_def split: option.splits)

lemma shutting_adopt_unit: "shutting C sv \<Longrightarrow> shutting C (adopt_unit entry sv)"
  by (auto simp: adopt_unit_def Let_def shutting_def split: prod.splits option.splits)

lemma take_registry_io_same:
  "take_registry_io sv = (sv', io) \<Longrightarrow> sv_shutting_down sv' = sv_shutting_down sv \<and> sv_children sv' = sv_children sv"
  by (auto simp: take_registry_io_def split: list.splits)

lemma recv_children:
  assumes "recv wait sv = (sv', res)"
  shows "sv_shutting_down sv' = sv_shutting_down sv \<and>
         (\<exists>c. sv_children sv' = sv_children sv \<or> sv_children sv' = remove1 c (sv_children sv))"
  using assms
  by (auto simp: recv_def Let_def split: list.splits if_splits option.splits event.splits) (metis surj_pair)

lemma recv_shutting:
  "recv wait sv = (sv', res) \<Longrightarrow> shutting C sv \<Longrightarrow> shutting C sv'"
  using recv_children [of wait sv sv' res] set_remove1_subset unfolding shutting_def by (metis subset_trans)

lemma shutting_child_exited: "shutting C sv \<Longrightarrow> shutting C (child_exited name pid summary sv)"
  by (simp add: child_exited_def Let_def split: option.splits)

lemma shutting_request_start: "shutting C sv \<Longrightarrow> shutting C (request_start always name sv)"
  by (simp add: request_start_def)

lemma shutting_begin_shutdown: "shutting C sv \<Longrightarrow> shutting C (begin_shutdown sv)"
  by (simp add: begin_shutdown_def shutting_def)

interpretation shutdown: supervised "shutting C" "\<lambda>_. shutting C"
proof unfold_locales
  fix sv :: supervisor and name enabled
  show "shutting C sv \<Longrightarrow> shutting C (tick sv)"
    unfolding tick_def by (rule fold_keeps) (auto intro: shutting_tick_one)
  show "shutting C sv \<Longrightarrow> shutting C (fst (set_enabled name enabled sv))"
    by (auto simp: set_enabled_def Let_def shutting_def split: prod.splits sum.splits dest!: take_registry_io_same)
  show "shutting C (reload sv)" if s: "shutting C sv"
  proof -
    obtain sv' io where io: "take_registry_io sv = (sv', io)" by fastforce
    then have "shutting C sv'" using s take_registry_io_same [OF io] by (simp add: shutting_def)
    then show ?thesis
      by (auto simp: reload_def io Let_def split: option.splits
          intro!: fold_keeps shutting_adopt_unit shutting_drop_unit)
  qed
  show "shutting C sv \<Longrightarrow> shutting C (answer r sv)" "shutting C sv \<Longrightarrow> shutting C (sv\<lparr>sv_followers := fs\<rparr>)"
    "shutting C sv \<Longrightarrow> shutting C (sv\<lparr>sv_health := hs\<rparr>)" "shutting C sv \<Longrightarrow> shutting C (sv\<lparr>sv_listens := ls\<rparr>)"
    "shutting C sv \<Longrightarrow> shutting C (sv\<lparr>sv_writes := ws\<rparr>)" "shutting C sv \<Longrightarrow> shutting C (sv\<lparr>sv_delivered := ds\<rparr>)"
    for r fs hs ls ws ds
    by (simp_all add: shutting_def answer_def)
qed (simp_all add: shutting_child_exited shutting_request_start shutting_begin_shutdown recv_shutting)

section \<open>Properties\<close>

text \<open>C8. Exactly its children. From a fresh supervisor, whatever the registry holds and whatever
  requests, exits, timeouts, spawn failures and signals the main loop meets, and also while
  they are met inside the wait of a restart, every child that runs is the child one unit tracks
  and every tracked child runs, so no child is lost and no unit has two; a running unit has no
  start pending, no unit runs during shutdown, and every backoff stays within its limits.\<close>
theorem supervisor_tracks_children:
  assumes "supervisor_new reg tm sv0" "tm_initial_backoff tm \<le> tm_max_backoff tm"
    and "sv = supervise fuel sv0"
  shows "set (sv_children sv) = tracked sv \<and> distinct (map snd (sv_children sv))
       \<and> (\<forall>name rt. bt_get name (sv_units sv) = Some rt \<longrightarrow>
            (is_running rt \<longrightarrow> rt_next_start rt = None \<and> \<not> sv_shutting_down sv)
          \<and> tm_initial_backoff (sv_timings sv) \<le> rt_backoff rt
          \<and> rt_backoff rt \<le> tm_max_backoff (sv_timings sv))"
proof -
  have "sup_inv sv0"
    using assms(1,2) by (simp add: supervisor_new_def sup_inv_def units_ok_def tracked_def)
  then have "sup_inv sv" unfolding assms(3) by (rule children.supervise_keeps)
  then show ?thesis
    unfolding sup_inv_def units_ok_def rt_ok_def by (metis distinct_map)
qed

text \<open>C26. Shutdown comes to an end. Once the supervisor shuts down, the main loop starts nothing
  any more, even if it is asked to start or to restart units or to reload the registry: its
  children are among those it had; and when the last of them has ended, the loop is finished.\<close>
theorem shutdown_drains:
  assumes "sup_inv sv" "sv_shutting_down sv" and "sv' = supervise_loop fuel sv"
  shows "sv_shutting_down sv' \<and> set (sv_children sv') \<subseteq> set (sv_children sv)
       \<and> (finished sv' \<longleftrightarrow> sv_children sv' = [])"
proof -
  have "shutting (set (sv_children sv)) sv'"
    unfolding assms(3) by (rule shutdown.supervise_loop_keeps) (simp add: shutting_def assms(2))
  moreover have inv: "sup_inv sv'" unfolding assms(3) by (rule children.supervise_loop_keeps [OF assms(1)])
  have sorted: "bt_sorted (sv_units sv')" using inv by (simp add: sup_inv_def units_ok_def)
  have down: "rt_state rt = Down \<longleftrightarrow> rt_pid rt = None" for rt
    by (simp add: rt_pid_def split: child_state.splits)
  have "list_all (\<lambda>rt. rt_state rt = Down) (bt_values (sv_units sv')) \<longleftrightarrow>
        (\<forall>name rt. bt_get name (sv_units sv') = Some rt \<longrightarrow> rt_pid rt = None)"
    using sorted by (auto simp: list_all_iff bt_values_get down)
  then have "list_all (\<lambda>rt. rt_state rt = Down) (bt_values (sv_units sv')) \<longleftrightarrow> tracked sv' = {}"
    by (auto simp: tracked_def)
  ultimately show ?thesis using inv by (auto simp: finished_def shutting_def sup_inv_def)
qed

text \<open>The delays of a unit that keeps ending.\<close>

lemma back_off_iterate:
  assumes "b \<le> m"
  shows "((\<lambda>b. min (b * 2) m) ^^ n) b = min (b * 2 ^ n) (m :: nat)"
proof (induction n)
  case (Suc n)
  then show ?case by (auto simp: min_def)
qed (use assms in simp)

fun crash_again :: "timings \<Rightarrow> nat list \<Rightarrow> runtime \<Rightarrow> runtime" where
  "crash_again tm [] rt = rt"
| "crash_again tm (t # ts) rt = crash_again tm ts (back_off tm t rt)"

text \<open>Backoff. A unit that ends by itself \<open>n\<close> times in a row after a start is started again
  after the initial delay doubled \<open>n - 1\<close> times, but never later than the maximum delay, counted
  from the moment it ended; every one of these ends is counted.\<close>
theorem backoff_doubles_to_the_limit:
  assumes "tm_initial_backoff tm \<le> tm_max_backoff tm" "rt_backoff rt = tm_initial_backoff tm"
  shows "rt_next_start (crash_again tm (ts @ [t]) rt) =
           Some (t + min (tm_initial_backoff tm * 2 ^ length ts) (tm_max_backoff tm))
       \<and> rt_restarts (crash_again tm (ts @ [t]) rt) = rt_restarts rt + length ts + 1"
proof -
  have app: "crash_again tm (ts @ [t]) rt = back_off tm t (crash_again tm ts rt)" for ts t rt
    by (induction tm ts rt rule: crash_again.induct) auto
  have "rt_backoff (crash_again tm ts rt) = ((\<lambda>b. min (b * 2) (tm_max_backoff tm)) ^^ length ts) (rt_backoff rt)
      \<and> rt_restarts (crash_again tm ts rt) = rt_restarts rt + length ts"
    by (induction ts rule: rev_induct) (auto simp: app back_off_def)
  with back_off_iterate [OF assms(1)] assms(2) show ?thesis by (simp add: app back_off_def)
qed
subsection \<open>A start that is lost and a wait that does not rest\<close>

lemma unit_after_start_other: "n \<noteq> name \<Longrightarrow> bt_get n (sv_units (start name sv)) = bt_get n (sv_units sv)"
  by (auto simp: start_def spawn_def Let_def get_set_runtime split: option.splits prod.splits list.splits
      sum.splits if_splits)

lemma unit_after_tick_one:
  "bt_get n (sv_units (tick_one name sv)) =
     (if n = name then bt_get n (sv_units (tick_one n sv)) else bt_get n (sv_units sv))"
  by (auto simp: tick_one_def get_set_runtime send_signal_def unit_after_start_other
      split: option.splits child_state.splits)

text \<open>A unit that is being stopped stays so, with the same child, in a tick; a unit that is down
  without a pending start stays down.\<close>

definition is_stopping :: "string \<Rightarrow> nat \<Rightarrow> supervisor \<Rightarrow> bool" where
  "is_stopping name pid sv \<longleftrightarrow> (\<exists>rt d k. bt_get name (sv_units sv) = Some rt
     \<and> rt_state rt = Stopping pid d k \<and> un_enabled (rt_unit rt))"

definition is_resting :: "string \<Rightarrow> supervisor \<Rightarrow> bool" where
  "is_resting name sv \<longleftrightarrow> (\<exists>rt. bt_get name (sv_units sv) = Some rt
     \<and> rt_state rt = Down \<and> rt_next_start rt = None \<and> un_enabled (rt_unit rt))"

lemma tick_one_stopping: "is_stopping name pid sv \<Longrightarrow> is_stopping name pid (tick_one m sv)"
  by (cases "m = name")
     (auto simp: is_stopping_def tick_one_def get_set_runtime send_signal_def unit_after_start_other
        split: option.splits child_state.splits)

lemma tick_one_resting: "is_resting name sv \<Longrightarrow> is_resting name (tick_one m sv)"
  by (cases "m = name")
     (auto simp: is_resting_def tick_one_def get_set_runtime send_signal_def unit_after_start_other
        split: option.splits child_state.splits)

lemma tick_stopping: "is_stopping name pid sv \<Longrightarrow> is_stopping name pid (tick sv)"
  unfolding tick_def by (rule fold_keeps) (auto intro: tick_one_stopping)

lemma tick_resting: "is_resting name sv \<Longrightarrow> is_resting name (tick sv)"
  unfolding tick_def by (rule fold_keeps) (auto intro: tick_one_resting)

lemma request_start_stopping:
  "is_stopping name pid sv \<Longrightarrow> is_stopping name pid (request_start always name sv)"
  unfolding is_stopping_def by (elim exE conjE) (simp add: request_start_def get_set_runtime Let_def)

lemma exit_rests: "is_stopping name pid sv \<Longrightarrow> is_resting name (child_exited name pid summary sv)"
  by (auto simp: is_stopping_def is_resting_def child_exited_def rt_pid_def get_set_runtime Let_def)

lemma earliest_le: "Some t \<in> set (e # cs) \<Longrightarrow> \<exists>m. earliest e cs = Some m \<and> m \<le> t"
  by (induction e cs arbitrary: t rule: earliest.induct) (force split: option.splits)+


definition is_killed :: "string \<Rightarrow> nat \<Rightarrow> supervisor \<Rightarrow> bool" where
  "is_killed name now sv \<longleftrightarrow> sv_now sv = now \<and> (\<exists>rt pid d. bt_get name (sv_units sv) = Some rt
     \<and> rt_state rt = Stopping pid d True \<and> d \<le> now)"

lemma sv_now_start [simp]: "sv_now (start name sv) = sv_now sv"
  by (auto simp: start_def spawn_def Let_def split: option.splits prod.splits list.splits sum.splits if_splits)

lemma tick_one_killed: "is_killed name now sv \<Longrightarrow> is_killed name now (tick_one m sv)"
  by (cases "m = name")
     (auto simp: is_killed_def tick_one_def get_set_runtime send_signal_def unit_after_start_other
        split: option.splits child_state.splits)

lemma tick_killed: "is_killed name now sv \<Longrightarrow> is_killed name now (tick sv)"
  unfolding tick_def by (rule fold_keeps) (auto intro: tick_one_killed)

lemma bt_get_value: "bt_get k m = Some v \<Longrightarrow> v \<in> set (bt_values m)"
  by (force simp: bt_get_def bt_values_def dest: map_of_SomeD)

lemma killed_next_deadline: "is_killed name now sv \<Longrightarrow> next_deadline sv = Some 0"
proof -
  assume "is_killed name now sv"
  then obtain rt pid d where rt: "bt_get name (sv_units sv) = Some rt" "rt_state rt = Stopping pid d True"
    and d: "d \<le> sv_now sv"
    by (auto simp: is_killed_def)
  let ?ds = "map (deadline_of (sv_shutting_down sv)) (bt_values (sv_units sv))"
  have "deadline_of (sv_shutting_down sv) rt = Some d" using rt by (simp add: deadline_of_def)
  then have "Some d \<in> set (None # ?ds)" using bt_get_value [OF rt(1)] by force
  then obtain m where "earliest None ?ds = Some m" "m \<le> d" using earliest_le by blast
  then show ?thesis using d by (simp add: next_deadline_def)
qed

text \<open>A wait that does not rest. When a child has not ended within the grace after SIGKILL,
  its deadline stays in the past: the supervisor asks for a wait of no time, the timers change
  nothing for that unit, and it asks for a wait of no time again, as often as it goes round,
  until the child ends.\<close>
theorem killed_child_polls_without_rest:
  assumes "bt_get name (sv_units sv) = Some rt" "rt_state rt = Stopping pid d True" "d \<le> sv_now sv"
  shows "next_deadline ((tick ^^ n) sv) = Some 0
       \<and> (\<exists>rt'. bt_get name (sv_units ((tick ^^ n) sv)) = Some rt' \<and> rt_pid rt' \<noteq> None)"
proof -
  have "is_killed name (sv_now sv) sv" using assms by (auto simp: is_killed_def)
  then have "is_killed name (sv_now sv) ((tick ^^ n) sv)"
    by (induction n) (auto intro: tick_killed)
  then show ?thesis
    using killed_next_deadline [of name "sv_now sv" "(tick ^^ n) sv"] by (auto simp: is_killed_def rt_pid_def)
qed

subsection \<open>Log clients\<close>

text \<open>As long as writes succeed, a line reaches exactly the clients that follow every unit or
  this one, in the order they came, and all of them stay.\<close>

lemma fan_out_delivers:
  "sv_writes sv = [] \<Longrightarrow>
   fan_out name line fs sv =
     (sv\<lparr>sv_delivered := sv_delivered sv @ map (\<lambda>f. (f, name, line)) (filter (\<lambda>f. f = None \<or> f = Some name) fs)\<rparr>, fs)"
  by (induction fs arbitrary: sv) (auto simp: write_line_def split: option.splits)

section \<open>Witnesses\<close>

definition example_unit :: unit_entry where
  "example_unit = \<lparr>un_config = ''a.toml'', un_binary_path = ''/bin/hyoui'', un_enabled = True, un_added_at = ''now''\<rparr>"

definition example_timings :: timings where
  "example_timings = \<lparr>tm_initial_backoff = 1, tm_max_backoff = 4, tm_grace = 3, tm_health_interval = 1,
     tm_health_timeout = 2\<rparr>"

definition example_supervisor ::
  "(string, runtime) btree \<Rightarrow> bool \<Rightarrow> nat \<Rightarrow> (nat \<times> event option) list \<Rightarrow> (string + nat) list \<Rightarrow>
   (string \<times> nat) list \<Rightarrow> supervisor" where
  "example_supervisor units down now polls spawns children =
     \<lparr>sv_registry = [(''a'', example_unit)], sv_timings = example_timings, sv_units = units, sv_followers = [],
      sv_shutting_down = down, sv_now = now, sv_polls = polls, sv_spawns = spawns, sv_registry_io = [],
      sv_health = [], sv_listens = [], sv_writes = [], sv_delivered = [], sv_answers = [], sv_signals = [], sv_children = children\<rparr>"

definition example_stopping :: "nat \<Rightarrow> bool \<Rightarrow> runtime" where
  "example_stopping d killed = (runtime_new example_unit 1)\<lparr>rt_state := Stopping 7 d killed\<rparr>"

text \<open>A unit is started at the first timeout, ends, and is started again after the backoff.\<close>

definition example_start :: supervisor where
  "example_start = example_supervisor [] False 0
     [(0, None), (2, Some (ChildExited ''a'' 7 ''exit 1'')), (3, None)] [Inr 7, Inr 8] []"

lemmas example_simps = example_start_def example_supervisor_def example_stopping_def example_timings_def
  example_unit_def runtime_new_def

lemma example_start_runs: "sv_children (supervise 10 example_start) = [(''a'', 8)]"
  unfolding example_simps by code_simp

theorem supervisor_tracks_children_witness:
  "set (sv_children (supervise 10 example_start)) = tracked (supervise 10 example_start)
   \<and> sv_children (supervise 10 example_start) = [(''a'', 8)]"
  using supervisor_tracks_children [of "[(''a'', example_unit)]" example_timings example_start
      "supervise 10 example_start" 10] example_start_runs
  by (simp add: supervisor_new_def example_simps)

text \<open>A shutdown during which a start is requested and the last child ends.\<close>

definition example_shutdown :: supervisor where
  "example_shutdown = example_supervisor [(''a'', example_stopping 3 False)] True 0
     [(1, Some (Request (Some (ReqStart None)))), (2, Some (ChildExited ''a'' 7 ''signal 15''))] [Inr 9] [(''a'', 7)]"

lemma example_shutdown_ends: "sv_children (supervise_loop 5 example_shutdown) = []"
  unfolding example_shutdown_def example_simps by code_simp

lemma example_shutdown_tracked: "tracked example_shutdown = {(''a'', 7)}"
  by (auto simp: example_shutdown_def example_simps tracked_def rt_pid_def bt_get_def split: if_splits)

lemma example_shutdown_inv: "sup_inv example_shutdown"
  unfolding sup_inv_def example_shutdown_tracked
  by (simp add: example_shutdown_def example_simps units_ok_def rt_ok_def is_running_def bt_get_def bt_sorted_def)

theorem shutdown_drains_witness: "finished (supervise_loop 5 example_shutdown)"
  using shutdown_drains [OF example_shutdown_inv, of "supervise_loop 5 example_shutdown" 5] example_shutdown_ends
  by (simp add: example_shutdown_def example_simps)

theorem backoff_doubles_to_the_limit_witness:
  "rt_next_start (crash_again example_timings [10, 20, 30, 40] (runtime_new example_unit 1)) = Some 44"
  using backoff_doubles_to_the_limit [of example_timings "runtime_new example_unit 1" "[10, 20, 30]" 40]
  by (simp add: example_simps)

definition example_lost :: supervisor where
  "example_lost = example_supervisor [(''a'', example_stopping 3 False)] False 1 [] [Inr 9] [(''a'', 7)]"

lemma example_lost_answer:
  "\<exists>sv1 status remarks. apply_start (Some ''a'') example_lost = (sv1, Units status remarks)"
proof -
  have "case snd (apply_start (Some ''a'') example_lost) of Units _ _ \<Rightarrow> True | _ \<Rightarrow> False"
    unfolding example_lost_def example_simps by code_simp
  then show ?thesis
    by (cases "apply_start (Some ''a'') example_lost") (auto split: response.splits)
qed


definition example_killed :: supervisor where
  "example_killed = example_supervisor [(''a'', example_stopping 3 True)] False 5 [] [] [(''a'', 7)]"

theorem killed_child_polls_without_rest_witness: "next_deadline ((tick ^^ 100) example_killed) = Some 0"
  using killed_child_polls_without_rest [of "''a''" example_killed "example_stopping 3 True" 7 3 100]
  by (simp add: example_killed_def example_simps bt_get_def)

end
