(* ===== verification/Calendar.thy ===== *)
theory Calendar
  imports Prelude "HOL-Library.Signed_Division"
begin

text \<open>
  Times as texts (\<open>hyoui/src/time.rs\<close>): the conversion of a number of days since 1970-01-01 to
  a date of the Gregorian calendar and of a number of seconds to its ISO 8601 text. The
  divisions of the source truncate; \<open>sdiv\<close> is that division, and \<open>div\<close> and \<open>mod\<close> are its
  \<open>div_euclid\<close> and \<open>rem_euclid\<close> for the positive divisors used.

  The conversion is checked against the calendar itself: the length of every month and the
  step from a day to the next.
\<close>

section \<open>Definitions\<close>

type_synonym date = "int \<times> int \<times> int"

definition civil_era :: "int \<Rightarrow> int" where
  "civil_era shifted = (if shifted \<ge> 0 then shifted else shifted - 146096) sdiv 146097"

definition year_of_era :: "int \<Rightarrow> int" where
  "year_of_era doe = (doe - doe sdiv 1460 + doe sdiv 36524 - doe sdiv 146096) sdiv 365"

definition civil_from_days :: "int \<Rightarrow> date" where
  "civil_from_days days =
     (let shifted = days + 719468;
          era = civil_era shifted;
          doe = shifted - era * 146097;
          yoe = year_of_era doe;
          year = yoe + era * 400;
          doy = doe - (365 * yoe + yoe sdiv 4 - yoe sdiv 100);
          mp = (5 * doy + 2) sdiv 153;
          day = doy - (153 * mp + 2) sdiv 5 + 1;
          month = (if mp < 10 then mp + 3 else mp - 9) in
      (year + (if month \<le> 2 then 1 else 0), month, day))"

text \<open>A number padded with zeros to a width; a minus sign counts.\<close>

definition padded :: "nat \<Rightarrow> int \<Rightarrow> string" where
  "padded w n =
     (let s = decimal (nat \<bar>n\<bar>); sign = (if n < 0 then ''-'' else []) in
      sign @ replicate (w - length sign - length s) (CHR ''0'') @ s)"

definition format_iso8601_utc :: "int \<Rightarrow> string" where
  "format_iso8601_utc seconds =
     (let days = seconds div 86400; tod = seconds mod 86400; (year, month, day) = civil_from_days days;
          hour = tod sdiv 3600; minute = (tod smod 3600) sdiv 60; second = tod smod 60 in
      padded 4 year @ ''-'' @ padded 2 month @ ''-'' @ padded 2 day @ ''T''
      @ padded 2 hour @ '':'' @ padded 2 minute @ '':'' @ padded 2 second @ ''Z'')"

definition format_unix_ms_iso8601 :: "nat \<Rightarrow> string" where
  "format_unix_ms_iso8601 unix_ms = format_iso8601_utc (int (unix_ms div 1000))"

section \<open>The calendar\<close>

definition leap :: "int \<Rightarrow> bool" where
  "leap y \<longleftrightarrow> (4 dvd y \<and> \<not> 100 dvd y) \<or> 400 dvd y"

definition month_days :: "int \<Rightarrow> int \<Rightarrow> int" where
  "month_days y m = (if m = 2 then (if leap y then 29 else 28) else if m \<in> {4, 6, 9, 11} then 30 else 31)"

definition valid_date :: "date \<Rightarrow> bool" where
  "valid_date = (\<lambda>(y, m, d). 1 \<le> m \<and> m \<le> 12 \<and> 1 \<le> d \<and> d \<le> month_days y m)"

definition next_date :: "date \<Rightarrow> date" where
  "next_date = (\<lambda>(y, m, d).
     if d < month_days y m then (y, m, d + 1) else if m < 12 then (y, m + 1, 1) else (y + 1, 1, 1))"

lemma dvd_chain: "100 dvd x \<Longrightarrow> 4 dvd x" "400 dvd x \<Longrightarrow> 100 dvd x" for x :: int
  by (rule dvd_trans [of 4 100], simp, assumption) (rule dvd_trans [of 100 400], simp, assumption)

lemma leap_period: "leap (y + k * 400) = leap y"
proof -
  have "d dvd y + k * 400 \<longleftrightarrow> d dvd y" if "d dvd 400" for d
    using that by (simp add: dvd_add_left_iff dvd_mult)
  from this [of 4] this [of 100] this [of 400] show ?thesis by (simp add: leap_def)
qed

section \<open>Years and months counted from March\<close>

lemma sdiv_nonneg [simp]: "0 \<le> a \<Longrightarrow> 0 < b \<Longrightarrow> a sdiv b = a div (b :: int)"
  by (simp add: signed_divide_int_def sgn_if)

lemma floor_of_negative: "0 < k \<Longrightarrow> (k - 1 - s) div k = - (s div k)" for k :: int
proof -
  assume k: "0 < k"
  then have "0 \<le> k - 1 - s mod k" "k - 1 - s mod k < k"
    using pos_mod_bound [of k s] pos_mod_sign [of k s] by linarith+
  moreover have "k - 1 - s = (k - 1 - s mod k) + k * (- (s div k))"
    using mult_div_mod_eq [of k s] by (simp add: algebra_simps)
  ultimately show ?thesis using k by (simp only: div_mult_self2 div_pos_pos_trivial)
qed

lemma civil_era_floor: "civil_era s = s div 146097"
proof (cases "s \<ge> 0")
  case False
  then have "civil_era s = - ((146096 - s) div 146097)"
    by (simp add: civil_era_def signed_divide_int_def sgn_if abs_if)
  then show ?thesis using floor_of_negative [of 146097 s] by simp
qed (simp add: civil_era_def)

text \<open>Years begin in March here, so that a leap day is the last day of its year.\<close>

definition year_start :: "int \<Rightarrow> int" where
  "year_start y = 365 * y + y div 4 - y div 100 + y div 400"

definition march_year_days :: "int \<Rightarrow> int" where
  "march_year_days y = (if leap (y + 1) then 366 else 365)"

lemma year_parts:
  assumes "0 \<le> y" "y \<le> 399"
  obtains c q r where "y = 100 * c + 4 * q + r" "0 \<le> c" "c \<le> 3" "0 \<le> q" "q \<le> 24" "0 \<le> r" "r \<le> (3 :: int)"
    "year_start y = 36524 * c + 1461 * q + 365 * r"
    "365 * y + y div 4 - y div 100 = year_start y"
proof -
  define c q r where "c = y div 100" and "q = (y mod 100) div 4" and "r = (y mod 100) mod 4"
  have y: "y = 100 * c + 4 * q + r" by (simp add: c_def q_def r_def)
  have b: "0 \<le> c" "c \<le> 3" "0 \<le> q" "q \<le> 24" "0 \<le> r" "r \<le> 3"
    using assms by (auto simp: c_def q_def r_def)
  have "y div 4 = 25 * c + q" "y div 100 = c" "y div 400 = 0" using y b by auto
  then show thesis using that [OF y b] y by (simp add: year_start_def)
qed

lemma year_start_Suc: "year_start (y + 1) = year_start y + march_year_days y"
proof -
  have step: "(y + 1) div k = y div k + (if k dvd y + 1 then 1 else 0)" if "k > 1" for k :: int
  proof -
    have y1: "y + 1 = k * (y div k) + (y mod k + 1)" by (metis add.assoc mult_div_mod_eq)
    have r: "0 \<le> y mod k" "y mod k + 1 \<le> k" using that pos_mod_bound [of k y] pos_mod_sign [of k y] by linarith+
    show ?thesis
    proof (cases "y mod k + 1 = k")
      case True
      with y1 have "y + 1 = k * (y div k) + k * 1" by simp
      then have "y + 1 = k * (y div k + 1)" by (simp only: distrib_left)
      then show ?thesis using that by simp
    next
      case False
      with r have "(y mod k + 1) div k = 0" "\<not> k dvd y mod k + 1" by (auto dest: zdvd_imp_le)
      moreover from this have "\<not> k dvd y + 1" by (metis y1 dvd_add_right_iff dvd_triv_left)
      moreover have "(y + 1) div k = y div k + (y mod k + 1) div k"
        using that div_mult_self4 [of k "y div k" "y mod k + 1"] y1 by (metis less_irrefl zero_less_one order.strict_trans)
      ultimately show ?thesis by simp
    qed
  qed
  have "year_start (y + 1) = year_start y + 365 + (if 4 dvd y + 1 then 1 else 0)
      - (if 100 dvd y + 1 then 1 else 0) + (if 400 dvd y + 1 then 1 else 0)"
    unfolding year_start_def step [of 4, simplified] step [of 100, simplified] step [of 400, simplified] by simp
  then show ?thesis using dvd_chain [of "y + 1"] unfolding march_year_days_def leap_def
    by (cases "4 dvd y + 1"; cases "100 dvd y + 1"; cases "400 dvd y + 1") simp_all
qed

lemma year_of_era_exact:
  assumes "0 \<le> y" "y \<le> 399" "0 \<le> doy" "doy < march_year_days y"
  shows "year_of_era (year_start y + doy) = y"
proof -
  obtain c q r where y: "y = 100 * c + 4 * q + r" and b: "0 \<le> c" "c \<le> 3" "0 \<le> q" "q \<le> 24" "0 \<le> r" "r \<le> 3"
    and start: "year_start y = 36524 * c + 1461 * q + 365 * r"
    using year_parts [OF assms(1,2)] .
  define g where "g = 365 * r + doy"
  let ?doe = "36524 * c + 1461 * q + g"
  have doe: "year_start y + doy = ?doe" by (simp add: start g_def)
  have leap_day: "r = 3 \<and> (q = 24 \<longrightarrow> c = 3)" if "doy = 365"
  proof -
    have l: "leap (y + 1)" using that assms(4) by (auto simp: march_year_days_def split: if_splits)
    then have "4 dvd y + 1" using dvd_chain by (auto simp: leap_def)
    moreover have "y + 1 = 4 * (25 * c + q) + (r + 1)" using y by simp
    ultimately have "4 dvd r + 1" by (simp only: dvd_add_right_iff dvd_triv_left)
    then have "r = 3" using b by presburger
    moreover have "c = 3" if "q = 24"
    proof -
      have "y + 1 = 100 * (c + 1)" using y \<open>r = 3\<close> that by simp
      with l have "100 * 4 dvd 100 * (c + 1)" by (simp add: leap_def)
      then have "4 dvd c + 1" using dvd_mult_cancel_left [of 100 4 "c + 1"] by (metis zero_neq_numeral)
      with b show ?thesis by presburger
    qed
    ultimately show ?thesis by blast
  qed
  have doy: "doy \<le> 364 \<or> doy = 365" using assms(4) by (auto simp: march_year_days_def split: if_splits)
  then have g: "0 \<le> g" "g \<le> 1459 \<or> g = 1460 \<and> (q = 24 \<longrightarrow> c = 3)"
    using b assms(3) leap_day by (auto simp: g_def)
  define w where "w = (24 * c + q + g) div 1460"
  have "?doe = 1460 * (25 * c + q) + (24 * c + q + g)" by simp
  then have d1: "?doe div 1460 = 25 * c + q + w" by (simp add: w_def del: mult_Suc_right)
  have w01: "w = 0 \<and> 24 * c + q + g < 1460 \<or> w = 1 \<and> 1460 \<le> 24 * c + q + g"
    using b g by (auto simp: w_def)
  have d2: "?doe div 36524 - ?doe div 146096 = c"
  proof (cases "1461 * q + g < 36524")
    case True
    then have "?doe div 36524 = c" "?doe div 146096 = 0" using b g by auto
    then show ?thesis by simp
  next
    case False
    then have "q = 24" "g = 1460" "c = 3" using b g by auto
    then show ?thesis by simp
  qed
  have "(g - w) div 365 = r"
  proof (cases "doy = 365")
    case True
    then have "r = 3" "g = 1460" using leap_day by (auto simp: g_def)
    then show ?thesis using w01 b by auto
  next
    case False
    then show ?thesis using w01 b doy assms(3) by (auto simp: g_def)
  qed
  moreover have "?doe - ?doe div 1460 + ?doe div 36524 - ?doe div 146096 = 365 * (100 * c + 4 * q) + (g - w)"
    using d1 d2 by simp
  ultimately have "(?doe - ?doe div 1460 + ?doe div 36524 - ?doe div 146096) div 365 = y" using y by simp
  moreover have "0 \<le> ?doe" "0 \<le> 365 * (100 * c + 4 * q) + (g - w)" using b g w01 by auto
  ultimately show ?thesis using d1 d2 unfolding doe year_of_era_def by simp
qed

text \<open>Every day of an era belongs to one of its years.\<close>

lemma year_of_day:
  assumes "0 \<le> doe" "doe < 146097"
  obtains y where "0 \<le> y" "y \<le> 399" "year_start y \<le> doe" "doe < year_start (y + 1)"
proof -
  have "\<exists>y \<ge> 0. y \<le> 399 \<and> year_start y \<le> doe \<and> doe < year_start (y + 1)"
    if "doe < year_start (int n)" "n \<le> 400" for n
    using that
  proof (induction n)
    case 0
    then show ?case using assms(1) by (simp add: year_start_def)
  next
    case (Suc n)
    show ?case
    proof (cases "doe < year_start (int n)")
      case False
      with Suc.prems show ?thesis by (intro exI [of _ "int n"]) (auto simp: add.commute)
    qed (use Suc in auto)
  qed
  moreover have "doe < year_start (int 400)" using assms(2) by (simp add: year_start_def)
  ultimately obtain y where "0 \<le> y" "y \<le> 399" "year_start y \<le> doe" "doe < year_start (y + 1)"
    by (metis order_refl)
  then show thesis by (rule that)
qed

text \<open>Month and day of a day counted from the first of March.\<close>

definition month_day :: "int \<Rightarrow> int \<times> int" where
  "month_day doy = (let mp = (5 * doy + 2) div 153 in
     ((if mp < 10 then mp + 3 else mp - 9), doy - (153 * mp + 2) div 5 + 1))"

definition plain_month_days :: "int \<Rightarrow> int" where
  "plain_month_days m = (if m = 2 then 28 else if m \<in> {4, 6, 9, 11} then 30 else 31)"

text \<open>Up to the 28th of February, the next day is the next day of a common year, and the year
  changes between December and January.\<close>

definition month_day_ok :: "int \<Rightarrow> bool" where
  "month_day_ok doy = (case month_day doy of (m, d) \<Rightarrow> 1 \<le> m \<and> m \<le> 12 \<and> 1 \<le> d \<and> d \<le> plain_month_days m
      \<and> (m \<le> 2 \<longleftrightarrow> doy \<ge> 306)
      \<and> (doy < 364 \<longrightarrow> month_day (doy + 1) =
           (if d < plain_month_days m then (m, d + 1) else if m < 12 then (m + 1, 1) else (1, 1))))"

lemma month_days_checked: "list_all month_day_ok [0..364]"
  by code_simp

lemma month_day_step: "0 \<le> doy \<Longrightarrow> doy \<le> 364 \<Longrightarrow> month_day_ok doy"
  using month_days_checked by (simp add: list_all_iff)

lemma month_day_ends: "month_day 0 = (3, 1)" "month_day 364 = (2, 28)" "month_day 365 = (2, 29)"
  by code_simp+

text \<open>The date of a day of a year that begins in March.\<close>

definition march_date :: "int \<Rightarrow> int \<Rightarrow> date" where
  "march_date y doy = (case month_day doy of (m, d) \<Rightarrow> (y + (if m \<le> 2 then 1 else 0), m, d))"

lemma march_date_valid:
  assumes "0 \<le> doy" "doy < march_year_days y"
  shows "valid_date (march_date y doy)"
proof (cases "doy = 365")
  case True
  then show ?thesis using assms month_day_ends
    by (auto simp: march_date_def valid_date_def month_days_def march_year_days_def split: if_splits)
next
  case False
  with assms have "month_day_ok doy" by (intro month_day_step) (auto simp: march_year_days_def split: if_splits)
  then show ?thesis
    by (auto simp: month_day_ok_def march_date_def valid_date_def month_days_def plain_month_days_def split: prod.splits)
qed

lemma march_date_next:
  assumes "0 \<le> doy" "doy < march_year_days y"
  shows "next_date (march_date y doy) =
           (if doy + 1 < march_year_days y then march_date y (doy + 1) else march_date (y + 1) 0)"
proof (cases "doy \<ge> 364")
  case True
  with assms have "doy = 364 \<or> doy = 365 \<and> leap (y + 1)" by (auto simp: march_year_days_def split: if_splits)
  then show ?thesis using month_day_ends
    by (auto simp: next_date_def march_date_def month_days_def march_year_days_def)
next
  case False
  with assms have ok: "month_day_ok doy" "month_day_ok (doy + 1)" by (auto intro: month_day_step)
  obtain m d where md: "month_day doy = (m, d)" by fastforce
  obtain m' d' where md': "month_day (doy + 1) = (m', d')" by fastforce
  have step: "1 \<le> m" "m \<le> 12" "m \<le> 2 \<longleftrightarrow> doy \<ge> 306" "m' \<le> 2 \<longleftrightarrow> doy + 1 \<ge> 306"
     "(m', d') = (if d < plain_month_days m then (m, d + 1) else if m < 12 then (m + 1, 1) else (1, 1))"
    using ok False unfolding month_day_ok_def md md' prod.case by simp_all
  have short: "d < plain_month_days m" if "m = 2"
    using step(3-5) that False by (auto split: if_splits)
  then have "d < month_days z m \<longleftrightarrow> d < plain_month_days m" for z
    by (auto simp: month_days_def plain_month_days_def)
  then show ?thesis using step md md' False
    by (auto simp: next_date_def march_date_def march_year_days_def split: if_splits)
qed

section \<open>The conversion is the calendar\<close>

lemma civil_march:
  assumes "0 \<le> y" "y \<le> 399" "0 \<le> doy" "doy < march_year_days y"
  shows "civil_from_days (era * 146097 + year_start y + doy - 719468) = march_date (y + era * 400) doy"
proof -
  have bounds: "0 \<le> year_start y + doy" "year_start y + doy < 146097"
  proof -
    obtain c q r where "0 \<le> c" "0 \<le> q" "0 \<le> r" "year_start y = 36524 * c + 1461 * q + 365 * (r :: int)"
      using year_parts [OF assms(1,2)] by metis
    then show "0 \<le> year_start y + doy" using assms(3) by simp
    have "year_start y + doy < year_start (y + 1)" using assms(4) by (simp add: year_start_Suc)
    moreover have "year_start (y + 1) \<le> 146097"
    proof (cases "y = 399")
      case False
      with assms have "0 \<le> y + 1" "y + 1 \<le> 399" by auto
      from year_parts [OF this] show ?thesis by (smt (verit))
    qed (simp add: year_start_def)
    ultimately show "year_start y + doy < 146097" by linarith
  qed
  have era: "civil_era (era * 146097 + (year_start y + doy)) = era"
    using bounds by (simp add: civil_era_floor)
  have yoe: "year_of_era (year_start y + doy) = y" by (rule year_of_era_exact [OF assms])
  have start: "365 * y + y sdiv 4 - y sdiv 100 = year_start y"
    using year_parts [OF assms(1,2)] assms(1) by (metis sdiv_nonneg zero_less_numeral)
  have mp: "(5 * doy + 2) sdiv 153 = (5 * doy + 2) div 153" "0 \<le> (5 * doy + 2) div 153"
    using assms(3) by auto
  then have "(153 * ((5 * doy + 2) div 153) + 2) sdiv 5 = (153 * ((5 * doy + 2) div 153) + 2) div 5" by simp
  with mp(1) have md: "month_day doy = (if (5 * doy + 2) sdiv 153 < 10 then (5 * doy + 2) sdiv 153 + 3 else (5 * doy + 2) sdiv 153 - 9,
      doy - (153 * ((5 * doy + 2) sdiv 153) + 2) sdiv 5 + 1)"
    by (simp add: month_day_def Let_def)
  have shifted: "era * 146097 + year_start y + doy - 719468 + 719468 = era * 146097 + (year_start y + doy)" by simp
  have doe: "era * 146097 + (year_start y + doy) - era * 146097 = year_start y + doy"
    "year_start y + doy - year_start y = doy" by simp_all
  show ?thesis
    by (simp only: civil_from_days_def shifted era doe yoe start Let_def march_date_def md prod.case)
qed

lemma civil_from_days_step:
  "civil_from_days (n + 1) = next_date (civil_from_days n)" (is ?next) and
  civil_from_days_valid: "valid_date (civil_from_days n)" (is ?valid)
proof -
  define s where "s = n + 719468"
  obtain y where y: "0 \<le> y" "y \<le> 399" and le: "year_start y \<le> s mod 146097" "s mod 146097 < year_start (y + 1)"
    using year_of_day [of "s mod 146097"] by auto
  define doy where "doy = s mod 146097 - year_start y"
  have doy: "0 \<le> doy" "doy < march_year_days y" using le by (auto simp: doy_def year_start_Suc)
  let ?era = "s div 146097"
  have n: "n = ?era * 146097 + year_start y + doy - 719468"
    by (simp add: doy_def s_def)
  have here: "civil_from_days n = march_date (y + ?era * 400) doy"
    by (subst n) (rule civil_march [OF y doy])
  have leap_era: "march_year_days (y + ?era * 400) = march_year_days y"
    using leap_period [of "y + 1" ?era] by (simp add: march_year_days_def add_ac)
  have "civil_from_days (n + 1) = next_date (march_date (y + ?era * 400) doy)"
  proof (cases "doy + 1 < march_year_days y")
    case True
    have "n + 1 = ?era * 146097 + year_start y + (doy + 1) - 719468" using n by simp
    then have "civil_from_days (n + 1) = march_date (y + ?era * 400) (doy + 1)"
      using civil_march [OF y, of "doy + 1" ?era] doy True by (simp only:)
    then show ?thesis using doy True march_date_next [of doy "y + ?era * 400"] leap_era by simp
  next
    case False
    then have last: "doy + 1 = march_year_days y" using doy by simp
    then have nx: "n + 1 = ?era * 146097 + year_start (y + 1) - 719468" using n by (simp add: year_start_Suc)
    have "civil_from_days (n + 1) = march_date (y + 1 + ?era * 400) 0"
    proof (cases "y = 399")
      case True
      then have "n + 1 = (?era + 1) * 146097 + year_start 0 + 0 - 719468" using nx by (simp add: year_start_def)
      moreover have "march_year_days 0 > 0" by (simp add: march_year_days_def)
      ultimately have "civil_from_days (n + 1) = march_date (0 + (?era + 1) * 400) 0"
        using civil_march [of 0 0 "?era + 1"] by (simp only:)
      then show ?thesis using True by (simp add: algebra_simps)
    next
      case False
      then have "0 \<le> y + 1" "y + 1 \<le> 399" using y by simp_all
      moreover have "march_year_days (y + 1) > 0" by (simp add: march_year_days_def)
      moreover have "n + 1 = ?era * 146097 + year_start (y + 1) + 0 - 719468" using nx by simp
      ultimately show ?thesis using civil_march [of "y + 1" 0 ?era] by (simp only:)
    qed
    then show ?thesis using march_date_next [of doy "y + ?era * 400"] doy last leap_era by (simp add: algebra_simps)
  qed
  moreover have "valid_date (march_date (y + ?era * 400) doy)"
    using doy leap_era by (intro march_date_valid) simp_all
  ultimately show ?next ?valid using here by simp_all
qed

lemma civil_epoch: "civil_from_days 0 = (1970, 1, 1)"
  by code_simp

text \<open>C36. Dates. The conversion of days to dates starts at the first of January 1970 and takes every
  day, before and after it, to the date that follows the date of the day before in the
  Gregorian calendar; so it gives every day its date, and only dates that exist.\<close>
theorem civil_from_days_is_calendar:
  "civil_from_days 0 = (1970, 1, 1)
   \<and> civil_from_days (n + 1) = next_date (civil_from_days n)
   \<and> valid_date (civil_from_days n)"
  using civil_from_days_step civil_from_days_valid by (simp add: civil_epoch)

section \<open>Texts\<close>

lemma length_decimal: "0 < k \<Longrightarrow> n < 10 ^ k \<Longrightarrow> length (decimal n) \<le> k"
proof (induction k arbitrary: n)
  case (Suc k)
  show ?case
  proof (cases "n < 10")
    case False
    then have "k > 0" using Suc.prems by (cases k) auto
    moreover have "n div 10 < 10 ^ k" using Suc.prems by (simp add: less_mult_imp_div_less)
    ultimately have "k > 0" "n div 10 < 10 ^ k" by blast+
    then have "length (decimal (n div 10)) \<le> k" by (rule Suc.IH)
    then show ?thesis using False by (subst decimal.simps) simp
  qed (subst decimal.simps, simp)
qed simp

lemma length_padded: "0 < w \<Longrightarrow> 0 \<le> n \<Longrightarrow> n < 10 ^ w \<Longrightarrow> length (padded w n) = w"
  using length_decimal [of w "nat n"] by (simp add: padded_def Let_def nat_less_iff)

text \<open>The text of a time between the years 0 and 9999 has the twenty characters of its form.\<close>

lemma length_iso_text:
  assumes "civil_from_days (seconds div 86400) = (y, m, d)" "0 \<le> y" "y \<le> 9999"
  shows "length (format_iso8601_utc seconds) = 20"
proof -
  have "valid_date (y, m, d)" using civil_from_days_valid [of "seconds div 86400"] assms(1) by simp
  then have "0 \<le> m" "m < 100" "0 \<le> d" "d < 100"
    by (auto simp: valid_date_def month_days_def split: if_splits)
  moreover have "0 \<le> seconds mod 86400" "seconds mod 86400 < 86400" by simp_all
  moreover from this have "0 \<le> seconds mod 86400 sdiv 3600" "seconds mod 86400 sdiv 3600 < 100"
    "0 \<le> (seconds mod 86400 smod 3600) sdiv 60" "(seconds mod 86400 smod 3600) sdiv 60 < 100"
    "0 \<le> seconds mod 86400 smod 60" "seconds mod 86400 smod 60 < 100"
    by (auto simp: signed_modulo_int_def sgn_if)
  ultimately show ?thesis
    using assms(2,3) by (simp add: format_iso8601_utc_def assms(1) length_padded Let_def)
qed

end
