(* ===== verification/Bridge.thy ===== *)
theory Bridge
  imports Client AuthRoutes Calendar
begin

text \<open>
  The attach socket of the gateway (\<open>hyoui-web/src/ws_attach.rs\<close>): a browser's WebSocket on one side, a connection to
  the daemon on the other. One thread, the bridge, owns the connection: it forwards what the daemon
  prints, sends what the browser typed, and performs the browser's resize and leader requests by sending a message and
  reading until the answer comes. A reader task turns WebSocket messages into commands for the bridge and owns the
  authentication of the socket; a writer task sends what both put into one queue.

  One iteration of the bridge's loop is \<open>bridge_pass\<close>, a function of the bridge's state and of what the kernel answers. Each
  blocking read of a wait has a read timeout of five seconds: the number it takes from its script is how many of the bytes
  still to come arrive before it expires. A read that times out has consumed the bytes it got. \<open>setsockopt\<close> for that timeout is taken to
  succeed. The texts of errors are their fixed parts, and JSON is a parameter that says which
  frames it can encode; the version and the build identifier are parameters too.
\<close>

section \<open>Definitions\<close>

subsection \<open>Frames of the browser protocol\<close>

datatype error_info = ErrorInfo (ei_code: string) (ei_message: string)

definition error_internal :: "string \<Rightarrow> error_info" where
  "error_internal m = ErrorInfo ''internal-error'' m"

datatype client_frame =
    FrameResize nat "16 word" "16 word"
  | FrameLeaderRequest nat
  | FrameAuthExtend nat string

datatype attach_mode = AttachRw | AttachRo | AttachRwNoLeader | AttachUnknown

definition WEB_PROTOCOL_VERSION :: nat where "WEB_PROTOCOL_VERSION = 1"

fun attach_mode_of :: "client_mode \<Rightarrow> attach_mode" where
  "attach_mode_of Rw = AttachRw"
| "attach_mode_of Ro = AttachRo"
| "attach_mode_of RwNoLeader = AttachRwNoLeader"

datatype server_frame =
    Hello nat string "string option" "string list" "string option"
  | AttachInfo attach_mode bool
  | ResizeResult nat bool "error_info option"
  | LeaderResult nat bool "error_info option"
  | AuthExtendResult nat bool "string option" "error_info option"
  | FrameError "nat option" error_info

subsection \<open>The bridge\<close>

datatype bridge_cmd =
    CmdBytes bytes
  | CmdResize nat "16 word" "16 word"
  | CmdLeaderRequest nat
  | CmdShutdown

datatype bridge_output = OutBytes bytes | OutControl server_frame | OutClose string

datatype pending_control = PendingResize nat "16 word" "16 word" | PendingLeader nat

text \<open>\<open>br_input\<close> is the channel of commands, open while the reader task holds its end; \<open>br_out\<close> everything put into the writer's queue;
  \<open>br_writer_left\<close> how many more outputs the queue takes before the writer is gone, \<open>None\<close> if it stays; \<open>br_alive\<close> whether the bridge
  thread still receives commands.\<close>

record bridge =
  br_conn :: client_connection
  br_response :: handshake_response
  br_grid :: "(16 word \<times> 16 word) option"
  br_input :: "bridge_cmd list"
  br_input_open :: bool
  br_out :: "bridge_output list"
  br_writer_left :: "nat option"
  br_alive :: bool

record bridge_env =
  be_encode :: control_encoder
  be_decode :: control_decoder
  be_ack :: ack_decoder
  be_json :: "server_frame \<Rightarrow> bool"
  be_version :: string
  be_build_id :: "string option"

definition emit :: "bridge_output \<Rightarrow> bridge \<Rightarrow> bool \<times> bridge" where
  "emit x b =
     (case br_writer_left b of
        Some 0 \<Rightarrow> (False, b)
      | left \<Rightarrow> (True, b\<lparr>br_out := br_out b @ [x], br_writer_left := map_option (\<lambda>n. n - 1) left\<rparr>))"

definition send_server_frame :: "bridge_env \<Rightarrow> server_frame \<Rightarrow> bridge \<Rightarrow> string option \<times> bridge" where
  "send_server_frame e f b =
     (if \<not> be_json e f then (Some ''encode gateway to browser frame'', b)
      else case emit (OutControl f) b of
        (True, b) \<Rightarrow> (None, b)
      | (False, b) \<Rightarrow> (Some ''WS writer closed'', b))"

definition send_attach_info :: "bridge_env \<Rightarrow> bridge \<Rightarrow> string option \<times> bridge" where
  "send_attach_info e b =
     send_server_frame e (AttachInfo (attach_mode_of (hr_mode (br_response b))) (hr_leader (br_response b))) b"

subsection \<open>Waiting for an answer\<close>

text \<open>Whether \<open>recv_control\<close> failed in reading a frame (and not in decoding the body of one), and what is then left of
  the bytes that had arrived: a frame that is not complete is consumed, a bad size or type is consumed with the header.\<close>

definition read_failed :: "client_error \<Rightarrow> bool" where
  "read_failed err \<longleftrightarrow> err = ErrIo \<or> err = ErrConnectionClosed \<or> err = ErrInvalid ''frame decode failed''"

definition left_after_failure :: "bytes \<Rightarrow> bytes" where
  "left_after_failure bs =
     (case parse_frame bs of
        Inr None \<Rightarrow> []
      | Inr (Some _) \<Rightarrow> bs
      | Inl _ \<Rightarrow> drop (if check_size (u32_from_le_bytes (take 4 bs)) \<noteq> None then 4 else 5) bs)"

definition await_control ::
  "control_decoder \<Rightarrow> nat \<Rightarrow> client_connection \<Rightarrow> (client_error + control_message) \<times> bytes \<times> client_connection" where
  "await_control dec n c =
     (case cc_reader c of (bs, broken) \<Rightarrow>
        case recv_control dec (Some []) (c\<lparr>cc_reader := (take n bs, broken \<or> n < length bs)\<rparr>) of
          (res, raw, c') \<Rightarrow>
            let left = fst (cc_reader c');
                left = (case res of Inl err \<Rightarrow> if read_failed err then left_after_failure left else left | Inr _ \<Rightarrow> left) in
            (res, case raw of None \<Rightarrow> [] | Some r \<Rightarrow> r, c'\<lparr>cc_reader := (left @ drop n bs, broken)\<rparr>))"

text \<open>One answer: the raw output read on the way to it goes to the browser first.\<close>

definition forward_raw :: "bytes \<Rightarrow> bridge \<Rightarrow> bool \<times> bridge" where
  "forward_raw raw b = (if raw = [] then (True, b) else emit (OutBytes raw) b)"

fun resize_wait :: "bridge_env \<Rightarrow> nat list \<Rightarrow> bridge \<Rightarrow> (error_info option \<times> bridge) option" where
  "resize_wait e [] b = None"
| "resize_wait e (n # ns) b =
     (case await_control (be_decode e) n (br_conn b) of
        (Inl _, _, c) \<Rightarrow> Some (Some (error_internal ''await resize completion''), b\<lparr>br_conn := c\<rparr>)
      | (Inr m, raw, c) \<Rightarrow>
          (case forward_raw raw (b\<lparr>br_conn := c\<rparr>) of
             (False, b) \<Rightarrow> Some (Some (error_internal ''WS writer closed''), b)
           | (True, b) \<Rightarrow>
               (case m of
                  StatusResponse _ \<Rightarrow> Some (None, b)
                | ErrorMsg em \<Rightarrow> Some (Some (ErrorInfo (error_code_as_str (em_code em)) (em_message em)), b)
                | _ \<Rightarrow> resize_wait e ns b)))"

definition resize_on_connection ::
  "bridge_env \<Rightarrow> 16 word \<Rightarrow> 16 word \<Rightarrow> nat list \<Rightarrow> bridge \<Rightarrow> (error_info option \<times> bridge) option" where
  "resize_on_connection e cols rows ns b =
     (if cols = 0 \<or> rows = 0 then Some (Some (ErrorInfo ''invalid-request'' ''cols/rows must be > 0''), b)
      else if \<not> hr_leader (br_response b)
      then Some (Some (ErrorInfo (error_code_as_str ModeNotLeader) ''WS attach connection is not the resize leader''), b)
      else case cc_send_control (be_encode e) (ResizeMsg \<lparr>rz_cols = cols, rz_rows = rows\<rparr>) (br_conn b) of
        (Some _, c) \<Rightarrow> Some (Some (error_internal ''send resize''), b\<lparr>br_conn := c\<rparr>)
      | (None, c) \<Rightarrow>
          (case cc_send_control (be_encode e) StatusQuery c of
             (Some _, c) \<Rightarrow> Some (Some (error_internal ''send status query''), b\<lparr>br_conn := c\<rparr>)
           | (None, c) \<Rightarrow> resize_wait e ns (b\<lparr>br_conn := c\<rparr>)))"

definition set_leader :: "leader_notify \<Rightarrow> bridge \<Rightarrow> bridge" where
  "set_leader n b =
     b\<lparr>br_response := (br_response b)\<lparr>hr_leader := (ln_client_id n = Some (hr_client_id (br_response b)))\<rparr>\<rparr>"

definition set_mode :: "client_mode \<Rightarrow> bridge \<Rightarrow> bridge" where
  "set_mode m b = b\<lparr>br_response := (br_response b)\<lparr>hr_mode := m\<rparr>\<rparr>"

fun leader_wait :: "bridge_env \<Rightarrow> nat list \<Rightarrow> bridge \<Rightarrow> (error_info option \<times> bridge) option" where
  "leader_wait e [] b = None"
| "leader_wait e (n # ns) b =
     (case await_control (be_decode e) n (br_conn b) of
        (Inl _, _, c) \<Rightarrow> Some (Some (error_internal ''await leader.request completion''), b\<lparr>br_conn := c\<rparr>)
      | (Inr m, raw, c) \<Rightarrow>
          (case forward_raw raw (b\<lparr>br_conn := c\<rparr>) of
             (False, b) \<Rightarrow> Some (Some (error_internal ''WS writer closed''), b)
           | (True, b) \<Rightarrow>
               (case m of
                  ModeChange ch \<Rightarrow>
                    (case mc_client_mode ch of
                       None \<Rightarrow> leader_wait e ns b
                     | Some mode \<Rightarrow>
                         (case send_attach_info e (set_mode mode b) of
                            (Some err, b) \<Rightarrow> Some (Some (error_internal err), b)
                          | (None, b) \<Rightarrow> leader_wait e ns b))
                | LeaderNotify n \<Rightarrow>
                    (case send_attach_info e (set_leader n b) of
                       (Some err, b) \<Rightarrow> Some (Some (error_internal err), b)
                     | (None, b) \<Rightarrow> if hr_leader (br_response b) then Some (None, b) else leader_wait e ns b)
                | ErrorMsg em \<Rightarrow> Some (Some (ErrorInfo (error_code_as_str (em_code em)) (em_message em)), b)
                | _ \<Rightarrow> leader_wait e ns b)))"

definition bridge_require_cap :: "string list \<Rightarrow> string \<Rightarrow> error_info option" where
  "bridge_require_cap caps cap =
     (case require_cap caps cap of
        Inr _ \<Rightarrow> None
      | Inl missing \<Rightarrow> Some (ErrorInfo (error_code_as_str UnsupportedCapability) (''daemon does not support '' @ missing)))"

definition leader_on_connection ::
  "bridge_env \<Rightarrow> nat list \<Rightarrow> nat list \<Rightarrow> bridge \<Rightarrow> (error_info option \<times> bridge) option" where
  "leader_on_connection e ns rs b =
     (case bridge_require_cap (hr_caps (br_response b)) ''leader-request-v1'' of
        Some err \<Rightarrow> Some (Some err, b)
      | None \<Rightarrow>
          (case cc_send_control (be_encode e) LeaderRequest (br_conn b) of
             (Some _, c) \<Rightarrow> Some (Some (error_internal ''send leader.request''), b\<lparr>br_conn := c\<rparr>)
           | (None, c) \<Rightarrow>
               (case leader_wait e ns (b\<lparr>br_conn := c\<rparr>) of
                  None \<Rightarrow> None
                | Some (Some err, b) \<Rightarrow> Some (Some err, b)
                | Some (None, b) \<Rightarrow>
                    (case br_grid b of
                       None \<Rightarrow> Some (None, b)
                     | Some (cols, rows) \<Rightarrow>
                         map_option (\<lambda>(res, b). (map_option (\<lambda>x. ErrorInfo (ei_code x)
                             (''leader acquired but resize failed: '' @ ei_message x)) res, b))
                           (resize_on_connection e cols rows rs b)))))"

subsection \<open>One pass\<close>

text \<open>The pass ends the loop with the result of \<open>bridge_loop\<close> (\<open>None\<close> for \<open>Ok\<close>), or the loop goes on.\<close>

datatype bridge_flow = Onward bridge | Ended "string option" bridge

definition daemon_frame :: "bridge_env \<Rightarrow> frame \<Rightarrow> bridge \<Rightarrow> bridge_flow" where
  "daemon_frame e f b =
     (if frame_ty f = TYPE_RAW_DATA then
        (case emit (OutBytes (frame_body f)) b of (True, b) \<Rightarrow> Onward b | (False, b) \<Rightarrow> Ended None b)
      else if frame_ty f = TYPE_CBOR_CONTROL then
        (case be_decode e (frame_body f) of
           None \<Rightarrow> Ended (Some ''decode daemon control message'') b
         | Some (LeaderNotify n) \<Rightarrow>
             (case send_attach_info e (set_leader n b) of (Some err, b) \<Rightarrow> Ended (Some err) b | (None, b) \<Rightarrow> Onward b)
         | Some (ModeChange ch) \<Rightarrow>
             (case mc_client_mode ch of
                None \<Rightarrow> Onward b
              | Some mode \<Rightarrow>
                  (case send_attach_info e (set_mode mode b) of (Some err, b) \<Rightarrow> Ended (Some err) b | (None, b) \<Rightarrow> Onward b))
         | Some _ \<Rightarrow> Onward b)
      else Onward b)"

definition reader_ready :: "bridge_env \<Rightarrow> bridge \<Rightarrow> bridge_flow" where
  "reader_ready e b =
     (case recv_frame (br_conn b) of
        (Inl _, c) \<Rightarrow> Ended (Some ''recv_frame'') (b\<lparr>br_conn := c\<rparr>)
      | (Inr f, c) \<Rightarrow> daemon_frame e f (b\<lparr>br_conn := c\<rparr>))"

text \<open>Draining the channel: the typed bytes, the controls, whether to stop, and what stays in the channel.\<close>

fun drain_input :: "bool \<Rightarrow> bridge_cmd list \<Rightarrow> bytes \<times> pending_control list \<times> bool \<times> bridge_cmd list" where
  "drain_input opened [] = ([], [], \<not> opened, [])"
| "drain_input opened (CmdBytes bs # cs) = (let (batch, ctl, stop, rest) = drain_input opened cs in (bs @ batch, ctl, stop, rest))"
| "drain_input opened (CmdResize i cols rows # cs) =
     (let (batch, ctl, stop, rest) = drain_input opened cs in (batch, PendingResize i cols rows # ctl, stop, rest))"
| "drain_input opened (CmdLeaderRequest i # cs) =
     (let (batch, ctl, stop, rest) = drain_input opened cs in (batch, PendingLeader i # ctl, stop, rest))"
| "drain_input opened (CmdShutdown # cs) = ([], [], True, cs)"

text \<open>The answer to one control; its script has the windows of the leader wait and of the resize wait.\<close>

fun perform_control ::
  "bridge_env \<Rightarrow> nat list \<times> nat list \<Rightarrow> pending_control \<Rightarrow> bridge \<Rightarrow> (server_frame \<times> bridge) option" where
  "perform_control e s (PendingResize i cols rows) b =
     map_option (\<lambda>(res, b). (ResizeResult i (res = None) res, b))
       (resize_on_connection e cols rows (snd s)
         (if 0 < cols \<and> 0 < rows then b\<lparr>br_grid := Some (cols, rows)\<rparr> else b))"
| "perform_control e s (PendingLeader i) b =
     map_option (\<lambda>(res, b). (LeaderResult i (res = None) res, b)) (leader_on_connection e (fst s) (snd s) b)"

fun run_controls ::
  "bridge_env \<Rightarrow> (nat list \<times> nat list) list \<Rightarrow> pending_control list \<Rightarrow> bridge \<Rightarrow> bridge_flow option" where
  "run_controls e ss [] b = Some (Onward b)"
| "run_controls e [] (x # xs) b = None"
| "run_controls e (s # ss) (x # xs) b =
     (case perform_control e s x b of
        None \<Rightarrow> None
      | Some (f, b) \<Rightarrow>
          if \<not> be_json e f then Some (Ended (Some ''encode gateway to browser frame'') b)
          else case emit (OutControl f) b of
            (False, b) \<Rightarrow> Some (Ended None b)
          | (True, b) \<Rightarrow> run_controls e ss xs b)"

datatype bridge_poll = BpInterrupted | BpError | BpReady bool bool

text \<open>The kernel's answers in one pass: \<open>poll\<close>, the clock and the polls of the wait for the acknowledgement, the windows of
  the controls.\<close>

record bridge_answers =
  ba_poll :: bridge_poll
  ba_now :: nat
  ba_ack_script :: "(nat \<times> client_poll) list"
  ba_windows :: "(nat list \<times> nat list) list"

definition send_batch :: "bridge_env \<Rightarrow> bridge_answers \<Rightarrow> bytes \<Rightarrow> bridge \<Rightarrow> bridge_flow option" where
  "send_batch e a batch b =
     (if batch = [] then Some (Onward b)
      else case send_raw_bytes (be_ack e) batch (ba_now a) (ba_ack_script a) (br_conn b) of
        None \<Rightarrow> None
      | Some (None, c) \<Rightarrow> Some (Onward (b\<lparr>br_conn := c\<rparr>))
      | Some (Some err, c) \<Rightarrow>
          if is_remote err then Some (Onward (b\<lparr>br_conn := c\<rparr>))
          else Some (Ended (Some ''send_raw_bytes'') (b\<lparr>br_conn := c\<rparr>)))"

definition wake_ready :: "bridge_env \<Rightarrow> bridge_answers \<Rightarrow> bridge \<Rightarrow> bridge_flow option" where
  "wake_ready e a b =
     (case drain_input (br_input_open b) (br_input b) of (batch, controls, stop, rest) \<Rightarrow>
        case send_batch e a batch (b\<lparr>br_input := rest\<rparr>) of
          Some (Onward b) \<Rightarrow>
            (case run_controls e (ba_windows a) controls b of
               Some (Onward b) \<Rightarrow> Some (if stop then Ended None b else Onward b)
             | r \<Rightarrow> r)
        | r \<Rightarrow> r)"

definition bridge_pass :: "bridge_env \<Rightarrow> bridge_answers \<Rightarrow> bridge \<Rightarrow> bridge_flow option" where
  "bridge_pass e a b =
     (case ba_poll a of
        BpInterrupted \<Rightarrow> Some (Onward b)
      | BpError \<Rightarrow> Some (Ended (Some ''poll'') b)
      | BpReady reader wake \<Rightarrow>
          (case (if reader then reader_ready e b else Onward b) of
             Ended r b \<Rightarrow> Some (Ended r b)
           | Onward b \<Rightarrow> if wake then wake_ready e a b else Some (Onward b)))"

text \<open>The start of \<open>bridge_loop\<close>: the connection as a writing client, then \<open>hello\<close>, then \<open>attach.info\<close>.\<close>

definition bridge_request :: "string option \<Rightarrow> handshake_request" where
  "bridge_request token = \<lparr>hq_caps = MVP_CAPS, hq_mode = Rw, hq_exclusive = False, hq_detach_others = False, hq_token = token\<rparr>"

definition bridge_start ::
  "bridge_env \<Rightarrow> string option \<Rightarrow> nat \<Rightarrow> client_connection \<Rightarrow> bridge_cmd list \<Rightarrow> nat option \<Rightarrow> string + bridge" where
  "bridge_start e token auth_expires_at_ms c input left =
     (case connect (be_encode e) (be_decode e) (bridge_request token) c of
        (Inl _, _) \<Rightarrow> Inl ''connect/handshake''
      | (Inr r, c) \<Rightarrow>
          (case send_server_frame e (Hello WEB_PROTOCOL_VERSION (be_version e) (be_build_id e) (hr_caps r)
                    (Some (format_unix_ms_iso8601 auth_expires_at_ms)))
                  \<lparr>br_conn = c, br_response = r, br_grid = None, br_input = input, br_input_open = True, br_out = [],
                   br_writer_left = left, br_alive = True\<rparr> of
             (Some err, _) \<Rightarrow> Inl err
           | (None, b) \<Rightarrow> (case send_attach_info e b of (Some err, _) \<Rightarrow> Inl err | (None, b) \<Rightarrow> Inr b)))"

subsection \<open>The two tasks of the WebSocket\<close>

text \<open>What the reader task waits for: a message of the browser, or the loss of the authentication. A text that is
  not a frame of the protocol is \<open>WsText None\<close>; \<open>WsGone\<close> is the end of the stream or an error.\<close>

datatype ws_message = WsBinary bytes | WsText "client_frame option" | WsPing | WsClose | WsGone

datatype reader_event = BrowserSent ws_message | AuthLost auth_loss

datatype reader_flow = Reading ws_auth bridge | Stopped "auth_loss option" bridge

definition push_cmd :: "bridge_cmd \<Rightarrow> bridge \<Rightarrow> bool \<times> bridge" where
  "push_cmd cmd b = (if br_alive b then (True, b\<lparr>br_input := br_input b @ [cmd]\<rparr>) else (False, b))"

text \<open>An answer of the reader task itself; one that JSON cannot encode is only logged.\<close>

definition send_or_stop :: "bridge_env \<Rightarrow> server_frame \<Rightarrow> bridge \<Rightarrow> bool \<times> bridge" where
  "send_or_stop e f b = (if be_json e f then emit (OutControl f) b else (True, b))"

definition hand_over :: "ws_auth \<Rightarrow> bridge_cmd \<Rightarrow> bridge \<Rightarrow> reader_flow" where
  "hand_over auth cmd b = (case push_cmd cmd b of (True, b) \<Rightarrow> Reading auth b | (False, b) \<Rightarrow> Stopped None b)"

definition extend_result :: "nat \<Rightarrow> auth_loss + nat \<Rightarrow> server_frame" where
  "extend_result i ext =
     (case ext of
        Inr t \<Rightarrow> AuthExtendResult i True (Some (format_unix_ms_iso8601 t)) None
      | Inl _ \<Rightarrow> AuthExtendResult i False None
                  (Some (ErrorInfo ''auth-failed'' ''the authenticated session is no longer valid'')))"

definition reader_step ::
  "bridge_env \<Rightarrow> nat \<Rightarrow> (store_error + auth_file) \<Rightarrow> reader_event \<Rightarrow> ws_auth \<Rightarrow> bridge \<Rightarrow> reader_flow" where
  "reader_step e now file ev auth b =
     (case ev of
        AuthLost loss \<Rightarrow> Stopped (Some loss) b
      | BrowserSent (WsBinary bs) \<Rightarrow> hand_over auth (CmdBytes bs) b
      | BrowserSent (WsText (Some (FrameResize i cols rows))) \<Rightarrow> hand_over auth (CmdResize i cols rows) b
      | BrowserSent (WsText (Some (FrameLeaderRequest i))) \<Rightarrow> hand_over auth (CmdLeaderRequest i) b
      | BrowserSent (WsText (Some (FrameAuthExtend i token))) \<Rightarrow>
          (case ws_extend_at token now file auth of (auth, ext) \<Rightarrow>
             case send_or_stop e (extend_result i ext) b of
               (False, b) \<Rightarrow> Stopped None b
             | (True, b) \<Rightarrow> (case ext of Inl loss \<Rightarrow> Stopped (Some loss) b | Inr _ \<Rightarrow> Reading auth b))
      | BrowserSent (WsText None) \<Rightarrow>
          (case send_or_stop e (FrameError None (ErrorInfo ''unknown-kind'' ''unrecognized WS text frame'')) b of
             (False, b) \<Rightarrow> Stopped None b
           | (True, b) \<Rightarrow> Reading auth b)
      | BrowserSent WsPing \<Rightarrow> Reading auth b
      | BrowserSent WsClose \<Rightarrow> Stopped None b
      | BrowserSent WsGone \<Rightarrow> Stopped None b)"

fun close_reason :: "auth_loss \<Rightarrow> string" where
  "close_reason LossExpired = ''access expired''"
| "close_reason LossRevoked = ''access revoked''"
| "close_reason LossRejected = ''access rejected''"

text \<open>The end of the reader task: the reason of a lost authentication is queued for the writer, then the
  bridge is told to stop and the channel is closed.\<close>

definition reader_end :: "auth_loss option \<Rightarrow> bridge \<Rightarrow> bridge" where
  "reader_end lost b =
     (let b = (case lost of None \<Rightarrow> b | Some loss \<Rightarrow> snd (emit (OutClose (close_reason loss)) b)) in
      (snd (push_cmd CmdShutdown b))\<lparr>br_input_open := False\<rparr>)"

datatype ws_sent = SentBinary bytes | SentText server_frame | SentClose "string option"

text \<open>The writer task on the outputs it takes from the queue until the queue is closed; \<open>accepted\<close> says how many messages the socket
  takes.\<close>

fun writer_task :: "nat \<Rightarrow> bridge_output list \<Rightarrow> ws_sent list" where
  "writer_task accepted [] = (if accepted = 0 then [] else [SentClose None])"
| "writer_task accepted (OutClose reason # xs) = (if accepted = 0 then [] else [SentClose (Some reason)])"
| "writer_task accepted (OutBytes bs # xs) = (if accepted = 0 then [] else SentBinary bs # writer_task (accepted - 1) xs)"
| "writer_task accepted (OutControl f # xs) = (if accepted = 0 then [] else SentText f # writer_task (accepted - 1) xs)"

subsection \<open>The three together\<close>

text \<open>The tasks run side by side; an event is one step of the reader task or one pass of the bridge, and \<open>ReaderAborted\<close> is
  \<open>run_bridge\<close> taking the reader task down once the bridge has ended. \<open>so_auth\<close> is \<open>None\<close> when the reader task is over.\<close>

record socket =
  so_bridge :: bridge
  so_auth :: "ws_auth option"

datatype socket_event =
    ReaderGets nat "store_error + auth_file" reader_event
  | BridgePasses bridge_answers
  | ReaderAborted

definition reader_turn :: "bridge_env \<Rightarrow> nat \<Rightarrow> (store_error + auth_file) \<Rightarrow> reader_event \<Rightarrow> socket \<Rightarrow> socket" where
  "reader_turn e now file ev s =
     (case so_auth s of
        None \<Rightarrow> s
      | Some auth \<Rightarrow>
          (case reader_step e now file ev auth (so_bridge s) of
             Reading auth b \<Rightarrow> \<lparr>so_bridge = b, so_auth = Some auth\<rparr>
           | Stopped lost b \<Rightarrow> \<lparr>so_bridge = reader_end lost b, so_auth = None\<rparr>))"

definition bridge_turn :: "bridge_env \<Rightarrow> bridge_answers \<Rightarrow> socket \<Rightarrow> socket option" where
  "bridge_turn e a s =
     (if \<not> br_alive (so_bridge s) then Some s
      else map_option (\<lambda>flow. case flow of
               Onward b \<Rightarrow> s\<lparr>so_bridge := b\<rparr>
             | Ended _ b \<Rightarrow> s\<lparr>so_bridge := b\<lparr>br_alive := False\<rparr>\<rparr>)
             (bridge_pass e a (so_bridge s)))"

fun socket_step :: "bridge_env \<Rightarrow> socket_event \<Rightarrow> socket \<Rightarrow> socket option" where
  "socket_step e (ReaderGets now file ev) s = Some (reader_turn e now file ev s)"
| "socket_step e (BridgePasses a) s = bridge_turn e a s"
| "socket_step e ReaderAborted s =
     Some (if br_alive (so_bridge s) then s
           else s\<lparr>so_auth := None, so_bridge := (so_bridge s)\<lparr>br_input_open := False\<rparr>\<rparr>)"

fun socket_run :: "bridge_env \<Rightarrow> socket_event list \<Rightarrow> socket \<Rightarrow> socket option" where
  "socket_run e [] s = Some s"
| "socket_run e (ev # evs) s = (case socket_step e ev s of None \<Rightarrow> None | Some s' \<Rightarrow> socket_run e evs s')"

section \<open>A wait with a timeout\<close>

text \<open>A read that succeeds within its window reads what a read without a timeout does.\<close>

lemma recv_frame_extend:
  assumes "recv_frame (c\<lparr>cc_reader := (bs, bk)\<rparr>) = (Inr f, c')"
  shows "\<exists>bs'. cc_reader c' = (bs', bk)
    \<and> recv_frame (c\<lparr>cc_reader := (bs @ ys, bk')\<rparr>) = (Inr f, c'\<lparr>cc_reader := (bs' @ ys, bk')\<rparr>)"
  using assms
  by (cases "cc_pending c")
    (auto simp: recv_frame_def decode_from_parse parse_frame_append_Some split: sum.splits option.splits)

lemma recv_control_extend:
  assumes "recv_control dec buf c = (Inr m, buf', c')"
  shows "\<exists>bs'. cc_reader c' = (bs', snd (cc_reader c))
    \<and> recv_control dec buf (c\<lparr>cc_reader := (fst (cc_reader c) @ ys, bk')\<rparr>) = (Inr m, buf', c'\<lparr>cc_reader := (bs' @ ys, bk')\<rparr>)"
  using assms
proof (induction dec buf c rule: recv_control.induct)
  case (1 dec buf c)
  obtain r c1 where rf: "recv_frame c = (r, c1)" by fastforce
  with "1.prems" obtain f where f: "r = Inr f" by (cases r) (simp_all add: recv_control.simps [of dec buf c])
  from recv_frame_extend [of "fst (cc_reader c)" "snd (cc_reader c)" c f c1 ys bk'] rf f
  obtain bs1 where c1: "cc_reader c1 = (bs1, snd (cc_reader c))"
    "recv_frame (c\<lparr>cc_reader := (fst (cc_reader c) @ ys, bk')\<rparr>) = (Inr f, c1\<lparr>cc_reader := (bs1 @ ys, bk')\<rparr>)" by auto
  note u = recv_control.simps [of dec _ c] recv_control.simps [of dec _ "c\<lparr>cc_reader := (fst (cc_reader c) @ ys, bk')\<rparr>"]
  consider "frame_ty f = TYPE_CBOR_CONTROL" | "frame_ty f \<noteq> TYPE_CBOR_CONTROL" "frame_ty f = TYPE_RAW_DATA"
    | "frame_ty f \<noteq> TYPE_CBOR_CONTROL" "frame_ty f \<noteq> TYPE_RAW_DATA" "frame_ty f = TYPE_RAW_ACK"
    using "1.prems" rf f by (auto simp: u split: if_splits)
  then show ?case
  proof cases
    case 1
    with "1.prems" rf f c1 show ?thesis by (auto simp: u split: option.splits)
  next
    case 2
    with "1.IH"(1) [OF rf [symmetric] f] "1.prems" rf f c1 show ?thesis by (simp add: u)
  next
    case 3
    with "1.IH"(2) [OF rf [symmetric] f] "1.prems" rf f c1 show ?thesis by (simp add: u)
  qed
qed

lemma await_control_is_recv:
  assumes "await_control dec n c = (Inr m, raw, c')"
  shows "recv_control dec (Some []) c = (Inr m, Some raw, c')"
proof -
  obtain bs bk where c: "cc_reader c = (bs, bk)" by fastforce
  let ?c = "c\<lparr>cc_reader := (take n bs, bk \<or> n < length bs)\<rparr>"
  obtain res buf c1 where r: "recv_control dec (Some []) ?c = (res, buf, c1)" by (metis prod_cases3)
  with assms c have res: "res = Inr m" by (auto simp: await_control_def Let_def)
  from recv_control_extend [OF r [unfolded res], of "drop n bs" bk] obtain bs1 where b: "cc_reader c1 = (bs1, bk \<or> n < length bs)"
    "recv_control dec (Some []) (?c\<lparr>cc_reader := (take n bs @ drop n bs, bk)\<rparr>) = (Inr m, buf, c1\<lparr>cc_reader := (bs1 @ drop n bs, bk)\<rparr>)"
    by auto
  moreover from c have "?c\<lparr>cc_reader := (take n bs @ drop n bs, bk)\<rparr> = c" by (cases c) simp
  moreover obtain raw' where raw': "buf = Some raw'" using recv_control_stream [OF r [unfolded res]] by auto
  ultimately have "recv_control dec (Some []) c = (Inr m, Some raw', c1\<lparr>cc_reader := (bs1 @ drop n bs, bk)\<rparr>)" by simp
  moreover from assms r res c b raw' have "raw = raw'" "c' = c1\<lparr>cc_reader := (bs1 @ drop n bs, bk)\<rparr>"
    by (auto simp: await_control_def Let_def)
  ultimately show ?thesis by simp
qed

section \<open>What a pass keeps\<close>

definition raw_out :: "bridge_output list \<Rightarrow> bytes" where
  "raw_out out = concat (map (\<lambda>x. case x of OutBytes bs \<Rightarrow> bs | _ \<Rightarrow> []) out)"

text \<open>The output the browser was sent, and what the daemon still has for it.\<close>

definition output_flow :: "bridge \<Rightarrow> bytes" where
  "output_flow b = raw_out (br_out b) @ data_of (cc_stream (br_conn b))"

text \<open>A request of the browser by its id and kind, \<open>True\<close> for a leader request, and the answers among the outputs.\<close>

fun answer_of :: "bridge_output \<Rightarrow> (nat \<times> bool) list" where
  "answer_of (OutControl (ResizeResult i _ _)) = [(i, False)]"
| "answer_of (OutControl (LeaderResult i _ _)) = [(i, True)]"
| "answer_of _ = []"

definition answers_in :: "bridge_output list \<Rightarrow> (nat \<times> bool) list" where
  "answers_in out = concat (map answer_of out)"

fun internal_result :: "bridge_output \<Rightarrow> bool" where
  "internal_result (OutControl (ResizeResult _ _ (Some x))) = (ei_code x = ''internal-error'')"
| "internal_result (OutControl (LeaderResult _ _ (Some x))) = (ei_code x = ''internal-error'')"
| "internal_result _ = False"

definition no_internal :: "error_info option \<Rightarrow> bool" where
  "no_internal res = (case res of None \<Rightarrow> True | Some x \<Rightarrow> ei_code x \<noteq> ''internal-error'')"

lemma raw_out_append [simp]: "raw_out [] = []" "raw_out (xs @ ys) = raw_out xs @ raw_out ys" "raw_out (OutBytes bs # xs) = bs @ raw_out xs"
  "raw_out (OutControl f # xs) = raw_out xs" "raw_out (OutClose r # xs) = raw_out xs"
  by (simp_all add: raw_out_def)

lemma answers_in_append [simp]: "answers_in [] = []" "answers_in (xs @ ys) = answers_in xs @ answers_in ys"
  "answers_in (x # xs) = answer_of x @ answers_in xs"
  by (simp_all add: answers_in_def)

lemma no_internal_simps [simp]: "no_internal None" "\<not> no_internal (Some (error_internal m))"
  "no_internal (Some (ErrorInfo code m)) \<longleftrightarrow> code \<noteq> ''internal-error''"
  by (simp_all add: no_internal_def error_internal_def)

lemma data_of_append [simp]: "data_of [] = []" "data_of (xs @ ys) = data_of xs @ data_of ys"
  by (simp_all add: data_of_def)

lemma data_of_control [simp]: "data_of (cbor_control body # fs) = data_of fs"
  by (simp add: data_of_def cbor_control_def TYPE_RAW_DATA_def TYPE_CBOR_CONTROL_def)

lemma data_of_cons: "data_of (f # fs) = (if frame_ty f = TYPE_RAW_DATA then frame_body f else []) @ data_of fs"
  by (simp add: data_of_def)

lemma emit_cases:
  assumes "emit x b = (ok, b')"
  obtains "ok" "b' = b\<lparr>br_out := br_out b @ [x], br_writer_left := map_option (\<lambda>n. n - 1) (br_writer_left b)\<rparr>"
  | "\<not> ok" "b' = b"
  using assms by (auto simp: emit_def split: option.splits nat.splits)

text \<open>Nothing but whole control frames written.\<close>

definition wrote_control :: "bytes \<Rightarrow> bytes \<Rightarrow> bool" where
  "wrote_control w w' \<longleftrightarrow> (\<exists>fs. list_all frame_ok fs \<and> data_of fs = [] \<and> w' = w @ encode_all fs)"

lemma wrote_control_refl [simp]: "wrote_control w w"
  unfolding wrote_control_def by (rule exI [of _ "[]"]) simp

lemma wrote_control_trans: "wrote_control w1 w2 \<Longrightarrow> wrote_control w2 w3 \<Longrightarrow> wrote_control w1 w3"
proof -
  assume "wrote_control w1 w2" "wrote_control w2 w3"
  then obtain fs gs where "list_all frame_ok fs" "data_of fs = []" "w2 = w1 @ encode_all fs"
    "list_all frame_ok gs" "data_of gs = []" "w3 = w2 @ encode_all gs" unfolding wrote_control_def by blast
  then show ?thesis unfolding wrote_control_def by (intro exI [of _ "fs @ gs"]) simp
qed

text \<open>What the exchange of one request keeps: the output, the commands, the answers given; what it writes to the daemon holds no
  typed bytes.\<close>

definition kept :: "bridge \<Rightarrow> bridge \<Rightarrow> bool" where
  "kept b b' \<longleftrightarrow> output_flow b' = output_flow b \<and> answers_in (br_out b') = answers_in (br_out b) \<and> br_input b' = br_input b
     \<and> br_input_open b' = br_input_open b \<and> br_alive b' = br_alive b \<and> wrote_control (cc_written (br_conn b)) (cc_written (br_conn b'))"

lemma kept_refl [simp]: "kept b b"
  by (simp add: kept_def)

lemma kept_trans [trans]: "kept a b \<Longrightarrow> kept b c \<Longrightarrow> kept a c"
  by (auto simp: kept_def intro: wrote_control_trans)

lemma kept_emit:
  assumes "emit x b = (ok, b')" "answer_of x = []" "raw_out [x] = []" shows "kept b b'"
  using assms(1) by (cases rule: emit_cases) (simp_all add: kept_def output_flow_def assms)

lemma kept_send_server_frame:
  assumes "send_server_frame e f b = (res, b')" "answer_of (OutControl f) = []"
  shows "kept b b'"
  using assms unfolding send_server_frame_def
  by (auto intro: kept_emit split: if_splits prod.splits bool.splits)

lemma kept_send_attach_info: "send_attach_info e b = (res, b') \<Longrightarrow> kept b b'"
  by (auto simp: send_attach_info_def intro: kept_send_server_frame)

lemma kept_set [simp]: "kept b (set_leader n b)" "kept b (set_mode m b)"
  by (simp_all add: kept_def output_flow_def set_leader_def set_mode_def)

lemma encode_to_frame_ok: "encode_to (cbor_control body) = Inr bs \<Longrightarrow> frame_ok (cbor_control body)"
  by (auto simp: encode_to_def frame_ok_def cbor_control_def check_type_def frame_consts Let_def split: if_splits)

lemma kept_send_control:
  assumes "cc_send_control enc m (br_conn b) = (None, c)" shows "kept b (b\<lparr>br_conn := c\<rparr>)"
proof -
  from assms obtain body where body: "enc m = Some body" "frame_ok (cbor_control body)"
    by (auto simp: cc_send_control_def cc_send_frame_def split: option.splits sum.splits dest: encode_to_frame_ok)
  have "wrote_control (cc_written (br_conn b)) (cc_written c)"
    unfolding wrote_control_def using cc_send_control_ok [OF assms] body by (intro exI [of _ "[cbor_control body]"]) simp
  with cc_send_control_ok [OF assms] show ?thesis by (simp add: kept_def output_flow_def)
qed

lemma kept_await:
  assumes "await_control dec n (br_conn b) = (Inr m, raw, c)" "forward_raw raw (b\<lparr>br_conn := c\<rparr>) = (True, b')"
  shows "kept b b'"
proof -
  note r = await_control_is_recv [OF assms(1)]
  from recv_control_stream [OF r] obtain us f where
    "cc_stream (br_conn b) = us @ f # cc_stream c" "frame_ty f = TYPE_CBOR_CONTROL" "raw = data_of us" by auto
  then have st: "data_of (cc_stream (br_conn b)) = raw @ data_of (cc_stream c)"
    by (simp add: data_of_cons TYPE_RAW_DATA_def TYPE_CBOR_CONTROL_def)
  show ?thesis
  proof (cases "raw = []")
    case True
    with assms(2) st recv_control_written [OF r] show ?thesis by (auto simp: forward_raw_def kept_def output_flow_def)
  next
    case False
    with assms(2) have "emit (OutBytes raw) (b\<lparr>br_conn := c\<rparr>) = (True, b')" by (simp add: forward_raw_def)
    then show ?thesis using st recv_control_written [OF r] by (cases rule: emit_cases) (simp_all add: kept_def output_flow_def)
  qed
qed

text \<open>What an exchange keeps however it ends: the queue only grows, by no answer.\<close>

definition no_close :: "bridge_output list \<Rightarrow> bool" where
  "no_close out \<longleftrightarrow> (\<forall>r. OutClose r \<notin> set out)"

lemma no_close_simps [simp]: "no_close []" "no_close (xs @ ys) \<longleftrightarrow> no_close xs \<and> no_close ys" "no_close (OutBytes bs # xs) \<longleftrightarrow> no_close xs"
  "no_close (OutControl f # xs) \<longleftrightarrow> no_close xs" "\<not> no_close (OutClose r # xs)"
  by (auto simp: no_close_def)

definition calm :: "bridge \<Rightarrow> bridge \<Rightarrow> bool" where
  "calm b b' \<longleftrightarrow> (\<exists>out. br_out b' = br_out b @ out \<and> answers_in out = [] \<and> no_close out) \<and> br_input b' = br_input b
     \<and> br_input_open b' = br_input_open b \<and> br_alive b' = br_alive b"

lemma calm_refl [simp]: "calm b b" "calm b (b\<lparr>br_conn := c\<rparr>)" "calm b (set_leader n b)" "calm b (set_mode m b)" "calm b (b\<lparr>br_grid := g\<rparr>)"
  by (simp_all add: calm_def set_leader_def set_mode_def)

lemma calm_trans [trans]: "calm a b \<Longrightarrow> calm b c \<Longrightarrow> calm a c"
  by (auto simp: calm_def)

lemma calm_emit: "emit x b = (ok, b') \<Longrightarrow> answer_of x = [] \<Longrightarrow> no_close [x] \<Longrightarrow> calm b b'"
  by (erule emit_cases) (simp_all add: calm_def)

lemma calm_send_server_frame: "send_server_frame e f b = (res, b') \<Longrightarrow> answer_of (OutControl f) = [] \<Longrightarrow> calm b b'"
  unfolding send_server_frame_def by (auto intro: calm_emit split: if_splits prod.splits bool.splits)

lemma calm_send_attach_info: "send_attach_info e b = (res, b') \<Longrightarrow> calm b b'"
  by (auto simp: send_attach_info_def intro: calm_send_server_frame)

lemma calm_forward_raw: "forward_raw raw (b\<lparr>br_conn := c\<rparr>) = (ok, b') \<Longrightarrow> calm b b'"
  using calm_trans [OF calm_refl(2)] by (auto simp: forward_raw_def split: if_splits dest: calm_emit)

text \<open>An exchange: calm, and without an internal error nothing is lost.\<close>

definition exchange :: "error_info option \<Rightarrow> bridge \<Rightarrow> bridge \<Rightarrow> bool" where
  "exchange res b b' \<longleftrightarrow> calm b b' \<and> (no_internal res \<longrightarrow> kept b b')"

lemma exchange_refl [simp]: "exchange res b b"
  by (simp add: exchange_def)

lemma exchange_internal: "calm b b' \<Longrightarrow> exchange (Some (error_internal m)) b b'"
  by (simp add: exchange_def)

lemma exchange_step: "calm a b \<Longrightarrow> kept a b \<Longrightarrow> exchange res b c \<Longrightarrow> exchange res a c"
  by (auto simp: exchange_def intro: calm_trans kept_trans)

lemma exchange_attach_info:
  assumes "send_attach_info e b1 = (r, b')" "calm b b1" "kept b b1"
  shows "calm b b'" "kept b b'"
  using assms calm_trans kept_trans calm_send_attach_info kept_send_attach_info by blast+

lemma exchange_await:
  assumes "await_control dec n (br_conn b) = (Inr m, raw, c)" "forward_raw raw (b\<lparr>br_conn := c\<rparr>) = (True, b')" "exchange res b' b''"
  shows "exchange res b b''"
  using exchange_step [OF calm_forward_raw [OF assms(2)] kept_await [OF assms(1,2)] assms(3)] .

lemma resize_wait_exchange: "resize_wait e ns b = Some (res, b') \<Longrightarrow> exchange res b b'"
proof (induction ns arbitrary: b)
  case (Cons n ns)
  obtain r raw c where a: "await_control (be_decode e) n (br_conn b) = (r, raw, c)" by (metis prod_cases3)
  obtain ok b1 where f: "forward_raw raw (b\<lparr>br_conn := c\<rparr>) = (ok, b1)" by fastforce
  show ?case
  proof (cases r)
    case (Inl err)
    with Cons.prems a show ?thesis by (auto intro: exchange_internal)
  next
    case (Inr m)
    show ?thesis
    proof (cases ok)
      case False
      with Cons.prems a f Inr have "res = Some (error_internal ''WS writer closed'')" "b' = b1" by simp_all
      with calm_forward_raw [OF f] show ?thesis by (simp add: exchange_internal)
    next
      case True
      have "exchange res b1 b'"
      proof (cases "(\<exists>x. m = StatusResponse x) \<or> (\<exists>em. m = ErrorMsg em)")
        case True
        with Cons.prems a f Inr \<open>ok\<close> show ?thesis by auto
      next
        case False
        with Cons.prems a f Inr \<open>ok\<close> have "resize_wait e ns b1 = Some (res, b')" by (cases m) auto
        then show ?thesis by (rule Cons.IH)
      qed
      with a f Inr True show ?thesis by (auto intro: exchange_await)
    qed
  qed
qed simp

lemma leader_wait_exchange: "leader_wait e ns b = Some (res, b') \<Longrightarrow> exchange res b b'"
proof (induction ns arbitrary: b)
  case (Cons n ns)
  obtain r raw c where a: "await_control (be_decode e) n (br_conn b) = (r, raw, c)" by (metis prod_cases3)
  obtain ok b1 where f: "forward_raw raw (b\<lparr>br_conn := c\<rparr>) = (ok, b1)" by fastforce
  have info: "exchange res b1 b'"
    if s: "send_attach_info e bs = (err, b2)" and g: "calm b1 bs" "kept b1 bs"
      and t: "(\<exists>x. err = Some x \<and> res = Some (error_internal x) \<and> b' = b2) \<or> b' = b2 \<or> leader_wait e ns b2 = Some (res, b')"
    for bs err b2
  proof -
    note ck = exchange_attach_info [OF s g]
    from t have "exchange res b2 b'" by (auto intro: Cons.IH)
    with ck show ?thesis by (rule exchange_step)
  qed
  show ?case
  proof (cases r)
    case (Inl err)
    with Cons.prems a show ?thesis by (auto intro: exchange_internal)
  next
    case (Inr m)
    show ?thesis
    proof (cases ok)
      case False
      with Cons.prems a f Inr have "res = Some (error_internal ''WS writer closed'')" "b' = b1" by simp_all
      with calm_forward_raw [OF f] show ?thesis by (simp add: exchange_internal)
    next
      case True
      have "exchange res b1 b'"
      proof (cases "(\<exists>x. m = ModeChange x) \<or> (\<exists>x. m = LeaderNotify x) \<or> (\<exists>em. m = ErrorMsg em)")
        case False
        with Cons.prems a f Inr \<open>ok\<close> have "leader_wait e ns b1 = Some (res, b')" by (cases m) auto
        then show ?thesis by (rule Cons.IH)
      next
        case True
        then consider (mode) x where "m = ModeChange x" | (leader) x where "m = LeaderNotify x" | (refused) x where "m = ErrorMsg x" by blast
        then show ?thesis
        proof cases
          case mode
          show ?thesis
          proof (cases "mc_client_mode x")
            case None
            with mode Cons.prems a f Inr \<open>ok\<close> show ?thesis by (auto intro: Cons.IH)
          next
            case (Some cm)
            obtain err b2 where s: "send_attach_info e (set_mode cm b1) = (err, b2)" by fastforce
            with mode Cons.prems a f Inr \<open>ok\<close> Some show ?thesis
              by (intro info [OF s]) (auto split: option.splits)
          qed
        next
          case leader
          obtain err b2 where s: "send_attach_info e (set_leader x b1) = (err, b2)" by fastforce
          with leader Cons.prems a f Inr \<open>ok\<close> show ?thesis
            by (intro info [OF s]) (auto split: option.splits if_splits)
        next
          case refused
          with Cons.prems a f Inr \<open>ok\<close> show ?thesis by auto
        qed
      qed
      with a f Inr True show ?thesis by (auto intro: exchange_await)
    qed
  qed
qed simp

lemma resize_on_connection_exchange:
  assumes "resize_on_connection e cols rows ns b = Some (res, b')" shows "exchange res b b'"
proof (cases "cols = 0 \<or> rows = 0 \<or> \<not> hr_leader (br_response b)")
  case True
  with assms show ?thesis by (auto simp: resize_on_connection_def split: if_splits)
next
  case False
  obtain r1 c1 where s1: "cc_send_control (be_encode e) (ResizeMsg \<lparr>rz_cols = cols, rz_rows = rows\<rparr>) (br_conn b) = (r1, c1)" by fastforce
  obtain r2 c2 where s2: "cc_send_control (be_encode e) StatusQuery c1 = (r2, c2)" by fastforce
  show ?thesis
  proof (cases "r1 = None \<and> r2 = None")
    case True
    with assms s1 s2 False have w: "resize_wait e ns (b\<lparr>br_conn := c2\<rparr>) = Some (res, b')" by (simp add: resize_on_connection_def)
    have "kept b (b\<lparr>br_conn := c1\<rparr>)" using s1 True by (auto intro: kept_send_control)
    moreover have "kept (b\<lparr>br_conn := c1\<rparr>) (b\<lparr>br_conn := c2\<rparr>)"
      using kept_send_control [of "be_encode e" StatusQuery "b\<lparr>br_conn := c1\<rparr>" c2] s2 True by simp
    ultimately have "kept b (b\<lparr>br_conn := c2\<rparr>)" by (rule kept_trans)
    then show ?thesis by (rule exchange_step [OF calm_refl(2) _ resize_wait_exchange [OF w]])
  next
    case failed: False
    with assms s1 s2 False show ?thesis
      by (cases r1; cases r2) (auto simp: resize_on_connection_def intro!: exchange_internal)
  qed
qed

lemma leader_on_connection_exchange:
  assumes "leader_on_connection e ns rs b = Some (res, b')" shows "exchange res b b'"
proof (cases "bridge_require_cap (hr_caps (br_response b)) ''leader-request-v1''")
  case (Some err)
  with assms show ?thesis by (simp add: leader_on_connection_def)
next
  case None
  obtain r1 c1 where s1: "cc_send_control (be_encode e) LeaderRequest (br_conn b) = (r1, c1)" by fastforce
  show ?thesis
  proof (cases r1)
    case (Some err)
    with assms s1 None show ?thesis by (auto simp: leader_on_connection_def intro: exchange_internal)
  next
    case sent: None
    with assms s1 None obtain r2 b2 where w: "leader_wait e ns (b\<lparr>br_conn := c1\<rparr>) = Some (r2, b2)"
      by (auto simp: leader_on_connection_def split: option.splits prod.splits)
    have first: "exchange r2 b b2"
      using exchange_step [OF calm_refl(2) kept_send_control leader_wait_exchange [OF w]] s1 sent by simp
    show ?thesis
    proof (cases r2)
      case (Some err)
      with assms s1 None sent w first show ?thesis by (simp add: leader_on_connection_def)
    next
      case ok: None
      with first have ck: "calm b b2" "kept b b2" by (simp_all add: exchange_def)
      show ?thesis
      proof (cases "br_grid b2")
        case None
        with assms s1 \<open>bridge_require_cap _ _ = None\<close> sent w ok first show ?thesis by (simp add: leader_on_connection_def)
      next
        case (Some grid)
        obtain cols rows where grid: "grid = (cols, rows)" by fastforce
        from assms s1 \<open>bridge_require_cap _ _ = None\<close> sent w ok Some grid obtain r3 where r3:
          "resize_on_connection e cols rows rs b2 = Some (r3, b')" "no_internal res = no_internal r3"
          by (auto simp: leader_on_connection_def no_internal_def split: option.splits)
        from exchange_step [OF ck resize_on_connection_exchange [OF r3(1)]] r3(2) show ?thesis by (simp add: exchange_def)
      qed
    qed
  qed
qed

section \<open>A pass and the run\<close>

text \<open>The requests among commands and controls, the typed bytes among commands.\<close>

fun request_of :: "bridge_cmd \<Rightarrow> (nat \<times> bool) list" where
  "request_of (CmdResize i _ _) = [(i, False)]"
| "request_of (CmdLeaderRequest i) = [(i, True)]"
| "request_of _ = []"

definition requests_in :: "bridge_cmd list \<Rightarrow> (nat \<times> bool) list" where
  "requests_in cs = concat (map request_of cs)"

fun control_id :: "pending_control \<Rightarrow> nat \<times> bool" where
  "control_id (PendingResize i _ _) = (i, False)"
| "control_id (PendingLeader i) = (i, True)"

definition typed_in :: "bridge_cmd list \<Rightarrow> bytes" where
  "typed_in cs = concat (map (\<lambda>c. case c of CmdBytes bs \<Rightarrow> bs | _ \<Rightarrow> []) cs)"

lemma requests_in_append [simp]: "requests_in [] = []" "requests_in (c # cs) = request_of c @ requests_in cs"
  "requests_in (xs @ ys) = requests_in xs @ requests_in ys"
  by (simp_all add: requests_in_def)

lemma typed_in_append [simp]: "typed_in [] = []" "typed_in (CmdBytes bs # cs) = bs @ typed_in cs" "typed_in (CmdResize i w h # cs) = typed_in cs"
  "typed_in (CmdLeaderRequest i # cs) = typed_in cs" "typed_in (CmdShutdown # cs) = typed_in cs" "typed_in (xs @ ys) = typed_in xs @ typed_in ys"
  by (simp_all add: typed_in_def)

lemma drain_input_splits:
  assumes "drain_input opened cs = (batch, controls, stop, rest)"
  shows "requests_in cs = map control_id controls @ requests_in rest" "typed_in cs = batch @ typed_in rest" "\<not> stop \<Longrightarrow> rest = [] \<and> opened"
  using assms by (induction opened cs arbitrary: batch controls stop rest rule: drain_input.induct) (auto split: prod.splits)

lemma perform_control_exchange:
  assumes "perform_control e s x b = Some (f, b')"
  shows "calm b b'" "answer_of (OutControl f) = [control_id x]" "\<not> internal_result (OutControl f) \<Longrightarrow> kept b b'"
    "raw_out [OutControl f] = []"
proof -
  have grid: "exchange res b b'" if "exchange res (b\<lparr>br_grid := g\<rparr>) b'" for res g
    by (rule exchange_step [OF _ _ that]) (simp_all add: kept_def output_flow_def)
  have int: "internal_result (OutControl (ResizeResult i ok res)) = (\<not> no_internal res)"
    "internal_result (OutControl (LeaderResult i ok res)) = (\<not> no_internal res)" for i ok res
    by (cases res; simp add: no_internal_def)+
  obtain res ok where ex: "exchange res b b'" "answer_of (OutControl f) = [control_id x]" "internal_result (OutControl f) = (\<not> no_internal res)"
  proof (cases x)
    case (PendingResize i cols rows)
    with assms obtain res where r: "resize_on_connection e cols rows (snd s)
         (if 0 < cols \<and> 0 < rows then b\<lparr>br_grid := Some (cols, rows)\<rparr> else b) = Some (res, b')" "f = ResizeResult i (res = None) res" by auto
    from resize_on_connection_exchange [OF r(1)] have "exchange res b b'" by (auto split: if_splits intro: grid)
    with r(2) PendingResize show thesis by (intro that) (simp_all add: int)
  next
    case (PendingLeader i)
    with assms obtain res where r: "leader_on_connection e (fst s) (snd s) b = Some (res, b')" "f = LeaderResult i (res = None) res" by auto
    from leader_on_connection_exchange [OF r(1)] r(2) PendingLeader show thesis by (intro that) (simp_all add: int)
  qed
  then show "calm b b'" "answer_of (OutControl f) = [control_id x]" "\<not> internal_result (OutControl f) \<Longrightarrow> kept b b'"
    by (auto simp: exchange_def)
  show "raw_out [OutControl f] = []" by simp
qed

text \<open>The three stages of a pass.\<close>

lemma daemon_frame_keeps:
  assumes "recv_frame (br_conn b) = (Inr f, c)"
  shows "daemon_frame e f (b\<lparr>br_conn := c\<rparr>) = Onward b' \<Longrightarrow> calm b b' \<and> kept b b'"
    "daemon_frame e f (b\<lparr>br_conn := c\<rparr>) = Ended r b' \<Longrightarrow> calm b b'"
proof -
  let ?b = "b\<lparr>br_conn := c\<rparr>"
  have w: "cc_written c = cc_written (br_conn b)" using assms by (auto simp: recv_frame_def split: list.splits sum.splits prod.splits)
  note st = recv_frame_stream [OF assms]
  have skip: "kept b ?b" if "frame_ty f \<noteq> TYPE_RAW_DATA"
    using that st w by (simp add: kept_def output_flow_def data_of_cons)
  have info: "calm b b2 \<and> kept b b2" if "send_attach_info e bs = (x, b2)" "frame_ty f \<noteq> TYPE_RAW_DATA" "calm ?b bs" "kept ?b bs" for bs x b2
    using exchange_attach_info [OF that(1) calm_trans [OF calm_refl(2) that(3)] kept_trans [OF skip [OF that(2)] that(4)]] by simp
  have ty: "TYPE_CBOR_CONTROL \<noteq> TYPE_RAW_DATA" by (simp add: TYPE_RAW_DATA_def TYPE_CBOR_CONTROL_def)
  obtain ok b1 where em: "emit (OutBytes (frame_body f)) ?b = (ok, b1)" by fastforce
  consider (raw) "frame_ty f = TYPE_RAW_DATA" | (ctl) "frame_ty f = TYPE_CBOR_CONTROL"
    | (other) "frame_ty f \<noteq> TYPE_RAW_DATA" "frame_ty f \<noteq> TYPE_CBOR_CONTROL" by blast
  then have "(\<forall>b'. daemon_frame e f ?b = Onward b' \<longrightarrow> calm b b' \<and> kept b b') \<and> (\<forall>r b'. daemon_frame e f ?b = Ended r b' \<longrightarrow> calm b b')"
  proof cases
    case raw
    from em show ?thesis
      by (cases rule: emit_cases) (use raw em st w in \<open>simp_all add: daemon_frame_def calm_def kept_def output_flow_def data_of_cons\<close>)
  next
    case other
    then show ?thesis using skip by (simp add: daemon_frame_def)
  next
    case ctl
    show ?thesis
    proof (cases "be_decode e (frame_body f)")
      case None
      with ctl ty show ?thesis by (simp add: daemon_frame_def)
    next
      case (Some m)
      obtain x b2 where s: "send_attach_info e (case m of LeaderNotify n \<Rightarrow> set_leader n ?b | ModeChange ch \<Rightarrow> set_mode (the (mc_client_mode ch)) ?b | _ \<Rightarrow> ?b) = (x, b2)"
        by fastforce
      have "calm b b2 \<and> kept b b2" by (rule info [OF s]) (use ctl ty in \<open>simp_all split: control_message.splits\<close>)
      with s skip ctl ty Some show ?thesis
        by (cases m) (auto simp: daemon_frame_def split: option.splits)
    qed
  qed
  then show "daemon_frame e f ?b = Onward b' \<Longrightarrow> calm b b' \<and> kept b b'" "daemon_frame e f ?b = Ended r b' \<Longrightarrow> calm b b'" by blast+
qed

lemma reader_ready_keeps:
  "reader_ready e b = Onward b' \<Longrightarrow> calm b b' \<and> kept b b'" "reader_ready e b = Ended r b' \<Longrightarrow> calm b b'"
  by (auto simp: reader_ready_def split: prod.splits sum.splits dest: daemon_frame_keeps)

lemma send_raw_bytes_frame_ok:
  "send_raw_bytes dec bs now script c = Some (res, c') \<Longrightarrow> bs \<noteq> [] \<Longrightarrow> answered res \<Longrightarrow> frame_ok (raw_data bs)"
  by (auto simp: send_raw_bytes_def cc_send_frame_def encode_to_def frame_ok_def raw_data_def check_type_def frame_consts Let_def
      split: if_splits sum.splits prod.splits)

lemma send_batch_onward:
  assumes "send_batch e a batch b = Some (Onward b')"
  shows "\<exists>c fs. b' = b\<lparr>br_conn := c\<rparr> \<and> data_of (cc_stream c) = data_of (cc_stream (br_conn b)) \<and> list_all frame_ok fs \<and> data_of fs = batch
    \<and> cc_written c = cc_written (br_conn b) @ encode_all fs"
proof (cases "batch = []")
  case True
  with assms show ?thesis by (intro exI [of _ "br_conn b"] exI [of _ "[]"]) (simp add: send_batch_def)
next
  case False
  with assms obtain res c where s: "send_raw_bytes (be_ack e) batch (ba_now a) (ba_ack_script a) (br_conn b) = Some (res, c)"
    and b': "b' = b\<lparr>br_conn := c\<rparr>" and res: "answered res"
    by (auto simp: send_batch_def answered_def split: option.splits if_splits)
  have live: "\<not> cc_poisoned (br_conn b)" using s res by (auto simp: send_raw_bytes_def)
  from s live False show ?thesis
  proof (cases rule: send_raw_bytes_cases)
    case (ack us f)
    then have "data_of (cc_stream c) = data_of (cc_stream (br_conn b))"
      by (simp add: cc_stream_def data_of_cons is_ack_def TYPE_RAW_ACK_def TYPE_RAW_DATA_def)
    with ack send_raw_bytes_frame_ok [OF s False res] b' show ?thesis
      by (intro exI [of _ c] exI [of _ "[raw_data batch]"]) (simp add: data_of_cons raw_data_def)
  next
    case failed
    with res show ?thesis by simp
  qed
qed

lemma send_batch_ended: "send_batch e a batch b = Some (Ended r b') \<Longrightarrow> \<exists>c. b' = b\<lparr>br_conn := c\<rparr>"
  by (auto simp: send_batch_def split: if_splits option.splits)

definition clean :: "bridge_output list \<Rightarrow> bool" where
  "clean out \<longleftrightarrow> (\<forall>x \<in> set out. \<not> internal_result x)"

lemma clean_append [simp]: "clean []" "clean (xs @ ys) \<longleftrightarrow> clean xs \<and> clean ys" "clean (x # xs) \<longleftrightarrow> \<not> internal_result x \<and> clean xs"
  by (auto simp: clean_def)

lemma run_controls_onward:
  assumes "run_controls e ss xs b = Some (Onward b')"
  shows "\<exists>out. br_out b' = br_out b @ out \<and> no_close out \<and> answers_in out = map control_id xs \<and> br_input b' = br_input b \<and> br_input_open b' = br_input_open b
    \<and> br_alive b' = br_alive b
    \<and> (clean out \<longrightarrow> output_flow b' = output_flow b \<and> wrote_control (cc_written (br_conn b)) (cc_written (br_conn b')))"
  using assms
proof (induction xs arbitrary: ss b)
  case (Cons x xs ss0)
  from Cons.prems obtain s ss where ss0: "ss0 = s # ss" by (cases ss0) simp_all
  note prems = Cons.prems [unfolded ss0]
  from prems obtain f b1 where p: "perform_control e s x b = Some (f, b1)" "be_json e f" by (auto split: option.splits if_splits)
  obtain ok b2 where em: "emit (OutControl f) b1 = (ok, b2)" by fastforce
  note pc = perform_control_exchange [OF p(1)]
  from em prems p have ok: "ok" by (cases ok) simp_all
  with em prems p have r: "run_controls e ss xs b2 = Some (Onward b')" by simp
  from em ok have b2: "b2 = b1\<lparr>br_out := br_out b1 @ [OutControl f], br_writer_left := map_option (\<lambda>n. n - 1) (br_writer_left b1)\<rparr>"
    by (auto elim: emit_cases)
  have flow2: "output_flow b2 = output_flow b1" using b2 by (simp add: output_flow_def)
  from pc(1) obtain o1 where o1: "br_out b1 = br_out b @ o1" "answers_in o1 = []" "no_close o1" by (auto simp: calm_def)
  from Cons.IH [OF r] obtain out where out: "br_out b' = br_out b2 @ out" "no_close out" "answers_in out = map control_id xs"
    "br_input b' = br_input b2" "br_input_open b' = br_input_open b2" "br_alive b' = br_alive b2"
    "clean out \<longrightarrow> output_flow b' = output_flow b2 \<and> wrote_control (cc_written (br_conn b2)) (cc_written (br_conn b'))" by auto
  show ?case
  proof (intro exI [of _ "o1 @ [OutControl f] @ out"] conjI impI)
    assume c: "clean (o1 @ [OutControl f] @ out)"
    with pc(3) have k: "kept b b1" by simp
    from c out(7) k flow2 show "output_flow b' = output_flow b" by (simp add: kept_def)
    from c out(7) have "wrote_control (cc_written (br_conn b2)) (cc_written (br_conn b'))" by simp
    with k b2 show "wrote_control (cc_written (br_conn b)) (cc_written (br_conn b'))" by (auto simp: kept_def intro: wrote_control_trans)
  qed (use out o1 pc b2 in \<open>auto simp: calm_def\<close>)
qed simp_all

lemma run_controls_ended:
  assumes "run_controls e ss xs b = Some (Ended r b')"
  shows "\<exists>out. br_out b' = br_out b @ out \<and> no_close out \<and> prefix (answers_in out) (map control_id xs) \<and> br_input b' = br_input b"
  using assms
proof (induction xs arbitrary: ss b)
  case (Cons x xs ss0)
  from Cons.prems obtain s ss where ss0: "ss0 = s # ss" by (cases ss0) simp_all
  note prems = Cons.prems [unfolded ss0]
  from prems obtain f b1 where p: "perform_control e s x b = Some (f, b1)" by (auto split: option.splits)
  note pc = perform_control_exchange [OF p]
  from pc(1) obtain o1 where o1: "br_out b1 = br_out b @ o1" "answers_in o1 = []" "no_close o1" by (auto simp: calm_def)
  obtain ok b2 where em: "emit (OutControl f) b1 = (ok, b2)" by fastforce
  show ?case
  proof (cases "be_json e f \<and> ok")
    case False
    with prems p em have "b' = b1 \<or> b' = b2" "b' = b2 \<longrightarrow> \<not> ok \<or> b' = b1" by (auto split: if_splits bool.splits)
    with em have "b' = b1" by (auto elim: emit_cases)
    with o1 pc(1) show ?thesis by (auto simp: calm_def)
  next
    case True
    with prems p em have r: "run_controls e ss xs b2 = Some (Ended r b')" by simp
    from em True have b2: "br_out b2 = br_out b1 @ [OutControl f]" "br_input b2 = br_input b1" by (auto elim: emit_cases)
    from Cons.IH [OF r] obtain out where "br_out b' = br_out b2 @ out" "no_close out" "prefix (answers_in out) (map control_id xs)"
      "br_input b' = br_input b2" by auto
    moreover have "br_input b1 = br_input b" using pc(1) by (simp add: calm_def)
    ultimately show ?thesis using b2 o1 pc(2) by (intro exI [of _ "o1 @ [OutControl f] @ out"]) simp
  qed
qed simp_all

text \<open>What one pass that goes on does, and what one that ends the loop can have done.\<close>

definition progress :: "bridge \<Rightarrow> bridge \<Rightarrow> bool" where
  "progress b b' \<longleftrightarrow> (\<exists>out. br_out b' = br_out b @ out \<and> no_close out
     \<and> answers_in out @ requests_in (br_input b') = requests_in (br_input b) \<and> suffix (br_input b') (br_input b)
     \<and> br_alive b' = br_alive b \<and> br_input_open b' = br_input_open b
     \<and> (clean out \<longrightarrow> output_flow b' = output_flow b
          \<and> (\<exists>fs. list_all frame_ok fs \<and> data_of fs @ typed_in (br_input b') = typed_in (br_input b)
               \<and> cc_written (br_conn b') = cc_written (br_conn b) @ encode_all fs)))"

definition ending :: "bridge \<Rightarrow> bridge \<Rightarrow> bool" where
  "ending b b' \<longleftrightarrow> (\<exists>out. br_out b' = br_out b @ out \<and> no_close out \<and> prefix (answers_in out) (requests_in (br_input b))
     \<and> suffix (br_input b') (br_input b))"

lemma progress_calm: "calm b b' \<Longrightarrow> kept b b' \<Longrightarrow> progress b b'"
  by (force simp: progress_def calm_def kept_def wrote_control_def)

lemma ending_calm: "calm b b' \<Longrightarrow> ending b b'"
  by (auto simp: ending_def calm_def)

lemma ending_trans:
  assumes "progress a b" "ending b c" shows "ending a c"
proof -
  from assms(1) obtain o1 where o1: "br_out b = br_out a @ o1" "no_close o1" "answers_in o1 @ requests_in (br_input b) = requests_in (br_input a)"
    "suffix (br_input b) (br_input a)" unfolding progress_def by (elim exE conjE) (rule that)
  from assms(2) obtain o2 where o2: "br_out c = br_out b @ o2" "no_close o2" "prefix (answers_in o2) (requests_in (br_input b))"
    "suffix (br_input c) (br_input b)" unfolding ending_def by (elim exE conjE) (rule that)
  have "prefix (answers_in (o1 @ o2)) (answers_in o1 @ requests_in (br_input b))" using o2(3) by simp
  then have "prefix (answers_in (o1 @ o2)) (requests_in (br_input a))" by (simp only: o1(3))
  then show ?thesis
    unfolding ending_def using o1 o2 by (intro exI [of _ "o1 @ o2"]) (simp del: answers_in_append add: suffix_order.trans [OF o2(4) o1(4)])
qed

lemma drain_input_suffix: "drain_input opened cs = (batch, controls, stop, rest) \<Longrightarrow> suffix rest cs"
  by (induction opened cs arbitrary: batch controls stop rest rule: drain_input.induct)
    (auto split: prod.splits simp: suffix_Cons)

lemma wake_ready_keeps:
  "wake_ready e a b = Some (Onward b') \<Longrightarrow> progress b b'" "wake_ready e a b = Some (Ended r b') \<Longrightarrow> ending b b'"
proof -
  obtain batch controls stop rest where d: "drain_input (br_input_open b) (br_input b) = (batch, controls, stop, rest)" by (metis prod_cases4)
  note ds = drain_input_splits [OF d] and sx = drain_input_suffix [OF d]
  let ?b = "b\<lparr>br_input := rest\<rparr>"
  have "(\<forall>b'. wake_ready e a b = Some (Onward b') \<longrightarrow> progress b b') \<and> (\<forall>r b'. wake_ready e a b = Some (Ended r b') \<longrightarrow> ending b b')"
  proof (cases "send_batch e a batch ?b")
    case None
    with d show ?thesis by (simp add: wake_ready_def)
  next
    case (Some flow)
    show ?thesis
    proof (cases flow)
      case (Ended r b1)
      with Some send_batch_ended [of e a batch ?b r b1] have "calm ?b b1" by auto
      with sx have "ending b b1" by (auto simp: ending_def calm_def)
      with d Some Ended show ?thesis by (simp add: wake_ready_def)
    next
      case (Onward b1)
      from send_batch_onward [OF Some [unfolded Onward]] obtain c fs where b1: "b1 = ?b\<lparr>br_conn := c\<rparr>"
        "data_of (cc_stream c) = data_of (cc_stream (br_conn b))" "list_all frame_ok fs" "data_of fs = batch"
        "cc_written c = cc_written (br_conn b) @ encode_all fs" by auto
      show ?thesis
      proof (cases "run_controls e (ba_windows a) controls b1")
        case None
        with d Some Onward show ?thesis by (simp add: wake_ready_def)
      next
        case r: (Some flow2)
        show ?thesis
        proof (cases flow2)
          case (Ended r2 b2)
          from run_controls_ended [OF r [unfolded Ended]] b1 ds sx have "ending b b2"
            by (auto simp: ending_def intro: prefix_order.trans)
          with d Some Onward r Ended show ?thesis by (simp add: wake_ready_def)
        next
          case b2: (Onward b2)
          from run_controls_onward [OF r [unfolded b2]] obtain out where out: "br_out b2 = br_out b1 @ out" "no_close out"
            "answers_in out = map control_id controls" "br_input b2 = br_input b1" "br_input_open b2 = br_input_open b1" "br_alive b2 = br_alive b1"
            "clean out \<longrightarrow> output_flow b2 = output_flow b1 \<and> wrote_control (cc_written (br_conn b1)) (cc_written (br_conn b2))"
            by (elim exE conjE) (rule that)
          have flow1: "output_flow b1 = output_flow b" using b1 by (simp add: output_flow_def)
          have written: "\<exists>gs. list_all frame_ok gs \<and> data_of gs @ typed_in rest = typed_in (br_input b)
              \<and> cc_written (br_conn b2) = cc_written (br_conn b) @ encode_all gs" if cl: "clean out"
          proof -
            from out(7) cl obtain hs where "list_all frame_ok hs" "data_of hs = []" "cc_written (br_conn b2) = cc_written (br_conn b1) @ encode_all hs"
              by (auto simp: wrote_control_def)
            with b1 ds show ?thesis by (intro exI [of _ "fs @ hs"]) simp
          qed
          have pr: "progress b b2" if "\<not> stop"
            unfolding progress_def using out b1 ds sx written flow1 by (intro exI [of _ out]) simp
          have en: "ending b b2"
            unfolding ending_def using out b1 ds sx by (intro exI [of _ out]) simp
          from d Some Onward r b2 pr en show ?thesis by (auto simp: wake_ready_def)
        qed
      qed
    qed
  qed
  then show "wake_ready e a b = Some (Onward b') \<Longrightarrow> progress b b'" "wake_ready e a b = Some (Ended r b') \<Longrightarrow> ending b b'" by blast+
qed

lemma progress_trans:
  assumes "progress a b" "progress b c" shows "progress a c"
proof -
  from assms(1) obtain o1 where o1: "br_out b = br_out a @ o1" "no_close o1" "answers_in o1 @ requests_in (br_input b) = requests_in (br_input a)"
    "suffix (br_input b) (br_input a)" "br_alive b = br_alive a" "br_input_open b = br_input_open a"
    "clean o1 \<longrightarrow> output_flow b = output_flow a \<and> (\<exists>fs. list_all frame_ok fs \<and> data_of fs @ typed_in (br_input b) = typed_in (br_input a)
               \<and> cc_written (br_conn b) = cc_written (br_conn a) @ encode_all fs)"
    unfolding progress_def by (elim exE conjE) (rule that)
  from assms(2) obtain o2 where o2: "br_out c = br_out b @ o2" "no_close o2" "answers_in o2 @ requests_in (br_input c) = requests_in (br_input b)"
    "suffix (br_input c) (br_input b)" "br_alive c = br_alive b" "br_input_open c = br_input_open b"
    "clean o2 \<longrightarrow> output_flow c = output_flow b \<and> (\<exists>fs. list_all frame_ok fs \<and> data_of fs @ typed_in (br_input c) = typed_in (br_input b)
               \<and> cc_written (br_conn c) = cc_written (br_conn b) @ encode_all fs)"
    unfolding progress_def by (elim exE conjE) (rule that)
  have "\<exists>fs. list_all frame_ok fs \<and> data_of fs @ typed_in (br_input c) = typed_in (br_input a)
               \<and> cc_written (br_conn c) = cc_written (br_conn a) @ encode_all fs" if cl: "clean o1" "clean o2"
  proof -
    from o1(7) o2(7) cl obtain fs gs where
      "list_all frame_ok fs" "data_of fs @ typed_in (br_input b) = typed_in (br_input a)" "cc_written (br_conn b) = cc_written (br_conn a) @ encode_all fs"
      "list_all frame_ok gs" "data_of gs @ typed_in (br_input c) = typed_in (br_input b)" "cc_written (br_conn c) = cc_written (br_conn b) @ encode_all gs"
      by blast
    then show ?thesis by (intro exI [of _ "fs @ gs"]) simp
  qed
  moreover note suffix_order.trans [OF o2(4) o1(4)]
  ultimately show ?thesis unfolding progress_def using o1 o2 by (intro exI [of _ "o1 @ o2"]) simp
qed

lemma bridge_pass_keeps:
  "bridge_pass e a b = Some (Onward b') \<Longrightarrow> progress b b'" "bridge_pass e a b = Some (Ended r b') \<Longrightarrow> ending b b'"
proof -
  have "(\<forall>b'. bridge_pass e a b = Some (Onward b') \<longrightarrow> progress b b') \<and> (\<forall>r b'. bridge_pass e a b = Some (Ended r b') \<longrightarrow> ending b b')"
  proof (cases "ba_poll a")
    case (BpReady rd wk)
    show ?thesis
    proof (cases "if rd then reader_ready e b else Onward b")
      case (Ended r1 b1)
      then have "ending b b1" by (auto intro: ending_calm dest: reader_ready_keeps(2) split: if_splits)
      with Ended BpReady show ?thesis by (simp add: bridge_pass_def)
    next
      case (Onward b1)
      then have "progress b b1" by (auto intro: progress_calm dest: reader_ready_keeps(1) split: if_splits)
      with Onward BpReady show ?thesis
        by (auto simp: bridge_pass_def intro: progress_trans ending_trans dest: wake_ready_keeps)
    qed
  qed (simp_all add: bridge_pass_def progress_calm ending_calm)
  then show "bridge_pass e a b = Some (Onward b') \<Longrightarrow> progress b b'" "bridge_pass e a b = Some (Ended r b') \<Longrightarrow> ending b b'" by blast+
qed

text \<open>What the browser asked for and typed, by the events of a run.\<close>

fun requested :: "socket_event \<Rightarrow> (nat \<times> bool) list" where
  "requested (ReaderGets _ _ (BrowserSent (WsText (Some (FrameResize i _ _))))) = [(i, False)]"
| "requested (ReaderGets _ _ (BrowserSent (WsText (Some (FrameLeaderRequest i))))) = [(i, True)]"
| "requested _ = []"

fun typed :: "socket_event \<Rightarrow> bytes" where
  "typed (ReaderGets _ _ (BrowserSent (WsBinary bs))) = bs"
| "typed _ = []"

text \<open>The reader task puts commands into the channel and frames of its own, no answers, into the queue.\<close>

definition says :: "bridge \<Rightarrow> bridge_cmd list \<Rightarrow> bridge \<Rightarrow> bool" where
  "says b cmds b' \<longleftrightarrow> (\<exists>out. br_out b' = br_out b @ out \<and> answers_in out = [] \<and> clean out \<and> raw_out out = [] \<and> no_close out)
     \<and> br_conn b' = br_conn b \<and> br_input b' = br_input b @ cmds \<and> br_input_open b' = br_input_open b \<and> br_alive b' = br_alive b"

lemma says_simps [simp]: "says b [] b" "says b cmds (b\<lparr>br_input := br_input b @ cmds\<rparr>)"
  by (simp_all add: says_def)

lemma says_send_or_stop:
  assumes "send_or_stop e f b = (ok, b')" "answer_of (OutControl f) = []" "\<not> internal_result (OutControl f)"
  shows "says b [] b'"
proof (cases "be_json e f")
  case True
  with assms(1) have "emit (OutControl f) b = (ok, b')" by (simp add: send_or_stop_def)
  then show ?thesis by (cases rule: emit_cases) (use assms in \<open>simp_all add: says_def\<close>)
qed (use assms(1) in \<open>simp add: send_or_stop_def\<close>)

lemma reader_step_keeps:
  assumes "reader_step e now file ev auth b = flow"
  shows "case flow of
      Reading auth' b' \<Rightarrow> \<exists>cmds. says b cmds b' \<and> (br_alive b \<or> cmds = [])
        \<and> (br_alive b \<longrightarrow> requests_in cmds = requested (ReaderGets now file ev) \<and> typed_in cmds = typed (ReaderGets now file ev))
    | Stopped lost b' \<Rightarrow> says b [] b' \<and> (br_alive b \<longrightarrow> requested (ReaderGets now file ev) = [] \<and> typed (ReaderGets now file ev) = [])"
proof -
  have hand: "case hand_over auth cmd b of
      Reading auth' b' \<Rightarrow> br_alive b \<and> b' = b\<lparr>br_input := br_input b @ [cmd]\<rparr>
    | Stopped lost b' \<Rightarrow> \<not> br_alive b \<and> b' = b" for cmd
    by (simp add: hand_over_def push_cmd_def)
  show ?thesis
  proof (cases ev)
    case (AuthLost loss)
    with assms show ?thesis by (auto simp: reader_step_def intro!: exI [of _ "[]"])
  next
    case (BrowserSent m)
    have cmd: ?thesis if "flow = hand_over auth cmd b" "requested (ReaderGets now file ev) = request_of cmd"
      "typed (ReaderGets now file ev) = typed_in [cmd]" for cmd
      using hand [of cmd] that by (auto split: reader_flow.splits intro!: exI [of _ "[cmd]"])
    show ?thesis
    proof (cases m)
      case (WsBinary bs)
      with assms BrowserSent show ?thesis by (intro cmd [of "CmdBytes bs"]) (simp_all add: reader_step_def)
    next
      case (WsText t)
      show ?thesis
      proof (cases t)
        case None
        obtain ok b1 where s: "send_or_stop e (FrameError None (ErrorInfo ''unknown-kind'' ''unrecognized WS text frame'')) b = (ok, b1)" by fastforce
        from says_send_or_stop [OF s] have "says b [] b1" by simp
        with s assms BrowserSent WsText None show ?thesis
          by (cases ok) (auto simp: reader_step_def intro!: exI [of _ "[]"])
      next
        case (Some f)
        show ?thesis
        proof (cases f)
          case (FrameResize i cols rows)
          with assms BrowserSent WsText Some show ?thesis by (intro cmd [of "CmdResize i cols rows"]) (simp_all add: reader_step_def)
        next
          case (FrameLeaderRequest i)
          with assms BrowserSent WsText Some show ?thesis by (intro cmd [of "CmdLeaderRequest i"]) (simp_all add: reader_step_def)
        next
          case (FrameAuthExtend i token)
          obtain auth2 ext where x: "ws_extend_at token now file auth = (auth2, ext)" by fastforce
          obtain ok b1 where s: "send_or_stop e (extend_result i ext) b = (ok, b1)" by fastforce
          from says_send_or_stop [OF s] have "says b [] b1" by (simp add: extend_result_def split: sum.splits)
          with s x assms BrowserSent WsText Some FrameAuthExtend show ?thesis
            by (cases ok; cases ext) (auto simp: reader_step_def intro!: exI [of _ "[]"])
        qed
      qed
    qed (use assms BrowserSent in \<open>auto simp: reader_step_def intro!: exI [of _ "[]"]\<close>)
  qed
qed

text \<open>The books of a run: what was asked and typed so far is answered or still waits, what the daemon sent is forwarded or still to
  be read. They hold while the bridge lives; once it is gone the answers given are still a beginning of what was asked.\<close>

definition books :: "bridge \<Rightarrow> (nat \<times> bool) list \<Rightarrow> bytes \<Rightarrow> bridge \<Rightarrow> bool" where
  "books b0 asked keyed b \<longleftrightarrow> prefix (answers_in (br_out b)) asked
     \<and> (br_alive b \<longrightarrow> answers_in (br_out b) @ requests_in (br_input b) = asked
          \<and> (clean (br_out b) \<longrightarrow> output_flow b = output_flow b0
               \<and> (\<exists>fs. list_all frame_ok fs \<and> data_of fs @ typed_in (br_input b) = keyed
                    \<and> cc_written (br_conn b) = cc_written (br_conn b0) @ encode_all fs)))"

definition sound_socket :: "bridge \<Rightarrow> socket_event list \<Rightarrow> socket \<Rightarrow> bool" where
  "sound_socket b0 h s \<longleftrightarrow> (\<exists>asked keyed. books b0 asked keyed (so_bridge s)
     \<and> prefix asked (concat (map requested h)) \<and> prefix keyed (concat (map typed h))
     \<and> (br_alive (so_bridge s) \<and> so_auth s \<noteq> None \<longrightarrow> asked = concat (map requested h) \<and> keyed = concat (map typed h)))"

lemma books_says:
  assumes "books b0 asked keyed b" "says b cmds b'" "br_alive b \<or> cmds = []"
  shows "books b0 (asked @ requests_in cmds) (keyed @ typed_in cmds) b'"
proof -
  from assms(2) obtain out where out: "br_out b' = br_out b @ out" "answers_in out = []" "clean out" "raw_out out = []"
    and b': "br_conn b' = br_conn b" "br_input b' = br_input b @ cmds" "br_alive b' = br_alive b" by (auto simp: says_def)
  have flow: "output_flow b' = output_flow b" using out b' by (simp add: output_flow_def)
  have typed: "\<exists>fs. list_all frame_ok fs \<and> data_of fs @ typed_in (br_input b') = keyed @ typed_in cmds
      \<and> cc_written (br_conn b') = cc_written (br_conn b0) @ encode_all fs" if "br_alive b" "clean (br_out b)"
  proof -
    from assms(1) that obtain fs where "list_all frame_ok fs" "data_of fs @ typed_in (br_input b) = keyed"
      "cc_written (br_conn b) = cc_written (br_conn b0) @ encode_all fs" unfolding books_def by blast
    with b' show ?thesis by (intro exI [of _ fs]) (simp add: append.assoc [symmetric])
  qed
  from assms(1) have "br_alive b \<Longrightarrow> answers_in (br_out b') @ requests_in (br_input b') = asked @ requests_in cmds"
    using out b' by (simp add: books_def append.assoc [symmetric])
  moreover from assms(1) out(1,2) have "prefix (answers_in (br_out b')) (asked @ requests_in cmds)"
    by (simp add: books_def prefix_prefix)
  ultimately show ?thesis
    using assms(1) out b'(3) typed flow unfolding books_def by simp
qed

lemma books_progress:
  assumes "books b0 asked keyed b" "progress b b'" "br_alive b"
  shows "books b0 asked keyed b'"
proof -
  from assms(2) obtain out where out: "br_out b' = br_out b @ out"
    "answers_in out @ requests_in (br_input b') = requests_in (br_input b)" "br_alive b' = br_alive b"
    "clean out \<longrightarrow> output_flow b' = output_flow b \<and> (\<exists>fs. list_all frame_ok fs \<and> data_of fs @ typed_in (br_input b') = typed_in (br_input b)
               \<and> cc_written (br_conn b') = cc_written (br_conn b) @ encode_all fs)"
    unfolding progress_def by (elim exE conjE) (rule that)
  have a: "answers_in (br_out b') @ requests_in (br_input b') = asked"
    using assms(1,3) out(1,2) by (simp add: books_def)
  then have "prefix (answers_in (br_out b')) asked" by (metis prefixI)
  moreover have "output_flow b' = output_flow b0 \<and> (\<exists>fs. list_all frame_ok fs \<and> data_of fs @ typed_in (br_input b') = keyed
      \<and> cc_written (br_conn b') = cc_written (br_conn b0) @ encode_all fs)" if cl: "clean (br_out b')"
  proof -
    from cl out(1) have "clean (br_out b)" "clean out" by simp_all
    with assms(1,3) out(4) obtain fs gs where "output_flow b' = output_flow b0"
      "list_all frame_ok fs" "data_of fs @ typed_in (br_input b) = keyed" "cc_written (br_conn b) = cc_written (br_conn b0) @ encode_all fs"
      "list_all frame_ok gs" "data_of gs @ typed_in (br_input b') = typed_in (br_input b)"
      "cc_written (br_conn b') = cc_written (br_conn b) @ encode_all gs"
      unfolding books_def by auto
    then show ?thesis by (intro conjI exI [of _ "fs @ gs"]) simp_all
  qed
  ultimately show ?thesis using a unfolding books_def by blast
qed

lemma books_ending:
  assumes "books b0 asked keyed b" "ending b b'" "br_alive b"
  shows "books b0 asked keyed (b'\<lparr>br_alive := False\<rparr>)"
proof -
  from assms(2) obtain out where "br_out b' = br_out b @ out" "prefix (answers_in out) (requests_in (br_input b))"
    unfolding ending_def by blast
  moreover from assms(1,3) have "answers_in (br_out b) @ requests_in (br_input b) = asked" by (simp add: books_def)
  ultimately have "prefix (answers_in (br_out b')) asked" by auto
  then show ?thesis by (simp add: books_def)
qed

lemma books_reader_end:
  assumes "books b0 asked keyed b" shows "books b0 asked keyed (reader_end lost b)"
proof -
  have sealed: "books b0 asked keyed b1 \<Longrightarrow> books b0 asked keyed (b1\<lparr>br_input_open := False\<rparr>)" for b1
    by (simp add: books_def output_flow_def)
  have closed: "books b0 asked keyed (snd (emit (OutClose r) b))" for r
    using assms by (auto simp: emit_def books_def output_flow_def split: option.splits nat.splits)
  have shut: "books b0 asked keyed (snd (push_cmd CmdShutdown b1))" if "books b0 asked keyed b1" for b1
    using that by (simp add: push_cmd_def books_def output_flow_def)
  show ?thesis by (cases lost) (simp_all add: reader_end_def Let_def sealed shut closed assms)
qed

lemma sound_socket_step:
  assumes "sound_socket b0 h s" "socket_step e ev s = Some s'"
  shows "sound_socket b0 (h @ [ev]) s'"
proof -
  from assms(1) obtain asked keyed where inv: "books b0 asked keyed (so_bridge s)"
    "prefix asked (concat (map requested h))" "prefix keyed (concat (map typed h))"
    "br_alive (so_bridge s) \<and> so_auth s \<noteq> None \<longrightarrow> asked = concat (map requested h) \<and> keyed = concat (map typed h)"
    unfolding sound_socket_def by blast
  have longer: "prefix asked (concat (map requested (h @ [ev])))" "prefix keyed (concat (map typed (h @ [ev])))"
    using inv(2,3) by (simp_all add: prefix_prefix)
  have stays: ?thesis if "books b0 asked keyed (so_bridge s')" "br_alive (so_bridge s') \<and> so_auth s' \<noteq> None \<longrightarrow>
      requested ev = [] \<and> typed ev = [] \<and> br_alive (so_bridge s) \<and> so_auth s \<noteq> None"
    unfolding sound_socket_def using that inv longer by (intro exI [of _ asked] exI [of _ keyed]) auto
  show ?thesis
  proof (cases ev)
    case ReaderAborted
    have "books b0 asked keyed ((so_bridge s)\<lparr>br_input_open := False\<rparr>)"
      using inv(1) by (simp add: books_def output_flow_def)
    with assms(2) inv(1) ReaderAborted show ?thesis by (intro stays) (auto split: if_splits)
  next
    case (BridgePasses a)
    show ?thesis
    proof (cases "br_alive (so_bridge s)")
      case False
      with assms(2) inv BridgePasses show ?thesis by (intro stays) (auto simp: bridge_turn_def)
    next
      case True
      with assms(2) BridgePasses obtain flow where f: "bridge_pass e a (so_bridge s) = Some flow"
        and s': "s' = (case flow of Onward b \<Rightarrow> s\<lparr>so_bridge := b\<rparr> | Ended _ b \<Rightarrow> s\<lparr>so_bridge := b\<lparr>br_alive := False\<rparr>\<rparr>)"
        by (auto simp: bridge_turn_def)
      show ?thesis
      proof (cases flow)
        case (Onward b)
        with bridge_pass_keeps(1) f have "progress (so_bridge s) b" by simp
        with True Onward inv s' BridgePasses books_progress show ?thesis by (intro stays) auto
      next
        case (Ended r b)
        with bridge_pass_keeps(2) f have "ending (so_bridge s) b" by simp
        with True Ended inv s' books_ending show ?thesis by (intro stays) auto
      qed
    qed
  next
    case (ReaderGets now auths rev)
    show ?thesis
    proof (cases "so_auth s")
      case None
      with assms(2) inv ReaderGets show ?thesis by (intro stays) (auto simp: reader_turn_def)
    next
      case (Some auth)
      obtain flow where f: "reader_step e now auths rev auth (so_bridge s) = flow" by simp
      note k = reader_step_keeps [OF f]
      show ?thesis
      proof (cases flow)
        case (Stopped lost b)
        with k inv(1) have "books b0 asked keyed b" using books_says [of b0 asked keyed "so_bridge s" "[]" b] by simp
        with Stopped Some f assms(2) ReaderGets show ?thesis by (intro stays) (auto simp: reader_turn_def books_reader_end)
      next
        case (Reading auth' b)
        with k obtain cmds where c: "says (so_bridge s) cmds b" "br_alive (so_bridge s) \<or> cmds = []"
          "br_alive (so_bridge s) \<longrightarrow> requests_in cmds = requested ev \<and> typed_in cmds = typed ev" by (auto simp: ReaderGets)
        have s': "s' = \<lparr>so_bridge = b, so_auth = Some auth'\<rparr>" using Reading Some f assms(2) ReaderGets by (simp add: reader_turn_def)
        have alive: "br_alive b = br_alive (so_bridge s)" using c(1) by (simp add: says_def)
        show ?thesis
          unfolding sound_socket_def using books_says [OF inv(1) c(1,2)] c inv longer s' Some alive
          by (intro exI [of _ "asked @ requests_in cmds"] exI [of _ "keyed @ typed_in cmds"]) (cases "br_alive (so_bridge s)"; simp)
      qed
    qed
  qed
qed

lemma sound_socket_run:
  "socket_run e evs s = Some s' \<Longrightarrow> sound_socket b0 h s \<Longrightarrow> sound_socket b0 (h @ evs) s'"
proof (induction evs arbitrary: s h)
  case (Cons ev evs)
  then obtain s1 where "socket_step e ev s = Some s1" "socket_run e evs s1 = Some s'" by (auto split: option.splits)
  with Cons.IH [of s1 "h @ [ev]"] Cons.prems(2) sound_socket_step show ?case by auto
qed simp

text \<open>The bridge as it enters its loop.\<close>

lemma bridge_start_fresh:
  assumes "bridge_start e token t c [] left = Inr b"
  shows "answers_in (br_out b) = [] \<and> clean (br_out b) \<and> raw_out (br_out b) = [] \<and> no_close (br_out b) \<and> br_input b = [] \<and> br_alive b \<and> br_input_open b"
  using assms
  by (auto simp: bridge_start_def send_attach_info_def send_server_frame_def emit_def
      split: prod.splits sum.splits option.splits if_splits nat.splits bool.splits)

lemma sound_socket_start:
  assumes "bridge_start e token t c [] left = Inr b" shows "sound_socket b [] \<lparr>so_bridge = b, so_auth = auth\<rparr>"
  unfolding sound_socket_def books_def using bridge_start_fresh [OF assms]
  by (intro exI [of _ "[]"] conjI impI) simp_all

text \<open>Without the reader task the queue only grows and the channel only empties; with it nothing has closed the socket.\<close>

lemma bridge_turn_effect:
  assumes "bridge_turn e a s = Some s'"
  shows "\<exists>out. br_out (so_bridge s') = br_out (so_bridge s) @ out \<and> no_close out \<and> suffix (br_input (so_bridge s')) (br_input (so_bridge s))
    \<and> so_auth s' = so_auth s"
proof (cases "br_alive (so_bridge s)")
  case False
  with assms show ?thesis by (simp add: bridge_turn_def)
next
  case True
  with assms obtain flow where f: "bridge_pass e a (so_bridge s) = Some flow"
    and s': "s' = (case flow of Onward b \<Rightarrow> s\<lparr>so_bridge := b\<rparr> | Ended _ b \<Rightarrow> s\<lparr>so_bridge := b\<lparr>br_alive := False\<rparr>\<rparr>)"
    by (auto simp: bridge_turn_def)
  show ?thesis
  proof (cases flow)
    case (Onward b)
    with bridge_pass_keeps(1) f have "progress (so_bridge s) b" by simp
    then obtain out where "br_out b = br_out (so_bridge s) @ out" "no_close out" "suffix (br_input b) (br_input (so_bridge s))"
      unfolding progress_def by (elim exE conjE) (rule that)
    with Onward s' show ?thesis by simp
  next
    case (Ended r b)
    with bridge_pass_keeps(2) f have "ending (so_bridge s) b" by simp
    with Ended s' show ?thesis by (auto simp: ending_def)
  qed
qed

lemma socket_step_reader_over:
  assumes "socket_step e ev s = Some s'" "so_auth s = None"
  shows "so_auth s' = None \<and> (\<exists>out. br_out (so_bridge s') = br_out (so_bridge s) @ out) \<and> suffix (br_input (so_bridge s')) (br_input (so_bridge s))"
  using assms bridge_turn_effect [of e _ s s'] by (cases ev) (auto simp: reader_turn_def split: if_splits)

lemma socket_run_reader_over:
  "socket_run e evs s = Some s' \<Longrightarrow> so_auth s = None
    \<Longrightarrow> so_auth s' = None \<and> (\<exists>out. br_out (so_bridge s') = br_out (so_bridge s) @ out) \<and> suffix (br_input (so_bridge s')) (br_input (so_bridge s))"
proof (induction evs arbitrary: s)
  case (Cons ev evs)
  then obtain s1 where s1: "socket_step e ev s = Some s1" "socket_run e evs s1 = Some s'" by (auto split: option.splits)
  note a = socket_step_reader_over [OF s1(1) Cons.prems(2)]
  with Cons.IH [OF s1(2)] show ?case by (auto intro: suffix_order.trans)
qed simp

lemma socket_step_reading:
  assumes "socket_step e ev s = Some s'" "so_auth s' \<noteq> None"
  shows "so_auth s \<noteq> None \<and> (no_close (br_out (so_bridge s)) \<longrightarrow> no_close (br_out (so_bridge s')))"
proof (cases ev)
  case (ReaderGets now auths rev)
  with assms obtain auth where a: "so_auth s = Some auth" by (cases "so_auth s") (auto simp: reader_turn_def)
  obtain flow where f: "reader_step e now auths rev auth (so_bridge s) = flow" by simp
  with assms a ReaderGets reader_step_keeps [OF f] show ?thesis
    by (cases flow) (auto simp: reader_turn_def says_def)
next
  case (BridgePasses a)
  with assms bridge_turn_effect [of e a s s'] show ?thesis by auto
qed (use assms in \<open>auto split: if_splits\<close>)

lemma socket_run_reading:
  "socket_run e evs s = Some s' \<Longrightarrow> so_auth s' \<noteq> None \<Longrightarrow> no_close (br_out (so_bridge s)) \<Longrightarrow> no_close (br_out (so_bridge s'))"
  "socket_run e evs s = Some s' \<Longrightarrow> so_auth s' \<noteq> None \<Longrightarrow> so_auth s \<noteq> None"
proof (induction evs arbitrary: s)
  case (Cons ev evs)
  {
    case 1
    then obtain s1 where "socket_step e ev s = Some s1" "socket_run e evs s1 = Some s'" by (auto split: option.splits)
    with 1 Cons.IH [of s1] socket_step_reading show ?case by blast
  next
    case 2
    then obtain s1 where "socket_step e ev s = Some s1" "socket_run e evs s1 = Some s'" by (auto split: option.splits)
    with 2 Cons.IH(2) [of s1] socket_step_reading show ?case by blast
  }
qed simp_all

fun sent_of :: "bridge_output \<Rightarrow> ws_sent" where
  "sent_of (OutBytes bs) = SentBinary bs"
| "sent_of (OutControl f) = SentText f"
| "sent_of (OutClose r) = SentClose (Some r)"

lemma writer_task_close:
  "no_close out \<Longrightarrow> writer_task n (out @ OutClose r # later) = map sent_of (take n (out @ [OutClose r]))"
proof (induction out arbitrary: n)
  case (Cons x out)
  then show ?case by (cases x; cases n) auto
qed (cases n; simp)

section \<open>Properties\<close>

text \<open>C15. The attach socket loses and invents nothing, whatever the order in which its tasks run: after any run from a fresh bridge, while
  the bridge lives and no request was answered with \<open>internal-error\<close>, the output in the browser's queue followed by the
  output still to be read from the daemon is the output of the daemon since the handshake; and what was written to the
  daemon since then is a sequence of whole frames whose data, followed by the bytes still in the channel, is what the
  browser typed (a beginning of it once the reader task has stopped).\<close>

theorem socket_conserves:
  assumes "bridge_start e token t c [] left = Inr b"
    and "socket_run e evs \<lparr>so_bridge = b, so_auth = Some auth\<rparr> = Some s"
    and "br_alive (so_bridge s)" and "clean (br_out (so_bridge s))"
  shows "raw_out (br_out (so_bridge s)) @ data_of (cc_stream (br_conn (so_bridge s))) = data_of (cc_stream (br_conn b))
    \<and> (\<exists>fs. list_all frame_ok fs \<and> cc_written (br_conn (so_bridge s)) = cc_written (br_conn b) @ encode_all fs
         \<and> prefix (data_of fs @ typed_in (br_input (so_bridge s))) (concat (map typed evs))
         \<and> (so_auth s \<noteq> None \<longrightarrow> data_of fs @ typed_in (br_input (so_bridge s)) = concat (map typed evs)))"
proof -
  from sound_socket_run [OF assms(2) sound_socket_start [OF assms(1)]] obtain asked keyed where
    bk: "books b asked keyed (so_bridge s)" and k: "prefix keyed (concat (map typed evs))" "so_auth s \<noteq> None \<longrightarrow> keyed = concat (map typed evs)"
    unfolding sound_socket_def using assms(3) by auto
  from bk assms(3,4) obtain fs where "output_flow (so_bridge s) = output_flow b" "list_all frame_ok fs"
    "data_of fs @ typed_in (br_input (so_bridge s)) = keyed" "cc_written (br_conn (so_bridge s)) = cc_written (br_conn b) @ encode_all fs"
    unfolding books_def by blast
  with k bridge_start_fresh [OF assms(1)] show ?thesis by (auto simp: output_flow_def)
qed

text \<open>C16. The answers to resize and leader requests that are queued for the browser are a beginning of the requests the browser
  sent, in their order: none is answered twice, none that was not made. While both tasks live the unanswered ones are
  exactly those in the channel.\<close>

theorem socket_answers_requests:
  assumes "bridge_start e token t c [] left = Inr b"
    and "socket_run e evs \<lparr>so_bridge = b, so_auth = Some auth\<rparr> = Some s"
  shows "prefix (answers_in (br_out (so_bridge s))) (concat (map requested evs))
    \<and> (br_alive (so_bridge s) \<and> so_auth s \<noteq> None
       \<longrightarrow> answers_in (br_out (so_bridge s)) @ requests_in (br_input (so_bridge s)) = concat (map requested evs))"
proof -
  from sound_socket_run [OF assms(2) sound_socket_start [OF assms(1)]] show ?thesis
    unfolding sound_socket_def books_def by (auto intro: prefix_order.trans)
qed

text \<open>C17. When the authentication of the socket is lost the browser is told why, last of all: whatever the bridge still
  puts into the queue, the writer sends what was queued before, then the close frame with the reason, and nothing after
  it. And nothing the browser sends afterwards is taken over.\<close>

theorem lost_authentication_is_told:
  assumes "bridge_start e token t c [] left = Inr b"
    and "socket_run e evs \<lparr>so_bridge = b, so_auth = Some auth0\<rparr> = Some s" and "so_auth s = Some auth"
    and "reader_step e now file ev auth (so_bridge s) = Stopped (Some loss) b1" and "br_writer_left b1 = None"
    and "socket_run e (ReaderGets now file ev # later) s = Some s'" and "length (br_out b1) < n"
  shows "writer_task n (br_out (so_bridge s')) = map sent_of (br_out b1) @ [SentClose (Some (close_reason loss))]
    \<and> suffix (typed_in (br_input (so_bridge s'))) (typed_in (br_input (so_bridge s)))
    \<and> suffix (requests_in (br_input (so_bridge s'))) (requests_in (br_input (so_bridge s)))"
proof -
  note k = reader_step_keeps [OF assms(4), simplified]
  have nc: "no_close (br_out b1)"
    using socket_run_reading(1) [OF assms(2)] assms(3) bridge_start_fresh [OF assms(1)] k by (auto simp: says_def)
  let ?s1 = "\<lparr>so_bridge = reader_end (Some loss) b1, so_auth = None\<rparr>"
  from assms(3,4,6) have run: "socket_run e later ?s1 = Some s'" by (simp add: reader_turn_def)
  have out1: "br_out (so_bridge ?s1) = br_out b1 @ [OutClose (close_reason loss)]"
    using assms(5) by (simp add: reader_end_def emit_def push_cmd_def Let_def)
  have in1: "typed_in (br_input (so_bridge ?s1)) = typed_in (br_input b1)" "requests_in (br_input (so_bridge ?s1)) = requests_in (br_input b1)"
    using assms(5) by (simp_all add: reader_end_def emit_def push_cmd_def Let_def)
  from socket_run_reader_over [OF run] obtain out where o: "br_out (so_bridge s') = br_out b1 @ OutClose (close_reason loss) # out"
    "suffix (br_input (so_bridge s')) (br_input (so_bridge ?s1))" using out1 by auto
  from o(2) obtain cs where cs: "br_input (so_bridge ?s1) = cs @ br_input (so_bridge s')" by (auto simp: suffix_def)
  have "br_input b1 = br_input (so_bridge s)" using k by (simp add: says_def)
  with in1 cs have "typed_in (br_input (so_bridge s)) = typed_in cs @ typed_in (br_input (so_bridge s'))"
    "requests_in (br_input (so_bridge s)) = requests_in cs @ requests_in (br_input (so_bridge s'))" by simp_all
  then show ?thesis using writer_task_close [OF nc, of n "close_reason loss" out] o(1) assms(7)
    by (auto simp: suffix_def)
qed

subsection \<open>Examples\<close>

definition example_status :: status_response where
  "example_status = \<lparr>st_session_id = ''s'', st_child_pid = None, st_child_pgid = None, st_daemon_pid = 1, st_child_stopped = False,
     st_child_state = ChildRunning, st_clients = [], st_scrollback_bytes = 0, st_lock_holder = None, st_cwd = ''/'', st_argv = [],
     st_on_child_suspend = None, st_daemon_version = ''1'', st_tags = []\<rparr>"

definition example_bridge_decoder :: control_decoder where
  "example_bridge_decoder bs =
     (if bs = [1] then Some (HandshakeResponse \<lparr>hr_caps = MVP_CAPS, hr_session_id = ''s'', hr_client_id = 1, hr_leader = True, hr_mode = Rw,
         hr_child_stopped = False\<rparr>)
      else if bs = [2] then Some (StatusResponse example_status)
      else if bs = [3] then Some (LeaderNotify \<lparr>ln_client_id = Some 2\<rparr>)
      else if bs = [4] then Some (ErrorMsg \<lparr>em_code = ModeNotLeader, em_message = ''not the leader'', em_details = None\<rparr>)
      else None)"

definition example_env :: bridge_env where
  "example_env = \<lparr>be_encode = (\<lambda>_. Some [9]), be_decode = example_bridge_decoder, be_ack = example_ack_decoder, be_json = (\<lambda>_. True),
     be_version = ''1'', be_build_id = None\<rparr>"

definition example_daemon :: "bytes \<Rightarrow> client_connection" where
  "example_daemon bs = example_connection\<lparr>cc_reader := ([2, 0, 0, 0, 1, 1] @ bs, False)\<rparr>"

definition example_bridge :: "bytes \<Rightarrow> bridge" where
  "example_bridge bs = \<lparr>br_conn = example_connection\<lparr>cc_reader := (bs, False), cc_written := [2, 0, 0, 0, 1, 9]\<rparr>,
     br_response = \<lparr>hr_caps = MVP_CAPS, hr_session_id = ''s'', hr_client_id = 1, hr_leader = True, hr_mode = Rw, hr_child_stopped = False\<rparr>,
     br_grid = None, br_input = [], br_input_open = True,
     br_out = [OutControl (Hello WEB_PROTOCOL_VERSION ''1'' None MVP_CAPS (Some (format_unix_ms_iso8601 0))), OutControl (AttachInfo AttachRw True)],
     br_writer_left = None, br_alive = True\<rparr>"

lemma example_bridge_start: "bridge_start example_env None 0 (example_daemon bs) [] None = Inr (example_bridge bs)"
  by (simp add: bridge_start_def example_env_def connect_def example_daemon_def example_connection_def cc_send_frame_def cc_write_def
      encode_to_def cbor_control_def MAX_FRAME_SIZE_def u32_to_le_bytes_def decode_from_def check_size_def check_type_def frame_consts Let_def
      example_bridge_decoder_def send_server_frame_def emit_def send_attach_info_def example_bridge_def)

definition example_pass :: bridge_answers where
  "example_pass = \<lparr>ba_poll = BpReady False True, ba_now = 0, ba_ack_script = [(0, CpReady), (0, CpReady)], ba_windows = [([], [100, 100]), ([], [100, 100])]\<rparr>"

definition example_browser :: "ws_message list \<Rightarrow> socket_event list" where
  "example_browser ms = map (\<lambda>m. ReaderGets 0 (Inl IoError) (BrowserSent m)) ms"

definition example_auth :: ws_auth where
  "example_auth = \<lparr>ws_endpoint = Endpoint ''unix'', ws_family_id = ''f'', ws_expires_at = 0, ws_anchor = (0, 0)\<rparr>"


lemmas example_eval = example_browser_def example_pass_def example_env_def example_bridge_def example_connection_def reader_turn_def reader_step_def
  hand_over_def push_cmd_def bridge_turn_def bridge_pass_def wake_ready_def send_batch_def send_raw_bytes_def cc_send_control_def cc_send_frame_def
  cc_write_def encode_to_def raw_data_def cbor_control_def MAX_FRAME_SIZE_def u32_to_le_bytes_def decode_from_def check_size_def check_type_def
  frame_consts Let_def RAW_ACK_TIMEOUT_MS_def example_ack_decoder_def ack_verdict_def RawAck_ok_def RawAck_err_def resize_on_connection_def
  await_control_def recv_control.simps recv_frame_def example_bridge_decoder_def forward_raw_def emit_def

definition example_relay :: "bytes" where
  "example_relay = [2, 0, 0, 0, 0, 0x61, 2, 0, 0, 0, 2, 1, 2, 0, 0, 0, 0, 0x62, 2, 0, 0, 0, 1, 2, 2, 0, 0, 0, 0, 0x63]"

lemma example_relay_run:
  "map_option (\<lambda>s. (br_out (so_bridge s), br_alive (so_bridge s), so_auth s))
    (socket_run example_env (example_browser [WsBinary [0x6c], WsText (Some (FrameResize 7 80 24))] @ [BridgePasses example_pass])
      \<lparr>so_bridge = example_bridge example_relay, so_auth = Some example_auth\<rparr>)
   = Some (br_out (example_bridge example_relay) @ [OutBytes [0x61, 0x62], OutControl (ResizeResult 7 True None)], True, Some example_auth)"
  by (simp add: example_eval example_relay_def)

theorem socket_conserves_witness:
  "\<exists>(s :: socket) fs. raw_out (br_out (so_bridge s)) = [0x61, 0x62]
     \<and> raw_out (br_out (so_bridge s)) @ data_of (cc_stream (br_conn (so_bridge s))) = data_of (cc_stream (br_conn (example_bridge example_relay)))
     \<and> list_all frame_ok fs \<and> cc_written (br_conn (so_bridge s)) = cc_written (br_conn (example_bridge example_relay)) @ encode_all fs
     \<and> data_of fs @ typed_in (br_input (so_bridge s)) = [0x6c]"
proof -
  let ?evs = "example_browser [WsBinary [0x6c], WsText (Some (FrameResize 7 80 24))] @ [BridgePasses example_pass]"
  from example_relay_run obtain s where s: "socket_run example_env ?evs \<lparr>so_bridge = example_bridge example_relay, so_auth = Some example_auth\<rparr> = Some s"
    "br_out (so_bridge s) = br_out (example_bridge example_relay) @ [OutBytes [0x61, 0x62], OutControl (ResizeResult 7 True None)]" "br_alive (so_bridge s)"
    "so_auth s = Some example_auth" by (auto simp: map_option_case split: option.splits)
  have start: "bridge_start example_env None 0 (example_daemon example_relay) [] None = Inr (example_bridge example_relay)"
    by (rule example_bridge_start)
  from s(2) have "clean (br_out (so_bridge s))" "raw_out (br_out (so_bridge s)) = [0x61, 0x62]" by (simp_all add: example_bridge_def)
  with socket_conserves [OF start s(1) s(3)] s(4) show ?thesis by (intro exI [of _ s]) (auto simp: example_browser_def)
qed

theorem socket_answers_requests_witness:
  "\<exists>s :: socket. answers_in (br_out (so_bridge s)) = [(7, False)] \<and> requests_in (br_input (so_bridge s)) = []
     \<and> prefix (answers_in (br_out (so_bridge s))) (concat (map requested (example_browser [WsBinary [0x6c], WsText (Some (FrameResize 7 80 24))])))"
proof -
  let ?evs = "example_browser [WsBinary [0x6c], WsText (Some (FrameResize 7 80 24))] @ [BridgePasses example_pass]"
  from example_relay_run obtain s where s: "socket_run example_env ?evs \<lparr>so_bridge = example_bridge example_relay, so_auth = Some example_auth\<rparr> = Some s"
    "br_out (so_bridge s) = br_out (example_bridge example_relay) @ [OutBytes [0x61, 0x62], OutControl (ResizeResult 7 True None)]" "br_alive (so_bridge s)"
    "so_auth s = Some example_auth" by (auto simp: map_option_case split: option.splits)
  have "answers_in (br_out (so_bridge s)) = [(7, False)]" using s(2) by (simp add: example_bridge_def)
  with socket_answers_requests [OF example_bridge_start s(1)] s(3,4) show ?thesis by (intro exI [of _ s]) (auto simp: example_browser_def)
qed

lemma example_revoked_run:
  "map_option so_auth (socket_run example_env (example_browser [WsBinary [0x6c]]) \<lparr>so_bridge = example_bridge [], so_auth = Some example_auth\<rparr>)
     = Some (Some example_auth)"
  "map_option (\<lambda>s. reader_step example_env 5 (Inl IoError) (AuthLost LossRevoked) example_auth (so_bridge s))
    (socket_run example_env (example_browser [WsBinary [0x6c]]) \<lparr>so_bridge = example_bridge [], so_auth = Some example_auth\<rparr>)
     = Some (Stopped (Some LossRevoked) ((example_bridge [])\<lparr>br_input := [CmdBytes [0x6c]]\<rparr>))"
  by (simp_all add: example_eval)

lemma example_late_run:
  "\<exists>s'. socket_run example_env (ReaderGets 5 (Inl IoError) (AuthLost LossRevoked) # example_browser [WsBinary [0x6d]] @ [BridgePasses example_pass])
      \<lparr>so_bridge = (example_bridge [])\<lparr>br_input := [CmdBytes [0x6c]]\<rparr>, so_auth = Some example_auth\<rparr> = Some s'"
  by (simp add: example_eval reader_end_def)

theorem lost_authentication_is_told_witness:
  "\<exists>s' :: socket. writer_task 5 (br_out (so_bridge s'))
       = [SentText (Hello WEB_PROTOCOL_VERSION ''1'' None MVP_CAPS (Some (format_unix_ms_iso8601 0))), SentText (AttachInfo AttachRw True), SentClose (Some ''access revoked'')]
     \<and> suffix (typed_in (br_input (so_bridge s'))) [0x6c]"
proof -
  from example_revoked_run(1) obtain s where s: "so_auth s = Some example_auth"
    "socket_run example_env (example_browser [WsBinary [0x6c]]) \<lparr>so_bridge = example_bridge [], so_auth = Some example_auth\<rparr> = Some s" by auto
  from example_revoked_run(2) s(2) have step: "reader_step example_env 5 (Inl IoError) (AuthLost LossRevoked) example_auth (so_bridge s)
      = Stopped (Some LossRevoked) ((example_bridge [])\<lparr>br_input := [CmdBytes [0x6c]]\<rparr>)" by simp
  then have b: "so_bridge s = (example_bridge [])\<lparr>br_input := [CmdBytes [0x6c]]\<rparr>" by (simp add: reader_step_def)
  with s(1) have s_eq: "s = \<lparr>so_bridge = (example_bridge [])\<lparr>br_input := [CmdBytes [0x6c]]\<rparr>, so_auth = Some example_auth\<rparr>" by (cases s) simp
  from example_late_run obtain s' where r: "socket_run example_env
      (ReaderGets 5 (Inl IoError) (AuthLost LossRevoked) # example_browser [WsBinary [0x6d]] @ [BridgePasses example_pass]) s = Some s'"
    unfolding s_eq by blast
  have "br_writer_left ((example_bridge [])\<lparr>br_input := [CmdBytes [0x6c]]\<rparr>) = None"
    "length (br_out ((example_bridge [])\<lparr>br_input := [CmdBytes [0x6c]]\<rparr>)) < 5" by (simp_all add: example_bridge_def)
  from lost_authentication_is_told [OF example_bridge_start s(2,1) step this(1) r this(2)] show ?thesis
    by (intro exI [of _ s']) (simp add: example_bridge_def b)
qed

text \<open>What the wait for a resize overlooks. The lead was taken by another client while two resizes of the browser wait in the
  channel: the notice of it is read and dropped, so that the bridge still takes itself for the leader and the browser is
  told nothing; the first resize is refused; and the second is answered with success though the daemon refused it too,
  by the status that belongs to the first.\<close>

definition example_refusals :: bytes where
  "example_refusals = [2, 0, 0, 0, 1, 3, 2, 0, 0, 0, 1, 4, 2, 0, 0, 0, 1, 2, 2, 0, 0, 0, 1, 4, 2, 0, 0, 0, 1, 2]"

lemma refused_resize_is_confirmed:
  "map_option (\<lambda>s. (drop 2 (br_out (so_bridge s)), hr_leader (br_response (so_bridge s))))
    (socket_run example_env (example_browser [WsText (Some (FrameResize 7 80 24)), WsText (Some (FrameResize 8 90 30))] @ [BridgePasses example_pass])
      \<lparr>so_bridge = example_bridge example_refusals, so_auth = Some example_auth\<rparr>)
   = Some ([OutControl (ResizeResult 7 False (Some (ErrorInfo ''mode.not-leader'' ''not the leader''))), OutControl (ResizeResult 8 True None)], True)"
  by (simp add: example_eval example_refusals_def)

text \<open>A wait whose timeout expires inside a frame goes on with the loop, and the rest of that frame is read as the beginning of
  the next: the last byte of its length becomes the first of another length.\<close>

lemma timed_out_wait_loses_framing:
  "map_option (\<lambda>s. (drop 2 (br_out (so_bridge s)), br_alive (so_bridge s), fst (cc_reader (br_conn (so_bridge s)))))
    (socket_run example_env (example_browser [WsText (Some (FrameResize 7 80 24))] @ [BridgePasses (example_pass\<lparr>ba_windows := [([], [3])]\<rparr>)])
      \<lparr>so_bridge = example_bridge [2, 0, 0, 0, 1, 2, 2, 0, 0, 0, 0, 0x61], so_auth = Some example_auth\<rparr>)
   = Some ([OutControl (ResizeResult 7 False (Some (error_internal ''await resize completion'')))], True, [0, 1, 2, 2, 0, 0, 0, 0, 0x61])"
  by (simp add: example_eval left_after_failure_def read_failed_def parse_frame_def frame_read_error_def)

end
