(* ===== verification/Notation.thy ===== *)
theory Notation
  imports Prelude
begin

text \<open>
  The notations of the command line (\<open>hyoui/src/cli.rs\<close> and \<open>hyoui/src/input_bytes.rs\<close>):
  durations, byte counts, sizes, hexadecimal strings, tags, session ids, input specifications,
  key names and the suggestion for a misspelt name.

  A text is its list of Unicode scalar values, so that the \<open>char\<close> of the source is a number;
  \<open>cp\<close> turns a literal into a text. A position in a text is the part that is left from there.
  An error is the kind of the message the source formats.
\<close>

unbundle bit_operations_syntax

section \<open>Texts\<close>

type_synonym utext = "nat list"

definition cp :: "string \<Rightarrow> utext" where
  "cp s = map of_char s"

definition to_digit :: "nat \<Rightarrow> nat option" where
  "to_digit c = (if 48 \<le> c \<and> c \<le> 57 then Some (c - 48) else None)"

definition is_ascii_alphabetic :: "nat \<Rightarrow> bool" where
  "is_ascii_alphabetic c \<longleftrightarrow> (65 \<le> c \<and> c \<le> 90) \<or> (97 \<le> c \<and> c \<le> 122)"

definition to_ascii_lowercase :: "nat \<Rightarrow> nat" where
  "to_ascii_lowercase c = (if 65 \<le> c \<and> c \<le> 90 then c + 32 else c)"

definition lowercase :: "utext \<Rightarrow> utext" where
  "lowercase t = map to_ascii_lowercase t"

text \<open>The Unicode property White\_Space, which \<open>str::trim\<close> uses.\<close>

definition is_whitespace :: "nat \<Rightarrow> bool" where
  "is_whitespace c \<longleftrightarrow> (9 \<le> c \<and> c \<le> 13) \<or> c = 32 \<or> c = 133 \<or> c = 160 \<or> c = 5760
     \<or> (8192 \<le> c \<and> c \<le> 8202) \<or> c = 8232 \<or> c = 8233 \<or> c = 8239 \<or> c = 8287 \<or> c = 12288"

definition trim_text :: "utext \<Rightarrow> utext" where
  "trim_text t = rev (dropWhile is_whitespace (rev (dropWhile is_whitespace t)))"

definition I64_MAX :: int where "I64_MAX = 2 ^ 63 - 1"
definition U64_MAX :: int where "U64_MAX = 2 ^ 64 - 1"

text \<open>A checked operation on an \<open>i128\<close>, by its mathematical result.\<close>

definition checked_i128 :: "int \<Rightarrow> int option" where
  "checked_i128 x = (if - (2 ^ 127) \<le> x \<and> x < 2 ^ 127 then Some x else None)"

section \<open>Durations\<close>

datatype duration_error =
    EmptyDuration | LeadingSign | TrailingSign | DigitExpected | UnexpectedChar | BadUnderscore
  | DurationOverflow | NoSegments | MissingUnit | CalendarUnit | UnknownUnit | NegativeDuration

definition skip_spaces :: "utext \<Rightarrow> utext" where
  "skip_spaces = dropWhile (\<lambda>c. c = 32 \<or> c = 9)"

text \<open>The digits after the first one of the integer part; \<open>underscore\<close> is \<open>last_was_underscore\<close>.\<close>

fun int_digits :: "bool \<Rightarrow> int \<Rightarrow> utext \<Rightarrow> duration_error + int \<times> utext" where
  "int_digits underscore acc [] = (if underscore then Inl BadUnderscore else Inr (acc, []))"
| "int_digits underscore acc (c # cs) =
     (if c = 95 then if underscore then Inl BadUnderscore else int_digits True acc cs
      else case to_digit c of
        Some d \<Rightarrow> let v = acc * 10 + int d in
                  if v > I64_MAX then Inl DurationOverflow else int_digits False v cs
      | None \<Rightarrow> if underscore then Inl BadUnderscore else Inr (acc, c # cs))"

text \<open>The digits after the first one of the fraction, in billionths; digits after the ninth are
  dropped.\<close>

fun frac_digits :: "bool \<Rightarrow> nat \<Rightarrow> int \<Rightarrow> utext \<Rightarrow> duration_error + int \<times> utext" where
  "frac_digits underscore n acc [] = (if underscore then Inl BadUnderscore else Inr (acc, []))"
| "frac_digits underscore n acc (c # cs) =
     (if c = 95 then if underscore then Inl BadUnderscore else frac_digits True n acc cs
      else case to_digit c of
        Some d \<Rightarrow> if n < 9 then frac_digits False (n + 1) (acc + int d * 10 ^ (9 - (n + 1))) cs
                  else frac_digits False n acc cs
      | None \<Rightarrow> if underscore then Inl BadUnderscore else Inr (acc, c # cs))"

definition parse_fraction :: "utext \<Rightarrow> duration_error + int \<times> utext" where
  "parse_fraction cs =
     (case cs of
        c # cs' \<Rightarrow>
          if c = 46 then
            (case cs' of
               [] \<Rightarrow> Inl DigitExpected
             | d # ds \<Rightarrow> (case to_digit d of
                           None \<Rightarrow> Inl DigitExpected
                         | Some k \<Rightarrow> frac_digits False 1 (int k * 10 ^ 8) ds))
          else Inr (0, cs)
      | [] \<Rightarrow> Inr (0, []))"

definition parse_number :: "utext \<Rightarrow> duration_error + int \<times> int \<times> utext" where
  "parse_number cs =
     (case cs of
        [] \<Rightarrow> Inl DigitExpected
      | c # cs \<Rightarrow>
          (case to_digit c of
             None \<Rightarrow> Inl DigitExpected
           | Some d \<Rightarrow>
               (case int_digits False (int d) cs of
                  Inl e \<Rightarrow> Inl e
                | Inr (n, cs) \<Rightarrow>
                    (case parse_fraction cs of Inl e \<Rightarrow> Inl e | Inr (f, cs) \<Rightarrow> Inr (n, f, cs)))))"

definition SEC :: int where "SEC = 1000000000"

text \<open>The names of the units in lower case; 956 is the Greek letter mu.\<close>

definition unit_names :: "(utext \<times> int) list" where
  "unit_names =
     [(cp ''ns'', 1), (cp ''us'', 1000), (956 # cp ''s'', 1000),
      (cp ''ms'', 1000000), (cp ''millisecond'', 1000000), (cp ''milliseconds'', 1000000),
      (cp ''s'', SEC), (cp ''sec'', SEC), (cp ''second'', SEC), (cp ''seconds'', SEC),
      (cp ''m'', 60 * SEC), (cp ''min'', 60 * SEC), (cp ''minute'', 60 * SEC), (cp ''minutes'', 60 * SEC),
      (cp ''h'', 3600 * SEC), (cp ''hour'', 3600 * SEC), (cp ''hours'', 3600 * SEC),
      (cp ''d'', 86400 * SEC), (cp ''day'', 86400 * SEC), (cp ''days'', 86400 * SEC),
      (cp ''w'', 604800 * SEC), (cp ''week'', 604800 * SEC), (cp ''weeks'', 604800 * SEC)]"

definition calendar_units :: "utext list" where
  "calendar_units = [cp ''y'', cp ''year'', cp ''years'', cp ''month'', cp ''months'']"

definition unit_char :: "nat \<Rightarrow> bool" where
  "unit_char c \<longleftrightarrow> is_ascii_alphabetic c \<or> c = 956"

definition parse_unit :: "utext \<Rightarrow> duration_error + int \<times> utext" where
  "parse_unit cs =
     (if cs = [] then Inl MissingUnit
      else
        let word = lowercase (takeWhile unit_char cs); rest = dropWhile unit_char cs in
        if word = [] then Inr (0, cs)
        else case map_of unit_names word of
          Some ns \<Rightarrow> Inr (ns, rest)
        | None \<Rightarrow> Inl (if word \<in> set calendar_units then CalendarUnit else UnknownUnit))"

text \<open>The value of one component in nanoseconds.\<close>

definition component_ns :: "int \<Rightarrow> int \<Rightarrow> int \<Rightarrow> int option" where
  "component_ns n f ns =
     Option.bind (checked_i128 (n * ns)) (\<lambda>seg.
       if f > 0 then Option.bind (checked_i128 (f * ns)) (\<lambda>x. checked_i128 (seg + x div 1000000000))
       else Some seg)"

definition close_group :: "int \<Rightarrow> int \<Rightarrow> int \<Rightarrow> int option" where
  "close_group tot sign grp =
     Option.bind (checked_i128 (sign * grp)) (\<lambda>x. checked_i128 (tot + x))"

text \<open>A component: a number and its unit, with spaces between them.\<close>

definition parse_component :: "utext \<Rightarrow> duration_error + int \<times> utext" where
  "parse_component cs =
     (case parse_number cs of
        Inl e \<Rightarrow> Inl e
      | Inr (n, f, cs) \<Rightarrow>
          let cs = skip_spaces cs in
          (case parse_unit cs of
             Inl e \<Rightarrow> Inl e
           | Inr (ns, rest) \<Rightarrow>
               if rest = cs then Inl MissingUnit
               else case component_ns n f ns of
                      None \<Rightarrow> Inl DurationOverflow
                    | Some seg \<Rightarrow> Inr (seg, rest)))"

text \<open>The loop over the components: the closed groups, the sign and the sum of the open one.\<close>

definition finish_duration :: "int \<Rightarrow> int \<Rightarrow> int \<Rightarrow> bool \<Rightarrow> duration_error + int" where
  "finish_duration tot sign grp parsed =
     (if \<not> parsed then Inl NoSegments
      else case close_group tot sign grp of None \<Rightarrow> Inl DurationOverflow | Some v \<Rightarrow> Inr v)"

lemma int_digits_shrinks: "int_digits u a cs = Inr (v, rest) \<Longrightarrow> length rest \<le> length cs"
  by (induction u a cs rule: int_digits.induct) (force split: if_splits option.splits simp: Let_def)+

lemma frac_digits_shrinks: "frac_digits u n a cs = Inr (v, rest) \<Longrightarrow> length rest \<le> length cs"
  by (induction u n a cs rule: frac_digits.induct) (force split: if_splits option.splits)+

lemma parse_fraction_shrinks: "parse_fraction cs = Inr (v, rest) \<Longrightarrow> length rest \<le> length cs"
  by (auto simp: parse_fraction_def split: list.splits if_splits option.splits dest: frac_digits_shrinks)

lemma parse_number_shrinks: "parse_number cs = Inr (n, f, rest) \<Longrightarrow> length rest < length cs"
  by (fastforce simp: parse_number_def split: list.splits option.splits sum.splits prod.splits
      dest: int_digits_shrinks parse_fraction_shrinks)

lemma skip_spaces_shrinks: "length (skip_spaces cs) \<le> length cs"
  by (simp add: skip_spaces_def length_dropWhile_le)

lemma parse_unit_shrinks: "parse_unit cs = Inr (ns, rest) \<Longrightarrow> length rest \<le> length cs"
  by (auto simp: parse_unit_def Let_def length_dropWhile_le split: if_splits option.splits)

lemma parse_component_shrinks: "parse_component cs = Inr (seg, rest) \<Longrightarrow> length rest < length cs"
  by (force simp: parse_component_def Let_def split: sum.splits prod.splits if_splits option.splits
      dest!: parse_number_shrinks parse_unit_shrinks intro: le_less_trans [OF order_trans [OF _ skip_spaces_shrinks]])

function duration_loop :: "int \<Rightarrow> int \<Rightarrow> int \<Rightarrow> bool \<Rightarrow> utext \<Rightarrow> duration_error + int" where
  "duration_loop tot sign grp parsed cs =
     (let cs1 = skip_spaces cs in
      if cs1 = [] then finish_duration tot sign grp parsed
      else
        let signed = (hd cs1 = 43 \<or> hd cs1 = 45) in
        if signed \<and> \<not> parsed then Inl LeadingSign
        else case (if signed then close_group tot sign grp else Some tot) of
          None \<Rightarrow> Inl DurationOverflow
        | Some tot \<Rightarrow>
            let grp = (if signed then 0 else grp);
                sign = (if signed then if hd cs1 = 45 then - 1 else 1 else sign);
                cs2 = skip_spaces (if signed then tl cs1 else cs1) in
            if cs2 = [] then if signed then Inl TrailingSign else finish_duration tot sign grp parsed
            else if to_digit (hd cs2) = None then Inl (if signed then DigitExpected else UnexpectedChar)
            else case parse_component cs2 of
              Inl e \<Rightarrow> Inl e
            | Inr (seg, rest) \<Rightarrow>
                (case checked_i128 (grp + seg) of
                   None \<Rightarrow> Inl DurationOverflow
                 | Some grp \<Rightarrow> duration_loop tot sign grp True rest))"
  by pat_completeness auto
termination
proof (relation "measure (\<lambda>(tot, sign, grp, parsed, cs). length cs)", goal_cases)
  case (2 tot sign grp parsed cs cs1 signed tot' grp' sign' cs2 x seg rest grp'')
  have "length rest < length cs2"
    using 2(11) unfolding 2(12) [symmetric] by (rule parse_component_shrinks)
  also have "length cs2 \<le> length cs1"
    unfolding 2(8) by (rule order_trans [OF skip_spaces_shrinks]) simp
  also have "\<dots> \<le> length cs" unfolding 2(1) by (rule skip_spaces_shrinks)
  finally show ?case by simp
qed simp

declare duration_loop.simps [simp del]

definition parse_duration_ns_signed :: "utext \<Rightarrow> duration_error + int" where
  "parse_duration_ns_signed s =
     (let s = trim_text s in if s = [] then Inl EmptyDuration else duration_loop 0 1 0 False s)"

definition parse_duration_ms :: "utext \<Rightarrow> duration_error + int" where
  "parse_duration_ms s =
     (case parse_duration_ns_signed s of
        Inl e \<Rightarrow> Inl e
      | Inr ns \<Rightarrow>
          if ns < 0 then Inl NegativeDuration
          else let ms = ns div 1000000 in if ms > U64_MAX then Inl DurationOverflow else Inr ms)"

section \<open>Numbers and sizes\<close>

text \<open>The digits of a number in decimal, with the overflow checked at each digit.\<close>

fun digits_value :: "int \<Rightarrow> int \<Rightarrow> utext \<Rightarrow> int option" where
  "digits_value limit acc [] = Some acc"
| "digits_value limit acc (c # cs) =
     (case to_digit c of
        None \<Rightarrow> None
      | Some d \<Rightarrow> let v = acc * 10 + int d in if v > limit then None else digits_value limit v cs)"

text \<open>\<open>str::parse\<close> of an unsigned integer; a plus sign is accepted before the digits.\<close>

definition parse_unsigned :: "int \<Rightarrow> utext \<Rightarrow> int option" where
  "parse_unsigned limit t =
     (let ds = (case t of c # cs \<Rightarrow> if c = 43 then cs else t | [] \<Rightarrow> t) in
      if ds = [] then None else digits_value limit 0 ds)"

definition I32_MAX :: int where "I32_MAX = 2 ^ 31 - 1"

definition parse_int :: "utext \<Rightarrow> int option" where
  "parse_int t = (if t = [] then None else digits_value I32_MAX 0 t)"

definition parse_size :: "utext \<Rightarrow> (int \<times> int) option" where
  "parse_size t =
     (let no_x = (\<lambda>c. c \<noteq> 120 \<and> c \<noteq> 88); cols = takeWhile no_x t in
      case dropWhile no_x t of
        [] \<Rightarrow> None
      | _ # rows \<Rightarrow>
          if cols = [] \<or> rows = [] then None
          else case (parse_int cols, parse_int rows) of (Some c, Some r) \<Rightarrow> Some (c, r) | _ \<Rightarrow> None)"

definition strip_prefix :: "utext \<Rightarrow> utext \<Rightarrow> utext option" where
  "strip_prefix p t = (if take (length p) t = p then Some (drop (length p) t) else None)"

definition strip_suffix :: "utext \<Rightarrow> utext \<Rightarrow> utext option" where
  "strip_suffix p t = map_option rev (strip_prefix (rev p) (rev t))"

text \<open>The units of a byte count in the order of the tests.\<close>

definition byte_units :: "(utext \<times> int) list" where
  "byte_units = [(cp ''gib'', 1024 * 1024 * 1024), (cp ''mib'', 1024 * 1024), (cp ''kib'', 1024), (cp ''gb'', 1024 * 1024 * 1024),
     (cp ''mb'', 1024 * 1024), (cp ''kb'', 1024), (cp ''g'', 1024 * 1024 * 1024), (cp ''m'', 1024 * 1024), (cp ''k'', 1024), (cp ''b'', 1)]"

fun split_unit :: "(utext \<times> int) list \<Rightarrow> utext \<Rightarrow> utext \<times> int" where
  "split_unit [] t = (t, 1)"
| "split_unit ((u, mult) # us) t = (case strip_suffix u t of Some num \<Rightarrow> (num, mult) | None \<Rightarrow> split_unit us t)"

datatype max_bytes_error = MbEmpty | MbInvalid | MbOverflow

definition parse_max_bytes :: "utext \<Rightarrow> max_bytes_error + int" where
  "parse_max_bytes t =
     (if trim_text t = [] then Inl MbEmpty
      else case split_unit byte_units (lowercase (trim_text t)) of
        (num, mult) \<Rightarrow>
          (case parse_unsigned U64_MAX (trim_text num) of
             None \<Rightarrow> Inl MbInvalid
           | Some n \<Rightarrow> if n * mult > U64_MAX then Inl MbOverflow else Inr (n * mult)))"

section \<open>Options, tags, session ids\<close>

definition split_once :: "nat \<Rightarrow> utext \<Rightarrow> (utext \<times> utext) option" where
  "split_once c t = (case dropWhile (\<lambda>x. x \<noteq> c) t of [] \<Rightarrow> None | _ # v \<Rightarrow> Some (takeWhile (\<lambda>x. x \<noteq> c) t, v))"

definition split_eq :: "utext \<Rightarrow> utext \<times> utext option" where
  "split_eq t = (case split_once 61 t of Some (k, v) \<Rightarrow> (k, Some v) | None \<Rightarrow> (t, None))"

definition is_removed_flag :: "utext \<Rightarrow> bool" where
  "is_removed_flag t \<longleftrightarrow> strip_prefix (cp ''--namespace='') t \<noteq> None \<or> t = cp ''--all-namespaces''
     \<or> strip_prefix (cp ''--all-namespaces='') t \<noteq> None"

fun strip_removed_namespace_options :: "utext list \<Rightarrow> utext list \<times> bool" where
  "strip_removed_namespace_options [] = ([], False)"
| "strip_removed_namespace_options (x # xs) =
     (if x = cp ''--'' then (x # xs, False)
      else if x = cp ''--namespace'' then (case xs of [] \<Rightarrow> ([], True) | _ # ys \<Rightarrow> (fst (strip_removed_namespace_options ys), True))
      else if is_removed_flag x then (fst (strip_removed_namespace_options xs), True)
      else let (out, stripped) = strip_removed_namespace_options xs in (x # out, stripped))"

text \<open>The UTF-8 bytes of a text.\<close>

definition utf8_char :: "nat \<Rightarrow> bytes" where
  "utf8_char c =
     map of_nat
       (if c < 128 then [c]
        else if c < 2048 then [192 + c div 64, 128 + c mod 64]
        else if c < 65536 then [224 + c div 4096, 128 + c div 64 mod 64, 128 + c mod 64]
        else [240 + c div 262144, 128 + c div 4096 mod 64, 128 + c div 64 mod 64, 128 + c mod 64])"

definition as_bytes :: "utext \<Rightarrow> bytes" where
  "as_bytes t = concat (map utf8_char t)"

datatype tag_error = TagEmpty | TagTooLong | TagBadChar | TagReserved

definition MAX_TAG_KEY_LEN :: nat where "MAX_TAG_KEY_LEN = 256"

definition tag_key_char :: "nat \<Rightarrow> bool" where
  "tag_key_char c \<longleftrightarrow> is_ascii_alphabetic c \<or> to_digit c \<noteq> None \<or> c = 46 \<or> c = 95 \<or> c = 45"

definition validate_tag_key :: "utext \<Rightarrow> tag_error option" where
  "validate_tag_key k =
     (if k = [] then Some TagEmpty
      else if length (as_bytes k) > MAX_TAG_KEY_LEN then Some TagTooLong
      else if \<exists>c \<in> set k. \<not> tag_key_char c then Some TagBadChar
      else None)"

definition validate_settable_tag_key :: "utext \<Rightarrow> tag_error option" where
  "validate_settable_tag_key k =
     (case validate_tag_key k of
        Some e \<Rightarrow> Some e
      | None \<Rightarrow> if strip_prefix (cp ''hyoui.'') k \<noteq> None then Some TagReserved else None)"

definition parse_tag_arg :: "utext \<Rightarrow> tag_error + utext \<times> utext option" where
  "parse_tag_arg t =
     (let (key, val) = split_eq t in case validate_tag_key key of Some e \<Rightarrow> Inl e | None \<Rightarrow> Inr (key, val))"

datatype session_id_error = SidEmpty | SidUppercase | SidHyphens | SidForm

definition SESSION_ID_LEN :: nat where "SESSION_ID_LEN = 36"

definition hex_lower :: "byte \<Rightarrow> bool" where
  "hex_lower b \<longleftrightarrow> (48 \<le> b \<and> b \<le> 57) \<or> (97 \<le> b \<and> b \<le> 102)"

definition canonical_session_id :: "bytes \<Rightarrow> bool" where
  "canonical_session_id bs \<longleftrightarrow> length bs = SESSION_ID_LEN
     \<and> (\<forall>i < length bs. if i \<in> {8, 13, 18, 23} then bs ! i = 45 else hex_lower (bs ! i))"

definition validate_session_id :: "utext \<Rightarrow> session_id_error option" where
  "validate_session_id t =
     (let bs = as_bytes t in
      if t = [] then Some SidEmpty
      else if canonical_session_id bs then None
      else if (\<exists>b \<in> set bs. 65 \<le> b \<and> b \<le> 90) \<and> canonical_session_id (as_bytes (lowercase t)) then Some SidUppercase
      else if length bs = 32 \<and> (\<forall>b \<in> set bs. hex_lower b \<or> (65 \<le> b \<and> b \<le> 70)) then Some SidHyphens
      else Some SidForm)"

section \<open>Suggestions\<close>

text \<open>The two implementations of the Levenshtein distance in the source are the same code on lower-case bytes. \<open>row_tail\<close> fills
  \<open>curr\<close> from its second entry on, with \<open>left\<close> the entry before.\<close>

definition USIZE_MAX :: nat where "USIZE_MAX = 2 ^ 64 - 1"

fun row_tail :: "nat \<Rightarrow> byte \<Rightarrow> nat list \<Rightarrow> bytes \<Rightarrow> nat list" where
  "row_tail left x (p # q # ps) (y # ys) =
     (let v = min (min (q + 1) (left + 1)) (p + (if x = y then 0 else 1)) in v # row_tail v x (q # ps) ys)"
| "row_tail left x _ _ = []"

fun distance_rows :: "nat \<Rightarrow> nat list \<Rightarrow> bytes \<Rightarrow> bytes \<Rightarrow> nat list" where
  "distance_rows i prev [] b = prev"
| "distance_rows i prev (x # xs) b = distance_rows (i + 1) (i # row_tail i x prev b) xs b"

definition levenshtein :: "bytes \<Rightarrow> bytes \<Rightarrow> nat" where
  "levenshtein a b =
     (let m = length a; n = length b in
      if m > n + 2 \<or> n > m + 2 then USIZE_MAX
      else if m = 0 then n
      else if n = 0 then m
      else distance_rows 1 [0..<n + 1] a b ! n)"

fun closest :: "bytes \<Rightarrow> (utext \<times> nat) option \<Rightarrow> utext list \<Rightarrow> (utext \<times> nat) option" where
  "closest input best [] = best"
| "closest input best (cand # cands) =
     (let d = levenshtein input (as_bytes (lowercase cand)) in
      closest input
        (if d = 0 \<or> d > 1 then best
         else case best of None \<Rightarrow> Some (cand, d) | Some (_, b) \<Rightarrow> if d < b then Some (cand, d) else best) cands)"

definition suggest_closest :: "utext \<Rightarrow> utext list \<Rightarrow> utext option" where
  "suggest_closest input cands = map_option fst (closest (as_bytes (lowercase input)) None cands)"

section \<open>Input specifications\<close>

datatype hex_error = HexEmpty | HexOdd | HexBadChar nat

definition hex_nibble :: "byte \<Rightarrow> byte option" where
  "hex_nibble b =
     (if 48 \<le> b \<and> b \<le> 57 then Some (b - 48)
      else if 97 \<le> b \<and> b \<le> 102 then Some (b - 97 + 10)
      else if 65 \<le> b \<and> b \<le> 70 then Some (b - 65 + 10)
      else None)"

fun hex_pairs :: "nat \<Rightarrow> bytes \<Rightarrow> hex_error + bytes" where
  "hex_pairs i (a # b # bs) =
     (case hex_nibble a of
        None \<Rightarrow> Inl (HexBadChar i)
      | Some hi \<Rightarrow>
          (case hex_nibble b of
             None \<Rightarrow> Inl (HexBadChar (i + 1))
           | Some lo \<Rightarrow> map_sum id (\<lambda>out. (push_bit 4 hi OR lo) # out) (hex_pairs (i + 2) bs)))"
| "hex_pairs i _ = Inr []"

definition parse_hex_value :: "utext \<Rightarrow> hex_error + bytes" where
  "parse_hex_value t =
     (let bs = as_bytes t in
      if t = [] then Inl HexEmpty else if length bs mod 2 \<noteq> 0 then Inl HexOdd else hex_pairs 0 bs)"

datatype input_spec =
    SpecText utext | SpecHex bytes | SpecFile utext | SpecPaste utext | SpecKey utext | SpecWait utext | SpecWaitIdle int

datatype spec_error =
    SpecNoPrefix | SpecBadHex hex_error | SpecNoKey | SpecNoPattern | SpecBadDuration duration_error | SpecUnknown "utext option"

definition INPUT_SPEC_PREFIXES :: "utext list" where
  "INPUT_SPEC_PREFIXES = map cp [''text'', ''hex'', ''file'', ''paste'', ''key'', ''wait'', ''wait-idle'']"

definition parse_input_spec :: "utext \<Rightarrow> spec_error + input_spec" where
  "parse_input_spec t =
     (case split_once 58 t of
        None \<Rightarrow> Inl SpecNoPrefix
      | Some (p, v) \<Rightarrow>
          if p = cp ''text'' then Inr (SpecText v)
          else if p = cp ''hex'' then map_sum SpecBadHex SpecHex (parse_hex_value v)
          else if p = cp ''file'' then Inr (SpecFile v)
          else if p = cp ''paste'' then Inr (SpecPaste v)
          else if p = cp ''key'' then if v = [] then Inl SpecNoKey else Inr (SpecKey v)
          else if p = cp ''wait'' then if v = [] then Inl SpecNoPattern else Inr (SpecWait v)
          else if p = cp ''wait-idle'' then map_sum SpecBadDuration SpecWaitIdle (parse_duration_ms v)
          else Inl (SpecUnknown (suggest_closest p INPUT_SPEC_PREFIXES)))"

section \<open>Keys and pastes\<close>

definition BRACKETED_PASTE_START :: bytes where "BRACKETED_PASTE_START = [0x1b, 0x5b, 0x32, 0x30, 0x30, 0x7e]"
definition BRACKETED_PASTE_END :: bytes where "BRACKETED_PASTE_END = [0x1b, 0x5b, 0x32, 0x30, 0x31, 0x7e]"

fun occurs :: "bytes \<Rightarrow> bytes \<Rightarrow> bool" where
  "occurs w [] \<longleftrightarrow> w = []"
| "occurs w (b # bs) \<longleftrightarrow> take (length w) (b # bs) = w \<or> occurs w bs"

definition handle_paste :: "utext \<Rightarrow> bytes option" where
  "handle_paste t =
     (if occurs BRACKETED_PASTE_END (as_bytes t) then None
      else Some (BRACKETED_PASTE_START @ as_bytes t @ BRACKETED_PASTE_END))"

text \<open>The first of some prefixes that the text has in lower case, and what follows it in the text as it is.\<close>

fun after_any :: "string list \<Rightarrow> utext \<Rightarrow> utext option" where
  "after_any [] t = None"
| "after_any (p # ps) t = (if strip_prefix (cp p) (lowercase t) \<noteq> None then Some (drop (length p) t) else after_any ps t)"

text \<open>The Unicode modifiers: 8963 is the control sign, 8997 and 9095 the option and alternative key.\<close>

definition skip_separator :: "utext \<Rightarrow> utext" where
  "skip_separator t = (case t of c # cs \<Rightarrow> if c = 45 \<or> c = 43 then cs else t | [] \<Rightarrow> t)"

definition normalize_modifier_prefix :: "utext \<Rightarrow> utext" where
  "normalize_modifier_prefix t =
     (case after_any [''ctrl-'', ''ctrl+'', ''c-'', ''c+''] t of
        Some r \<Rightarrow> cp ''C-'' @ r
      | None \<Rightarrow>
          if t \<noteq> [] \<and> hd t = 94 then cp ''C-'' @ tl t
          else if t \<noteq> [] \<and> hd t = 8963 then cp ''C-'' @ skip_separator (tl t)
          else if t \<noteq> [] \<and> (hd t = 8997 \<or> hd t = 9095) then cp ''M-'' @ skip_separator (tl t)
          else case after_any [''alt-'', ''alt+'', ''meta-'', ''meta+'', ''m-'', ''m+''] t of
            Some r \<Rightarrow> cp ''M-'' @ r
          | None \<Rightarrow> t)"

definition has_multi_modifier :: "utext \<Rightarrow> bool" where
  "has_multi_modifier t =
     (case (case strip_prefix (cp ''C-'') t of Some r \<Rightarrow> Some r | None \<Rightarrow> strip_prefix (cp ''M-'') t) of
        None \<Rightarrow> False
      | Some r \<Rightarrow> after_any [''c-'', ''m-'', ''s-'', ''shift-'', ''ctrl-'', ''alt-'', ''meta-'', ''super-'', ''cmd-''] r \<noteq> None)"

definition ctrl_byte :: "utext \<Rightarrow> byte option" where
  "ctrl_byte t =
     (case t of
        [c] \<Rightarrow>
          if 97 \<le> c \<and> c \<le> 122 then Some (of_nat c - 97 + 1)
          else if 65 \<le> c \<and> c \<le> 90 then Some (of_nat c - 65 + 1)
          else map_of [(64, 0), (91, 0x1b), (92, 0x1c), (93, 0x1d), (94, 0x1e), (95, 0x1f), (63, 0x7f), (32, 0)] c
      | _ \<Rightarrow> None)"

text \<open>The arms of the match, by their texts; a number stands for a name of that one character.\<close>

definition named_keys :: "(utext list \<times> string) list" where
  "named_keys =
     [([cp ''enter'', cp ''return'', cp ''ret'', [8617], [9166]], [CHR 0x0D]),
      ([cp ''tab'', [8677]], [CHR 0x09]),
      ([cp ''esc'', cp ''escape'', [9099]], [CHR 0x1B]),
      ([cp ''backspace'', cp ''bs'', [9003]], [CHR 0x7F]),
      ([cp ''delete'', cp ''del'', [8998]], CHR 0x1B # ''[3~''),
      ([cp ''space'', cp ''sp'', [9251]], '' ''),
      ([cp ''up'', [8593]], CHR 0x1B # ''[A''),
      ([cp ''down'', [8595]], CHR 0x1B # ''[B''),
      ([cp ''right'', [8594]], CHR 0x1B # ''[C''),
      ([cp ''left'', [8592]], CHR 0x1B # ''[D''),
      ([cp ''home'', [10514]], CHR 0x1B # ''[H''),
      ([cp ''end'', [10515]], CHR 0x1B # ''[F''),
      ([cp ''pageup'', cp ''pgup'', cp ''page-up'', [8670]], CHR 0x1B # ''[5~''),
      ([cp ''pagedown'', cp ''pgdn'', cp ''page-down'', [8671]], CHR 0x1B # ''[6~''),
      ([cp ''f1''], CHR 0x1B # ''OP''), ([cp ''f2''], CHR 0x1B # ''OQ''),
      ([cp ''f3''], CHR 0x1B # ''OR''), ([cp ''f4''], CHR 0x1B # ''OS''),
      ([cp ''f5''], CHR 0x1B # ''[15~''), ([cp ''f6''], CHR 0x1B # ''[17~''), ([cp ''f7''], CHR 0x1B # ''[18~''),
      ([cp ''f8''], CHR 0x1B # ''[19~''), ([cp ''f9''], CHR 0x1B # ''[20~''), ([cp ''f10''], CHR 0x1B # ''[21~''),
      ([cp ''f11''], CHR 0x1B # ''[23~''), ([cp ''f12''], CHR 0x1B # ''[24~'')]"

fun find_key :: "(utext list \<times> string) list \<Rightarrow> utext \<Rightarrow> bytes option" where
  "find_key [] t = None"
| "find_key ((names, seq) # ks) t = (if t \<in> set names then Some (map of_char seq) else find_key ks t)"

definition named_key_bytes :: "utext \<Rightarrow> bytes option" where
  "named_key_bytes t = find_key named_keys (lowercase t)"

definition KEY_NAME_CANDIDATES :: "utext list" where
  "KEY_NAME_CANDIDATES = map cp
     [''Enter'', ''Return'', ''Tab'', ''Esc'', ''Escape'', ''Backspace'', ''Delete'', ''Space'', ''Up'', ''Down'', ''Left'', ''Right'',
      ''Home'', ''End'', ''PageUp'', ''PageDown'', ''F1'', ''F2'', ''F3'', ''F4'', ''F5'', ''F6'', ''F7'', ''F8'', ''F9'', ''F10'', ''F11'', ''F12'']"

datatype key_error = KeyEmpty | KeyMulti | KeyCtrl | KeyMetaEmpty | KeyMetaLong | KeyMetaNonAscii | KeyUnknown "utext option"

definition handle_key :: "utext \<Rightarrow> key_error + bytes" where
  "handle_key name =
     (if name = [] then Inl KeyEmpty
      else
        let t = normalize_modifier_prefix name in
        if has_multi_modifier t then Inl KeyMulti
        else case strip_prefix (cp ''C-'') t of
          Some r \<Rightarrow> (case ctrl_byte r of None \<Rightarrow> Inl KeyCtrl | Some b \<Rightarrow> Inr [b])
        | None \<Rightarrow>
            (case strip_prefix (cp ''M-'') t of
               Some [] \<Rightarrow> Inl KeyMetaEmpty
             | Some [c] \<Rightarrow> if c < 128 then Inr [0x1b, of_nat c] else Inl KeyMetaNonAscii
             | Some _ \<Rightarrow> Inl KeyMetaLong
             | None \<Rightarrow>
                 (case named_key_bytes t of
                    Some bs \<Rightarrow> Inr bs
                  | None \<Rightarrow> Inl (KeyUnknown (suggest_closest name KEY_NAME_CANDIDATES)))))"

section \<open>Suggestions name the one candidate that is one edit away\<close>

text \<open>The reference: one edit inserts, deletes or replaces one character.\<close>

definition edit_step :: "'a list \<Rightarrow> 'a list \<Rightarrow> bool" where
  "edit_step xs ys \<longleftrightarrow> (\<exists>us vs. (\<exists>y. xs = us @ vs \<and> ys = us @ y # vs) \<or> (\<exists>x. xs = us @ x # vs \<and> ys = us @ vs)
     \<or> (\<exists>x y. x \<noteq> y \<and> xs = us @ x # vs \<and> ys = us @ y # vs))"

text \<open>The distance by recursion.\<close>

fun edit_distance :: "'a list \<Rightarrow> 'a list \<Rightarrow> nat" where
  "edit_distance [] ys = length ys"
| "edit_distance (x # xs) [] = length (x # xs)"
| "edit_distance (x # xs) (y # ys) =
     min (min (edit_distance xs (y # ys) + 1) (edit_distance (x # xs) ys + 1)) (edit_distance xs ys + (if x = y then 0 else 1))"

lemma edit_distance_refl [simp]: "edit_distance xs xs = 0"
  by (induction xs) auto

lemma edit_distance_Nil2 [simp]: "edit_distance xs [] = length xs"
  by (cases xs) auto

lemma edit_distance_cons: "edit_distance xs (y # ys) \<le> edit_distance xs ys + 1" "edit_distance (x # xs) ys \<le> edit_distance xs ys + 1"
  by (cases xs; simp) (cases ys; simp)

lemma edit_distance_uncons: "edit_distance xs ys \<le> edit_distance xs (y # ys) + 1"
proof (induction xs)
  case (Cons x xs)
  have "edit_distance (x # xs) ys \<le> edit_distance xs ys + 1" by (rule edit_distance_cons)
  with Cons show ?case by (auto simp: min_def)
qed simp

lemma edit_distance_prefix:
  assumes "\<And>xs. edit_distance xs zs \<le> edit_distance xs ys + 1" "length zs \<le> length ys + 1"
  shows "edit_distance xs (u # zs) \<le> edit_distance xs (u # ys) + 1"
proof (induction xs)
  case (Cons x xs)
  have "edit_distance (x # xs) zs \<le> edit_distance (x # xs) ys + 1" "edit_distance xs zs \<le> edit_distance xs ys + 1" by (rule assms)+
  with Cons show ?case by (auto simp: min_def)
qed (use assms(2) in simp)

lemma edit_distance_replace: "edit_distance xs (z # vs) \<le> edit_distance xs (y # vs) + 1"
proof (induction xs)
  case (Cons x xs)
  have "edit_distance (x # xs) (z # vs) \<le> edit_distance (x # xs) vs + 1" by (rule edit_distance_cons)
  with Cons show ?case by (auto simp: min_def)
qed simp

lemma edit_distance_context:
  assumes "\<And>xs. edit_distance xs zs \<le> edit_distance xs ys + 1" "length zs \<le> length ys + 1"
  shows "edit_distance xs (us @ zs) \<le> edit_distance xs (us @ ys) + 1"
proof (induction us arbitrary: xs)
  case (Cons u us)
  show ?case using edit_distance_prefix [of "us @ zs" "us @ ys" xs u] Cons assms(2) by simp
qed (use assms(1) in simp)

lemma edit_distance_step: "edit_step ys zs \<Longrightarrow> edit_distance xs zs \<le> edit_distance xs ys + 1"
  unfolding edit_step_def
proof (elim exE disjE conjE)
  fix us vs y assume e: "ys = us @ vs" "zs = us @ y # vs"
  show ?thesis unfolding e by (rule edit_distance_context [OF edit_distance_cons(1)]) simp
next
  fix us vs x assume e: "ys = us @ x # vs" "zs = us @ vs"
  show ?thesis unfolding e by (rule edit_distance_context [OF edit_distance_uncons]) simp
next
  fix us vs x y assume e: "ys = us @ x # vs" "zs = us @ y # vs"
  show ?thesis unfolding e by (rule edit_distance_context [OF edit_distance_replace]) simp
qed

lemma edit_distance_steps: "(edit_step ^^ n) xs ys \<Longrightarrow> edit_distance xs ys \<le> n"
proof (induction n arbitrary: ys)
  case (Suc n)
  then obtain zs where "(edit_step ^^ n) xs zs" "edit_step zs ys" by auto
  with Suc.IH [of zs] edit_distance_step [of zs ys xs] show ?case by simp
qed simp

lemma edit_step_intros:
  "edit_step ys (y # ys)" "edit_step (x # xs) xs" "x \<noteq> y \<Longrightarrow> edit_step (x # xs) (y # xs)" "edit_step xs ys \<Longrightarrow> edit_step (u # xs) (u # ys)"
  subgoal unfolding edit_step_def by (rule exI [of _ "[]"]) auto
  subgoal unfolding edit_step_def by (rule exI [of _ "[]"]) auto
  subgoal unfolding edit_step_def by (rule exI [of _ "[]"]) auto
  subgoal unfolding edit_step_def by (elim exE, rule_tac x = "u # us" in exI) auto
  done

lemma edit_steps_cons: "(edit_step ^^ n) xs ys \<Longrightarrow> (edit_step ^^ n) (u # xs) (u # ys)"
proof (induction n arbitrary: ys)
  case (Suc n)
  then obtain zs where "(edit_step ^^ n) xs zs" "edit_step zs ys" by auto
  with Suc.IH [of zs] edit_step_intros(4) [of zs ys u] show ?case by auto
qed simp

lemma edit_steps_first: "edit_step xs zs \<Longrightarrow> (edit_step ^^ n) zs ys \<Longrightarrow> (edit_step ^^ (n + 1)) xs ys"
  using relpowp_Suc_I2 [of edit_step xs zs n ys] by simp

lemma edit_steps_erase: "(edit_step ^^ length xs) xs []"
proof (induction xs)
  case (Cons x xs)
  show ?case using edit_steps_first [OF edit_step_intros(2) Cons, of x] by simp
qed simp

lemma edit_distance_reached: "(edit_step ^^ edit_distance xs ys) xs ys"
proof (induction xs ys rule: edit_distance.induct)
  case (1 ys)
  then show ?case
  proof (induction ys)
    case (Cons y ys)
    then show ?case using edit_step_intros(1) [of ys y] by (auto intro: relpowp_Suc_I)
  qed simp
next
  case (2 x xs)
  show ?case using edit_steps_erase [of "x # xs"] by simp
next
  case (3 x xs y ys)
  let ?a = "edit_distance xs (y # ys)" and ?b = "edit_distance (x # xs) ys" and ?c = "edit_distance xs ys"
  have a: "(edit_step ^^ (?a + 1)) (x # xs) (y # ys)" by (rule edit_steps_first [OF edit_step_intros(2) 3(1)])
  have b: "(edit_step ^^ (?b + 1)) (x # xs) (y # ys)" using 3(2) edit_step_intros(1) [of ys y] by auto
  have c: "(edit_step ^^ (?c + (if x = y then 0 else 1))) (x # xs) (y # ys)"
  proof (cases "x = y")
    case True
    then show ?thesis using edit_steps_cons [OF 3(3)] by simp
  next
    case False
    with edit_steps_first [OF edit_step_intros(3) edit_steps_cons [OF 3(3)]] show ?thesis by simp
  qed
  from a b c show ?case by (simp only: edit_distance.simps min_def) (auto split: if_splits)
qed

lemma edit_step_rev: "edit_step xs ys \<Longrightarrow> edit_step (rev xs) (rev ys)"
  unfolding edit_step_def
proof (elim exE disjE conjE)
  fix us vs y assume "xs = us @ vs" "ys = us @ y # vs"
  then show "\<exists>us vs. (\<exists>y. rev xs = us @ vs \<and> rev ys = us @ y # vs) \<or> (\<exists>x. rev xs = us @ x # vs \<and> rev ys = us @ vs)
     \<or> (\<exists>x y. x \<noteq> y \<and> rev xs = us @ x # vs \<and> rev ys = us @ y # vs)" by (intro exI [of _ "rev vs"] exI [of _ "rev us"]) simp
next
  fix us vs x assume "xs = us @ x # vs" "ys = us @ vs"
  then show "\<exists>us vs. (\<exists>y. rev xs = us @ vs \<and> rev ys = us @ y # vs) \<or> (\<exists>x. rev xs = us @ x # vs \<and> rev ys = us @ vs)
     \<or> (\<exists>x y. x \<noteq> y \<and> rev xs = us @ x # vs \<and> rev ys = us @ y # vs)" by (intro exI [of _ "rev vs"] exI [of _ "rev us"]) simp
next
  fix us vs x y assume "x \<noteq> y" "xs = us @ x # vs" "ys = us @ y # vs"
  then show "\<exists>us vs. (\<exists>y. rev xs = us @ vs \<and> rev ys = us @ y # vs) \<or> (\<exists>x. rev xs = us @ x # vs \<and> rev ys = us @ vs)
     \<or> (\<exists>x y. x \<noteq> y \<and> rev xs = us @ x # vs \<and> rev ys = us @ y # vs)" by (intro exI [of _ "rev vs"] exI [of _ "rev us"]) simp
qed

lemma edit_steps_rev: "(edit_step ^^ n) xs ys \<Longrightarrow> (edit_step ^^ n) (rev xs) (rev ys)"
proof (induction n arbitrary: ys)
  case (Suc n)
  then obtain zs where "(edit_step ^^ n) xs zs" "edit_step zs ys" by auto
  with Suc.IH [of zs] edit_step_rev show ?case by auto
qed simp

lemma edit_distance_rev [simp]: "edit_distance (rev xs) (rev ys) = edit_distance xs ys"
proof (rule antisym)
  show "edit_distance (rev xs) (rev ys) \<le> edit_distance xs ys"
    by (intro edit_distance_steps edit_steps_rev edit_distance_reached)
  show "edit_distance xs ys \<le> edit_distance (rev xs) (rev ys)"
    using edit_steps_rev [OF edit_distance_reached [of "rev xs" "rev ys"]] by (intro edit_distance_steps) simp
qed

lemma edit_distance_length: "length xs \<le> length ys + edit_distance xs ys" "length ys \<le> length xs + edit_distance xs ys"
  by (induction xs ys rule: edit_distance.induct) (auto simp: min_def)

text \<open>The rows that the program computes.\<close>

definition distance_row :: "bytes \<Rightarrow> bytes \<Rightarrow> bytes \<Rightarrow> nat list" where
  "distance_row as rb ys = map (\<lambda>j. edit_distance as (rev (take j ys) @ rb)) [0..<length ys + 1]"

lemma distance_row_simps: "distance_row as rb [] = [edit_distance as rb]"
  "distance_row as rb (y # ys) = edit_distance as rb # distance_row as (y # rb) ys"
  by (simp_all add: distance_row_def upt_conv_Cons map_Suc_upt [symmetric] del: upt_Suc map_Suc_upt)

lemma distance_row_Cons: "\<exists>ps. distance_row as rb ys = edit_distance as rb # ps"
  by (cases ys) (simp_all add: distance_row_simps)

lemma row_tail_row: "row_tail (edit_distance (x # as) rb) x (distance_row as rb ys) ys = tl (distance_row (x # as) rb ys)"
proof (induction ys arbitrary: rb)
  case (Cons y ys)
  obtain ps qs where "distance_row as (y # rb) ys = edit_distance as (y # rb) # ps"
    "distance_row (x # as) (y # rb) ys = edit_distance (x # as) (y # rb) # qs" using distance_row_Cons by meson
  with Cons [of "y # rb"] show ?case by (simp add: distance_row_simps Let_def)
qed (simp add: distance_row_simps)

lemma distance_rows_row: "distance_rows (length as + 1) (distance_row as [] b) xs b = distance_row (rev xs @ as) [] b"
proof (induction xs arbitrary: as)
  case (Cons x xs)
  have "(length as + 1) # row_tail (length as + 1) x (distance_row as [] b) b = distance_row (x # as) [] b"
    using row_tail_row [of x as "[]" b] distance_row_Cons [of "x # as" "[]" b] by auto
  with Cons [of "x # as"] show ?case by simp
qed simp

lemma distance_row_last: "distance_row as [] b ! length b = edit_distance as (rev b)"
  by (simp add: distance_row_def del: upt_Suc)

lemma levenshtein_distance:
  assumes "length a \<le> length b + 2" "length b \<le> length a + 2"
  shows "levenshtein a b = edit_distance a b"
proof (cases "a = [] \<or> b = []")
  case True
  with assms show ?thesis by (auto simp: levenshtein_def)
next
  case False
  have "distance_row [] [] b = [0..<length b + 1]" by (rule nth_equalityI) (simp_all add: distance_row_def del: upt_Suc)
  with distance_rows_row [of "[]" b a] have "distance_rows 1 [0..<length b + 1] a b = distance_row (rev a) [] b" by simp
  with False assms show ?thesis by (simp add: levenshtein_def Let_def distance_row_last del: upt_Suc)
qed

lemma levenshtein_far: "levenshtein a b \<le> 1 \<longleftrightarrow> edit_distance a b \<le> 1" "levenshtein a b = 0 \<longleftrightarrow> a = b"
proof -
  have zero: "edit_distance a b = 0 \<longleftrightarrow> a = b" using edit_distance_reached [of a b] by auto
  have "(levenshtein a b \<le> 1 \<longleftrightarrow> edit_distance a b \<le> 1) \<and> (levenshtein a b = 0 \<longleftrightarrow> a = b)"
  proof (cases "length a \<le> length b + 2 \<and> length b \<le> length a + 2")
    case True
    then have "levenshtein a b = edit_distance a b" by (simp add: levenshtein_distance)
    then show ?thesis using zero by simp
  next
    case False
    then have "levenshtein a b = USIZE_MAX" "a \<noteq> b" "\<not> edit_distance a b \<le> 1"
      using edit_distance_length(1) [of a b] edit_distance_length(2) [of b a] by (auto simp: levenshtein_def Let_def)
    then show ?thesis by (simp add: USIZE_MAX_def)
  qed
  then show "levenshtein a b \<le> 1 \<longleftrightarrow> edit_distance a b \<le> 1" "levenshtein a b = 0 \<longleftrightarrow> a = b" by (rule conjunct1, rule conjunct2)
qed

lemma levenshtein_one: "levenshtein a b \<noteq> 0 \<and> levenshtein a b \<le> 1 \<longleftrightarrow> edit_step a b"
proof -
  have ne: "a \<noteq> b" if "edit_step a b" using that unfolding edit_step_def by (auto dest: arg_cong [of _ _ length])
  have "edit_distance a b \<le> 1" if "edit_step a b" using edit_distance_step [OF that, of a] by simp
  moreover have "edit_step a b" if "edit_distance a b \<le> 1" "a \<noteq> b"
    using that edit_distance_reached [of a b] by (cases "edit_distance a b") auto
  ultimately show ?thesis unfolding levenshtein_far using ne by blast
qed

lemma closest_first: "map_option fst (closest input best cands) = (case best of Some (c, _) \<Rightarrow> Some c
    | None \<Rightarrow> List.find (\<lambda>c. edit_step input (as_bytes (lowercase c))) cands)"
  if "\<forall>c d. best = Some (c, d) \<longrightarrow> d = 1"
  using that
proof (induction cands arbitrary: best)
  case (Cons cand cands)
  let ?d = "levenshtein input (as_bytes (lowercase cand))"
  show ?case
  proof (cases "edit_step input (as_bytes (lowercase cand))")
    case True
    then have d: "?d = 1" using levenshtein_one [of input "as_bytes (lowercase cand)"] by linarith
    with Cons.IH [of best] Cons.IH [of "Some (cand, 1)"] Cons.prems show ?thesis by (cases best) (auto simp: True)
  next
    case False
    then have "?d = 0 \<or> ?d > 1" using levenshtein_one [of input "as_bytes (lowercase cand)"] by linarith
    with Cons False show ?thesis by (auto simp: Let_def split: option.splits)
  qed
qed (auto split: option.splits)

text \<open>C32. The suggestion for a misspelt name is the first candidate that one edit of a byte (an insertion, a removal, a replacement) leads to
  from the text, both in lower case, and there is none exactly when no candidate is one edit away; where their lengths
  differ by at most two the distance that the rolling rows compute is the least number of edits.\<close>

theorem suggestion_is_one_edit_away:
  "suggest_closest input cands = List.find (\<lambda>c. edit_step (as_bytes (lowercase input)) (as_bytes (lowercase c))) cands
   \<and> (length a \<le> length b + 2 \<and> length b \<le> length a + 2 \<longrightarrow> levenshtein a b = (LEAST n. (edit_step ^^ n) a b))"
proof (intro conjI impI)
  show "suggest_closest input cands = List.find (\<lambda>c. edit_step (as_bytes (lowercase input)) (as_bytes (lowercase c))) cands"
    by (simp add: suggest_closest_def closest_first)
  assume "length a \<le> length b + 2 \<and> length b \<le> length a + 2"
  then have "levenshtein a b = edit_distance a b" by (simp add: levenshtein_distance)
  also have "\<dots> = (LEAST n. (edit_step ^^ n) a b)"
    by (rule Least_equality [symmetric]) (simp_all add: edit_distance_reached edit_distance_steps)
  finally show "levenshtein a b = (LEAST n. (edit_step ^^ n) a b)" .
qed

theorem suggestion_is_one_edit_away_witness:
  "suggest_closest (cp ''wiat'') INPUT_SPEC_PREFIXES = List.find (\<lambda>c. edit_step (as_bytes (lowercase (cp ''wiat''))) (as_bytes (lowercase c))) INPUT_SPEC_PREFIXES
   \<and> levenshtein [0x6b] [0x6b, 0x65] = 1 \<and> (LEAST n. (edit_step ^^ n) [0x6b :: byte] [0x6b, 0x65]) = 1"
proof -
  have "levenshtein [0x6b] [0x6b, 0x65] = 1" by (simp add: levenshtein_def upt_rec)
  with suggestion_is_one_edit_away [of "cp ''wiat''" INPUT_SPEC_PREFIXES "[0x6b]" "[0x6b, 0x65]"] show ?thesis by simp
qed

section \<open>A paste ends where it should\<close>

lemma occurs_iff: "occurs w bs \<longleftrightarrow> (\<exists>us vs. bs = us @ w @ vs)"
proof (induction bs)
  case (Cons b bs)
  have "(\<exists>us vs. b # bs = us @ w @ vs) \<longleftrightarrow> (\<exists>vs. b # bs = w @ vs) \<or> (\<exists>us vs. bs = us @ w @ vs)"
    by (metis append_Cons append_Nil list.inject list.exhaust)
  moreover have "(\<exists>vs. b # bs = w @ vs) \<longleftrightarrow> take (length w) (b # bs) = w" by (metis append_eq_conv_conj append_take_drop_id)
  ultimately show ?case using Cons by simp
qed auto

lemma paste_end_overlap:
  assumes "rest @ BRACKETED_PASTE_END = BRACKETED_PASTE_END @ vs" "rest \<noteq> []"
  shows "length rest \<ge> length BRACKETED_PASTE_END"
proof (rule ccontr)
  assume "\<not> length BRACKETED_PASTE_END \<le> length rest"
  then have short: "length rest < length BRACKETED_PASTE_END" by simp
  with assms(1) have "BRACKETED_PASTE_END ! length rest = BRACKETED_PASTE_END ! 0"
    by (metis add_0_right nth_append nth_append_length_plus)
  moreover have "length rest \<noteq> 0" "length rest < 6" using short assms(2) by (simp_all add: BRACKETED_PASTE_END_def)
  then have "length rest = 1 \<or> length rest = 2 \<or> length rest = 3 \<or> length rest = 4 \<or> length rest = 5" by arith
  ultimately show False by (auto simp: BRACKETED_PASTE_END_def)
qed

lemma paste_start_passed:
  assumes "BRACKETED_PASTE_START @ bs @ BRACKETED_PASTE_END = us @ BRACKETED_PASTE_END @ vs"
  obtains us' where "us = BRACKETED_PASTE_START @ us'" "bs @ BRACKETED_PASTE_END = us' @ BRACKETED_PASTE_END @ vs"
proof -
  have len: "length BRACKETED_PASTE_START = 6" "length BRACKETED_PASTE_END = 6" by (simp_all add: BRACKETED_PASTE_START_def BRACKETED_PASTE_END_def)
  have six: "length us \<ge> 6"
  proof (rule ccontr)
    assume "\<not> 6 \<le> length us"
    then have "length us = 0 \<or> length us = 1 \<or> length us = 2 \<or> length us = 3 \<or> length us = 4 \<or> length us = 5" by arith
    moreover have "(BRACKETED_PASTE_START @ bs @ BRACKETED_PASTE_END) ! (length us + k) = BRACKETED_PASTE_END ! k" if "k < 6" for k
      unfolding assms using that len by (simp add: nth_append)
    from this [of 0] this [of 4] have "(BRACKETED_PASTE_START @ bs @ BRACKETED_PASTE_END) ! length us = 0x1b"
      "(BRACKETED_PASTE_START @ bs @ BRACKETED_PASTE_END) ! (length us + 4) = 0x31" by (simp_all add: BRACKETED_PASTE_END_def)
    ultimately show False by (auto simp: BRACKETED_PASTE_START_def)
  qed
  then have "BRACKETED_PASTE_START = take 6 us" using arg_cong [OF assms, of "take 6"] len by simp
  then have "us = BRACKETED_PASTE_START @ drop 6 us" by (metis append_take_drop_id)
  moreover have "bs @ BRACKETED_PASTE_END = drop 6 us @ BRACKETED_PASTE_END @ vs" using arg_cong [OF assms, of "drop 6"] six len by simp
  ultimately show thesis by (rule that)
qed

lemma paste_end_last:
  assumes "bs @ BRACKETED_PASTE_END = us @ BRACKETED_PASTE_END @ vs" "\<not> occurs BRACKETED_PASTE_END bs"
  shows "vs = []"
proof (rule ccontr)
  assume "vs \<noteq> []"
  then have "length us < length bs" using arg_cong [OF assms(1), of length] by simp
  define rest where "rest = drop (length us) bs"
  have rest: "bs = us @ rest" "rest @ BRACKETED_PASTE_END = BRACKETED_PASTE_END @ vs" "rest \<noteq> []"
    using arg_cong [OF assms(1), of "take (length us)"] arg_cong [OF assms(1), of "drop (length us)"] \<open>length us < length bs\<close>
      append_take_drop_id [of "length us" bs] by (simp_all add: rest_def)
  have "take (length BRACKETED_PASTE_END) rest = take (length BRACKETED_PASTE_END) (rest @ BRACKETED_PASTE_END)"
    using paste_end_overlap [OF rest(2,3)] by simp
  also have "\<dots> = BRACKETED_PASTE_END" unfolding rest(2) by simp
  finally obtain r where "rest = BRACKETED_PASTE_END @ r" by (metis append_take_drop_id)
  with rest(1) assms(2) show False by (auto simp: occurs_iff)
qed

text \<open>C33. A pasted text cannot end its paste: a text with the end marker is refused, and in what is sent for any other text the end
  marker stands at the end and nowhere else, however the text continues the start marker or runs into the end marker.\<close>

theorem paste_ends_once:
  "(handle_paste t = None \<longleftrightarrow> (\<exists>us vs. as_bytes t = us @ BRACKETED_PASTE_END @ vs))
   \<and> (\<forall>out us vs. handle_paste t = Some out \<and> out = us @ BRACKETED_PASTE_END @ vs
        \<longrightarrow> vs = [] \<and> us = BRACKETED_PASTE_START @ as_bytes t)"
proof (intro conjI allI impI; (elim conjE)?)
  show "handle_paste t = None \<longleftrightarrow> (\<exists>us vs. as_bytes t = us @ BRACKETED_PASTE_END @ vs)"
    by (simp add: handle_paste_def occurs_iff)
next
  fix out us vs
  assume p: "handle_paste t = Some out" and out: "out = us @ BRACKETED_PASTE_END @ vs"
  then have "BRACKETED_PASTE_START @ as_bytes t @ BRACKETED_PASTE_END = us @ BRACKETED_PASTE_END @ vs"
    and no: "\<not> occurs BRACKETED_PASTE_END (as_bytes t)" by (auto simp: handle_paste_def split: if_splits)
  then obtain us' where us: "us = BRACKETED_PASTE_START @ us'" "as_bytes t @ BRACKETED_PASTE_END = us' @ BRACKETED_PASTE_END @ vs"
    by (metis paste_start_passed)
  from paste_end_last [OF us(2) no] show "vs = []" .
  with us show "us = BRACKETED_PASTE_START @ as_bytes t" by simp
qed

theorem paste_ends_once_witness:
  "{us. \<exists>vs. BRACKETED_PASTE_START @ [0x61, 0x1b, 0x5b, 0x32] @ BRACKETED_PASTE_END = us @ BRACKETED_PASTE_END @ vs}
     = {BRACKETED_PASTE_START @ [0x61, 0x1b, 0x5b, 0x32]}"
proof -
  let ?t = "[97, 27, 91, 50] :: utext"
  have bytes: "as_bytes ?t = [0x61, 0x1b, 0x5b, 0x32]" by (simp add: as_bytes_def utf8_char_def)
  have "handle_paste ?t = Some (BRACKETED_PASTE_START @ [0x61, 0x1b, 0x5b, 0x32] @ BRACKETED_PASTE_END)"
    unfolding handle_paste_def bytes by (simp add: BRACKETED_PASTE_END_def)
  with paste_ends_once [of ?t] bytes show ?thesis by (auto 0 3)
qed

section \<open>A duration means the sum of its components\<close>

text \<open>A component is a number, the digits of its fraction and a unit; a duration is a group of components and further groups, each with
  its sign (\<open>True\<close> for minus).\<close>

type_synonym duration_part = "nat \<times> nat list \<times> utext"

definition part_text :: "duration_part \<Rightarrow> utext" where
  "part_text p = (case p of (n, fs, u) \<Rightarrow> cp (decimal n) @ (if fs = [] then [] else 46 # map (\<lambda>d. 48 + d) fs) @ u)"

definition duration_text :: "duration_part list \<Rightarrow> (bool \<times> duration_part list) list \<Rightarrow> utext" where
  "duration_text ps gs = concat (map part_text ps) @ concat (map (\<lambda>(neg, qs). (if neg then 45 else 43) # concat (map part_text qs)) gs)"

definition part_ok :: "duration_part \<Rightarrow> bool" where
  "part_ok p \<longleftrightarrow> (case p of (n, fs, u) \<Rightarrow> int n \<le> I64_MAX \<and> (\<forall>d \<in> set fs. d < 10) \<and> length fs \<le> 9 \<and> u \<in> set (map fst unit_names))"

fun frac_value :: "nat \<Rightarrow> nat list \<Rightarrow> int" where
  "frac_value k [] = 0"
| "frac_value k (d # ds) = int d * 10 ^ (9 - k) + frac_value (k + 1) ds"

text \<open>The value of a component in nanoseconds, of a group and of a duration.\<close>

definition part_value :: "duration_part \<Rightarrow> int" where
  "part_value p = (case p of (n, fs, u) \<Rightarrow>
     int n * the (map_of unit_names u) + frac_value 1 fs * the (map_of unit_names u) div 1000000000)"

definition parts_value :: "duration_part list \<Rightarrow> int" where
  "parts_value ps = sum_list (map part_value ps)"

definition groups_value :: "(bool \<times> duration_part list) list \<Rightarrow> int" where
  "groups_value gs = sum_list (map (\<lambda>(neg, ps). (if neg then - 1 else 1) * parts_value ps) gs)"

subsection \<open>Numbers\<close>

fun nat_digits :: "nat \<Rightarrow> nat list" where
  "nat_digits n = (if n < 10 then [n] else nat_digits (n div 10) @ [n mod 10])"

declare nat_digits.simps [simp del]

lemma decimal_digits: "cp (decimal n) = map (\<lambda>d. 48 + d) (nat_digits n)"
proof (induction n rule: nat_digits.induct)
  case (1 n)
  have digit: "of_char (''0123456789'' ! d) = 48 + d" if "d < 10" for d :: nat
  proof -
    from that have "d \<in> {0, 1, 2, 3, 4, 5, 6, 7, 8, 9}" by auto
    then show ?thesis by (elim insertE; simp)
  qed
  show ?case
  proof (cases "n < 10")
    case True
    then show ?thesis by (subst decimal.simps, subst nat_digits.simps) (simp add: cp_def digit)
  next
    case False
    with 1 show ?thesis by (subst decimal.simps, subst nat_digits.simps) (simp add: cp_def digit)
  qed
qed

lemma nat_digits_value: "foldl (\<lambda>a d. a * 10 + int d) 0 (nat_digits n) = int n"
proof (induction n rule: nat_digits.induct)
  case (1 n)
  have "int (n div 10) * 10 + int (n mod 10) = int n" by (simp add: zdiv_int zmod_int)
  with 1 show ?case by (subst nat_digits.simps) simp
qed

lemma nat_digits_ok: "nat_digits n \<noteq> [] \<and> (\<forall>d \<in> set (nat_digits n). d < 10)"
proof (induction n rule: nat_digits.induct)
  case (1 n)
  then show ?case by (subst (1 2) nat_digits.simps) auto
qed

lemma to_digit_digit [simp]: "d < 10 \<Longrightarrow> to_digit (48 + d) = Some d"
  by (simp add: to_digit_def)

definition no_digit :: "utext \<Rightarrow> bool" where
  "no_digit cs \<longleftrightarrow> cs = [] \<or> (hd cs \<noteq> 95 \<and> to_digit (hd cs) = None)"

lemma foldl_digits_mono: "0 \<le> acc \<Longrightarrow> acc \<le> foldl (\<lambda>a d. a * 10 + int d) acc ds"
proof (induction ds arbitrary: acc)
  case (Cons d ds)
  have "acc \<le> acc * 10 + int d" using Cons.prems by simp
  also have "\<dots> \<le> foldl (\<lambda>a d. a * 10 + int d) (acc * 10 + int d) ds" using Cons.prems by (intro Cons.IH) simp
  finally show ?case by simp
qed simp

lemma int_digits_run:
  assumes "\<forall>d \<in> set ds. d < 10" "0 \<le> acc" "foldl (\<lambda>a d. a * 10 + int d) acc ds \<le> I64_MAX" "no_digit rest"
  shows "int_digits False acc (map (\<lambda>d. 48 + d) ds @ rest) = Inr (foldl (\<lambda>a d. a * 10 + int d) acc ds, rest)"
  using assms
proof (induction ds arbitrary: acc)
  case Nil
  then show ?case by (cases rest) (auto simp: no_digit_def)
next
  case (Cons d ds)
  have "acc * 10 + int d \<le> foldl (\<lambda>a d. a * 10 + int d) (acc * 10 + int d) ds" using Cons.prems by (intro foldl_digits_mono) simp
  with Cons show ?case by (simp add: Let_def)
qed

lemma frac_digits_run:
  assumes "\<forall>d \<in> set ds. d < 10" "n + length ds \<le> 9" "no_digit rest"
  shows "frac_digits False n acc (map (\<lambda>d. 48 + d) ds @ rest) = Inr (acc + frac_value (n + 1) ds, rest)"
  using assms
proof (induction ds arbitrary: n acc)
  case Nil
  then show ?case by (cases rest) (auto simp: no_digit_def)
qed simp

lemma frac_value_bounds: "\<forall>d \<in> set ds. d < 10 \<Longrightarrow> k + length ds \<le> 10 \<Longrightarrow> 1 \<le> k \<Longrightarrow> 0 \<le> frac_value k ds \<and> frac_value k ds < 10 ^ (10 - k)"
proof (induction ds arbitrary: k)
  case (Cons d ds)
  have e: "10 - (k + 1) = 9 - k" "10 - k = Suc (9 - k)" using Cons.prems by auto
  have "0 \<le> frac_value (k + 1) ds \<and> frac_value (k + 1) ds < 10 ^ (9 - k)"
    using Cons.IH [of "k + 1"] Cons.prems unfolding e(1) by auto
  moreover have "int d \<le> 9" using Cons.prems by auto
  then have "int d * 10 ^ (9 - k) \<le> 9 * 10 ^ (9 - k)" by (intro mult_right_mono) simp_all
  moreover have "(10::int) ^ (10 - k) = 10 * 10 ^ (9 - k)" unfolding e(2) by simp
  moreover have "0 \<le> int d * 10 ^ (9 - k)" by simp
  ultimately show ?case unfolding frac_value.simps by linarith
qed simp

subsection \<open>Components\<close>

lemma unit_names_ok: "u \<in> set (map fst unit_names) \<Longrightarrow> u \<noteq> [] \<and> (\<forall>c \<in> set u. unit_char c) \<and> lowercase u = u"
  by (auto simp: unit_names_def cp_def unit_char_def is_ascii_alphabetic_def lowercase_def to_ascii_lowercase_def)

lemma unit_value_bounds: "u \<in> set (map fst unit_names) \<Longrightarrow> \<exists>ns. map_of unit_names u = Some ns \<and> 0 < ns \<and> ns \<le> 604800 * SEC"
  by (auto simp: unit_names_def cp_def SEC_def)

lemma unit_char_kind: "unit_char c \<Longrightarrow> c \<noteq> 32 \<and> c \<noteq> 9 \<and> c \<noteq> 46 \<and> c \<noteq> 95 \<and> to_digit c = None \<and> \<not> is_whitespace c"
  by (auto simp: unit_char_def is_ascii_alphabetic_def to_digit_def is_whitespace_def)

definition no_unit :: "utext \<Rightarrow> bool" where
  "no_unit cs \<longleftrightarrow> cs = [] \<or> \<not> unit_char (hd cs)"

lemma parse_unit_name:
  assumes "u \<in> set (map fst unit_names)" "no_unit rest"
  shows "parse_unit (u @ rest) = Inr (the (map_of unit_names u), rest)"
proof -
  note u = unit_names_ok [OF assms(1)]
  have "takeWhile unit_char (u @ rest) = u" "dropWhile unit_char (u @ rest) = rest"
    using u assms(2) by (cases rest; auto simp: no_unit_def takeWhile_append dropWhile_append)+
  with u unit_value_bounds [OF assms(1)] show ?thesis by (auto simp: parse_unit_def Let_def)
qed

lemma part_ok_cases:
  assumes "part_ok p"
  obtains n fs u where "p = (n, fs, u)" "int n \<le> I64_MAX" "\<forall>d \<in> set fs. d < 10" "length fs \<le> 9" "u \<in> set (map fst unit_names)"
  using assms by (cases p) (auto simp: part_ok_def)

lemma parse_number_part:
  assumes "int n \<le> I64_MAX" "\<forall>d \<in> set fs. d < 10" "length fs \<le> 9" "u \<in> set (map fst unit_names)"
  shows "parse_number (part_text (n, fs, u) @ rest) = Inr (int n, frac_value 1 fs, u @ rest)"
proof -
  obtain d ds where ds: "nat_digits n = d # ds" using nat_digits_ok by (metis list.exhaust)
  have ok: "d < 10" "\<forall>d \<in> set ds. d < 10" using nat_digits_ok [of n] ds by auto
  have val: "foldl (\<lambda>a d. a * 10 + int d) (int d) ds = int n" using nat_digits_value [of n] ds by simp
  obtain c u' where u: "u = c # u'" "unit_char c" using unit_names_ok [OF assms(4)] by (cases u) auto
  note c = unit_char_kind [OF u(2)]
  define tail where "tail = (if fs = [] then [] else 46 # map (\<lambda>d. 48 + d) fs) @ u @ rest"
  have nd: "no_digit tail" using u c by (auto simp: tail_def no_digit_def to_digit_def)
  have int: "int_digits False (int d) (map (\<lambda>d. 48 + d) ds @ tail) = Inr (int n, tail)"
    using int_digits_run [of ds "int d" tail] ok(2) val nd assms(1) by simp
  have frac: "parse_fraction tail = Inr (frac_value 1 fs, u @ rest)"
  proof (cases fs)
    case Nil
    with u c show ?thesis by (simp add: tail_def parse_fraction_def)
  next
    case (Cons f fs')
    have "no_digit (u @ rest)" using u c by (simp add: no_digit_def)
    with frac_digits_run [of fs' 1 "u @ rest" "int f * 10 ^ 8"] Cons assms(2,3) show ?thesis
      by (simp add: tail_def parse_fraction_def numeral_2_eq_2)
  qed
  have "part_text (n, fs, u) @ rest = (48 + d) # map (\<lambda>d. 48 + d) ds @ tail" by (simp add: part_text_def decimal_digits ds tail_def)
  with int frac ok(1) show ?thesis by (simp add: parse_number_def)
qed

lemma checked_i128_ok: "\<bar>x\<bar> < 2 ^ 127 \<Longrightarrow> checked_i128 x = Some x"
proof -
  assume "\<bar>x\<bar> < 2 ^ 127"
  then have "- (2 ^ 127) \<le> x \<and> x < 2 ^ 127" unfolding abs_less_iff by linarith
  then show ?thesis unfolding checked_i128_def by (rule if_P)
qed

lemma component_ns_value:
  assumes "0 \<le> n" "n \<le> I64_MAX" "0 \<le> f" "f < 1000000000" "0 < ns" "ns \<le> 604800 * SEC"
  shows "component_ns n f ns = Some (n * ns + f * ns div 1000000000)"
proof -
  have n: "n * ns \<le> I64_MAX * (604800 * SEC)" "0 \<le> n * ns" using assms by (auto intro: mult_mono)
  have f: "f * ns \<le> 1000000000 * (604800 * SEC)" "0 \<le> f * ns" using mult_mono [of f 1000000000 ns "604800 * SEC"] assms by simp_all
  then have q: "0 \<le> f * ns div 1000000000" "f * ns div 1000000000 \<le> 604800 * SEC"
    using zdiv_mono1 [OF f(1), of 1000000000] by (simp_all add: pos_imp_zdiv_nonneg_iff)
  have big: "I64_MAX * (604800 * SEC) + 604800 * SEC < 2 ^ 127" "1000000000 * (604800 * SEC) < (2::int) ^ 127" "0 \<le> SEC"
    by (simp_all add: I64_MAX_def SEC_def)
  have "\<bar>n * ns\<bar> < 2 ^ 127" "\<bar>f * ns\<bar> < 2 ^ 127" "\<bar>n * ns + f * ns div 1000000000\<bar> < 2 ^ 127"
    using n f q big unfolding abs_less_iff by linarith+
  note c = this [THEN checked_i128_ok]
  show ?thesis
  proof (cases "f > 0")
    case True
    with c show ?thesis by (simp add: component_ns_def)
  next
    case False
    with assms(3) c show ?thesis by (simp add: component_ns_def)
  qed
qed

lemma parse_component_part:
  assumes "part_ok p" "no_unit rest"
  shows "parse_component (part_text p @ rest) = Inr (part_value p, rest)"
proof -
  from assms(1) obtain n fs u where p: "p = (n, fs, u)" "int n \<le> I64_MAX" "\<forall>d \<in> set fs. d < 10" "length fs \<le> 9"
    "u \<in> set (map fst unit_names)" by (rule part_ok_cases)
  obtain c u' where u: "u = c # u'" "unit_char c" using unit_names_ok [OF p(5)] by (cases u) auto
  have sp: "skip_spaces (u @ rest) = u @ rest" using u unit_char_kind [OF u(2)] by (simp add: skip_spaces_def)
  from unit_value_bounds [OF p(5)] obtain ns where ns: "map_of unit_names u = Some ns" "0 < ns" "ns \<le> 604800 * SEC" by auto
  have f: "0 \<le> frac_value 1 fs" "frac_value 1 fs < 1000000000" using frac_value_bounds [of fs 1] p by simp_all
  have "component_ns (int n) (frac_value 1 fs) ns = Some (part_value p)"
    using component_ns_value [of "int n" "frac_value 1 fs" ns] p f ns by (simp add: part_value_def)
  moreover have "rest \<noteq> u @ rest" using u by simp
  ultimately show ?thesis
    unfolding parse_component_def p(1) parse_number_part [OF p(2-5)]
    using parse_unit_name [OF p(5) assms(2)] sp ns p(1) by (simp add: Let_def)
qed

lemma part_text_head: "part_ok p \<Longrightarrow> \<exists>d cs. part_text p = (48 + d) # cs \<and> d < 10"
proof -
  assume "part_ok p"
  then obtain n fs u where p: "p = (n, fs, u)" by (rule part_ok_cases)
  obtain d ds where "nat_digits n = d # ds" "d < 10" using nat_digits_ok [of n] by (cases "nat_digits n") auto
  with p show ?thesis by (simp add: part_text_def decimal_digits)
qed

lemma digit_kind: "d < 10 \<Longrightarrow> 48 + d \<noteq> 32 \<and> 48 + d \<noteq> 9 \<and> 48 + d \<noteq> 43 \<and> 48 + d \<noteq> 45 \<and> \<not> unit_char (48 + d) \<and> \<not> is_whitespace (48 + d)"
  by (auto simp: unit_char_def is_ascii_alphabetic_def is_whitespace_def)

lemma part_value_nonneg: "part_ok p \<Longrightarrow> 0 \<le> part_value p"
proof -
  assume "part_ok p"
  then obtain n fs u where p: "p = (n, fs, u)" "int n \<le> I64_MAX" "\<forall>d \<in> set fs. d < 10" "length fs \<le> 9" "u \<in> set (map fst unit_names)"
    by (rule part_ok_cases)
  from unit_value_bounds [OF p(5)] frac_value_bounds [of fs 1] p show ?thesis
    by (auto simp: part_value_def pos_imp_zdiv_nonneg_iff intro!: add_nonneg_nonneg mult_nonneg_nonneg)
qed

subsection \<open>Groups\<close>

text \<open>One component in the loop, then a group of them.\<close>

lemma duration_loop_part:
  assumes "part_ok p" "no_unit rest" "0 \<le> grp" "grp + part_value p < 2 ^ 127"
  shows "duration_loop tot sign grp parsed (part_text p @ rest) = duration_loop tot sign (grp + part_value p) True rest"
proof -
  from part_text_head [OF assms(1)] obtain d cs where h: "part_text p = (48 + d) # cs" "d < 10" by blast
  note k = digit_kind [OF h(2)]
  have sp: "skip_spaces (part_text p @ rest) = part_text p @ rest" using h k by (simp add: skip_spaces_def)
  have "checked_i128 (grp + part_value p) = Some (grp + part_value p)"
    using assms(3,4) part_value_nonneg [OF assms(1)] by (intro checked_i128_ok) (simp add: abs_less_iff)
  then show ?thesis
    unfolding duration_loop.simps [of tot sign grp parsed "part_text p @ rest"] sp
    using parse_component_part [OF assms(1,2)] h k by (simp add: Let_def sp [unfolded h(1), simplified])
qed

definition group_end :: "utext \<Rightarrow> bool" where
  "group_end cs \<longleftrightarrow> cs = [] \<or> hd cs = 43 \<or> hd cs = 45"

lemma no_unit_next: "group_end rest \<Longrightarrow> \<forall>p \<in> set ps. part_ok p \<Longrightarrow> no_unit (concat (map part_text ps) @ rest)"
proof (cases ps)
  case Nil
  moreover assume "group_end rest"
  ultimately show ?thesis by (auto simp: group_end_def no_unit_def unit_char_def is_ascii_alphabetic_def)
next
  case (Cons p qs)
  moreover assume "\<forall>p \<in> set ps. part_ok p"
  ultimately have "part_ok p" by simp
  then obtain d cs where "part_text p = (48 + d) # cs" "d < 10" using part_text_head by blast
  with digit_kind Cons show ?thesis by (simp add: no_unit_def)
qed

lemma parts_value_nonneg: "\<forall>p \<in> set ps. part_ok p \<Longrightarrow> 0 \<le> parts_value ps"
  by (auto simp: parts_value_def intro!: sum_list_nonneg part_value_nonneg)

lemma duration_loop_parts:
  assumes "\<forall>p \<in> set ps. part_ok p" "group_end rest" "0 \<le> grp" "grp + parts_value ps < 2 ^ 127"
  shows "duration_loop tot sign grp parsed (concat (map part_text ps) @ rest)
    = duration_loop tot sign (grp + parts_value ps) (parsed \<or> ps \<noteq> []) rest"
  using assms
proof (induction ps arbitrary: grp parsed)
  case Nil
  then show ?case by (simp add: parts_value_def)
next
  case (Cons p ps)
  have pv: "parts_value (p # ps) = part_value p + parts_value ps" by (simp add: parts_value_def)
  have nn: "0 \<le> part_value p" "0 \<le> parts_value ps" using Cons.prems part_value_nonneg parts_value_nonneg by auto
  have "duration_loop tot sign grp parsed (part_text p @ concat (map part_text ps) @ rest)
      = duration_loop tot sign (grp + part_value p) True (concat (map part_text ps) @ rest)"
    using Cons.prems pv nn no_unit_next [of rest ps] by (intro duration_loop_part) auto
  also have "\<dots> = duration_loop tot sign (grp + part_value p + parts_value ps) True rest"
    using Cons.IH [of "grp + part_value p" True] Cons.prems pv nn by simp
  finally show ?case by (simp add: pv add.assoc)
qed

lemma duration_loop_sign:
  assumes "\<forall>p \<in> set ps. part_ok p" "ps \<noteq> []" "c = 43 \<or> c = 45" "close_group tot sign grp = Some tot'"
  shows "duration_loop tot sign grp True (c # concat (map part_text ps) @ rest)
    = duration_loop tot' (if c = 45 then - 1 else 1) 0 True (concat (map part_text ps) @ rest)"
proof -
  obtain p qs where ps: "ps = p # qs" using assms(2) by (cases ps) auto
  with assms(1) part_text_head obtain d cs where h: "part_text p = (48 + d) # cs" "d < 10" by (metis list.set_intros(1))
  note k = digit_kind [OF h(2)]
  have sp: "skip_spaces ((48 + d) # xs) = (48 + d) # xs" for xs using k by (simp add: skip_spaces_def)
  have sc: "skip_spaces (c # xs) = c # xs" for xs using assms(3) by (auto simp: skip_spaces_def)
  show ?thesis
    unfolding duration_loop.simps [of tot sign grp True] duration_loop.simps [of tot' _ 0 True]
    using assms(3,4) h(2) k by (auto simp: ps h sp sc Let_def)
qed

definition groups_text :: "(bool \<times> duration_part list) list \<Rightarrow> utext" where
  "groups_text gs = concat (map (\<lambda>(neg, qs). (if neg then 45 else 43) # concat (map part_text qs)) gs)"

definition groups_ok :: "(bool \<times> duration_part list) list \<Rightarrow> bool" where
  "groups_ok gs \<longleftrightarrow> (\<forall>g \<in> set gs. snd g \<noteq> [] \<and> (\<forall>p \<in> set (snd g). part_ok p))"

lemma groups_text_end: "group_end (groups_text gs)"
  by (cases gs; cases "fst (hd gs)") (auto simp: groups_text_def group_end_def)

lemma close_group_ok:
  assumes "sign = 1 \<or> sign = - 1" "0 \<le> grp" "\<bar>tot\<bar> + grp < 2 ^ 127"
  shows "close_group tot sign grp = Some (tot + sign * grp)"
proof -
  have "\<bar>sign * grp\<bar> = grp" using assms(1,2) by auto
  then have "\<bar>sign * grp\<bar> < 2 ^ 127" "\<bar>tot + sign * grp\<bar> < 2 ^ 127" using assms(3) abs_triangle_ineq [of tot "sign * grp"] by linarith+
  then show ?thesis by (simp add: close_group_def checked_i128_ok)
qed

lemma duration_loop_groups:
  assumes "groups_ok gs" "sign = 1 \<or> sign = - 1" "0 \<le> grp"
    "\<bar>tot\<bar> + grp + sum_list (map (\<lambda>g. parts_value (snd g)) gs) < 2 ^ 127"
  shows "duration_loop tot sign grp True (groups_text gs) = Inr (tot + sign * grp + groups_value gs)"
  using assms
proof (induction gs arbitrary: tot sign grp)
  case Nil
  then have "close_group tot sign grp = Some (tot + sign * grp)" by (intro close_group_ok) simp_all
  then show ?case
    by (simp add: duration_loop.simps [of tot sign grp True] groups_text_def skip_spaces_def finish_duration_def groups_value_def)
next
  case (Cons g gs)
  obtain neg qs where g: "g = (neg, qs)" by fastforce
  let ?c = "if neg then 45 else 43" and ?s = "if neg then - 1 else 1 :: int"
  from Cons.prems(1) g have qs: "qs \<noteq> []" "\<forall>p \<in> set qs. part_ok p" "groups_ok gs" by (simp_all add: groups_ok_def)
  have nn: "0 \<le> parts_value qs" "0 \<le> sum_list (map (\<lambda>g. parts_value (snd g)) gs)"
    using qs parts_value_nonneg by (auto simp: groups_ok_def intro!: sum_list_nonneg)
  have bound: "\<bar>tot\<bar> + grp + (parts_value qs + sum_list (map (\<lambda>g. parts_value (snd g)) gs)) < 2 ^ 127"
    using Cons.prems(4) g by simp
  then have "close_group tot sign grp = Some (tot + sign * grp)" using Cons.prems(2,3) nn by (intro close_group_ok) simp_all
  from duration_loop_sign [OF qs(2,1) _ this, of ?c "groups_text gs"]
  have "duration_loop tot sign grp True (groups_text (g # gs)) = duration_loop (tot + sign * grp) ?s 0 True (concat (map part_text qs) @ groups_text gs)"
    using g by (cases neg) (simp_all add: groups_text_def)
  also have "\<dots> = duration_loop (tot + sign * grp) ?s (parts_value qs) True (groups_text gs)"
    using duration_loop_parts [OF qs(2) groups_text_end, where grp = 0 and tot = "tot + sign * grp" and sign = ?s and parsed = True] bound Cons.prems(3) nn by simp
  also have "\<dots> = Inr (tot + sign * grp + ?s * parts_value qs + groups_value gs)"
  proof (rule Cons.IH [OF qs(3) _ nn(1)])
    have "\<bar>tot + sign * grp\<bar> \<le> \<bar>tot\<bar> + grp" using Cons.prems(2,3) by (auto simp: abs_if)
    with bound show "\<bar>tot + sign * grp\<bar> + parts_value qs + sum_list (map (\<lambda>g. parts_value (snd g)) gs) < 2 ^ 127" by linarith
  qed simp
  finally show ?case by (simp add: g groups_value_def add.assoc)
qed

subsection \<open>The text as a whole\<close>

lemma trim_text_same: "t \<noteq> [] \<Longrightarrow> \<not> is_whitespace (hd t) \<Longrightarrow> \<not> is_whitespace (last t) \<Longrightarrow> trim_text t = t"
  by (cases t; cases t rule: rev_cases) (auto simp: trim_text_def dropWhile_eq_self_iff hd_rev split: if_splits)

definition unit_end :: "utext \<Rightarrow> bool" where
  "unit_end t \<longleftrightarrow> t \<noteq> [] \<and> unit_char (last t)"

lemma unit_end_append: "b = [] \<or> unit_end b \<Longrightarrow> unit_end a \<or> b \<noteq> [] \<Longrightarrow> unit_end (a @ b)"
  by (auto simp: unit_end_def)

lemma unit_end_part: "part_ok p \<Longrightarrow> unit_end (part_text p)"
proof -
  assume "part_ok p"
  then obtain n fs u where p: "p = (n, fs, u)" "u \<in> set (map fst unit_names)" by (rule part_ok_cases)
  with unit_names_ok [OF p(2)] have "unit_end u" by (auto simp: unit_end_def)
  with p show ?thesis by (auto simp: part_text_def unit_end_def)
qed

lemma unit_end_parts: "\<forall>p \<in> set ps. part_ok p \<Longrightarrow> ps \<noteq> [] \<Longrightarrow> unit_end (concat (map part_text ps))"
proof (induction ps)
  case (Cons p ps)
  then show ?case by (cases "ps = []") (auto simp: unit_end_part intro!: unit_end_append)
qed simp

lemma unit_end_groups: "groups_ok gs \<Longrightarrow> groups_text gs = [] \<or> unit_end (groups_text gs)"
proof (induction gs)
  case (Cons g gs)
  obtain neg qs where g: "g = (neg, qs)" by fastforce
  from Cons.prems g have "unit_end (concat (map part_text qs))" "groups_ok gs" by (auto simp: groups_ok_def intro: unit_end_parts)
  then have "unit_end (concat (map part_text qs) @ groups_text gs)" using Cons.IH by (auto intro: unit_end_append)
  then show ?case by (auto simp: groups_text_def g unit_end_def)
qed (simp add: groups_text_def)



section \<open>Hexadecimal values, session ids, removed options\<close>

lemma as_bytes_ascii: "\<forall>c \<in> set t. c < 128 \<Longrightarrow> as_bytes t = map of_nat t"
  by (induction t) (auto simp: as_bytes_def utf8_char_def)

lemma hex_digit_nibble: "n < 16 \<Longrightarrow> hex_nibble (of_nat (of_char (hex_digit n))) = Some (of_nat n) \<and> (of_char (hex_digit n) :: nat) < 128"
proof -
  have all: "list_all (\<lambda>k. hex_nibble (of_nat (of_char (hex_digit k))) = Some (of_nat k) \<and> (of_char (hex_digit k) :: nat) < 128) [0..<16]"
    by (simp add: upt_rec [of _ 16] hex_digit_def hex_nibble_def)
  assume "n < 16"
  with all show ?thesis by (simp only: list_all_iff set_upt atLeastLessThan_iff) simp
qed

lemma hex_byte_join: "push_bit 4 (of_nat (unat b div 16)) OR of_nat (unat b mod 16) = (b :: byte)"
proof -
  have "of_nat (unat b div 16) = drop_bit 4 b" "of_nat (unat b mod 16) = take_bit 4 b"
    by (simp_all add: drop_bit_eq_div take_bit_eq_mod word_arith_nat_div word_arith_nat_mod)
  then show ?thesis by (auto intro!: bit_word_eqI simp: bit_simps)
qed

text \<open>The hexadecimal text of some bytes is read back as these bytes.\<close>

lemma hex_roundtrip: "bs \<noteq> [] \<Longrightarrow> parse_hex_value (cp (concat (map hex_byte bs))) = Inr bs"
proof -
  have nibbles: "unat b div 16 < 16" "unat b mod 16 < 16" for b :: byte using unsigned_less [of b, where ?'a = nat] by (simp_all add: less_mult_imp_div_less)
  have ascii: "\<forall>c \<in> set (cp (concat (map hex_byte bs))). c < 128" for bs
    using hex_digit_nibble nibbles by (auto simp: cp_def hex_byte_def)
  have pairs: "hex_pairs i (map of_nat (cp (concat (map hex_byte bs)))) = Inr bs" for i
  proof (induction bs arbitrary: i)
    case (Cons b bs)
    from hex_digit_nibble [OF nibbles(1) [of b]] hex_digit_nibble [OF nibbles(2) [of b]] Cons show ?case
      by (simp add: cp_def hex_byte_def hex_byte_join)
  qed (simp add: cp_def)
  have len: "length (cp (concat (map hex_byte bs))) = 2 * length bs" for bs by (induction bs) (simp_all add: cp_def hex_byte_def)
  assume "bs \<noteq> []"
  with len [of bs] have "cp (concat (map hex_byte bs)) \<noteq> []" by auto
  then show ?thesis using pairs len by (simp add: parse_hex_value_def as_bytes_ascii [OF ascii] Let_def)
qed

text \<open>An accepted session id is made of lower-case hexadecimal digits and hyphens only: it names a file in the directory it is
  joined to.\<close>

lemma utf8_char_last: "128 \<le> c \<Longrightarrow> \<exists>b \<in> set (utf8_char c). 128 \<le> b \<and> b < 192"
proof -
  assume "128 \<le> c"
  then have "of_nat (128 + c mod 64) \<in> set (utf8_char c)" by (auto simp: utf8_char_def)
  moreover have "128 \<le> (of_nat (128 + c mod 64) :: byte)" "(of_nat (128 + c mod 64) :: byte) < 192"
  proof -
    have "c mod 64 < 64" by simp
    then have "unat (of_nat (128 + c mod 64) :: byte) = 128 + c mod 64" by (simp only: unat_of_nat) (simp add: mod_less)
    then show "128 \<le> (of_nat (128 + c mod 64) :: byte)" "(of_nat (128 + c mod 64) :: byte) < 192"
      using \<open>c mod 64 < 64\<close> by (simp_all add: word_le_nat_alt word_less_nat_alt)
  qed
  ultimately show ?thesis by blast
qed

lemma session_id_safe:
  assumes "validate_session_id t = None"
  shows "length t = SESSION_ID_LEN" "\<forall>c \<in> set t. c = 45 \<or> (48 \<le> c \<and> c \<le> 57) \<or> (97 \<le> c \<and> c \<le> 102)"
proof -
  from assms have c: "canonical_session_id (as_bytes t)" by (auto simp: validate_session_id_def Let_def split: if_splits)
  then have b: "\<forall>b \<in> set (as_bytes t). b = 45 \<or> hex_lower b" unfolding canonical_session_id_def by (metis in_set_conv_nth)
  have ascii: "\<forall>c \<in> set t. c < 128"
  proof (rule ccontr)
    assume "\<not> ?thesis"
    then obtain c where "c \<in> set t" "128 \<le> c" by (auto simp: not_less)
    from utf8_char_last [OF this(2)] obtain x where "x \<in> set (utf8_char c)" "128 \<le> x" by blast
    with \<open>c \<in> set t\<close> b have "x = 45 \<or> hex_lower x" by (auto simp: as_bytes_def)
    with \<open>128 \<le> x\<close> show False by (auto simp: hex_lower_def word_le_nat_alt)
  qed
  note a = as_bytes_ascii [OF ascii]
  show "length t = SESSION_ID_LEN" using c by (simp add: canonical_session_id_def a)
  show "\<forall>c \<in> set t. c = 45 \<or> (48 \<le> c \<and> c \<le> 57) \<or> (97 \<le> c \<and> c \<le> 102)"
  proof
    fix c assume m: "c \<in> set t"
    with ascii have u: "unat (of_nat c :: byte) = c" by (auto simp: unat_of_nat)
    from m b a have "of_nat c = (45 :: byte) \<or> hex_lower (of_nat c)" by auto
    then show "c = 45 \<or> (48 \<le> c \<and> c \<le> 57) \<or> (97 \<le> c \<and> c \<le> 102)"
      using u by (auto simp: hex_lower_def word_le_nat_alt word_unat_eq_iff)
  qed
qed

text \<open>The removed options are removed once and for all, and nothing after \<open>--\<close> is touched.\<close>

lemma strip_removed_keeps_rest:
  "\<forall>x \<in> set xs. x \<noteq> cp ''--namespace'' \<and> \<not> is_removed_flag x \<Longrightarrow> strip_removed_namespace_options (xs @ cp ''--'' # ys) = (xs @ cp ''--'' # ys, False)"
proof (induction xs)
  case Nil
  show ?case by simp
next
  case (Cons x xs)
  then show ?case by (cases "x = cp ''--''") simp_all
qed

lemma strip_removed_twice: "strip_removed_namespace_options (fst (strip_removed_namespace_options xs)) = (fst (strip_removed_namespace_options xs), False)"
proof (induction xs rule: strip_removed_namespace_options.induct)
  case (2 x xs)
  obtain out s where r: "strip_removed_namespace_options xs = (out, s)" by fastforce
  consider "x = cp ''--''" | "x \<noteq> cp ''--''" "x = cp ''--namespace''" "xs = []"
    | y ys where "x \<noteq> cp ''--''" "x = cp ''--namespace''" "xs = y # ys"
    | "x \<noteq> cp ''--''" "x \<noteq> cp ''--namespace''" "is_removed_flag x"
    | "x \<noteq> cp ''--''" "x \<noteq> cp ''--namespace''" "\<not> is_removed_flag x" by (cases xs) auto
  then show ?case using 2 r by cases simp_all
qed simp

text \<open>A control key with the name of the space bar is refused, though one with a space is the byte 0.\<close>

lemma ctrl_space_refused: "handle_key (cp ''C-Space'') = Inl KeyCtrl" "handle_key (cp ''C- '') = Inr [0]"
  by (simp_all add: handle_key_def normalize_modifier_prefix_def strip_prefix_def lowercase_def to_ascii_lowercase_def cp_def
      has_multi_modifier_def ctrl_byte_def Let_def)

end
