(* ===== verification/Spec2Isabelle.thy ===== *)
theory Spec2Isabelle
  imports Lifetime Attach AuthSystem Supervision Bridge Notation
begin

text \<open>
  \<^bold>\<open>hyoui\<close> runs a program on a pseudo terminal in a daemon, lets any number of clients attach to
  it, type into it, lock it and record it, and shows it in a browser through a web gateway. This
  library models the daemon, its wire protocol, the attaching client, the authentication of
  the gateway with its attach socket, and the supervisor that keeps gateways running. Paths below are under
  \<^verbatim>\<open>src/crates/\<close>.

  \<^bold>\<open>The daemon\<close> (\<^verbatim>\<open>hyoui/src/daemon\<close>, \<^verbatim>\<open>protocol\<close>). One thread serves the pty, the listening
  socket and the clients. Bytes of a client become frames (theory \<open>Frame\<close>: \<^verbatim>\<open>frame.rs\<close>), frames
  carry raw input or control messages (\<open>Messages\<close>: \<^verbatim>\<open>messages/*.rs\<close>, \<^verbatim>\<open>caps.rs\<close>), and a handler per
  message (\<open>Control\<close>: \<^verbatim>\<open>control.rs\<close>, \<^verbatim>\<open>tail.rs\<close>) answers. Input and locks go through a reducer that
  returns effects (\<open>Effects\<close>, \<open>Lock\<close>, \<open>Reducer\<close>: \<^verbatim>\<open>reducer/*.rs\<close>, \<^verbatim>\<open>lock.rs\<close>); the executor performs them
  and feeds the outcomes back. Output goes to every client through a bounded queue (\<open>Broadcast\<close>:
  \<^verbatim>\<open>broadcast.rs\<close>), to the scrollback (\<open>Scrollback\<close>), and to recordings (\<open>Recording\<close>: \<^verbatim>\<open>record.rs\<close>); \<open>Strip\<close>
  (\<^verbatim>\<open>strip.rs\<close>) removes escape sequences. \<open>World\<close> puts the parts into one record, \<open>'scr world\<close>, with the screen emulator
  as the type parameter \<open>'scr\<close> and its operations, the codec and the kernel's fixed facts in the
  record \<open>env\<close>; it holds the drop cascade of a leaving client. \<open>Accept\<close> (\<^verbatim>\<open>accept.rs\<close>) admits clients; \<open>Child\<close> (\<^verbatim>\<open>pty.rs\<close>,
  \<^verbatim>\<open>session.rs\<close>) follows the child process. \<open>Session\<close> is one pass of \<open>serve_loop\<close>
  (\<^verbatim>\<open>session.rs\<close>), phase by phase; \<open>Serving\<close> proves what every sequence of passes keeps; \<open>Lifetime\<close>
  models upgrade attempts and the shutdown sequence around the loop.

  \<^bold>\<open>The client\<close> (\<^verbatim>\<open>hyoui/src/client\<close>). \<open>Client\<close> is the connection (\<^verbatim>\<open>attach.rs\<close>, \<^verbatim>\<open>auto_lock.rs\<close>), \<open>Keys\<close> the
  recogniser of Ctrl-Z and the guard in front of the child (\<^verbatim>\<open>key_decoder.rs\<close>), \<open>Attach\<close> one pass of the
  relay loop.

  \<^bold>\<open>The gateway\<close> (\<^verbatim>\<open>hyoui-web/src\<close>). \<open>Ordered\<close> is the ordered map its state files are made of, \<open>Endpoints\<close> the key
  of every record (\<^verbatim>\<open>contract.rs\<close>), \<open>AuthRecord\<close> the records and their locked updates (\<^verbatim>\<open>auth/record.rs\<close>,
  \<^verbatim>\<open>store.rs\<close>), \<open>AuthToken\<close> cookies and signed tokens (\<^verbatim>\<open>token.rs\<close>), \<open>AuthRoutes\<close> the routes, the guard
  and the authentication of a socket (\<^verbatim>\<open>routes.rs\<close>, \<^verbatim>\<open>webauthn.rs\<close>, \<^verbatim>\<open>ws.rs\<close>) with the
  commands that write the same files (\<^verbatim>\<open>hyoui-cli/src/web_passkey.rs\<close>), and \<open>AuthSystem\<close> all processes
  interleaved, as the step relation \<open>web_step\<close>. \<open>Bridge\<close> is the attach socket of \<^verbatim>\<open>ws_attach.rs\<close>: the
  bridge thread between a browser and the daemon, the reader task that owns the authentication, the writer task, and their
  runs in any order.

  \<^bold>\<open>The supervisor\<close> (\<^verbatim>\<open>hyoui-cli/src/web_daemon\<close>). \<open>Supervisor\<close> is the state machine of \<^verbatim>\<open>supervisor.rs\<close> with the
  registry of units (\<^verbatim>\<open>registry.rs\<close>); \<open>Supervision\<close> proves its properties.

  \<^bold>\<open>Texts\<close>. \<open>Calendar\<close> is \<^verbatim>\<open>hyoui/src/time.rs\<close>. \<open>Notation\<close> has the notations of the
  command line (\<^verbatim>\<open>hyoui/src/cli.rs\<close>, \<^verbatim>\<open>hyoui/src/input_bytes.rs\<close>): durations, counts, input specifications, keys, pastes, identifiers and
  suggestions.

  \<^bold>\<open>How code becomes definitions.\<close> A struct is a record, an enum a datatype, a method a function from the state to
  the new state and its result; \<open>Result\<close> is a sum with the error on the left. What the kernel, the clock, a
  worker thread or a peer answers is data: each system call takes the next answer of a script that is part of the state
  or an argument, so a theorem holds for every behaviour of the
  world. A loop that waits for the world has not returned when its script is used up: it then gives \<open>None\<close>, and where the code
  promises an end the theorem says that it comes. Third-party code (the vt100 emulator, CBOR and JSON codecs, WebAuthn, hashes, regular expressions)
  is a parameter; what is assumed of it is a named predicate such as
  \<open>primitives_ok\<close>, with a concrete instance in the witness.

  \<^bold>\<open>Interfaces\<close> are locales, interpreted on the model: \<open>stream_consumer\<close> (bytes in chunks: \<open>Frame\<close>),
  \<open>transition_system\<close> (events: \<open>Lock\<close>, \<open>Broadcast\<close>, \<open>Recording\<close>), \<open>ordered_map\<close> (\<open>Ordered\<close>), \<open>pass_invariant\<close>
  (the serve loop: \<open>Serving\<close>), \<open>supervised\<close> (the supervisor's main loop and the waits nested in it: \<open>Supervision\<close>).

  \<^bold>\<open>What is proved.\<close> Input is written only when the client may write and the lock allows it, byte for byte and in order
  (\<open>Reducer\<close>); the session invariant (one leader at most, which is a writing client; the lock held by a present
  client; queues and counters in step) holds after every handler, admission, departure and pass of the
  serve loop (\<open>Control\<close>, \<open>Accept\<close>, \<open>World\<close>, \<open>Serving\<close>); each handler has only the authority its checks give; the
  exit code reported is that of the child; killing escalates and shutdown ends. Frames, queues, decoders
  and strippers agree with specifications on the whole stream. The client never sends input the user did not type. A browser
  session exists only with a proof of possession, codes are guessed at most five times, a stolen refresh token is detected when
  it is reused, and revocation reaches open sockets in bounded time. The supervisor tracks exactly its
  children, and its shutdown drains. The attach socket loses and invents nothing in either direction, answers each request once, and
  closes with the reason when its authentication is lost. A duration means the sum of its components. Theorems that state a defect of the code are named after what goes wrong (for example
  \<open>expired_refresh_still_rotates\<close>).

  \<^bold>\<open>Bounds and fuel.\<close> The feedback loop has the eight rounds of the source, proved not to be reached. The
  supervisor's loops take fuel because waits handle events recursively; its invariants hold for every fuel. \<open>next_sub\<close> takes the
  number of names in use plus one as fuel, which is enough. Every other loop recurses
  on its input or its script.

  \<^bold>\<open>Not modelled.\<close> The screen emulator and its dumps (\<^verbatim>\<open>daemon/screen\<close>), driven by the vt100 package. Process creation, execve,
  terminal modes and descriptors (\<^verbatim>\<open>sys\<close>), whose effect is in the kernel. The dispatch of the subcommands and their help (\<^verbatim>\<open>cli.rs\<close>,
  \<^verbatim>\<open>hyoui-cli/src/main.rs\<close>) and the HTTP handlers of the gateway (\<^verbatim>\<open>hyoui-web/src/lib.rs\<close>): argument tables and requests that are
  passed on.
  Service files, completion scripts, configuration
  files and output texts, which only read and print. Integers that count events (identifiers, byte totals) are
  natural numbers: they would need \<open>2 ^ 64\<close> events to wrap.
\<close>

end
